(* ===== verification/Prelude.thy ===== *)
theory Prelude
  imports Main "HOL-Library.Word"
begin

unbundle bit_operations_syntax

text \<open>
  Shared vocabulary of the development: the machine integer types of the C code, C strings
  as byte lists, little-endian byte encodings of integers, the collections of simplification
  rules the component theories add to, and generic facts on words and lists.
\<close>

section \<open>Types\<close>

type_synonym u8 = "8 word"
type_synonym u16 = "16 word"
type_synonym u32 = "32 word"
type_synonym u64 = "64 word"
type_synonym bytes = "8 word list"

text \<open>The return codes of \<^verbatim>\<open>enum imgstack_ret_code\<close> in \<^verbatim>\<open>global.h\<close>.\<close>

definition RET_FAILED :: int where "RET_FAILED = -1"
definition RET_SUCCESS :: int where "RET_SUCCESS = 0"
definition RET_NO_MEM :: int where "RET_NO_MEM = 1"
definition RET_PARSE_REQ_FAILED :: int where "RET_PARSE_REQ_FAILED = 2"

lemmas ret_code_defs = RET_FAILED_def RET_SUCCESS_def RET_NO_MEM_def RET_PARSE_REQ_FAILED_def

section \<open>Collections\<close>

named_theorems word_mix \<open>cancellation of the invertible word operations the hashes use\<close>
named_theorems le_simps \<open>little-endian encodings and their lengths\<close>
named_theorems struct_simps \<open>definitions that unfold a struct operation\<close>

section \<open>Words\<close>

lemma unat_less: "unat (w :: 'a::len word) < 2 ^ LENGTH('a)"
  by (rule unsigned_less)

lemma xor_cancel_right [word_mix]: "(x XOR y) XOR y = (x :: 'a::len word)"
  by (simp add: xor.assoc)

lemma xor_cancel_left [word_mix]: "y XOR (y XOR x) = (x :: 'a::len word)"
  by (simp add: xor.assoc [symmetric])

lemma xor_right_inj [simp]: "((x :: 'a::len word) XOR z = y XOR z) \<longleftrightarrow> x = y"
  by (metis xor_cancel_right)

lemma xor_left_inj [simp]: "((z :: 'a::len word) XOR x = z XOR y) \<longleftrightarrow> x = y"
  by (metis xor_cancel_left)

lemma drop_bit_xor_word: "drop_bit n (x XOR y) = drop_bit n x XOR drop_bit n (y :: 'a::len word)"
  by (rule bit_word_eqI) (simp add: bit_simps)

lemma unat_ucast_up:
  "LENGTH('a::len) \<le> LENGTH('b::len) \<Longrightarrow> unat (ucast (w :: 'a word) :: 'b word) = unat w"
  by (simp add: unsigned_ucast_eq take_bit_nat_eq_self_iff)
     (meson le_trans less_exp not_le order_less_le_trans power_increasing unat_less
       one_le_numeral)

lemma unat_ucast_u8_u32 [simp]: "unat (ucast (x :: u8) :: u32) = unat x"
  by (rule unat_ucast_up) simp

lemma unat_ucast_u8_u64 [simp]: "unat (ucast (x :: u8) :: u64) = unat x"
  by (rule unat_ucast_up) simp

lemma unat_ucast_u16_u32 [simp]: "unat (ucast (x :: u16) :: u32) = unat x"
  by (rule unat_ucast_up) simp

lemma unat_ucast_u32_u64 [simp]: "unat (ucast (x :: u32) :: u64) = unat x"
  by (rule unat_ucast_up) simp

lemma ucast_u8_u32_inj: "(ucast (x :: u8) :: u32) = ucast y \<longleftrightarrow> x = y"
  by (metis unat_ucast_u8_u32 word_unat_eq_iff)

section \<open>Little-endian encodings\<close>

text \<open>\<open>le_bytes n v\<close> is what \<open>n\<close> bytes of memory hold after an unsigned integer of value
  \<open>v\<close> is stored there on a little-endian machine; \<open>le_nat\<close> reads it back.\<close>

fun le_bytes :: "nat \<Rightarrow> nat \<Rightarrow> bytes" where
  "le_bytes 0 v = []"
| "le_bytes (Suc n) v = word_of_nat v # le_bytes n (v div 256)"

fun le_nat :: "bytes \<Rightarrow> nat" where
  "le_nat [] = 0"
| "le_nat (b # bs) = unat b + 256 * le_nat bs"

lemma length_le_bytes [simp, le_simps]: "length (le_bytes n v) = n"
  by (induction n arbitrary: v) auto

lemma le_nat_le_bytes: "le_nat (le_bytes n v) = v mod 256 ^ n"
proof (induction n arbitrary: v)
  case (Suc n)
  have "unat (word_of_nat v :: u8) = v mod 256"
    by (simp add: unat_of_nat)
  then show ?case
    by (simp add: Suc.IH mod_mult2_eq)
qed simp

lemma le_nat_le_bytes_id [simp, le_simps]: "v < 256 ^ n \<Longrightarrow> le_nat (le_bytes n v) = v"
  by (simp add: le_nat_le_bytes)

lemma le_nat_bound: "le_nat bs < 256 ^ length bs"
proof (induction bs)
  case (Cons b bs)
  have "unat b < 256" using unat_less [of b] by simp
  then have "unat b + 256 * le_nat bs < 256 * Suc (le_nat bs)" by simp
  also have "\<dots> \<le> 256 * 256 ^ length bs"
    using Cons.IH by (intro mult_le_mono2) simp
  finally show ?case by simp
qed simp

lemma le_bytes_le_nat [simp, le_simps]: "length bs = n \<Longrightarrow> le_bytes n (le_nat bs) = bs"
proof (induction bs arbitrary: n)
  case (Cons b bs)
  have b: "unat b < 256" using unat_less [of b] by simp
  then have "unat (word_of_nat (unat b + 256 * le_nat bs) :: u8) = unat b"
    by (simp only: unat_of_nat) simp
  then have "(word_of_nat (unat b + 256 * le_nat bs) :: u8) = b"
    by (simp only: word_unat_eq_iff)
  moreover have "(unat b + 256 * le_nat bs) div 256 = le_nat bs" using b by simp
  ultimately show ?case using Cons by auto
qed simp

lemma le_nat_append: "le_nat (xs @ ys) = le_nat xs + 256 ^ length xs * le_nat ys"
  by (induction xs) (simp_all add: algebra_simps)

text \<open>\<open>le_word\<close> is the value of the bytes in a machine register of some width.\<close>

definition le_word :: "bytes \<Rightarrow> 'a::len word" where
  "le_word bs = word_of_nat (le_nat bs)"

lemma le_word_Nil [simp]: "le_word [] = 0"
  by (simp add: le_word_def)

lemma le_word_snoc:
  "(le_word (bs @ [b]) :: 'a::len word) = le_word bs + push_bit (8 * length bs) (ucast b)"
proof -
  have "(2 :: 'a word) ^ (8 * length bs) = 256 ^ length bs"
    by (simp add: power_mult)
  then show ?thesis
    by (simp add: le_word_def le_nat_append push_bit_eq_mult mult.commute)
qed

lemma le_word_high_bits: "8 * length bs \<le> i \<Longrightarrow> \<not> bit (le_word bs :: 'a::len word) i"
proof -
  assume i: "8 * length bs \<le> i"
  have "le_nat bs < 2 ^ (8 * length bs)"
    using le_nat_bound [of bs] by (simp add: power_mult)
  then have "take_bit i (le_nat bs) = le_nat bs"
    using i by (intro take_bit_nat_eq_self) (meson less_le_trans one_le_numeral power_increasing)
  then have "\<not> bit (le_nat bs) i"
    by (metis bit_take_bit_iff less_irrefl)
  then show ?thesis
    by (simp add: le_word_def bit_of_nat_iff)
qed

lemma le_word_snoc_xor:
  "(le_word (bs @ [b]) :: 'a::len word) = le_word bs XOR push_bit (8 * length bs) (ucast b)"
proof -
  have disj: "\<not> bit (le_word bs :: 'a word) n \<or> \<not> bit (push_bit (8 * length bs) (ucast b) :: 'a word) n" for n
    using le_word_high_bits [of bs n, where 'a = 'a] by (auto simp: bit_push_bit_iff)
  have "le_word bs + push_bit (8 * length bs) (ucast b) =
      (le_word bs OR push_bit (8 * length bs) (ucast b) :: 'a word)"
    using disj by (intro disjunctive_add) blast
  also have "\<dots> = le_word bs XOR push_bit (8 * length bs) (ucast b)"
    using disj by (intro bit_word_eqI) (auto simp: bit_or_iff bit_xor_iff)
  finally show ?thesis by (simp add: le_word_snoc)
qed

lemma le_word_inj:
  assumes "(le_word bs :: 'a::len word) = le_word cs"
    and "length bs = length cs" and "8 * length bs \<le> LENGTH('a)"
  shows "bs = cs"
proof -
  have "(256 :: nat) ^ length bs = 2 ^ (8 * length bs)" by (simp add: power_mult)
  also have "\<dots> \<le> 2 ^ LENGTH('a)" using assms(3) by (simp add: power_increasing)
  finally have "le_nat bs < 2 ^ LENGTH('a)" "le_nat cs < 2 ^ LENGTH('a)"
    using le_nat_bound [of bs] le_nat_bound [of cs] assms(2) by auto
  then have "le_nat bs = le_nat cs"
    using assms(1) by (simp add: le_word_def word_of_nat_eq_iff take_bit_nat_eq_self)
  then show ?thesis using assms(2) le_bytes_le_nat by metis
qed

text \<open>Memory as the code reads it through a pointer: byte \<open>i\<close> past the pointer. A load of
  \<open>n\<close> bytes at an offset.\<close>

type_synonym mem = "nat \<Rightarrow> u8"

definition mem_range :: "mem \<Rightarrow> nat \<Rightarrow> nat \<Rightarrow> bytes" where
  "mem_range m off n = map (\<lambda>i. m (off + i)) [0..<n]"

definition load :: "mem \<Rightarrow> nat \<Rightarrow> nat \<Rightarrow> 'a::len word" where
  "load m off n = le_word (mem_range m off n)"

lemma length_mem_range [simp]: "length (mem_range m off n) = n"
  by (simp add: mem_range_def)

lemma mem_range_Suc: "mem_range m off (Suc n) = mem_range m off n @ [m (off + n)]"
  by (simp add: mem_range_def)

lemma mem_range_0 [simp]: "mem_range m off 0 = []"
  by (simp add: mem_range_def)

lemma mem_range_cong:
  "(\<And>i. off \<le> i \<Longrightarrow> i < off + n \<Longrightarrow> m i = m' i) \<Longrightarrow> mem_range m off n = mem_range m' off n"
  by (simp add: mem_range_def)

lemma mem_range_eqD: "mem_range m off n = mem_range m' off n \<Longrightarrow> off \<le> i \<Longrightarrow> i < off + n \<Longrightarrow> m i = m' i"
  unfolding mem_range_def
  by (drule map_eq_conv [THEN iffD1]) (auto dest: bspec [where x = "i - off"])

lemma load_0 [simp]: "load m off 0 = 0"
  by (simp add: load_def)

lemma load_Suc: "load m off (Suc n) = load m off n + push_bit (8 * n) (ucast (m (off + n)))"
  by (simp add: load_def mem_range_Suc le_word_snoc)

lemma load_Suc_xor: "load m off (Suc n) = load m off n XOR push_bit (8 * n) (ucast (m (off + n)))"
  by (simp add: load_def mem_range_Suc le_word_snoc_xor)

lemma unat_le_word: "8 * length bs \<le> LENGTH('a) \<Longrightarrow> unat (le_word bs :: 'a::len word) = le_nat bs"
proof -
  assume fits: "8 * length bs \<le> LENGTH('a)"
  have "le_nat bs < 2 ^ (8 * length bs)"
    using le_nat_bound [of bs] by (simp add: power_mult)
  also have "(2 :: nat) ^ (8 * length bs) \<le> 2 ^ LENGTH('a)"
    using fits by (simp add: power_increasing)
  finally show ?thesis by (simp add: le_word_def unat_of_nat)
qed

lemma ucast_le_word:
  "8 * length bs \<le> LENGTH('a) \<Longrightarrow> ucast (le_word bs :: 'a::len word) = (le_word bs :: 'b::len word)"
  by (metis le_word_def of_nat_unat unat_le_word)

lemma le_nat_take: "le_nat bs mod 256 ^ n = le_nat (take n bs)"
proof (cases "n \<le> length bs")
  case True
  have "le_nat bs = le_nat (take n bs) + 256 ^ n * le_nat (drop n bs)"
    using le_nat_append [of "take n bs" "drop n bs"] True by simp
  then show ?thesis using le_nat_bound [of "take n bs"] True by simp
next
  case False
  then have "le_nat bs < 256 ^ n"
    using le_nat_bound [of bs] by (meson less_le_trans nat_le_linear one_le_numeral power_increasing)
  then show ?thesis using False by simp
qed

lemma take_bit_le_word:
  "8 * length bs \<le> LENGTH('a) \<Longrightarrow>
    take_bit (8 * n) (le_word bs :: 'a::len word) = le_word (take n bs)"
proof -
  assume fits: "8 * length bs \<le> LENGTH('a)"
  have "unat (take_bit (8 * n) (le_word bs :: 'a word)) = take_bit (8 * n) (le_nat bs)"
    by (simp only: unsigned_take_bit_eq unat_le_word [OF fits])
  also have "\<dots> = le_nat (take n bs)"
    by (simp add: take_bit_eq_mod power_mult le_nat_take)
  also have "\<dots> = unat (le_word (take n bs) :: 'a word)"
    using fits by (subst unat_le_word) auto
  finally show ?thesis by (simp only: word_unat_eq_iff)
qed

lemma take_mem_range: "n \<le> l \<Longrightarrow> take n (mem_range m off l) = mem_range m off n"
  by (simp add: mem_range_def take_map)

lemma load_mask:
  "8 * l \<le> LENGTH('a) \<Longrightarrow> n \<le> l \<Longrightarrow> (load m off l :: 'a::len word) AND mask (8 * n) = load m off n"
  by (simp add: load_def take_bit_le_word take_mem_range flip: take_bit_eq_mask)

lemma load_cong:
  "(\<And>i. off \<le> i \<Longrightarrow> i < off + n \<Longrightarrow> m i = m' i) \<Longrightarrow> load m off n = load m' off n"
  unfolding load_def by (simp add: mem_range_cong [of off n m m'])

text \<open>The memory a byte list occupies; what lies behind it is unspecified by the caller and is
  a parameter.\<close>

definition mem_of :: "bytes \<Rightarrow> mem \<Rightarrow> mem" where
  "mem_of bs rest = (\<lambda>i. if i < length bs then bs ! i else rest i)"

text \<open>C unsigned integers in memory.\<close>

definition u32_bytes :: "u32 \<Rightarrow> bytes" where "u32_bytes w = le_bytes 4 (unat w)"
definition bytes_u32 :: "bytes \<Rightarrow> u32" where "bytes_u32 bs = word_of_nat (le_nat bs)"
definition u64_bytes :: "u64 \<Rightarrow> bytes" where "u64_bytes w = le_bytes 8 (unat w)"
definition bytes_u64 :: "bytes \<Rightarrow> u64" where "bytes_u64 bs = word_of_nat (le_nat bs)"

lemma length_u32_bytes [simp, le_simps]: "length (u32_bytes w) = 4"
  by (simp add: u32_bytes_def)

lemma length_u64_bytes [simp, le_simps]: "length (u64_bytes w) = 8"
  by (simp add: u64_bytes_def)

lemma bytes_u32_u32_bytes [simp, le_simps]: "bytes_u32 (u32_bytes w) = w"
  using unat_less [of w] by (simp add: u32_bytes_def bytes_u32_def)

lemma bytes_u64_u64_bytes [simp, le_simps]: "bytes_u64 (u64_bytes w) = w"
  using unat_less [of w] by (simp add: u64_bytes_def bytes_u64_def)

section \<open>C strings\<close>

text \<open>A string literal of the source, as the bytes of its characters.\<close>

definition str :: "string \<Rightarrow> bytes" where
  "str s = map of_char s"

lemma str_Nil [simp]: "str [] = []"
  by (simp add: str_def)

lemma str_Cons [simp]: "str (c # cs) = of_char c # str cs"
  by (simp add: str_def)

lemma length_str [simp]: "length (str s) = length s"
  by (simp add: str_def)

end
