(* ===== verification/Crc32.thy ===== *)
theory Crc32
  imports Prelude
begin

unbundle bit_operations_syntax

text \<open>
  The checksum of \<^verbatim>\<open>src/src/crc32.c\<close>: the table \<open>crc32_tab\<close> and the
  table-driven loop \<open>crc32_calc\<close>. The reference is the shift register of the polynomial
  \<open>0xedb88320\<close> that the file's comment describes, one bit at a time. The lemmas show that
  every table entry is eight steps of the register, that the loop equals the register run
  over all bits of the input, and that any change confined to four consecutive bytes of a
  message changes its checksum.
\<close>

section \<open>The code\<close>

definition crc32_tab :: "u32 list" where
  "crc32_tab = [
    0x00000000, 0x77073096, 0xee0e612c, 0x990951ba, 0x076dc419, 0x706af48f,
    0xe963a535, 0x9e6495a3, 0x0edb8832, 0x79dcb8a4, 0xe0d5e91e, 0x97d2d988,
    0x09b64c2b, 0x7eb17cbd, 0xe7b82d07, 0x90bf1d91, 0x1db71064, 0x6ab020f2,
    0xf3b97148, 0x84be41de, 0x1adad47d, 0x6ddde4eb, 0xf4d4b551, 0x83d385c7,
    0x136c9856, 0x646ba8c0, 0xfd62f97a, 0x8a65c9ec, 0x14015c4f, 0x63066cd9,
    0xfa0f3d63, 0x8d080df5, 0x3b6e20c8, 0x4c69105e, 0xd56041e4, 0xa2677172,
    0x3c03e4d1, 0x4b04d447, 0xd20d85fd, 0xa50ab56b, 0x35b5a8fa, 0x42b2986c,
    0xdbbbc9d6, 0xacbcf940, 0x32d86ce3, 0x45df5c75, 0xdcd60dcf, 0xabd13d59,
    0x26d930ac, 0x51de003a, 0xc8d75180, 0xbfd06116, 0x21b4f4b5, 0x56b3c423,
    0xcfba9599, 0xb8bda50f, 0x2802b89e, 0x5f058808, 0xc60cd9b2, 0xb10be924,
    0x2f6f7c87, 0x58684c11, 0xc1611dab, 0xb6662d3d, 0x76dc4190, 0x01db7106,
    0x98d220bc, 0xefd5102a, 0x71b18589, 0x06b6b51f, 0x9fbfe4a5, 0xe8b8d433,
    0x7807c9a2, 0x0f00f934, 0x9609a88e, 0xe10e9818, 0x7f6a0dbb, 0x086d3d2d,
    0x91646c97, 0xe6635c01, 0x6b6b51f4, 0x1c6c6162, 0x856530d8, 0xf262004e,
    0x6c0695ed, 0x1b01a57b, 0x8208f4c1, 0xf50fc457, 0x65b0d9c6, 0x12b7e950,
    0x8bbeb8ea, 0xfcb9887c, 0x62dd1ddf, 0x15da2d49, 0x8cd37cf3, 0xfbd44c65,
    0x4db26158, 0x3ab551ce, 0xa3bc0074, 0xd4bb30e2, 0x4adfa541, 0x3dd895d7,
    0xa4d1c46d, 0xd3d6f4fb, 0x4369e96a, 0x346ed9fc, 0xad678846, 0xda60b8d0,
    0x44042d73, 0x33031de5, 0xaa0a4c5f, 0xdd0d7cc9, 0x5005713c, 0x270241aa,
    0xbe0b1010, 0xc90c2086, 0x5768b525, 0x206f85b3, 0xb966d409, 0xce61e49f,
    0x5edef90e, 0x29d9c998, 0xb0d09822, 0xc7d7a8b4, 0x59b33d17, 0x2eb40d81,
    0xb7bd5c3b, 0xc0ba6cad, 0xedb88320, 0x9abfb3b6, 0x03b6e20c, 0x74b1d29a,
    0xead54739, 0x9dd277af, 0x04db2615, 0x73dc1683, 0xe3630b12, 0x94643b84,
    0x0d6d6a3e, 0x7a6a5aa8, 0xe40ecf0b, 0x9309ff9d, 0x0a00ae27, 0x7d079eb1,
    0xf00f9344, 0x8708a3d2, 0x1e01f268, 0x6906c2fe, 0xf762575d, 0x806567cb,
    0x196c3671, 0x6e6b06e7, 0xfed41b76, 0x89d32be0, 0x10da7a5a, 0x67dd4acc,
    0xf9b9df6f, 0x8ebeeff9, 0x17b7be43, 0x60b08ed5, 0xd6d6a3e8, 0xa1d1937e,
    0x38d8c2c4, 0x4fdff252, 0xd1bb67f1, 0xa6bc5767, 0x3fb506dd, 0x48b2364b,
    0xd80d2bda, 0xaf0a1b4c, 0x36034af6, 0x41047a60, 0xdf60efc3, 0xa867df55,
    0x316e8eef, 0x4669be79, 0xcb61b38c, 0xbc66831a, 0x256fd2a0, 0x5268e236,
    0xcc0c7795, 0xbb0b4703, 0x220216b9, 0x5505262f, 0xc5ba3bbe, 0xb2bd0b28,
    0x2bb45a92, 0x5cb36a04, 0xc2d7ffa7, 0xb5d0cf31, 0x2cd99e8b, 0x5bdeae1d,
    0x9b64c2b0, 0xec63f226, 0x756aa39c, 0x026d930a, 0x9c0906a9, 0xeb0e363f,
    0x72076785, 0x05005713, 0x95bf4a82, 0xe2b87a14, 0x7bb12bae, 0x0cb61b38,
    0x92d28e9b, 0xe5d5be0d, 0x7cdcefb7, 0x0bdbdf21, 0x86d3d2d4, 0xf1d4e242,
    0x68ddb3f8, 0x1fda836e, 0x81be16cd, 0xf6b9265b, 0x6fb077e1, 0x18b74777,
    0x88085ae6, 0xff0f6a70, 0x66063bca, 0x11010b5c, 0x8f659eff, 0xf862ae69,
    0x616bffd3, 0x166ccf45, 0xa00ae278, 0xd70dd2ee, 0x4e048354, 0x3903b3c2,
    0xa7672661, 0xd06016f7, 0x4969474d, 0x3e6e77db, 0xaed16a4a, 0xd9d65adc,
    0x40df0b66, 0x37d83bf0, 0xa9bcae53, 0xdebb9ec5, 0x47b2cf7f, 0x30b5ffe9,
    0xbdbdf21c, 0xcabac28a, 0x53b39330, 0x24b4a3a6, 0xbad03605, 0xcdd70693,
    0x54de5729, 0x23d967bf, 0xb3667a2e, 0xc4614ab8, 0x5d681b02, 0x2a6f2b94,
    0xb40bbe37, 0xc30c8ea1, 0x5a05df1b, 0x2d02ef8d
  ]"

text \<open>One turn of the \<open>while (size--)\<close> loop.\<close>

definition crc32_step :: "u32 \<Rightarrow> u8 \<Rightarrow> u32" where
  "crc32_step crc b = (crc32_tab ! unat ((crc XOR ucast b) AND 0xFF)) XOR drop_bit 8 crc"

definition crc32_calc :: "bytes \<Rightarrow> u32" where
  "crc32_calc buf = foldl crc32_step (NOT 0) buf XOR NOT 0"

section \<open>The shift register\<close>

definition crc_bit :: "u32 \<Rightarrow> u32" where
  "crc_bit c = (if c AND 1 \<noteq> 0 then drop_bit 1 c XOR 0xedb88320 else drop_bit 1 c)"

definition crc_byte :: "u32 \<Rightarrow> u8 \<Rightarrow> u32" where
  "crc_byte c b = (crc_bit ^^ 8) (c XOR ucast b)"

definition crc32_reg :: "bytes \<Rightarrow> u32" where
  "crc32_reg buf = NOT (foldl crc_byte (NOT 0) buf)"

lemma and_one_bit: "(c :: u32) AND 1 \<noteq> 0 \<longleftrightarrow> bit c 0"
  by (simp add: and_one_eq bit_0 mod_2_eq_odd)

lemma crc_bit_alt: "crc_bit c = (if bit c 0 then drop_bit 1 c XOR 0xedb88320 else drop_bit 1 c)"
  by (simp only: crc_bit_def and_one_bit)

lemma crc_bit_xor: "crc_bit (x XOR y) = crc_bit x XOR crc_bit y"
  by (simp add: crc_bit_alt bit_xor_iff drop_bit_xor_word xor.assoc xor.left_commute xor.commute)

lemma crc_bits_xor: "(crc_bit ^^ n) (x XOR y) = (crc_bit ^^ n) x XOR (crc_bit ^^ n) y"
  by (induction n) (simp_all add: crc_bit_xor)

text \<open>A register whose low bits are clear is only shifted.\<close>

lemma crc_bits_shift: "(\<And>i. i < n \<Longrightarrow> \<not> bit c i) \<Longrightarrow> (crc_bit ^^ n) c = drop_bit n c"
proof (induction n)
  case (Suc n)
  then have "(crc_bit ^^ n) c = drop_bit n c" by simp
  moreover have "\<not> bit (drop_bit n c) 0"
    using Suc.prems [of n] by (simp add: bit_drop_bit_eq)
  ultimately show ?case by (simp add: crc_bit_alt [of "drop_bit n c"] drop_bit_drop_bit)
qed simp

text \<open>The table is the register run for eight bits from each byte value.\<close>

lemma funpow_8: "(f ^^ 8) x = f (f (f (f (f (f (f (f x)))))))"
  by (simp add: numeral_eq_Suc)

fun tab_from :: "u32 \<Rightarrow> u32 list \<Rightarrow> bool" where
  "tab_from i [] = True"
| "tab_from i (t # ts) = ((crc_bit ^^ 8) i = t \<and> tab_from (i + 1) ts)"

lemma tab_from_nth:
  "tab_from i ts \<Longrightarrow> n < length ts \<Longrightarrow> ts ! n = (crc_bit ^^ 8) (i + word_of_nat n)"
proof (induction ts arbitrary: i n)
  case (Cons t ts)
  then show ?case by (cases n) (auto simp: algebra_simps)
qed simp

lemma tab_from_append:
  "tab_from i (xs @ ys) \<longleftrightarrow> tab_from i xs \<and> tab_from (i + word_of_nat (length xs)) ys"
  by (induction xs arbitrary: i) (auto simp: algebra_simps)

lemma crc_bit_even: "crc_bit (numeral (Num.Bit0 n)) = drop_bit 1 (numeral (Num.Bit0 n))"
  by (simp add: crc_bit_alt bit_0)

lemma crc_bit_odd: "crc_bit (numeral (Num.Bit1 n)) = drop_bit 1 (numeral (Num.Bit1 n)) XOR 0xedb88320"
  by (simp add: crc_bit_alt bit_0)

lemma crc_bit_01: "crc_bit 0 = 0" "crc_bit 1 = 0xedb88320"
  by (simp_all add: crc_bit_def)

lemmas crc_eval = funpow_8 crc_bit_even crc_bit_odd crc_bit_01

lemma tab_from_part0: "tab_from 0 (take 64 crc32_tab)"
  by (simp add: crc32_tab_def crc_eval)

lemma tab_from_part1: "tab_from 64 (take 64 (drop 64 crc32_tab))"
  by (simp add: crc32_tab_def crc_eval)

lemma tab_from_part2: "tab_from 128 (take 64 (drop 128 crc32_tab))"
  by (simp add: crc32_tab_def crc_eval)

lemma tab_from_part3: "tab_from 192 (drop 192 crc32_tab)"
  by (simp add: crc32_tab_def crc_eval)

lemma length_crc32_tab [simp]: "length crc32_tab = 256"
  by (simp add: crc32_tab_def)

lemma tab_from_crc32_tab: "tab_from 0 crc32_tab"
proof -
  have split: "crc32_tab = take 64 crc32_tab @ take 64 (drop 64 crc32_tab) @
      take 64 (drop 128 crc32_tab) @ drop 192 crc32_tab"
    using append_take_drop_id [of 64 crc32_tab] append_take_drop_id [of 64 "drop 64 crc32_tab"]
      append_take_drop_id [of 64 "drop 128 crc32_tab"] by simp
  show ?thesis
    by (subst split, unfold tab_from_append)
       (simp add: tab_from_part0 tab_from_part1 tab_from_part2 tab_from_part3)
qed

lemma crc32_tab_nth: "i < 256 \<Longrightarrow> crc32_tab ! i = (crc_bit ^^ 8) (word_of_nat i)"
  using tab_from_nth [OF tab_from_crc32_tab, of i] by simp

text \<open>Eight register steps split into the low byte, which the table holds, and the rest,
  which is shifted.\<close>

lemma low_high_byte: "(c :: u32) = (c AND 0xFF) XOR push_bit 8 (drop_bit 8 c)"
proof -
  have ff: "(0xFF :: u32) = mask 8" by (simp add: mask_eq_exp_minus_1)
  show ?thesis
    unfolding ff by (rule bit_word_eqI) (auto simp: bit_simps dest: bit_imp_le_length)
qed

lemma crc_bits8_shift: "(crc_bit ^^ 8) (push_bit 8 (drop_bit 8 c)) = drop_bit 8 c"
proof -
  have "(crc_bit ^^ 8) (push_bit 8 (drop_bit 8 c)) = drop_bit 8 (push_bit 8 (drop_bit 8 c))"
    by (rule crc_bits_shift) (simp add: bit_simps)
  also have "\<dots> = drop_bit 8 c"
    by (rule bit_word_eqI) (auto simp: bit_simps dest: bit_imp_le_length)
  finally show ?thesis .
qed

lemma crc_bits8: "(crc_bit ^^ 8) c = crc32_tab ! unat (c AND 0xFF) XOR drop_bit 8 c"
proof -
  have less: "unat (c AND 0xFF) < 256"
    using word_and_le1 [of c "0xFF"] by (simp add: word_le_nat_alt)
  have "(crc_bit ^^ 8) c = (crc_bit ^^ 8) ((c AND 0xFF) XOR push_bit 8 (drop_bit 8 c))"
    by (simp flip: low_high_byte)
  also have "\<dots> = (crc_bit ^^ 8) (c AND 0xFF) XOR drop_bit 8 c"
    by (simp add: crc_bits_xor crc_bits8_shift)
  finally show ?thesis using less by (simp add: crc32_tab_nth)
qed

lemma crc32_step_eq: "crc32_step = crc_byte"
proof (intro ext)
  fix c :: u32 and b :: u8
  have "drop_bit 8 (c XOR ucast b) = drop_bit 8 c"
    by (rule bit_word_eqI) (auto simp: bit_simps dest: bit_imp_le_length)
  then show "crc32_step c b = crc_byte c b"
    by (simp add: crc32_step_def crc_byte_def crc_bits8)
qed

section \<open>Error detection\<close>

text \<open>The register step loses no information: the top coefficient of the polynomial records
  the bit that was shifted out.\<close>

lemma crc_bit_top: "bit (crc_bit c) 31 \<longleftrightarrow> bit c 0"
proof -
  have "\<not> bit (drop_bit 1 c) 31"
    by (auto simp: bit_drop_bit_eq dest: bit_imp_le_length)
  moreover have "bit (0xedb88320 :: u32) 31" by simp
  ultimately show ?thesis by (simp add: crc_bit_alt bit_xor_iff)
qed

lemma crc_bit_inj: "crc_bit x = crc_bit y \<Longrightarrow> x = y"
proof -
  assume eq: "crc_bit x = crc_bit y"
  then have b0: "bit x 0 = bit y 0" using crc_bit_top [of x] crc_bit_top [of y] by simp
  with eq have d: "drop_bit 1 x = drop_bit 1 y" by (auto simp: crc_bit_alt split: if_splits)
  show "x = y"
  proof (rule bit_word_eqI)
    fix n
    have "bit (drop_bit 1 x) (n - 1) = bit (drop_bit 1 y) (n - 1)" using d by simp
    with b0 show "bit x n = bit y n" by (cases n) (simp_all add: bit_drop_bit_eq)
  qed
qed

lemma crc_bits_inj: "(crc_bit ^^ n) x = (crc_bit ^^ n) y \<Longrightarrow> x = y"
  by (induction n) (auto dest: crc_bit_inj)

lemma crc_byte_inj: "crc_byte c b = crc_byte d b \<Longrightarrow> c = d"
  unfolding crc_byte_def by (drule crc_bits_inj) simp

lemma foldl_crc_byte_inj: "foldl crc_byte c bs = foldl crc_byte d bs \<Longrightarrow> c = d"
  by (induction bs arbitrary: c d) (auto dest: crc_byte_inj)

text \<open>Up to four bytes enter the register as one little-endian word.\<close>

lemma crc_absorb:
  assumes "m < 2 ^ 24"
  shows "(crc_bit ^^ 8) (c XOR ucast (b :: u8)) XOR word_of_nat m =
    (crc_bit ^^ 8) (c XOR word_of_nat (unat b + 256 * m))"
proof -
  let ?m = "word_of_nat m :: u32"
  have m: "?m = drop_bit 8 (push_bit 8 ?m)"
    using assms by (auto simp: word_unat_eq_iff unat_drop_bit_eq unat_of_nat push_bit_eq_mult
        unat_word_ariths drop_bit_eq_div)
  have "ucast b XOR push_bit 8 ?m = ucast b OR push_bit 8 ?m"
    by (rule bit_word_eqI) (auto simp: bit_simps dest: bit_imp_le_length)
  also have "\<dots> = ucast b + push_bit 8 ?m"
    by (rule disjunctive_add [symmetric]) (auto simp: bit_simps dest: bit_imp_le_length)
  also have "\<dots> = word_of_nat (unat b + 256 * m)"
    by (simp add: push_bit_eq_mult)
  finally have sum: "word_of_nat (unat b + 256 * m) = ucast b XOR push_bit 8 ?m" by simp
  have "(crc_bit ^^ 8) (push_bit 8 ?m) = ?m"
    by (subst crc_bits_shift) (simp_all add: bit_simps flip: m)
  then show ?thesis
    unfolding sum by (simp only: crc_bits_xor xor.assoc)
qed

lemma foldl_crc_byte_word:
  "length m \<le> 4 \<Longrightarrow>
    foldl crc_byte c m = (crc_bit ^^ (8 * length m)) (c XOR word_of_nat (le_nat m))"
proof (induction m arbitrary: c)
  case (Cons b m)
  have "le_nat m < 256 ^ length m" by (rule le_nat_bound)
  also have "(256 :: nat) ^ length m \<le> 256 ^ 3" using Cons.prems by (intro power_increasing) auto
  finally have small: "le_nat m < 2 ^ 24" by simp
  have "foldl crc_byte c (b # m) =
      (crc_bit ^^ (8 * length m)) (crc_byte c b XOR word_of_nat (le_nat m))"
    using Cons by simp
  also have "crc_byte c b XOR word_of_nat (le_nat m) =
      (crc_bit ^^ 8) (c XOR word_of_nat (le_nat (b # m)))"
    unfolding crc_byte_def by (subst crc_absorb [OF small]) simp
  finally show ?case by (simp only: funpow_add [THEN fun_cong, simplified, symmetric] mult_Suc_right
        length_Cons comp_apply add.commute)
qed simp

lemma crc32_calc_reg: "crc32_calc buf = crc32_reg buf"
proof -
  have "x XOR NOT 0 = NOT x" for x :: u32
    by (rule bit_word_eqI) (simp add: bit_simps)
  then show ?thesis by (simp only: crc32_calc_def crc32_reg_def crc32_step_eq)
qed

text \<open>
  C29. The table-driven checksum of \<open>crc32_calc\<close> is, for every buffer, the CRC-32 of the
  polynomial \<open>0xedb88320\<close> computed one bit at a time by the shift register, initial and final
  value inverted.
\<close>

theorem crc32_calc_correct: "crc32_calc buf = crc32_reg buf"
  by (rule crc32_calc_reg)

text \<open>
  C30. Error detection: replacing up to four consecutive bytes of a buffer by other bytes
  always changes the value of \<open>crc32_calc\<close>.
\<close>

theorem crc32_detects_burst:
  assumes "length m = length m'" and "length m \<le> 4" and "m \<noteq> m'"
  shows "crc32_calc (pre @ m @ post) \<noteq> crc32_calc (pre @ m' @ post)"
proof
  assume "crc32_calc (pre @ m @ post) = crc32_calc (pre @ m' @ post)"
  then have "foldl crc_byte (foldl crc_byte (NOT 0) pre) m =
      foldl crc_byte (foldl crc_byte (NOT 0) pre) m'"
    by (auto simp: crc32_calc_reg crc32_reg_def dest: foldl_crc_byte_inj)
  then have "(word_of_nat (le_nat m) :: u32) = word_of_nat (le_nat m')"
    using assms(1,2) by (auto simp: foldl_crc_byte_word dest: crc_bits_inj)
  moreover have "le_nat m < 2 ^ 32" "le_nat m' < 2 ^ 32"
    using le_nat_bound [of m] le_nat_bound [of m'] assms(1,2)
      power_increasing [of "length m" 4 "256 :: nat"] by auto
  ultimately have "le_nat m = le_nat m'"
    by (simp add: word_unat_eq_iff unat_of_nat)
  then show False using assms(1,3) le_bytes_le_nat by metis
qed

theorem crc32_detects_burst_witness:
  "crc32_calc [1, 2, 3] \<noteq> crc32_calc [1, 7, 3]"
  using crc32_detects_burst [of "[2]" "[7]" "[1]" "[3]"] by simp

end
