(* ===== verification/Mhash.thy ===== *)
theory Mhash
  imports Prelude
begin

unbundle bit_operations_syntax

text \<open>
  \<^verbatim>\<open>src/src/mhash.c\<close>: the 64-bit MurmurHash2 of a key. The key is the memory behind the
  pointer, read through \<open>load\<close> (8-byte little-endian reads, as \<open>*data++\<close> does on the x86_64
  the code requires) and the tail byte by byte. \<open>len\<close> is the C \<open>int\<close> argument for values
  that are not negative. The lemmas show that every step of the mixing is invertible, so that
  the hash reads no byte outside the key and tells apart any two keys of equal length that
  differ within one 8-byte block.
\<close>

section \<open>The code\<close>

definition mm_m :: u64 where "mm_m = 0xc6a4a7935bd1e995"
definition mm_r :: nat where "mm_r = 47"
definition mm_seed :: u32 where "mm_seed = 0xfeedbeef"

text \<open>The body of \<open>while (data != end)\<close>.\<close>

definition murmur_block :: "u64 \<Rightarrow> u64 \<Rightarrow> u64" where
  "murmur_block h k =
    (let k = k * mm_m;
         k = k XOR drop_bit mm_r k;
         k = k * mm_m;
         h = h XOR k
     in h * mm_m)"

text \<open>The loop over the whole 8-byte words: the final \<open>data\<close> (as an offset) and \<open>h\<close>.\<close>

primrec murmur_loop :: "nat \<Rightarrow> mem \<Rightarrow> nat \<Rightarrow> u64 \<Rightarrow> nat \<times> u64" where
  "murmur_loop 0 key data h = (data, h)"
| "murmur_loop (Suc n) key data h = murmur_loop n key (data + 8) (murmur_block h (load key data 8))"

text \<open>The \<open>switch (len & 7)\<close>; the cases fall through.\<close>

definition murmur_tail :: "mem \<Rightarrow> nat \<Rightarrow> nat \<Rightarrow> u64 \<Rightarrow> u64" where
  "murmur_tail key data2 n h =
    (let h = (if n \<ge> 7 then h XOR push_bit 48 (ucast (key (data2 + 6))) else h);
         h = (if n \<ge> 6 then h XOR push_bit 40 (ucast (key (data2 + 5))) else h);
         h = (if n \<ge> 5 then h XOR push_bit 32 (ucast (key (data2 + 4))) else h);
         h = (if n \<ge> 4 then h XOR push_bit 24 (ucast (key (data2 + 3))) else h);
         h = (if n \<ge> 3 then h XOR push_bit 16 (ucast (key (data2 + 2))) else h);
         h = (if n \<ge> 2 then h XOR push_bit 8 (ucast (key (data2 + 1))) else h)
     in if n \<ge> 1 then (h XOR ucast (key data2)) * mm_m else h)"

definition murmur_final :: "u64 \<Rightarrow> u64" where
  "murmur_final h =
    (let h = h XOR drop_bit mm_r h;
         h = h * mm_m
     in h XOR drop_bit mm_r h)"

definition MurmurHash64A :: "mem \<Rightarrow> nat \<Rightarrow> u64" where
  "MurmurHash64A key len =
    (let h = ucast mm_seed XOR (word_of_nat len * mm_m);
         (data, h) = murmur_loop (len div 8) key 0 h
     in murmur_final (murmur_tail key data (len mod 8) h))"

section \<open>Every step is invertible\<close>

lemma mm_m_inverse: "mm_m * 0x5f7a0ea7e59b19bd = 1"
  by (simp add: mm_m_def)

lemma mult_mm_m_inj [word_mix]: "x * mm_m = y * mm_m \<longleftrightarrow> x = y"
proof
  assume "x * mm_m = y * mm_m"
  then have "x * (mm_m * 0x5f7a0ea7e59b19bd) = y * (mm_m * 0x5f7a0ea7e59b19bd)"
    by (simp only: mult.assoc [symmetric])
  then show "x = y" by (simp add: mm_m_inverse)
qed simp

lemma xorshift_involution: "(x XOR drop_bit mm_r x) XOR drop_bit mm_r (x XOR drop_bit mm_r x) = x"
  for x :: u64
  by (rule bit_word_eqI) (auto simp: mm_r_def bit_simps dest: bit_imp_le_length)

lemma xorshift_inj [word_mix]: "x XOR drop_bit mm_r x = y XOR drop_bit mm_r y \<longleftrightarrow> x = y"
  for x y :: u64
  by (metis xorshift_involution)

lemma murmur_block_inj_h: "murmur_block h k = murmur_block h' k \<longleftrightarrow> h = h'"
  by (simp add: murmur_block_def Let_def word_mix)

lemma murmur_block_inj_k: "murmur_block h k = murmur_block h k' \<longleftrightarrow> k = k'"
  by (simp add: murmur_block_def Let_def word_mix)

lemma murmur_final_inj: "murmur_final h = murmur_final h' \<longleftrightarrow> h = h'"
  by (simp add: murmur_final_def Let_def word_mix)

text \<open>The fall-through switch mixes in the remaining bytes as one word.\<close>

lemma murmur_tail_load:
  assumes "n < 8"
  shows "murmur_tail key off n h = (if n = 0 then h else (h XOR load key off n) * mm_m)"
proof -
  have "n \<in> {0, 1, 2, 3, 4, 5, 6, 7}" using assms by auto
  then show ?thesis
    by (elim insertE emptyE)
       (simp_all add: murmur_tail_def Let_def numeral_eq_Suc load_Suc_xor xor.assoc xor.commute
         xor.left_commute)
qed

section \<open>The loop\<close>

lemma murmur_loop_fst: "fst (murmur_loop n key off h) = off + 8 * n"
  by (induction n arbitrary: off h) auto

lemma murmur_loop_add:
  "murmur_loop (i + j) key off h =
    (let (off', h') = murmur_loop i key off h in murmur_loop j key off' h')"
  by (induction i arbitrary: off h) (auto simp: Let_def)

lemma murmur_loop_cong:
  "(\<And>i. off \<le> i \<Longrightarrow> i < off + 8 * n \<Longrightarrow> key i = key' i) \<Longrightarrow>
    murmur_loop n key off h = murmur_loop n key' off h"
proof (induction n arbitrary: off h)
  case (Suc n)
  have "load key off 8 = (load key' off 8 :: u64)"
    unfolding load_def by (rule arg_cong, rule mem_range_cong) (use Suc.prems in auto)
  then show ?case using Suc by simp
qed simp

lemma murmur_loop_inj_h:
  "snd (murmur_loop n key off h) = snd (murmur_loop n key off h') \<longleftrightarrow> h = h'"
  by (induction n arbitrary: off h h') (auto simp: murmur_block_inj_h)

lemma MurmurHash64A_alt:
  "MurmurHash64A key len =
    murmur_final (murmur_tail key (8 * (len div 8)) (len mod 8)
      (snd (murmur_loop (len div 8) key 0 (ucast mm_seed XOR (word_of_nat len * mm_m)))))"
  by (simp add: MurmurHash64A_def case_prod_beta murmur_loop_fst)

lemma div8_range: "8 * (j div 8) \<le> j" "j < 8 * (j div 8) + 8" for j :: nat
  by simp_all

lemma load_neq:
  assumes "key i \<noteq> key' i" and "off \<le> i" and "i < off + n" and "n \<le> 8"
  shows "load key off n \<noteq> (load key' off n :: u64)"
proof
  assume "load key off n = (load key' off n :: u64)"
  then have "mem_range key off n = mem_range key' off n"
    unfolding load_def by (rule le_word_inj) (use assms in simp_all)
  then show False using assms mem_range_eqD by blast
qed

text \<open>A difference in one word of the loop survives to its end.\<close>

lemma murmur_loop_differs:
  assumes "i < 8 * n" and "key i \<noteq> key' i"
    and "\<And>j. j < 8 * n \<Longrightarrow> j div 8 \<noteq> i div 8 \<Longrightarrow> key j = key' j"
  shows "snd (murmur_loop n key 0 h) \<noteq> snd (murmur_loop n key' 0 h)"
proof -
  define b where "b = i div 8"
  define rest where "rest = n - b - 1"
  have n: "n = b + Suc rest" and b: "8 * b \<le> i" "i < 8 * b + 8"
    using assms(1) by (auto simp: b_def rest_def)
  have same: "key j = key' j" if "j < 8 * n" "j < 8 * b \<or> 8 * b + 8 \<le> j" for j
  proof -
    have "j div 8 \<noteq> i div 8" using that(2) div8_range [of j] by (auto simp: b_def)
    then show ?thesis using assms(3) that(1) by blast
  qed
  have pre: "murmur_loop b key' 0 h = murmur_loop b key 0 h"
    by (rule murmur_loop_cong) (use same n in auto)
  obtain hb where first: "murmur_loop b key 0 h = (8 * b, hb)"
    using murmur_loop_fst [of b key 0 h] by (metis add_0 prod.collapse)
  have post: "murmur_loop rest key' (8 * b + 8) h' = murmur_loop rest key (8 * b + 8) h'" for h'
    by (rule murmur_loop_cong) (use same n in auto)
  have "load key (8 * b) 8 \<noteq> (load key' (8 * b) 8 :: u64)"
    by (rule load_neq [of _ i]) (use assms b in auto)
  then show ?thesis
    unfolding n murmur_loop_add pre first
    by (simp add: post murmur_loop_inj_h murmur_block_inj_k)
qed

lemma murmur_tail_differs:
  assumes "i < off + n" "off \<le> i" and "key i \<noteq> key' i" and "n < 8"
  shows "murmur_tail key off n h \<noteq> murmur_tail key' off n h"
proof -
  have "load key off n \<noteq> (load key' off n :: u64)"
    by (rule load_neq [of _ i]) (use assms in auto)
  moreover have "n \<noteq> 0" using assms by auto
  ultimately show ?thesis using assms(4) by (simp add: murmur_tail_load word_mix)
qed

lemma murmur_tail_inj_h:
  "n < 8 \<Longrightarrow> murmur_tail key off n h = murmur_tail key off n h' \<longleftrightarrow> h = h'"
  by (simp add: murmur_tail_load word_mix)

lemma murmur_tail_cong:
  "n < 8 \<Longrightarrow> (\<And>i. off \<le> i \<Longrightarrow> i < off + n \<Longrightarrow> key i = key' i) \<Longrightarrow>
    murmur_tail key off n h = murmur_tail key' off n h"
  by (simp add: murmur_tail_load load_def mem_range_cong [of off n key key'])

section \<open>Properties\<close>

text \<open>
  \<open>MurmurHash64A\<close> depends only on the \<open>len\<close> bytes of the key: two memories that agree
  there hash to the same value, whatever lies behind the key.
\<close>

theorem MurmurHash64A_reads_key:
  assumes "\<And>i. i < len \<Longrightarrow> key i = key' i"
  shows "MurmurHash64A key len = MurmurHash64A key' len"
proof -
  have "murmur_loop (len div 8) key 0 h = murmur_loop (len div 8) key' 0 h" for h
    by (rule murmur_loop_cong) (use assms in auto)
  moreover have "murmur_tail key (8 * (len div 8)) (len mod 8) h =
      murmur_tail key' (8 * (len div 8)) (len mod 8) h" for h
    by (rule murmur_tail_cong) (use assms in auto)
  ultimately show ?thesis by (simp add: MurmurHash64A_alt)
qed

theorem MurmurHash64A_reads_key_witness:
  "MurmurHash64A (mem_of [1, 2, 3] (\<lambda>_. 0)) 3 = MurmurHash64A (mem_of [1, 2, 3] (\<lambda>_. 255)) 3"
  by (rule MurmurHash64A_reads_key) (simp add: mem_of_def)

text \<open>
  \<open>MurmurHash64A\<close> never maps two keys of the same length to one value when they differ
  inside a single aligned 8-byte block only (the last, partial block included): the mixing
  is invertible and loses nothing of a block.
\<close>

theorem MurmurHash64A_separates_block:
  assumes "i < len" and "key i \<noteq> key' i"
    and "\<And>j. j < len \<Longrightarrow> j div 8 \<noteq> i div 8 \<Longrightarrow> key j = key' j"
  shows "MurmurHash64A key len \<noteq> MurmurHash64A key' len"
proof (cases "i < 8 * (len div 8)")
  case True
  have "snd (murmur_loop (len div 8) key 0 h) \<noteq> snd (murmur_loop (len div 8) key' 0 h)" for h
    by (rule murmur_loop_differs [where i = i]) (use True assms in auto)
  moreover have "murmur_tail key' (8 * (len div 8)) (len mod 8) h =
      murmur_tail key (8 * (len div 8)) (len mod 8) h" for h
  proof (rule murmur_tail_cong)
    fix j assume j: "8 * (len div 8) \<le> j" "j < 8 * (len div 8) + len mod 8"
    then have "j div 8 = len div 8" and "i div 8 < len div 8" using True by auto
    then show "key' j = key j" using assms(3) [of j] j by auto
  qed simp
  ultimately show ?thesis
    by (simp add: MurmurHash64A_alt murmur_final_inj murmur_tail_inj_h)
next
  case False
  have "murmur_loop (len div 8) key' 0 h = murmur_loop (len div 8) key 0 h" for h
  proof (rule murmur_loop_cong)
    fix j assume "j < 0 + 8 * (len div 8)"
    then have "j div 8 < len div 8" "len div 8 \<le> i div 8" "j < len"
      using False div8_range(2) [of i] div8_range(1) [of j] div8_range(1) [of len] by auto
    then have "j div 8 \<noteq> i div 8" "j < len" by auto
    then show "key' j = key j" using assms(3) by metis
  qed
  moreover have "murmur_tail key (8 * (len div 8)) (len mod 8) h \<noteq>
      murmur_tail key' (8 * (len div 8)) (len mod 8) h" for h
    by (rule murmur_tail_differs [of i]) (use False assms in auto)
  ultimately show ?thesis by (simp add: MurmurHash64A_alt murmur_final_inj)
qed

theorem MurmurHash64A_separates_block_witness:
  "MurmurHash64A (mem_of [1, 2, 3] (\<lambda>_. 0)) 3 \<noteq> MurmurHash64A (mem_of [1, 9, 3] (\<lambda>_. 0)) 3"
  by (rule MurmurHash64A_separates_block [of 1]) (simp_all add: mem_of_def)

end
