(* ===== verification/Bobhash.thy ===== *)
theory Bobhash
  imports Prelude
begin

unbundle bit_operations_syntax

text \<open>
  \<^verbatim>\<open>src/src/bobhash.c\<close>: Bob Jenkins' lookup3 hashes. A key is the memory behind the
  pointer (\<open>mem\<close>, which also answers for the bytes behind the key that the aligned path reads
  and masks off) and the pointer's address, whose low bits choose one of three readers of
  \<open>hashlittle\<close> and \<open>hashlittle2\<close>; \<open>HASH_LITTLE_ENDIAN\<close> is 1, as on x86_64. Each reader is
  one definition for the loop and one for the \<open>switch\<close> on the last block; the build with
  \<open>VALGRIND\<close> has its own switch. The lemmas show that \<open>mix\<close> and \<open>final\<close> are reversible,
  that all readers compute the same function of the key's bytes, and that the word versions
  agree with the byte versions.
\<close>

section \<open>The code\<close>

type_synonym abc = "u32 \<times> u32 \<times> u32"

definition rot :: "u32 \<Rightarrow> nat \<Rightarrow> u32" where
  "rot x k = push_bit k x OR drop_bit (32 - k) x"

definition mix :: "abc \<Rightarrow> abc" where
  "mix = (\<lambda>(a, b, c).
    let a = a - c; a = a XOR rot c 4; c = c + b;
        b = b - a; b = b XOR rot a 6; a = a + c;
        c = c - b; c = c XOR rot b 8; b = b + a;
        a = a - c; a = a XOR rot c 16; c = c + b;
        b = b - a; b = b XOR rot a 19; a = a + c;
        c = c - b; c = c XOR rot b 4; b = b + a
    in (a, b, c))"

definition final :: "abc \<Rightarrow> abc" where
  "final = (\<lambda>(a, b, c).
    let c = c XOR b; c = c - rot b 14;
        a = a XOR c; a = a - rot c 11;
        b = b XOR a; b = b - rot a 25;
        c = c XOR b; c = c - rot b 16;
        a = a XOR c; a = a - rot c 4;
        b = b XOR a; b = b - rot a 14;
        c = c XOR b; c = c - rot b 24
    in (a, b, c))"

text \<open>\<open>hashword\<close>, \<open>hashword2\<close>: the key as an array of 32-bit words.\<close>

fun hashword_loop :: "u32 list \<Rightarrow> abc \<Rightarrow> u32 list \<times> abc" where
  "hashword_loop (k0 # k1 # k2 # k3 # ks) (a, b, c) =
    hashword_loop (k3 # ks) (mix (a + k0, b + k1, c + k2))"
| "hashword_loop ks s = (ks, s)"

fun hashword_last :: "u32 list \<Rightarrow> abc \<Rightarrow> abc" where
  "hashword_last [k0, k1, k2] (a, b, c) = final (a + k0, b + k1, c + k2)"
| "hashword_last [k0, k1] (a, b, c) = final (a + k0, b + k1, c)"
| "hashword_last [k0] (a, b, c) = final (a + k0, b, c)"
| "hashword_last _ s = s"

definition hashword :: "u32 list \<Rightarrow> u32 \<Rightarrow> u32" where
  "hashword k initval =
    (let a = 0xfeedbeef + push_bit 2 (word_of_nat (length k)) + initval;
         (ks, s) = hashword_loop k (a, a, a);
         (a, b, c) = hashword_last ks s
     in c)"

definition hashword2 :: "u32 list \<Rightarrow> u32 \<Rightarrow> u32 \<Rightarrow> u32 \<times> u32" where
  "hashword2 k pc pb =
    (let a = 0xfeedbeef + word_of_nat (4 * length k) + pc;
         (ks, s) = hashword_loop k (a, a, a + pb);
         (a, b, c) = hashword_last ks s
     in (c, b))"

text \<open>The aligned reader: 32-bit reads, the last block masked.\<close>

function loop32 :: "mem \<Rightarrow> nat \<Rightarrow> nat \<Rightarrow> abc \<Rightarrow> nat \<times> nat \<times> abc" where
  "loop32 m k len (a, b, c) =
    (if len > 12
     then loop32 m (k + 12) (len - 12)
       (mix (a + load m k 4, b + load m (k + 4) 4, c + load m (k + 8) 4))
     else (k, len, (a, b, c)))"
  by pat_completeness auto
termination
  by (relation "measure (\<lambda>(m, k, len, s). len)") auto

definition last32 :: "mem \<Rightarrow> nat \<Rightarrow> nat \<Rightarrow> abc \<Rightarrow> abc option" where
  "last32 m k len = (\<lambda>(a, b, c).
    let k0 = load m k 4; k1 = load m (k + 4) 4; k2 = load m (k + 8) 4 in
    if len = 12 then Some (a + k0, b + k1, c + k2)
    else if len = 11 then Some (a + k0, b + k1, c + (k2 AND 0xffffff))
    else if len = 10 then Some (a + k0, b + k1, c + (k2 AND 0xffff))
    else if len = 9 then Some (a + k0, b + k1, c + (k2 AND 0xff))
    else if len = 8 then Some (a + k0, b + k1, c)
    else if len = 7 then Some (a + k0, b + (k1 AND 0xffffff), c)
    else if len = 6 then Some (a + k0, b + (k1 AND 0xffff), c)
    else if len = 5 then Some (a + k0, b + (k1 AND 0xff), c)
    else if len = 4 then Some (a + k0, b, c)
    else if len = 3 then Some (a + (k0 AND 0xffffff), b, c)
    else if len = 2 then Some (a + (k0 AND 0xffff), b, c)
    else if len = 1 then Some (a + (k0 AND 0xff), b, c)
    else None)"

text \<open>The same switch in a build with \<open>VALGRIND\<close>: no read past the key.\<close>

definition last32_valgrind :: "mem \<Rightarrow> nat \<Rightarrow> nat \<Rightarrow> abc \<Rightarrow> abc option" where
  "last32_valgrind m k len = (\<lambda>(a, b, c).
    let k0 = load m k 4; k1 = load m (k + 4) 4; k2 = load m (k + 8) 4;
        k8 = (\<lambda>i. ucast (m (k + i)) :: u32);
        c = (if len = 11 then c + push_bit 16 (k8 10) else c);
        c = (if len \<in> {10, 11} then c + push_bit 8 (k8 9) else c);
        c = (if len \<in> {9, 10, 11} then c + k8 8 else c);
        b = (if len = 7 then b + push_bit 16 (k8 6) else b);
        b = (if len \<in> {6, 7} then b + push_bit 8 (k8 5) else b);
        b = (if len \<in> {5, 6, 7} then b + k8 4 else b);
        a = (if len = 3 then a + push_bit 16 (k8 2) else a);
        a = (if len \<in> {2, 3} then a + push_bit 8 (k8 1) else a);
        a = (if len \<in> {1, 2, 3} then a + k8 0 else a)
    in
    if len = 12 then Some (a + k0, b + k1, c + k2)
    else if len \<in> {8, 9, 10, 11} then Some (a + k0, b + k1, c)
    else if len \<in> {4, 5, 6, 7} then Some (a + k0, b, c)
    else if len \<in> {1, 2, 3} then Some (a, b, c)
    else None)"

text \<open>The half-aligned reader: 16-bit reads.\<close>

definition load16 :: "mem \<Rightarrow> nat \<Rightarrow> u32" where
  "load16 m k = ucast (load m k 2 :: u16)"

function loop16 :: "mem \<Rightarrow> nat \<Rightarrow> nat \<Rightarrow> abc \<Rightarrow> nat \<times> nat \<times> abc" where
  "loop16 m k len (a, b, c) =
    (if len > 12
     then loop16 m (k + 12) (len - 12)
       (mix (a + (load16 m k + push_bit 16 (load16 m (k + 2))),
             b + (load16 m (k + 4) + push_bit 16 (load16 m (k + 6))),
             c + (load16 m (k + 8) + push_bit 16 (load16 m (k + 10)))))
     else (k, len, (a, b, c)))"
  by pat_completeness auto
termination
  by (relation "measure (\<lambda>(m, k, len, s). len)") auto

definition last16 :: "mem \<Rightarrow> nat \<Rightarrow> nat \<Rightarrow> abc \<Rightarrow> abc option" where
  "last16 m k len = (\<lambda>(a, b, c).
    let k0 = load16 m k + push_bit 16 (load16 m (k + 2));
        k2 = load16 m (k + 4) + push_bit 16 (load16 m (k + 6));
        k4 = load16 m (k + 8) + push_bit 16 (load16 m (k + 10));
        k8 = (\<lambda>i. ucast (m (k + i)) :: u32)
    in
    if len = 12 then Some (a + k0, b + k2, c + k4)
    else if len = 11 then Some (a + k0, b + k2, c + push_bit 16 (k8 10) + load16 m (k + 8))
    else if len = 10 then Some (a + k0, b + k2, c + load16 m (k + 8))
    else if len = 9 then Some (a + k0, b + k2, c + k8 8)
    else if len = 8 then Some (a + k0, b + k2, c)
    else if len = 7 then Some (a + k0, b + push_bit 16 (k8 6) + load16 m (k + 4), c)
    else if len = 6 then Some (a + k0, b + load16 m (k + 4), c)
    else if len = 5 then Some (a + k0, b + k8 4, c)
    else if len = 4 then Some (a + k0, b, c)
    else if len = 3 then Some (a + push_bit 16 (k8 2) + load16 m k, b, c)
    else if len = 2 then Some (a + load16 m k, b, c)
    else if len = 1 then Some (a + k8 0, b, c)
    else None)"

text \<open>The unaligned reader: one byte at a time.\<close>

definition byte_at :: "mem \<Rightarrow> nat \<Rightarrow> u32" where
  "byte_at m i = ucast (m i)"

function loop8 :: "mem \<Rightarrow> nat \<Rightarrow> nat \<Rightarrow> abc \<Rightarrow> nat \<times> nat \<times> abc" where
  "loop8 m k len (a, b, c) =
    (if len > 12
     then loop8 m (k + 12) (len - 12)
       (mix (a + byte_at m k + push_bit 8 (byte_at m (k + 1)) + push_bit 16 (byte_at m (k + 2))
               + push_bit 24 (byte_at m (k + 3)),
             b + byte_at m (k + 4) + push_bit 8 (byte_at m (k + 5))
               + push_bit 16 (byte_at m (k + 6)) + push_bit 24 (byte_at m (k + 7)),
             c + byte_at m (k + 8) + push_bit 8 (byte_at m (k + 9))
               + push_bit 16 (byte_at m (k + 10)) + push_bit 24 (byte_at m (k + 11))))
     else (k, len, (a, b, c)))"
  by pat_completeness auto
termination
  by (relation "measure (\<lambda>(m, k, len, s). len)") auto

definition last8 :: "mem \<Rightarrow> nat \<Rightarrow> nat \<Rightarrow> abc \<Rightarrow> abc option" where
  "last8 m k len = (\<lambda>(a, b, c).
    if len = 0 then None else
    let c = (if len \<ge> 12 then c + push_bit 24 (byte_at m (k + 11)) else c);
        c = (if len \<ge> 11 then c + push_bit 16 (byte_at m (k + 10)) else c);
        c = (if len \<ge> 10 then c + push_bit 8 (byte_at m (k + 9)) else c);
        c = (if len \<ge> 9 then c + byte_at m (k + 8) else c);
        b = (if len \<ge> 8 then b + push_bit 24 (byte_at m (k + 7)) else b);
        b = (if len \<ge> 7 then b + push_bit 16 (byte_at m (k + 6)) else b);
        b = (if len \<ge> 6 then b + push_bit 8 (byte_at m (k + 5)) else b);
        b = (if len \<ge> 5 then b + byte_at m (k + 4) else b);
        a = (if len \<ge> 4 then a + push_bit 24 (byte_at m (k + 3)) else a);
        a = (if len \<ge> 3 then a + push_bit 16 (byte_at m (k + 2)) else a);
        a = (if len \<ge> 2 then a + push_bit 8 (byte_at m (k + 1)) else a);
        a = a + byte_at m k
    in Some (a, b, c))"

text \<open>What follows the switch: \<open>case 0\<close> returns at once, every other case goes through
  \<open>final\<close>.\<close>

definition finish :: "(nat \<Rightarrow> nat \<Rightarrow> abc \<Rightarrow> abc option) \<Rightarrow> nat \<times> nat \<times> abc \<Rightarrow> abc" where
  "finish sw = (\<lambda>(k, len, s). case sw k len s of None \<Rightarrow> s | Some s' \<Rightarrow> final s')"

definition hl_aligned :: "mem \<Rightarrow> nat \<Rightarrow> abc \<Rightarrow> abc" where
  "hl_aligned m len s = finish (last32 m) (loop32 m 0 len s)"

definition hl_aligned_valgrind :: "mem \<Rightarrow> nat \<Rightarrow> abc \<Rightarrow> abc" where
  "hl_aligned_valgrind m len s = finish (last32_valgrind m) (loop32 m 0 len s)"

definition hl_half :: "mem \<Rightarrow> nat \<Rightarrow> abc \<Rightarrow> abc" where
  "hl_half m len s = finish (last16 m) (loop16 m 0 len s)"

definition hl_bytes :: "mem \<Rightarrow> nat \<Rightarrow> abc \<Rightarrow> abc" where
  "hl_bytes m len s = finish (last8 m) (loop8 m 0 len s)"

definition hl_read :: "u64 \<Rightarrow> mem \<Rightarrow> nat \<Rightarrow> abc \<Rightarrow> abc" where
  "hl_read addr m len s =
    (if addr AND 0x3 = 0 then hl_aligned m len s
     else if addr AND 0x1 = 0 then hl_half m len s
     else hl_bytes m len s)"

definition hashlittle :: "u64 \<Rightarrow> mem \<Rightarrow> nat \<Rightarrow> u32 \<Rightarrow> u32" where
  "hashlittle addr m len initval =
    (let a = 0xfeedbeef + word_of_nat len + initval;
         (a, b, c) = hl_read addr m len (a, a, a)
     in c)"

definition hashlittle2 :: "u64 \<Rightarrow> mem \<Rightarrow> nat \<Rightarrow> u32 \<Rightarrow> u32 \<Rightarrow> u32 \<times> u32" where
  "hashlittle2 addr m len pc pb =
    (let a = 0xfeedbeef + word_of_nat len + pc;
         (a, b, c) = hl_read addr m len (a, a, a + pb)
     in (c, b))"

definition bobhash :: "u64 \<Rightarrow> mem \<Rightarrow> nat \<Rightarrow> u32" where
  "bobhash addr m len = hashlittle addr m len 607"

text \<open>\<open>bobhash64\<close> passes two locals it never initialises: what the stack holds there is a
  parameter.\<close>

definition bobhash64 :: "u32 \<Rightarrow> u32 \<Rightarrow> u64 \<Rightarrow> mem \<Rightarrow> nat \<Rightarrow> u64" where
  "bobhash64 pc pb addr m len =
    (let (pc, pb) = hashlittle2 addr m len pc pb
     in ucast pc + push_bit 32 (ucast pb))"

section \<open>mix and final are reversible\<close>

text \<open>Both are chains of one step on a triple whose roles rotate.\<close>

definition mix_step :: "nat \<Rightarrow> abc \<Rightarrow> abc" where
  "mix_step k = (\<lambda>(x, y, z). (y, z + y, (x - z) XOR rot z k))"

definition final_step :: "nat \<Rightarrow> abc \<Rightarrow> abc" where
  "final_step k = (\<lambda>(x, y, w). (w, (x XOR y) - rot y k, y))"

lemma mix_steps:
  "mix = mix_step 4 \<circ> mix_step 19 \<circ> mix_step 16 \<circ> mix_step 8 \<circ> mix_step 6 \<circ> mix_step 4"
  by (simp add: mix_def mix_step_def fun_eq_iff Let_def)

lemma final_steps:
  "final = (\<lambda>(a, c, b). (a, b, c)) \<circ> final_step 24 \<circ> final_step 14 \<circ> final_step 4 \<circ> final_step 16 \<circ>
    final_step 25 \<circ> final_step 11 \<circ> final_step 14 \<circ> (\<lambda>(a, b, c). (c, b, a))"
  by (simp add: final_def final_step_def fun_eq_iff Let_def)

lemma mix_step_inverse:
  "(\<lambda>(y, zy, x). (((x XOR rot (zy - y) k) + (zy - y)), y, zy - y)) (mix_step k s) = s"
  by (cases s) (simp add: mix_step_def word_mix)

lemma inj_mix_step: "inj (mix_step k)"
  by (rule inj_on_inverseI, rule mix_step_inverse)

lemma inj_mix: "inj mix"
  unfolding mix_steps by (intro inj_compose inj_mix_step)

lemma inj_final_step: "inj (final_step k)"
  by (rule injI) (auto simp: final_step_def split: prod.splits)

lemma inj_final: "inj final"
  unfolding final_steps by (intro inj_compose inj_final_step) (auto intro!: injI)

lemma finite_inj_bij: "inj f \<Longrightarrow> bij (f :: abc \<Rightarrow> abc)"
  by (simp add: bij_def finite_UNIV_inj_surj)

section \<open>The readers agree\<close>

declare loop32.simps [simp del] loop16.simps [simp del] loop8.simps [simp del]

lemma load_bytes:
  "load m k (Suc 0) = (ucast (m k) :: u32)"
  "load m k 2 = ucast (m k) + push_bit 8 (ucast (m (k + 1)) :: u32)"
  "load m k 3 = ucast (m k) + push_bit 8 (ucast (m (k + 1))) + push_bit 16 (ucast (m (k + 2)) :: u32)"
  "load m k 4 = ucast (m k) + push_bit 8 (ucast (m (k + 1))) + push_bit 16 (ucast (m (k + 2)))
      + push_bit 24 (ucast (m (k + 3)) :: u32)"
  using load_Suc [of m k 0, where 'a = 32] load_Suc [of m k 1, where 'a = 32]
    load_Suc [of m k 2, where 'a = 32] load_Suc [of m k 3, where 'a = 32]
  by (simp_all add: numeral_eq_Suc)

lemma load16_bytes: "load16 m k = ucast (m k) + push_bit 8 (ucast (m (k + 1)))"
proof -
  have "load16 m k = load m k 2"
    unfolding load16_def load_def by (subst ucast_le_word) simp_all
  then show ?thesis by (simp add: load_bytes)
qed

lemma load_masks:
  "(load m k 4 :: u32) AND 0xffffff = load m k 3"
  "(load m k 4 :: u32) AND 0xffff = load m k 2"
  "(load m k 4 :: u32) AND 0xff = load m k (Suc 0)"
  using load_mask [of 4 3 m k, where 'a = 32] load_mask [of 4 2 m k, where 'a = 32]
    load_mask [of 4 1 m k, where 'a = 32]
  by (simp_all add: mask_eq_exp_minus_1)

text \<open>The last block, as every reader sees it.\<close>

definition last_ref :: "mem \<Rightarrow> nat \<Rightarrow> nat \<Rightarrow> abc \<Rightarrow> abc option" where
  "last_ref m k len = (\<lambda>(a, b, c).
    if len = 0 then None
    else Some (a + load m k (min len 4), b + load m (k + 4) (min (len - 4) 4),
               c + load m (k + 8) (min (len - 8) 4)))"

lemma upto12: "(len :: nat) \<le> 12 \<Longrightarrow> len \<in> {0, 1, 2, 3, 4, 5, 6, 7, 8, 9, 10, 11, 12}"
  unfolding insert_iff empty_iff by presburger

lemmas read_simps = last_ref_def load16_bytes byte_at_def Let_def split_beta push_bit_add
  push_bit_push_bit add.assoc add.commute add.left_commute Suc3_eq_add_3

lemma last32_ref: "len \<le> 12 \<Longrightarrow> last32 m k len s = last_ref m k len s"
  by (drule upto12, elim insertE emptyE)
     (simp_all add: last32_def last_ref_def load_masks Let_def split_beta)

lemma last16_ref: "len \<le> 12 \<Longrightarrow> last16 m k len s = last_ref m k len s"
  by (drule upto12, elim insertE emptyE)
     (simp_all add: last16_def read_simps load_bytes)

lemma last8_ref: "len \<le> 12 \<Longrightarrow> last8 m k len s = last_ref m k len s"
  by (drule upto12, elim insertE emptyE)
     (simp_all add: last8_def read_simps load_bytes)

lemma last32_valgrind_ref: "len \<le> 12 \<Longrightarrow> last32_valgrind m k len s = last_ref m k len s"
  by (drule upto12, elim insertE emptyE)
     (simp_all add: last32_valgrind_def read_simps load_bytes)

lemma loop16_loop32: "loop16 m k len s = loop32 m k len s"
proof (induction m k len s rule: loop32.induct)
  case (1 m k len a b c)
  then show ?case
    by (subst loop16.simps, subst loop32.simps) (simp add: read_simps load_bytes)
qed

lemma loop8_loop32: "loop8 m k len s = loop32 m k len s"
proof (induction m k len s rule: loop32.induct)
  case (1 m k len a b c)
  then show ?case
    by (subst loop8.simps, subst loop32.simps) (simp add: read_simps load_bytes)
qed

lemma loop32_len: "loop32 m k len s = (k', len', s') \<Longrightarrow> len' \<le> 12"
proof (induction m k len s rule: loop32.induct)
  case (1 m k len a b c)
  then show ?case by (cases "12 < len") (auto simp: loop32.simps [of m k len])
qed

text \<open>The hash state of a key, whatever the alignment of its pointer.\<close>

definition hl_ref :: "mem \<Rightarrow> nat \<Rightarrow> abc \<Rightarrow> abc" where
  "hl_ref m len s = finish (last_ref m) (loop32 m 0 len s)"

lemma finish_ref:
  "(\<And>k len s. len \<le> 12 \<Longrightarrow> sw k len s = last_ref m k len s) \<Longrightarrow>
    finish sw (loop32 m 0 len s) = hl_ref m len s"
  unfolding hl_ref_def finish_def by (auto split: prod.splits dest: loop32_len)

lemma readers_ref:
  "hl_aligned m len s = hl_ref m len s"
  "hl_aligned_valgrind m len s = hl_ref m len s"
  "hl_half m len s = hl_ref m len s"
  "hl_bytes m len s = hl_ref m len s"
  by (simp_all add: hl_aligned_def hl_aligned_valgrind_def hl_half_def hl_bytes_def
      loop16_loop32 loop8_loop32 finish_ref last32_ref last32_valgrind_ref last16_ref last8_ref)

lemma hl_read_ref: "hl_read addr m len s = hl_ref m len s"
  by (simp add: hl_read_def readers_ref)

lemma loop32_span: "loop32 m k len s = (k', len', s') \<Longrightarrow> k \<le> k' \<and> k' + len' = k + len"
proof (induction m k len s rule: loop32.induct)
  case (1 m k len a b c)
  then show ?case by (cases "12 < len") (force simp: loop32.simps [of m k len])+
qed

lemma loop32_cong:
  "(\<And>i. k \<le> i \<Longrightarrow> i < k + len \<Longrightarrow> m i = m' i) \<Longrightarrow> loop32 m k len s = loop32 m' k len s"
proof (induction m k len s rule: loop32.induct)
  case (1 m k len a b c)
  show ?case
  proof (cases "12 < len")
    case True
    have "load m (k + j) 4 = (load m' (k + j) 4 :: u32)" if "j \<le> 8" for j
      by (rule load_cong) (use "1.prems" True that in auto)
    from this [of 0] this [of 4] this [of 8] True 1 show ?thesis
      by (simp add: loop32.simps [of _ k len])
  qed (simp add: loop32.simps [of _ k len])
qed

lemma last_ref_cong:
  assumes "\<And>i. k \<le> i \<Longrightarrow> i < k + len \<Longrightarrow> m i = m' i"
  shows "last_ref m k len s = last_ref m' k len s"
proof -
  have "load m (k + j) (min (len - j) 4) = (load m' (k + j) (min (len - j) 4) :: u32)" for j
    by (rule load_cong) (use assms in auto)
  from this [of 0] this [of 4] this [of 8] show ?thesis
    by (simp add: last_ref_def split_beta)
qed

lemma hl_ref_cong:
  assumes "\<And>i. i < len \<Longrightarrow> m i = m' i"
  shows "hl_ref m len s = hl_ref m' len s"
proof -
  have "loop32 m 0 len s = loop32 m' 0 len s"
    by (rule loop32_cong) (use assms in simp)
  moreover have "last_ref m k' len' t = last_ref m' k' len' t"
    if "loop32 m' 0 len s = (k', len', t)" for k' len' t
    by (rule last_ref_cong) (use assms loop32_span [OF that] in auto)
  ultimately show ?thesis
    by (auto simp: hl_ref_def finish_def split: prod.splits)
qed

section \<open>Word keys\<close>

definition words_at :: "mem \<Rightarrow> nat \<Rightarrow> u32 list \<Rightarrow> bool" where
  "words_at m k ks \<longleftrightarrow> (\<forall>i < length ks. load m (k + 4 * i) 4 = ks ! i)"

lemma words_at_Cons: "words_at m k (w # ks) \<longleftrightarrow> load m k 4 = w \<and> words_at m (k + 4) ks"
  unfolding words_at_def by (auto simp: nth_Cons algebra_simps less_Suc_eq_0_disj)

lemma hashword_loop_loop32:
  "words_at m k ks \<Longrightarrow>
    \<exists>k' ks' s'. hashword_loop ks s = (ks', s') \<and> loop32 m k (4 * length ks) s = (k', 4 * length ks', s')
      \<and> words_at m k' ks' \<and> length ks' \<le> 3"
proof (induction ks s arbitrary: k rule: hashword_loop.induct)
  case (1 k0 k1 k2 k3 ks a b c)
  have w: "words_at m (k + 12) (k3 # ks)"
    using "1.prems" by (simp add: words_at_Cons algebra_simps)
  have "loop32 m k (4 * length (k0 # k1 # k2 # k3 # ks)) (a, b, c) =
      loop32 m (k + 12) (4 * length (k3 # ks)) (mix (a + k0, b + k1, c + k2))"
    using "1.prems" by (subst loop32.simps) (simp add: words_at_Cons algebra_simps)
  then show ?case using "1.IH" [OF w] by simp
qed (auto simp: loop32.simps)

lemma hashword_last_finish:
  "words_at m k ks \<Longrightarrow> length ks \<le> 3 \<Longrightarrow>
    hashword_last ks s = finish (last_ref m) (k, 4 * length ks, s)"
  by (cases "(ks, s)" rule: hashword_last.cases)
     (auto simp: finish_def last_ref_def words_at_Cons algebra_simps split: prod.splits)

lemma hashword_ref:
  assumes "words_at m 0 ks"
  shows "(case hashword_loop ks s of (ks', s') \<Rightarrow> hashword_last ks' s') = hl_ref m (4 * length ks) s"
  using hashword_loop_loop32 [OF assms, of s]
  by (auto simp: hl_ref_def hashword_last_finish)

lemma nth_concat_words:
  "i < length ks \<Longrightarrow> j < 4 \<Longrightarrow> concat (map u32_bytes ks) ! (4 * i + j) = u32_bytes (ks ! i) ! j"
proof (induction ks arbitrary: i)
  case (Cons w ks)
  then show ?case
    by (cases i) (simp_all add: nth_append)
qed simp

lemma length_concat_words [simp]: "length (concat (map u32_bytes ks)) = 4 * length ks"
  by (induction ks) simp_all

lemma words_at_mem_of: "words_at (mem_of (concat (map u32_bytes ks)) rest) 0 ks"
  unfolding words_at_def
proof (intro allI impI)
  fix i assume i: "i < length ks"
  have "mem_range (mem_of (concat (map u32_bytes ks)) rest) (4 * i) 4 = u32_bytes (ks ! i)"
    by (rule nth_equalityI) (use i in \<open>auto simp: mem_range_def mem_of_def nth_concat_words\<close>)
  then show "load (mem_of (concat (map u32_bytes ks)) rest) (0 + 4 * i) 4 = ks ! i"
    using bytes_u32_u32_bytes [of "ks ! i"] by (simp add: load_def le_word_def bytes_u32_def)
qed

lemma unat_u64_halves: "unat (ucast (x :: u32) + push_bit 32 (ucast (y :: u32)) :: u64) = unat x + 2 ^ 32 * unat y"
proof -
  have "unat x < 2 ^ 32" "unat y < 2 ^ 32" using unat_less [of x] unat_less [of y] by simp_all
  then show ?thesis by (simp add: push_bit_eq_mult unat_word_ariths)
qed

lemma u64_halves_inj:
  "(ucast (x :: u32) + push_bit 32 (ucast (y :: u32)) :: u64) = ucast x' + push_bit 32 (ucast y') \<longleftrightarrow>
    x = x' \<and> y = y'" (is "?l = ?r \<longleftrightarrow> _")
proof
  assume "?l = ?r"
  then have eq: "unat x + 2 ^ 32 * unat y = unat x' + 2 ^ 32 * unat y'"
    by (metis unat_u64_halves)
  have less: "unat x < 2 ^ 32" "unat x' < 2 ^ 32" using unat_less [of x] unat_less [of x'] by simp_all
  from eq have "(unat x + 2 ^ 32 * unat y) mod 2 ^ 32 = (unat x' + 2 ^ 32 * unat y') mod 2 ^ 32" by simp
  then have "unat x = unat x'" using less by simp
  with eq show "x = x' \<and> y = y'" by (simp add: word_unat_eq_iff)
qed simp

section \<open>Properties\<close>

text \<open>
  The mixing steps lose nothing: \<open>mix\<close> and \<open>final\<close> are bijections of the three 32-bit
  words, as the comment above \<open>mix\<close> says of it.
\<close>

theorem mix_final_reversible: "bij mix \<and> bij final"
  by (simp add: finite_inj_bij inj_mix inj_final)

text \<open>
  C31. \<open>hashlittle\<close> and \<open>hashlittle2\<close> are functions of the key's \<open>len\<close> bytes alone: the
  address the key is stored at, which selects the 32-bit, 16-bit or bytewise reader, and the
  bytes behind the key, which the 32-bit reader loads and masks off, never change the result;
  nor does a build with \<open>VALGRIND\<close>.
\<close>

theorem hashlittle_alignment_independent:
  assumes "\<And>i. i < len \<Longrightarrow> m i = m' i"
  shows "hashlittle addr m len initval = hashlittle addr' m' len initval \<and>
    hashlittle2 addr m len pc pb = hashlittle2 addr' m' len pc pb \<and>
    hl_aligned m len s = hl_aligned_valgrind m' len s"
  using hl_ref_cong [of len m m', OF assms]
  by (simp add: hashlittle_def hashlittle2_def hl_read_ref readers_ref Let_def)

theorem hashlittle_alignment_independent_witness:
  "hashlittle 0 (mem_of [1, 2, 3, 4, 5] (\<lambda>_. 0)) 5 607 =
    hashlittle 1 (mem_of [1, 2, 3, 4, 5] (\<lambda>_. 255)) 5 607"
  by (rule hashlittle_alignment_independent [THEN conjunct1]) (simp add: mem_of_def)

text \<open>
  The word hashes agree with the byte hashes on a little-endian machine: hashing an array
  of 32-bit words with \<open>hashword\<close> or \<open>hashword2\<close> equals hashing its bytes with \<open>hashlittle\<close>
  or \<open>hashlittle2\<close>; and with a second seed of 0 the two-result versions return the
  one-result hash first, as the comments above them say.
\<close>

theorem hashword_hashlittle:
  "hashword k initval =
     hashlittle addr (mem_of (concat (map u32_bytes k)) rest) (4 * length k) initval \<and>
   hashword2 k pc pb =
     hashlittle2 addr (mem_of (concat (map u32_bytes k)) rest) (4 * length k) pc pb \<and>
   fst (hashword2 k initval 0) = hashword k initval \<and>
   fst (hashlittle2 addr m len initval 0) = hashlittle addr m len initval"
proof -
  have shift: "push_bit 2 (word_of_nat (length k)) = (word_of_nat (4 * length k) :: u32)"
    by (simp add: push_bit_eq_mult)
  note ref = hashword_ref [OF words_at_mem_of, of k _ rest, symmetric]
  show ?thesis
    unfolding hashword_def hashword2_def hashlittle_def hashlittle2_def hl_read_ref ref shift
    by (simp add: Let_def split_beta)
qed

text \<open>
  \<open>bobhash64\<close> hashes with whatever its uninitialised locals \<open>pc\<close> and \<open>pb\<close> hold: on the
  empty key every two different contents of those stack slots give two different hashes of the
  same key.
\<close>

theorem bobhash64_uninitialised:
  "bobhash64 pc pb addr m 0 = bobhash64 pc' pb' addr m 0 \<longleftrightarrow> pc = pc' \<and> pb = pb'"
proof -
  have hl: "hl_ref m 0 s = s" for s
    by (cases s) (simp add: hl_ref_def finish_def loop32.simps last_ref_def)
  show ?thesis
    unfolding bobhash64_def hashlittle2_def hl_read_ref hl Let_def
    by (auto simp: u64_halves_inj)
qed

end
