(* ===== verification/Rwlock.thy ===== *)
theory Rwlock
  imports Prelude
begin

text \<open>
  \<^verbatim>\<open>src/src/rwlock.c\<close>: the read-write lock with priority for readers that guards the index
  and the slots of every data file. The three counters are the fields of \<open>rwlock_t\<close>; the
  mutex and the condition variable appear in the way the functions are cut: one definition per
  stretch of code that runs between taking the mutex and giving it up (by unlocking or by
  \<open>pthread_cond_wait\<close>), so that a stretch is atomic. Threads interleave by the step relation
  \<open>lock_step\<close>, in which a waiter may also wake without a broadcast. The lemmas show that the
  counters count the threads they claim to count, mutual exclusion, that no wake-up is lost,
  and that the threads inside the lock functions drain in a bounded number of steps.
\<close>

section \<open>The code\<close>

record rwlock_t =
  tobe_write_queue_len :: u64
  write_queue_len :: u64
  read_queue_len :: u64

text \<open>\<open>rwlock_build\<close> on a pointer that may be \<open>NULL\<close>; \<open>rwlock_init\<close> and \<open>rwlock_new\<close> build
  the same lock in fresh memory, the allocator's answer being the argument.\<close>

definition rwlock_fresh :: rwlock_t where
  "rwlock_fresh = \<lparr>tobe_write_queue_len = 0, write_queue_len = 0, read_queue_len = 0\<rparr>"

definition rwlock_build :: "rwlock_t option \<Rightarrow> int \<times> rwlock_t option" where
  "rwlock_build rwlock = (case rwlock of None \<Rightarrow> (-1, None) | Some _ \<Rightarrow> (0, Some rwlock_fresh))"

definition rwlock_init :: "(nat \<Rightarrow> rwlock_t option) \<Rightarrow> nat \<Rightarrow> rwlock_t option" where
  "rwlock_init my_alloc sizeof_rwlock_t =
    (case my_alloc sizeof_rwlock_t of None \<Rightarrow> None | Some _ \<Rightarrow> Some rwlock_fresh)"

definition rwlock_new :: "(nat \<Rightarrow> rwlock_t option) \<Rightarrow> nat \<Rightarrow> rwlock_t option" where
  "rwlock_new malloc sizeof_rwlock_t =
    (case malloc sizeof_rwlock_t of None \<Rightarrow> None | Some _ \<Rightarrow> Some rwlock_fresh)"

text \<open>\<open>rwlock_destory\<close> and \<open>rwlock_free\<close>: \<open>None\<close> where the assertion fails, else the return code and the pointer, whose
  memory went back to \<open>my_free\<close> or \<open>free\<close>.\<close>

definition rwlock_destory :: "rwlock_t option \<Rightarrow> (int \<times> rwlock_t option) option" where
  "rwlock_destory rwlock = (case rwlock of None \<Rightarrow> None | Some _ \<Rightarrow> Some (0, None))"

definition rwlock_free :: "rwlock_t option \<Rightarrow> (int \<times> rwlock_t option) option" where
  "rwlock_free rwlock = (case rwlock of None \<Rightarrow> None | Some _ \<Rightarrow> Some (0, None))"

text \<open>Where a thread is: outside the lock, asleep in \<open>pthread_cond_wait\<close> of one of the two
  lock functions, woken there and about to test the loop condition again, or holding the lock.\<close>

datatype pc = Idle | RdWait | RdWoken | Reading | WrWait | WrWoken | Writing

text \<open>The \<open>while\<close> of \<open>rwlock_rdlock\<close>, from the test on: the thread goes to sleep or leaves
  with the lock.\<close>

definition rdlock_loop :: "rwlock_t \<Rightarrow> rwlock_t \<times> pc" where
  "rdlock_loop rwlock = (if write_queue_len rwlock > 0 then (rwlock, RdWait) else (rwlock, Reading))"

definition rwlock_rdlock :: "rwlock_t \<Rightarrow> rwlock_t \<times> pc" where
  "rwlock_rdlock rwlock = rdlock_loop (rwlock\<lparr>read_queue_len := read_queue_len rwlock + 1\<rparr>)"

text \<open>The unlocking functions: the new counters and whether the condition is broadcast.\<close>

definition rwlock_unrdlock :: "rwlock_t \<Rightarrow> rwlock_t \<times> bool" where
  "rwlock_unrdlock rwlock =
    (let rwlock = rwlock\<lparr>read_queue_len := read_queue_len rwlock - 1\<rparr>
     in (rwlock, read_queue_len rwlock = 0 \<and> tobe_write_queue_len rwlock > 0))"

definition wrlock_loop :: "rwlock_t \<Rightarrow> rwlock_t \<times> pc" where
  "wrlock_loop rwlock =
    (if read_queue_len rwlock > 0 \<or> write_queue_len rwlock > 0 then (rwlock, WrWait)
     else (rwlock\<lparr>tobe_write_queue_len := tobe_write_queue_len rwlock - 1,
                  write_queue_len := write_queue_len rwlock + 1\<rparr>, Writing))"

definition rwlock_wrlock :: "rwlock_t \<Rightarrow> rwlock_t \<times> pc" where
  "rwlock_wrlock rwlock =
    wrlock_loop (rwlock\<lparr>tobe_write_queue_len := tobe_write_queue_len rwlock + 1\<rparr>)"

definition rwlock_unwrlock :: "rwlock_t \<Rightarrow> rwlock_t \<times> bool" where
  "rwlock_unwrlock rwlock =
    (let rwlock = rwlock\<lparr>write_queue_len := write_queue_len rwlock - 1\<rparr>
     in (rwlock, read_queue_len rwlock > 0 \<or> tobe_write_queue_len rwlock > 0))"

text \<open>\<open>pthread_cond_broadcast\<close> wakes every thread that sleeps on the condition.\<close>

definition wake :: "pc \<Rightarrow> pc" where
  "wake p = (case p of RdWait \<Rightarrow> RdWoken | WrWait \<Rightarrow> WrWoken | _ \<Rightarrow> p)"

definition broadcast :: "bool \<Rightarrow> pc list \<Rightarrow> pc list" where
  "broadcast b ps = (if b then map wake ps else ps)"

section \<open>The threads\<close>

record lock_sys =
  lk :: rwlock_t
  pcs :: "pc list"

definition lock_start :: "nat \<Rightarrow> lock_sys" where
  "lock_start n = \<lparr>lk = rwlock_fresh, pcs = replicate n Idle\<rparr>"

text \<open>What a thread inside the lock functions, or holding the lock, does next.\<close>

definition advance :: "nat \<Rightarrow> lock_sys \<Rightarrow> lock_sys" where
  "advance i s =
    (case pcs s ! i of
      RdWoken \<Rightarrow> (let (l, p) = rdlock_loop (lk s) in \<lparr>lk = l, pcs = (pcs s)[i := p]\<rparr>)
    | WrWoken \<Rightarrow> (let (l, p) = wrlock_loop (lk s) in \<lparr>lk = l, pcs = (pcs s)[i := p]\<rparr>)
    | Reading \<Rightarrow> (let (l, b) = rwlock_unrdlock (lk s)
                 in \<lparr>lk = l, pcs = broadcast b ((pcs s)[i := Idle])\<rparr>)
    | Writing \<Rightarrow> (let (l, b) = rwlock_unwrlock (lk s)
                 in \<lparr>lk = l, pcs = broadcast b ((pcs s)[i := Idle])\<rparr>)
    | _ \<Rightarrow> s)"

definition can_advance :: "pc \<Rightarrow> bool" where
  "can_advance p \<longleftrightarrow> p \<in> {RdWoken, WrWoken, Reading, Writing}"

definition enter_read :: "nat \<Rightarrow> lock_sys \<Rightarrow> lock_sys" where
  "enter_read i s = (let (l, p) = rwlock_rdlock (lk s) in \<lparr>lk = l, pcs = (pcs s)[i := p]\<rparr>)"

definition enter_write :: "nat \<Rightarrow> lock_sys \<Rightarrow> lock_sys" where
  "enter_write i s = (let (l, p) = rwlock_wrlock (lk s) in \<lparr>lk = l, pcs = (pcs s)[i := p]\<rparr>)"

inductive lock_step :: "lock_sys \<Rightarrow> lock_sys \<Rightarrow> bool" where
  call_rdlock: "i < length (pcs s) \<Longrightarrow> pcs s ! i = Idle \<Longrightarrow> lock_step s (enter_read i s)"
| call_wrlock: "i < length (pcs s) \<Longrightarrow> pcs s ! i = Idle \<Longrightarrow> lock_step s (enter_write i s)"
| run: "i < length (pcs s) \<Longrightarrow> can_advance (pcs s ! i) \<Longrightarrow> lock_step s (advance i s)"
| spurious: "i < length (pcs s) \<Longrightarrow> pcs s ! i \<in> {RdWait, WrWait} \<Longrightarrow>
    lock_step s (s\<lparr>pcs := (pcs s)[i := wake (pcs s ! i)]\<rparr>)"

text \<open>The steps left when no thread calls a lock function any more and none wakes by itself.\<close>

inductive drain_step :: "lock_sys \<Rightarrow> lock_sys \<Rightarrow> bool" where
  drain: "i < length (pcs s) \<Longrightarrow> can_advance (pcs s ! i) \<Longrightarrow> drain_step s (advance i s)"

inductive_cases lock_stepE: "lock_step s s'"
inductive_cases drain_stepE: "drain_step s s'"

section \<open>Invariant\<close>

text \<open>How many threads are at one of the given places.\<close>

definition at_pc :: "pc set \<Rightarrow> pc list \<Rightarrow> nat" where
  "at_pc A ps = length (filter (\<lambda>p. p \<in> A) ps)"

abbreviation "readers \<equiv> {RdWait, RdWoken, Reading}"
abbreviation "waiting_writers \<equiv> {WrWait, WrWoken}"

definition lock_inv :: "lock_sys \<Rightarrow> bool" where
  "lock_inv s \<longleftrightarrow>
    length (pcs s) < 2 ^ 64 \<and>
    unat (read_queue_len (lk s)) = at_pc readers (pcs s) \<and>
    unat (tobe_write_queue_len (lk s)) = at_pc waiting_writers (pcs s) \<and>
    unat (write_queue_len (lk s)) = at_pc {Writing} (pcs s) \<and>
    at_pc {Writing} (pcs s) \<le> 1 \<and>
    (at_pc {Writing} (pcs s) = 0 \<or> at_pc {Reading} (pcs s) = 0) \<and>
    (at_pc {RdWait} (pcs s) = 0 \<or> at_pc {Writing} (pcs s) > 0) \<and>
    (at_pc {WrWait} (pcs s) = 0 \<or> at_pc readers (pcs s) + at_pc {Writing} (pcs s) > 0)"

lemma at_pc_le: "at_pc A ps \<le> length ps"
  by (simp add: at_pc_def)

lemma at_pc_pos: "at_pc A ps > 0 \<longleftrightarrow> (\<exists>p\<in>A. p \<in> set ps)"
  by (auto simp: at_pc_def filter_empty_conv)

lemma at_pc_0: "at_pc A ps = 0 \<longleftrightarrow> (\<forall>p\<in>A. p \<notin> set ps)"
  by (auto simp: at_pc_def filter_empty_conv)

lemma at_pc_update:
  "i < length ps \<Longrightarrow>
    at_pc A (ps[i := v]) + of_bool (ps ! i \<in> A) = at_pc A ps + of_bool (v \<in> A)"
proof (induction ps arbitrary: i)
  case (Cons p ps)
  then show ?case by (cases i) (auto simp: at_pc_def)
qed simp

lemma at_pc_split: "A \<inter> B = {} \<Longrightarrow> at_pc (A \<union> B) ps = at_pc A ps + at_pc B ps"
  by (induction ps) (auto simp: at_pc_def)

lemma at_pc_readers: "at_pc readers ps = at_pc {RdWait} ps + at_pc {RdWoken} ps + at_pc {Reading} ps"
  using at_pc_split [of "{RdWait}" "{RdWoken, Reading}" ps] at_pc_split [of "{RdWoken}" "{Reading}" ps]
  by (simp add: insert_commute)

lemma at_pc_waiting_writers: "at_pc waiting_writers ps = at_pc {WrWait} ps + at_pc {WrWoken} ps"
  using at_pc_split [of "{WrWait}" "{WrWoken}" ps] by (simp add: insert_commute)

lemma wake_class [simp]:
  "wake p \<in> readers \<longleftrightarrow> p \<in> readers"
  "wake p \<in> waiting_writers \<longleftrightarrow> p \<in> waiting_writers"
  "wake p = Writing \<longleftrightarrow> p = Writing" "wake p = Reading \<longleftrightarrow> p = Reading"
  "wake p = Idle \<longleftrightarrow> p = Idle" "wake p \<noteq> RdWait" "wake p \<noteq> WrWait"
  by (cases p; simp add: wake_def)+

lemma at_pc_broadcast [simp]:
  "at_pc readers (broadcast b ps) = at_pc readers ps"
  "at_pc waiting_writers (broadcast b ps) = at_pc waiting_writers ps"
  "at_pc {Writing} (broadcast b ps) = at_pc {Writing} ps"
  "at_pc {Reading} (broadcast b ps) = at_pc {Reading} ps"
  "at_pc {RdWait} (broadcast b ps) = (if b then 0 else at_pc {RdWait} ps)"
  "at_pc {WrWait} (broadcast b ps) = (if b then 0 else at_pc {WrWait} ps)"
  using wake_class
  by (simp_all add: at_pc_def broadcast_def filter_map o_def singleton_iff del: insert_iff)

lemma length_broadcast [simp]: "length (broadcast b ps) = length ps"
  by (simp add: broadcast_def)

lemmas lock_code = rdlock_loop_def rwlock_rdlock_def rwlock_unrdlock_def wrlock_loop_def
  rwlock_wrlock_def rwlock_unwrlock_def Let_def

text \<open>The effect of moving thread \<open>i\<close> on every count the invariant speaks of.\<close>

lemmas at_pc_moves =
  at_pc_update [of _ _ readers] at_pc_update [of _ _ waiting_writers]
  at_pc_update [of _ _ "{Writing}"] at_pc_update [of _ _ "{Reading}"]
  at_pc_update [of _ _ "{RdWait}"] at_pc_update [of _ _ "{WrWait}"]

lemma unat_inc: "unat (w :: u64) < n \<Longrightarrow> n < 2 ^ 64 \<Longrightarrow> unat (w + 1) = unat w + 1"
  by (subst unat_add_lem [THEN iffD1]) simp_all

lemma unat_dec: "unat (w :: u64) > 0 \<Longrightarrow> unat (w - 1) = unat w - 1"
  by (intro unat_minus_one) auto

lemma word_gt_0_unat: "(w :: u64) > 0 \<longleftrightarrow> unat w > 0"
  by (simp add: unat_gt_0 word_neq_0_conv)

lemma at_pc_next:
  "i < length ps \<Longrightarrow> ps ! i \<notin> A \<Longrightarrow> v \<in> A \<Longrightarrow> at_pc A ps < length ps"
  using at_pc_update [of i ps A v] at_pc_le [of A "ps[i := v]"] by simp

lemma lock_start_inv: "n < 2 ^ 64 \<Longrightarrow> lock_inv (lock_start n)"
  by (simp add: lock_inv_def lock_start_def rwlock_fresh_def at_pc_def)

lemma enter_read_inv:
  assumes inv: "lock_inv s" and i: "i < length (pcs s)" "pcs s ! i = Idle"
  shows "lock_inv (enter_read i s)"
proof -
  have "at_pc readers (pcs s) < length (pcs s)"
    using i by (intro at_pc_next [where v = Reading]) auto
  then have "unat (read_queue_len (lk s) + 1) = at_pc readers (pcs s) + 1"
    using inv by (simp add: lock_inv_def unat_inc [where n = "length (pcs s)"])
  then show ?thesis
    using inv i at_pc_moves [OF i(1), of Reading] at_pc_moves [OF i(1), of RdWait]
      at_pc_readers [of "pcs s"] at_pc_readers [of "(pcs s)[i := Reading]"]
    by (auto simp: lock_inv_def enter_read_def lock_code word_gt_0_unat)
qed

text \<open>\<open>wrlock_loop\<close> run by a thread that has been counted as a waiting writer.\<close>

lemma wrlock_loop_inv:
  assumes inv: "lock_inv \<lparr>lk = l, pcs = ps[i := WrWoken]\<rparr>" and i: "i < length ps"
    and loop: "wrlock_loop l = (l', p)"
  shows "lock_inv \<lparr>lk = l', pcs = ps[i := p]\<rparr>"
proof -
  let ?ps = "ps[i := WrWoken]"
  have i': "i < length ?ps" "?ps ! i = WrWoken" using i by simp_all
  have "at_pc {Writing} ?ps < length ?ps"
    using i' by (intro at_pc_next [where v = Writing]) auto
  then have w: "unat (write_queue_len l + 1) = unat (write_queue_len l) + 1"
    using inv by (intro unat_inc [where n = "length ?ps"]) (simp_all add: lock_inv_def)
  have "WrWoken \<in> set ?ps" using i' by (metis nth_mem)
  then have "at_pc waiting_writers ?ps > 0" by (auto simp: at_pc_pos)
  then have t: "unat (tobe_write_queue_len l - 1) = unat (tobe_write_queue_len l) - 1"
    using inv by (intro unat_dec) (simp add: lock_inv_def)
  from inv w t loop show ?thesis
    using at_pc_moves [OF i'(1), of p] at_pc_readers [of ?ps] at_pc_readers [of "ps[i := p]"] i'
    by (auto simp: lock_inv_def wrlock_loop_def word_gt_0_unat split: if_splits)
qed

lemma enter_write_inv:
  assumes inv: "lock_inv s" and i: "i < length (pcs s)" "pcs s ! i = Idle"
  shows "lock_inv (enter_write i s)"
proof -
  let ?l = "(lk s)\<lparr>tobe_write_queue_len := tobe_write_queue_len (lk s) + 1\<rparr>"
  have "at_pc waiting_writers (pcs s) < length (pcs s)"
    using i by (intro at_pc_next [where v = WrWait]) auto
  then have "unat (tobe_write_queue_len (lk s) + 1) = at_pc waiting_writers (pcs s) + 1"
    using inv by (simp add: lock_inv_def unat_inc [where n = "length (pcs s)"])
  then have "lock_inv \<lparr>lk = ?l, pcs = (pcs s)[i := WrWoken]\<rparr>"
    using inv i at_pc_moves [OF i(1), of WrWoken] by (auto simp: lock_inv_def)
  then show ?thesis
    using wrlock_loop_inv [OF _ i(1)]
    by (auto simp: enter_write_def rwlock_wrlock_def split: prod.split)
qed

lemma advance_inv:
  assumes inv: "lock_inv s" and i: "i < length (pcs s)"
  shows "lock_inv (advance i s)"
proof -
  let ?ps = "pcs s"
  have mem: "?ps ! i \<in> A \<Longrightarrow> at_pc A ?ps > 0" for A
    using i nth_mem by (force simp: at_pc_pos)
  show ?thesis
  proof (cases "?ps ! i")
    case RdWoken
    then show ?thesis
      using inv at_pc_moves [OF i, of Reading] at_pc_moves [OF i, of RdWait]
        at_pc_readers [of ?ps]
      by (auto simp: lock_inv_def advance_def lock_code word_gt_0_unat)
  next
    case WrWoken
    then have "?ps[i := WrWoken] = ?ps" by (metis list_update_id)
    then have "lock_inv \<lparr>lk = lk s, pcs = ?ps[i := WrWoken]\<rparr>"
      using inv by (simp add: lock_inv_def)
    then show ?thesis
      using wrlock_loop_inv [OF _ i] WrWoken by (auto simp: advance_def split: prod.split)
  next
    case Reading
    then have "unat (read_queue_len (lk s) - 1) = at_pc readers ?ps - 1"
      using inv mem [of readers] by (subst unat_dec) (auto simp: lock_inv_def)
    then show ?thesis
      using inv at_pc_moves [OF i, of Idle] Reading at_pc_readers [of ?ps] mem [of "{Reading}"]
        at_pc_waiting_writers [of ?ps]
      by (auto simp: lock_inv_def advance_def lock_code word_gt_0_unat unat_eq_0)
  next
    case Writing
    then have "unat (write_queue_len (lk s) - 1) = at_pc {Writing} ?ps - 1"
      using inv mem [of "{Writing}"] by (subst unat_dec) (auto simp: lock_inv_def)
    then show ?thesis
      using inv at_pc_moves [OF i, of Idle] Writing at_pc_readers [of ?ps] mem [of "{Writing}"]
        at_pc_waiting_writers [of ?ps]
      by (auto simp: lock_inv_def advance_def lock_code word_gt_0_unat)
  qed (use inv in \<open>simp_all add: advance_def\<close>)
qed

lemma spurious_inv:
  assumes inv: "lock_inv s" and i: "i < length (pcs s)" "pcs s ! i \<in> {RdWait, WrWait}"
  shows "lock_inv (s\<lparr>pcs := (pcs s)[i := wake (pcs s ! i)]\<rparr>)"
  using inv i at_pc_moves [OF i(1), of "wake (pcs s ! i)"]
  by (auto simp: lock_inv_def wake_def)

lemma lock_step_inv: "lock_step s s' \<Longrightarrow> lock_inv s \<Longrightarrow> lock_inv s'"
  by (induction rule: lock_step.induct)
    (simp_all only: enter_read_inv enter_write_inv advance_inv spurious_inv)

lemma lock_reachable_inv: "lock_step\<^sup>*\<^sup>* s s' \<Longrightarrow> lock_inv s \<Longrightarrow> lock_inv s'"
  by (induction rule: rtranclp_induct) (auto intro: lock_step_inv)

lemma drain_step_lock_step: "drain_step s s' \<Longrightarrow> lock_step s s'"
  by (auto elim: drain_stepE intro: run)

section \<open>Progress\<close>

text \<open>What a thread still has to do: acquire and release, or release.\<close>

definition rank :: "pc \<Rightarrow> nat" where
  "rank p = (case p of Idle \<Rightarrow> 0 | Reading \<Rightarrow> 1 | Writing \<Rightarrow> 1 | _ \<Rightarrow> 2)"

definition work :: "pc list \<Rightarrow> nat" where
  "work ps = sum_list (map rank ps) * Suc (length ps) + at_pc {RdWoken, WrWoken} ps"

lemma sum_rank_update:
  "i < length ps \<Longrightarrow> sum_list (map rank (ps[i := v])) + rank (ps ! i) = sum_list (map rank ps) + rank v"
proof (induction ps arbitrary: i)
  case (Cons p ps)
  then show ?case by (cases i) auto
qed simp

lemma sum_rank_broadcast [simp]: "map rank (broadcast b ps) = map rank ps"
  by (auto simp: broadcast_def rank_def wake_def split: pc.split)

lemma sum_rank_bound: "sum_list (map rank ps) \<le> 2 * length ps"
  by (induction ps) (auto simp: rank_def split: pc.split)

lemma work_bound: "work ps \<le> 2 * length ps * Suc (length ps) + length ps"
  unfolding work_def by (intro add_mono mult_right_mono sum_rank_bound at_pc_le) simp

lemma work_less:
  assumes "length qs = length ps" and "sum_list (map rank qs) < sum_list (map rank ps)"
  shows "work qs < work ps"
proof -
  have "work qs < Suc (sum_list (map rank qs)) * Suc (length ps)"
    using at_pc_le [of "{RdWoken, WrWoken}" qs] assms(1) by (simp add: work_def)
  also have "\<dots> \<le> sum_list (map rank ps) * Suc (length ps)"
    using assms(2) by (intro mult_right_mono) simp_all
  finally show ?thesis by (simp add: work_def)
qed

lemma length_advance [simp]: "length (pcs (advance i s)) = length (pcs s)"
  by (simp add: advance_def split: pc.split prod.split)

lemma advance_decreases:
  assumes i: "i < length (pcs s)" and adv: "can_advance (pcs s ! i)"
  shows "work (pcs (advance i s)) < work (pcs s)"
proof (cases "sum_list (map rank (pcs (advance i s))) < sum_list (map rank (pcs s))")
  case True
  then show ?thesis by (intro work_less) simp_all
next
  case False
  then have "(pcs s ! i = RdWoken \<and> pcs (advance i s) = (pcs s)[i := RdWait]) \<or>
      (pcs s ! i = WrWoken \<and> pcs (advance i s) = (pcs s)[i := WrWait])"
    using adv sum_rank_update [OF i, of Idle] sum_rank_update [OF i, of Reading]
      sum_rank_update [OF i, of Writing]
    by (cases "pcs s ! i")
      (auto simp: can_advance_def advance_def lock_code rank_def split: if_splits)
  then show ?thesis
    using sum_rank_update [OF i, of RdWait] sum_rank_update [OF i, of WrWait]
      at_pc_update [OF i, of "{RdWoken, WrWoken}" RdWait]
      at_pc_update [OF i, of "{RdWoken, WrWoken}" WrWait]
    by (auto simp: work_def rank_def)
qed

lemma drain_bound: "(drain_step ^^ k) s s' \<Longrightarrow> k + work (pcs s') \<le> work (pcs s)"
proof (induction k arbitrary: s')
  case (Suc k)
  then obtain t where "(drain_step ^^ k) s t" "drain_step t s'" by auto
  then show ?case
    using Suc.IH [of t] advance_decreases by (fastforce elim!: drain_stepE)
qed simp

text \<open>A thread that is asleep is owed a wake-up by one that is not.\<close>

lemma sleeper_has_waker:
  assumes inv: "lock_inv s" and p: "p \<in> set (pcs s)" "p \<noteq> Idle"
  shows "\<exists>q \<in> set (pcs s). can_advance q"
proof (rule ccontr)
  assume "\<not> ?thesis"
  then have *: "RdWoken \<notin> set (pcs s)" "WrWoken \<notin> set (pcs s)" "Reading \<notin> set (pcs s)"
      "Writing \<notin> set (pcs s)"
    by (auto simp: can_advance_def)
  then have "RdWait \<notin> set (pcs s)" using inv by (auto simp: lock_inv_def at_pc_0 at_pc_pos)
  moreover from this have "WrWait \<notin> set (pcs s)"
    using inv * by (auto simp: lock_inv_def at_pc_0 at_pc_pos)
  ultimately show False using * p by (cases p) auto
qed

lemma stuck_idle:
  assumes inv: "lock_inv s" and stuck: "\<nexists>t. drain_step s t"
  shows "set (pcs s) \<subseteq> {Idle}"
proof (rule ccontr)
  assume "\<not> ?thesis"
  then obtain q where "q \<in> set (pcs s)" "can_advance q"
    using sleeper_has_waker [OF inv] by blast
  then show False using stuck by (metis drain in_set_conv_nth)
qed

lemma relpowp_drain_lock: "(drain_step ^^ k) s t \<Longrightarrow> lock_step\<^sup>*\<^sup>* s t"
  by (induction k arbitrary: t) (auto intro: rtranclp.rtrancl_into_rtrancl drain_step_lock_step)

lemma lock_step_length: "lock_step s t \<Longrightarrow> length (pcs t) = length (pcs s)"
  by (induction rule: lock_step.induct)
    (simp_all add: enter_read_def enter_write_def split: prod.split)

lemma lock_steps_length: "lock_step\<^sup>*\<^sup>* s t \<Longrightarrow> length (pcs t) = length (pcs s)"
  by (induction rule: rtranclp_induct) (auto dest: lock_step_length)

lemma nth_broadcast_Writing:
  "i < length ps \<Longrightarrow> broadcast b ps ! i = Writing \<longleftrightarrow> ps ! i = Writing"
  by (simp add: broadcast_def)

lemma writer_after_readers:
  assumes "lock_step s s'" and "j < length (pcs s)" and "pcs s ! j \<noteq> Writing" and "pcs s' ! j = Writing"
  shows "read_queue_len (lk s') = 0"
  using assms
proof (cases rule: lock_step.cases)
  case (run i)
  then show ?thesis
    using assms(2-4)
    by (cases "pcs s ! i")
      (auto simp: advance_def lock_code nth_list_update nth_broadcast_Writing word_gt_0
        split: if_splits)
qed (auto simp: enter_read_def enter_write_def lock_code nth_list_update wake_def word_gt_0
    split: if_splits)

section \<open>Properties\<close>

text \<open>Two threads: the first reads, the second waits to write.\<close>

definition lock_example :: lock_sys where
  "lock_example = \<lparr>lk = \<lparr>tobe_write_queue_len = 1, write_queue_len = 0, read_queue_len = 1\<rparr>,
    pcs = [Reading, WrWait]\<rparr>"

lemma lock_example_reached: "lock_step\<^sup>*\<^sup>* (lock_start 2) lock_example"
proof -
  let ?s = "enter_read 0 (lock_start 2)"
  have "lock_step (lock_start 2) ?s"
    by (rule call_rdlock) (simp_all add: lock_start_def)
  moreover have "lock_step ?s (enter_write 1 ?s)"
    by (rule call_wrlock)
      (simp_all add: lock_start_def enter_read_def lock_code rwlock_fresh_def numeral_2_eq_2)
  moreover have "enter_write 1 ?s = lock_example"
    by (simp add: lock_start_def enter_read_def enter_write_def lock_code rwlock_fresh_def
        lock_example_def numeral_2_eq_2)
  ultimately show ?thesis by (metis rtranclp.rtrancl_into_rtrancl rtranclp.rtrancl_refl)
qed

text \<open>
  C14. The lock excludes: in every interleaving of any number of threads that a \<open>size_t\<close> can
  count, at most one thread holds the lock for writing, and none holds it for reading while
  one does. The three counters are exactly the numbers of threads that wait to write, write,
  and wait to read or read, so no increment wraps around and no decrement underflows.
\<close>

theorem rwlock_mutual_exclusion:
  assumes "n < 2 ^ 64" and "lock_step\<^sup>*\<^sup>* (lock_start n) s"
  shows "at_pc {Writing} (pcs s) \<le> 1 \<and> (at_pc {Writing} (pcs s) = 0 \<or> at_pc {Reading} (pcs s) = 0) \<and>
    unat (tobe_write_queue_len (lk s)) = at_pc {WrWait, WrWoken} (pcs s) \<and>
    unat (write_queue_len (lk s)) = at_pc {Writing} (pcs s) \<and>
    unat (read_queue_len (lk s)) = at_pc {RdWait, RdWoken, Reading} (pcs s)"
  using lock_reachable_inv [OF assms(2) lock_start_inv [OF assms(1)]] by (simp add: lock_inv_def)

theorem rwlock_mutual_exclusion_witness:
  "(2 :: nat) < 2 ^ 64 \<and> lock_step\<^sup>*\<^sup>* (lock_start 2) lock_example \<and>
    unat (read_queue_len (lk lock_example)) = at_pc {RdWait, RdWoken, Reading} (pcs lock_example)"
  using rwlock_mutual_exclusion [of 2 lock_example] lock_example_reached by simp

text \<open>
  C15. No wake-up is lost and nothing deadlocks: from any reachable state of \<open>n\<close> threads, once
  no thread asks for the lock any more, at most \<open>2 n (n + 1) + n\<close> steps can be taken (each
  thread releasing what it holds and re-testing its condition when woken, in any order, with
  no help from spurious wake-ups), and when no step is left every thread has got the lock,
  released it and returned.
\<close>

theorem rwlock_drains:
  assumes "n < 2 ^ 64" and "lock_step\<^sup>*\<^sup>* (lock_start n) s" and "(drain_step ^^ k) s s'"
  shows "k \<le> 2 * n * Suc n + n \<and> ((\<exists>t. drain_step s' t) \<or> pcs s' = replicate n Idle)"
proof -
  have len: "length (pcs s) = n" "length (pcs s') = n"
    using lock_steps_length [OF assms(2)] lock_steps_length [OF relpowp_drain_lock [OF assms(3)]]
    by (simp_all add: lock_start_def)
  have "k \<le> 2 * n * Suc n + n"
    using drain_bound [OF assms(3)] work_bound [of "pcs s"] len by simp
  moreover have "lock_inv s'"
    using lock_reachable_inv [OF relpowp_drain_lock [OF assms(3)]]
      lock_reachable_inv [OF assms(2) lock_start_inv [OF assms(1)]] by blast
  then have "pcs s' = replicate n Idle" if "\<nexists>t. drain_step s' t"
    using stuck_idle [OF _ that] len by (metis replicate_length_same singletonD subsetD)
  ultimately show ?thesis by blast
qed

theorem rwlock_drains_witness:
  "(2 :: nat) < 2 ^ 64 \<and> lock_step\<^sup>*\<^sup>* (lock_start 2) lock_example \<and>
    (drain_step ^^ 1) lock_example (advance 0 lock_example) \<and> (1 :: nat) \<le> 2 * 2 * Suc 2 + 2 \<and>
    (\<exists>t. drain_step (advance 0 lock_example) t)"
proof -
  have step: "(drain_step ^^ 1) lock_example (advance 0 lock_example)"
    using drain [of 0 lock_example]
    by (simp add: lock_example_def can_advance_def relcompp_apply)
  moreover have "pcs (advance 0 lock_example) = [Idle, WrWoken]"
    by (simp add: advance_def lock_example_def lock_code broadcast_def wake_def)
  then have "pcs (advance 0 lock_example) \<noteq> replicate 2 Idle" by (simp add: numeral_2_eq_2)
  ultimately show ?thesis
    using rwlock_drains [of 2 lock_example 1 "advance 0 lock_example"] lock_example_reached by simp
qed

text \<open>
  Readers come first: a thread gets the lock for writing only in a step after which no
  thread reads or waits to read, and a thread that asks to read gets the lock at once, however
  many writers wait, unless a writer holds it.
\<close>

theorem rwlock_reader_priority:
  assumes "n < 2 ^ 64" and "lock_step\<^sup>*\<^sup>* (lock_start n) s" and "lock_step s s'"
    and "i < n"
  shows "(pcs s ! i = Writing \<or> pcs s' ! i \<noteq> Writing \<or> at_pc {RdWait, RdWoken, Reading} (pcs s') = 0) \<and>
    (pcs s ! i \<noteq> Idle \<or> at_pc {Writing} (pcs s) = 1 \<or> pcs (enter_read i s) ! i = Reading)"
proof
  have inv: "lock_inv s" "lock_inv s'"
    using lock_reachable_inv [OF assms(2) lock_start_inv [OF assms(1)]] lock_step_inv [OF assms(3)]
    by blast+
  have len: "length (pcs s) = n"
    using lock_steps_length [OF assms(2)] by (simp add: lock_start_def)
  show "pcs s ! i \<noteq> Idle \<or> at_pc {Writing} (pcs s) = 1 \<or> pcs (enter_read i s) ! i = Reading"
    using inv(1) assms(4) len by (auto simp: enter_read_def lock_code lock_inv_def word_gt_0_unat)
  show "pcs s ! i = Writing \<or> pcs s' ! i \<noteq> Writing \<or> at_pc readers (pcs s') = 0"
  proof -
    have "at_pc readers (pcs s') = unat (read_queue_len (lk s'))"
      using inv(2) by (simp add: lock_inv_def)
    then show ?thesis
      using writer_after_readers [OF assms(3), of i] len assms(4) by (cases "pcs s ! i = Writing") auto
  qed
qed

theorem rwlock_reader_priority_witness:
  "(2 :: nat) < 2 ^ 64 \<and> lock_step\<^sup>*\<^sup>* (lock_start 2) (lock_start 2) \<and>
    lock_step (lock_start 2) (enter_write 1 (lock_start 2)) \<and> (1 :: nat) < 2 \<and>
    pcs (enter_write 1 (lock_start 2)) ! 1 = Writing \<and>
    at_pc {RdWait, RdWoken, Reading} (pcs (enter_write 1 (lock_start 2))) = 0"
proof -
  have step: "lock_step (lock_start 2) (enter_write 1 (lock_start 2))"
    by (rule call_wrlock) (simp_all add: lock_start_def)
  moreover have "pcs (enter_write 1 (lock_start 2)) ! 1 = Writing"
    by (simp add: lock_start_def enter_write_def lock_code rwlock_fresh_def)
  moreover have "pcs (lock_start 2) ! 1 = Idle" by (simp add: lock_start_def)
  ultimately show ?thesis
    using rwlock_reader_priority [of 2 "lock_start 2" "enter_write 1 (lock_start 2)" 1] by simp
qed

end
