(* ===== verification/Slab.thy ===== *)
theory Slab
  imports Prelude
begin

text \<open>
  \<^verbatim>\<open>src/src/slab.c\<close> and \<^verbatim>\<open>src/include/slab.h\<close>: the slab allocator every other component gets
  its memory from, in the build the Makefile makes (\<open>NEED_DEBUG\<close> 0, \<open>BSEARCH_BLOCK\<close>,
  \<open>USE_VALLOC\<close>, \<open>USE_FIXED_BLOCK\<close>, slabs and not the system allocator). Addresses are
  numbers, \<open>NULL\<close> is \<open>None\<close>. The block headers the allocator writes in front of a block
  (\<open>slabhead_t\<close>) are the map \<open>heads\<close>, the bytes of the blocks are \<open>ram\<close>. The arrays \<open>slots\<close>
  and \<open>slab_list\<close> are the lists of their entries in use, so \<open>sl_curr\<close> and \<open>slabs\<close> are their
  lengths; \<open>sl_total\<close> and \<open>list_size\<close> are their capacities. What the C library answers to
  \<open>malloc\<close>, \<open>valloc\<close> and \<open>realloc\<close> is the argument \<open>sysmem\<close>. A call is atomic: the lock of
  a class covers all of the class's fields.

  The lemmas show that the binary search finds the smallest class that fits, that blocks
  handed out never overlap whatever the order of calls, that a freed block goes back to the
  class it came from, and what \<open>slab_realloc\<close> and \<open>slab_calloc\<close> do to the bytes.
\<close>

section \<open>The code\<close>

definition POWER_SMALLEST :: nat where "POWER_SMALLEST = 1"
definition POWER_LARGEST :: nat where "POWER_LARGEST = 200"
definition POWER_BLOCK :: nat where "POWER_BLOCK = 1024 * 1024 * 4"
definition CHUNK_ALIGN_BYTES :: nat where "CHUNK_ALIGN_BYTES = 8"
definition TINY_SIZE :: nat where "TINY_SIZE = 16"

lemmas slab_consts = POWER_SMALLEST_def POWER_LARGEST_def POWER_BLOCK_def CHUNK_ALIGN_BYTES_def
  TINY_SIZE_def

record slabclass_t =
  cls_size :: nat
  perslab :: nat
  slots :: "nat list"
  sl_total :: nat
  end_page_ptr :: "nat option"
  end_page_free :: nat
  slab_list :: "nat list"
  list_size :: nat

record slabhead_t =
  is_malloc :: bool
  head_size :: u32

text \<open>\<open>sizeof(slabhead_t)\<close>.\<close>

definition sizeof_head :: nat where "sizeof_head = 8"

record slab =
  slabclass :: "slabclass_t list"
  mem_limit :: nat
  mem_malloced :: nat
  power_largest :: int
  heads :: "nat \<Rightarrow> slabhead_t option"
  ram :: mem

record sysmem =
  sys_malloc :: "nat \<Rightarrow> nat option"
  sys_valloc :: "nat \<Rightarrow> nat option"
  sys_realloc :: "nat \<Rightarrow> bool"

text \<open>The array \<open>slabclass[POWER_LARGEST + 1]\<close>, by index.\<close>

definition class_at :: "slab \<Rightarrow> int \<Rightarrow> slabclass_t" where
  "class_at s i = slabclass s ! nat i"

definition set_class :: "int \<Rightarrow> slabclass_t \<Rightarrow> slab \<Rightarrow> slab" where
  "set_class i c s = s\<lparr>slabclass := (slabclass s)[nat i := c]\<rparr>"

text \<open>The binary search of \<open>slab_clsid\<close>: \<open>None\<close> when the loop ends without a \<open>return\<close>.\<close>

function clsid_loop :: "(int \<Rightarrow> nat) \<Rightarrow> nat \<Rightarrow> int \<Rightarrow> int \<Rightarrow> int option" where
  "clsid_loop sz n left right =
    (if left \<le> right then
       let res = (left + right) div 2
       in if n < sz res then
            if n > sz (res - 1) then Some res
            else clsid_loop sz n left (res - 1)
          else if n > sz res then clsid_loop sz n (res + 1) right
          else Some res
     else None)"
  by pat_completeness auto

termination
  by (relation "measure (\<lambda>(sz, n, left, right). nat (right - left + 1))") auto

declare clsid_loop.simps [simp del]

definition slab_clsid :: "slab \<Rightarrow> nat \<Rightarrow> int" where
  "slab_clsid s n =
    (if n = 0 then 0
     else case clsid_loop (\<lambda>i. cls_size (class_at s i)) n 1 (power_largest s) of
       Some res \<Rightarrow> res
     | None \<Rightarrow> power_largest s + 1)"

text \<open>The linear search of the other branch of \<open>#ifdef BSEARCH_BLOCK\<close>.\<close>

function clsid_scan :: "(int \<Rightarrow> nat) \<Rightarrow> nat \<Rightarrow> int \<Rightarrow> int \<Rightarrow> int" where
  "clsid_scan sz n p res =
    (if res > p then res
     else if n > sz res then if res = p then p + 1 else clsid_scan sz n p (res + 1)
     else res)"
  by pat_completeness auto

termination
  by (relation "measure (\<lambda>(sz, n, p, res). nat (p - res + 1))") auto

declare clsid_scan.simps [simp del]

definition slab_clsid_linear :: "slab \<Rightarrow> nat \<Rightarrow> int" where
  "slab_clsid_linear s n =
    (if n = 0 then 0
     else clsid_scan (\<lambda>i. cls_size (class_at s i)) n (power_largest s) (int POWER_SMALLEST))"

text \<open>\<open>slab_init\<close>. The growth factor is the fraction \<open>num / den\<close> (every caller passes 1.125),
  so \<open>(int)((double)size * factor)\<close> is an exact product cut down to an integer.\<close>

definition align_size :: "nat \<Rightarrow> nat" where
  "align_size sz =
    (if sz mod CHUNK_ALIGN_BYTES \<noteq> 0 then sz + (CHUNK_ALIGN_BYTES - sz mod CHUNK_ALIGN_BYTES)
     else sz)"

function init_loop :: "nat \<Rightarrow> nat \<Rightarrow> nat \<Rightarrow> nat \<Rightarrow> slabclass_t list \<Rightarrow> nat \<times> slabclass_t list" where
  "init_loop num den i sz cls =
    (let i = i + 1
     in if i < POWER_LARGEST \<and> sz \<le> POWER_BLOCK div 2 then
          let sz = align_size sz;
              cls = cls[i := (cls ! i)\<lparr>cls_size := sz, perslab := POWER_BLOCK div sz\<rparr>]
          in init_loop num den i (sz * num div den) cls
        else (i, cls))"
  by pat_completeness auto

termination
  by (relation "measure (\<lambda>(num, den, i, sz, cls). POWER_LARGEST - i)") auto

declare init_loop.simps [simp del]

definition empty_class :: slabclass_t where
  "empty_class = \<lparr>cls_size = 0, perslab = 0, slots = [], sl_total = 0, end_page_ptr = None,
    end_page_free = 0, slab_list = [], list_size = 0\<rparr>"

definition slab_init :: "nat \<Rightarrow> nat \<Rightarrow> nat \<Rightarrow> slab \<Rightarrow> slab option" where
  "slab_init limit num den s =
    (if num \<le> den then None
     else
       let (i, cls) = init_loop num den (POWER_SMALLEST - 1) TINY_SIZE
             (replicate (POWER_LARGEST + 1) empty_class);
           cls = cls[i := (cls ! i)\<lparr>cls_size := POWER_BLOCK, perslab := 1\<rparr>]
       in Some (s\<lparr>mem_limit := limit, slabclass := cls, power_largest := int i\<rparr>))"

text \<open>\<open>grow_slab_list\<close> and \<open>do_slabs_newslab\<close>: the integer result and the new state.\<close>

definition grow_slab_list :: "sysmem \<Rightarrow> slabclass_t \<Rightarrow> nat \<times> slabclass_t" where
  "grow_slab_list env p =
    (if length (slab_list p) = list_size p then
       let new_size = (if list_size p \<noteq> 0 then list_size p * 2 else 16)
       in if \<not> sys_realloc env (new_size * 8) then (0, p)
          else (1, p\<lparr>list_size := new_size\<rparr>)
     else (1, p))"

definition do_slabs_newslab :: "sysmem \<Rightarrow> int \<Rightarrow> slab \<Rightarrow> nat \<times> slab" where
  "do_slabs_newslab env cid s =
    (let p = class_at s cid; len = POWER_BLOCK
     in if mem_limit s \<noteq> 0 \<and> mem_malloced s + len > mem_limit s \<and> length (slab_list p) > 0
        then (0, s)
        else case grow_slab_list env p of
          (ok, p) \<Rightarrow>
            if ok = 0 then (0, s)
            else case sys_valloc env len of
              None \<Rightarrow> (0, set_class cid p s)
            | Some ptr \<Rightarrow>
                (1, (set_class cid
                      (p\<lparr>end_page_ptr := Some ptr, end_page_free := perslab p,
                         slab_list := slab_list p @ [ptr]\<rparr>) s)
                    \<lparr>mem_malloced := mem_malloced s + len\<rparr>))"

text \<open>\<open>_slab_alloc\<close>: \<open>None\<close> where the \<open>assert\<close> fails, else the pointer and the new state. The
  size is a \<open>size_t\<close>, to which the size of the header is added.\<close>

definition write_head :: "nat \<Rightarrow> bool \<Rightarrow> u64 \<Rightarrow> slab \<Rightarrow> slab" where
  "write_head a b sz s = s\<lparr>heads := (heads s)(a \<mapsto> \<lparr>is_malloc = b, head_size = ucast sz\<rparr>)\<rparr>"

definition alloc_malloc :: "sysmem \<Rightarrow> u64 \<Rightarrow> slab \<Rightarrow> nat option \<times> slab" where
  "alloc_malloc env sz s =
    (case sys_malloc env (unat sz) of
      None \<Rightarrow> (None, s)
    | Some head \<Rightarrow> (Some (head + sizeof_head), write_head head True sz s))"

definition alloc_class :: "sysmem \<Rightarrow> int \<Rightarrow> u64 \<Rightarrow> slab \<Rightarrow> nat option \<times> slab" where
  "alloc_class env cid sz s =
    (let p = class_at s cid;
         (ok, s) = (if end_page_ptr p \<noteq> None then (1, s)
                    else if length (slots p) \<noteq> 0 then (1, s)
                    else do_slabs_newslab env cid s);
         p = class_at s cid
     in if ok = 0 then (None, s)
        else if length (slots p) \<noteq> 0 then
          let head = last (slots p)
          in (Some (head + sizeof_head),
              write_head head False sz (set_class cid (p\<lparr>slots := butlast (slots p)\<rparr>) s))
        else case end_page_ptr p of
          Some head \<Rightarrow>
            let p = p\<lparr>end_page_free := end_page_free p - 1\<rparr>;
                p = (if end_page_free p \<noteq> 0 then p\<lparr>end_page_ptr := Some (head + cls_size p)\<rparr>
                     else p\<lparr>end_page_ptr := None\<rparr>)
            in (Some (head + sizeof_head), write_head head False sz (set_class cid p s))
        | None \<Rightarrow> (None, s))"

definition slab_alloc :: "sysmem \<Rightarrow> u64 \<Rightarrow> slab \<Rightarrow> (nat option \<times> slab) option" where
  "slab_alloc env sz s =
    (if \<not> power_largest s > 0 then None
     else
       let sz = sz + word_of_nat sizeof_head;
           cid = slab_clsid s (unat sz)
       in if cid < int POWER_SMALLEST then Some (None, s)
          else if cid > power_largest s then Some (alloc_malloc env sz s)
          else Some (alloc_class env cid sz s))"

text \<open>\<open>_slab_free\<close>: \<open>None\<close> where the pointer has no header in front of it, which the code may
  not be called with. The class index passes through an \<open>unsigned char\<close>.\<close>

definition slab_free :: "sysmem \<Rightarrow> nat option \<Rightarrow> slab \<Rightarrow> slab option" where
  "slab_free env ptr s =
    (case ptr of
      None \<Rightarrow> Some s
    | Some ptr \<Rightarrow>
        let head = ptr - sizeof_head
        in case heads s head of
          None \<Rightarrow> None
        | Some h \<Rightarrow>
            if is_malloc h then Some (s\<lparr>heads := (heads s)(head := None)\<rparr>)
            else
              let cid = slab_clsid s (unat (head_size h)) mod 256
              in if cid < int POWER_SMALLEST then Some s
                 else
                   let p = class_at s cid;
                       full = (length (slots p) = sl_total p);
                       new_size = (if sl_total p \<noteq> 0 then sl_total p * 2 else 1024)
                   in if full \<and> \<not> sys_realloc env (new_size * 8) then Some s
                      else Some (set_class cid
                        (p\<lparr>sl_total := (if full then new_size else sl_total p),
                           slots := slots p @ [head]\<rparr>) s))"

definition copy_ram :: "nat \<Rightarrow> nat \<Rightarrow> nat \<Rightarrow> mem \<Rightarrow> mem" where
  "copy_ram dst src n m = (\<lambda>a. if dst \<le> a \<and> a < dst + n then m (src + (a - dst)) else m a)"

definition slab_realloc :: "sysmem \<Rightarrow> nat option \<Rightarrow> u64 \<Rightarrow> slab \<Rightarrow> (nat option \<times> slab) option" where
  "slab_realloc env ptr sz s =
    (if sz = 0 then Some (None, s)
     else case ptr of
       None \<Rightarrow> slab_alloc env sz s
     | Some ptr \<Rightarrow>
         case slab_alloc env sz s of
           None \<Rightarrow> None
         | Some (None, s) \<Rightarrow> Some (None, s)
         | Some (Some p, s) \<Rightarrow>
             (case heads s (ptr - sizeof_head) of
               None \<Rightarrow> None
             | Some h \<Rightarrow>
                 let new_size = (if unat sz < unat (head_size h) then unat sz else unat (head_size h));
                     s = s\<lparr>ram := copy_ram p ptr new_size (ram s)\<rparr>
                 in (case slab_free env (Some ptr) s of None \<Rightarrow> None | Some s \<Rightarrow> Some (Some p, s))))"

definition slab_calloc :: "sysmem \<Rightarrow> u64 \<Rightarrow> slab \<Rightarrow> (nat option \<times> slab) option" where
  "slab_calloc env sz s =
    (case slab_alloc env sz s of
      None \<Rightarrow> None
    | Some (None, s) \<Rightarrow> Some (None, s)
    | Some (Some ptr, s) \<Rightarrow>
        Some (Some ptr,
          s\<lparr>ram := (\<lambda>a. if ptr \<le> a \<and> a < ptr + unat sz then 0 else ram s a)\<rparr>))"

section \<open>The class table\<close>

text \<open>What the search relies on: the sizes grow with the class.\<close>

locale size_table =
  fixes sz :: "int \<Rightarrow> nat" and p :: int
  assumes zero: "sz 0 = 0"
    and sorted: "0 \<le> i \<Longrightarrow> i \<le> j \<Longrightarrow> j \<le> p \<Longrightarrow> sz i \<le> sz j"
    and nonempty: "1 \<le> p"
begin

lemma loop_sound:
  assumes "clsid_loop sz n left right = Some r" and "1 \<le> left" and "right \<le> p" and "0 < n"
  shows "left \<le> r \<and> r \<le> right \<and> n \<le> sz r \<and> (sz (r - 1) < n \<or> n = sz r)"
  using assms
proof (induction sz n left right rule: clsid_loop.induct)
  case (1 sz n left right)
  let ?res = "(left + right) div 2"
  have bounds: "left \<le> right \<Longrightarrow> left \<le> ?res \<and> ?res \<le> right" by auto
  show ?case
    using 1(3-) bounds 1(1) [OF _ refl] 1(2) [OF _ refl]
    by (subst (asm) clsid_loop.simps) (force simp: Let_def split: if_splits)
qed

lemma loop_complete:
  assumes "clsid_loop sz n left right = None" and "left \<le> right + 1" and "sz (left - 1) < n"
  shows "sz right < n"
  using assms
proof (induction sz n left right rule: clsid_loop.induct)
  case (1 sz n left right)
  let ?res = "(left + right) div 2"
  have bounds: "left \<le> right \<Longrightarrow> left \<le> ?res \<and> ?res \<le> right" by auto
  show ?case
  proof (cases "left \<le> right")
    case True
    then show ?thesis
      using 1(3-) bounds 1(1) [OF _ refl] 1(2) [OF _ refl]
      by (subst (asm) clsid_loop.simps) (force simp: Let_def split: if_splits)
  next
    case False
    then have "right = left - 1" using 1(4) by simp
    then show ?thesis using 1(5) by simp
  qed
qed

text \<open>The search succeeds exactly when the largest class is large enough.\<close>

lemma loop_cases:
  assumes "0 < n"
  obtains (found) r where "clsid_loop sz n 1 p = Some r" "1 \<le> r" "r \<le> p" "n \<le> sz r"
      "sz (r - 1) < n \<or> n = sz r" "n \<le> sz p"
  | (none) "clsid_loop sz n 1 p = None" "sz p < n"
proof (cases "clsid_loop sz n 1 p")
  case None
  then show ?thesis using loop_complete [OF None] nonempty zero assms none by simp
next
  case (Some r)
  then show ?thesis
    using loop_sound [OF Some] sorted [of r p] assms by (intro found [of r]) auto
qed

end

text \<open>With no two classes of one size, the class found is the only one that fits tightly.\<close>

locale strict_size_table = size_table +
  assumes strict: "0 \<le> i \<Longrightarrow> i < j \<Longrightarrow> j \<le> p \<Longrightarrow> sz i < sz j"
begin

lemma found_least:
  assumes "sz (r - 1) < n \<or> n = sz r" and "1 \<le> r" and "r \<le> p" and "0 \<le> j" and "j < r"
  shows "sz j < n"
proof -
  have "sz j \<le> sz (r - 1)" "sz j < sz r"
    using assms sorted [of j "r - 1"] strict [of j r] by simp_all
  then show ?thesis using assms(1) by auto
qed

lemma scan_skips:
  assumes "\<And>j. res \<le> j \<Longrightarrow> j < r \<Longrightarrow> sz j < n" and "res \<le> r" and "r \<le> p + 1"
    and "r = p + 1 \<or> n \<le> sz r"
  shows "clsid_scan sz n p res = r"
  using assms
proof (induction "nat (r - res)" arbitrary: res)
  case 0
  then show ?case by (subst clsid_scan.simps) auto
next
  case (Suc k)
  then have "res < r" "sz res < n" by auto
  moreover have "clsid_scan sz n p (res + 1) = r"
    using Suc by (intro Suc.hyps(1)) auto
  ultimately show ?case using Suc.prems(3) by (subst clsid_scan.simps) auto
qed

lemma loop_scan:
  assumes "0 < n"
  shows "(case clsid_loop sz n 1 p of Some r \<Rightarrow> r | None \<Rightarrow> p + 1) = clsid_scan sz n p 1"
  using assms
proof (cases rule: loop_cases)
  case (found r)
  then show ?thesis
    using found_least [of r n] by (subst scan_skips [where r = r]) auto
next
  case none
  then have "sz j < n" if "1 \<le> j" "j < p + 1" for j
    using sorted [of j p] that by simp
  then show ?thesis using none nonempty by (subst scan_skips [where r = "p + 1"]) auto
qed

end

text \<open>The table of a running allocator.\<close>

abbreviation size_of :: "slab \<Rightarrow> int \<Rightarrow> nat" where
  "size_of s \<equiv> \<lambda>i. cls_size (class_at s i)"

definition table_ok :: "slab \<Rightarrow> bool" where
  "table_ok s \<longleftrightarrow>
    length (slabclass s) = POWER_LARGEST + 1 \<and>
    1 \<le> power_largest s \<and> power_largest s \<le> int POWER_LARGEST \<and>
    size_of s 0 = 0 \<and> size_of s (power_largest s) = POWER_BLOCK \<and>
    (\<forall>i. 1 \<le> i \<and> i \<le> power_largest s \<longrightarrow>
      TINY_SIZE \<le> size_of s i \<and> perslab (class_at s i) = POWER_BLOCK div size_of s i) \<and>
    (\<forall>i. 0 \<le> i \<and> i < power_largest s \<longrightarrow> size_of s i \<le> size_of s (i + 1))"

lemma chain_mono:
  fixes f :: "int \<Rightarrow> nat"
  assumes "\<And>i. 0 \<le> i \<Longrightarrow> i < p \<Longrightarrow> f i \<le> f (i + 1)" and "0 \<le> i" and "i \<le> j" and "j \<le> p"
  shows "f i \<le> f j"
  using assms(3,4)
proof (induction "nat (j - i)" arbitrary: j)
  case (Suc k)
  then have "f i \<le> f (j - 1)" "f (j - 1) \<le> f j"
    using assms(1) [of "j - 1"] assms(2) by (auto intro!: Suc.hyps(1))
  then show ?case by simp
qed simp

lemma chain_strict:
  fixes f :: "int \<Rightarrow> nat"
  assumes "\<And>i. 0 \<le> i \<Longrightarrow> i < p \<Longrightarrow> f i < f (i + 1)" and "0 \<le> i" and "i < j" and "j \<le> p"
  shows "f i < f j"
proof -
  have "f (i + 1) \<le> f j"
    using assms(2-4) by - (rule chain_mono [where p = p], rule less_imp_le [OF assms(1)], auto)
  then show ?thesis using assms(1) [of i] assms(2-4) by simp
qed

lemma table_ok_size_table: "table_ok s \<Longrightarrow> size_table (size_of s) (power_largest s)"
proof
  assume ok: "table_ok s"
  then show "size_of s 0 = 0" "1 \<le> power_largest s" by (simp_all add: table_ok_def)
  show "size_of s i \<le> size_of s j" if "0 \<le> i" "i \<le> j" "j \<le> power_largest s" for i j
    using ok by (intro chain_mono [OF _ that]) (simp add: table_ok_def)
qed

text \<open>What \<open>slab_clsid\<close> returns on a running allocator.\<close>

lemma slab_clsid_cases:
  assumes "table_ok s" and "0 < n"
  obtains (found) "1 \<le> slab_clsid s n" "slab_clsid s n \<le> power_largest s"
      "n \<le> size_of s (slab_clsid s n)" "n \<le> POWER_BLOCK"
  | (none) "slab_clsid s n = power_largest s + 1" "POWER_BLOCK < n"
proof (cases rule: size_table.loop_cases [OF table_ok_size_table [OF assms(1)] assms(2)])
  case (1 r)
  then show thesis using that(1) assms by (simp add: slab_clsid_def table_ok_def)
next
  case 2
  then show thesis using that(2) assms by (simp add: slab_clsid_def table_ok_def)
qed

subsection \<open>The table \<open>slab_init\<close> builds\<close>

lemma align_size_bounds:
  "sz \<le> align_size sz" "sz \<le> POWER_BLOCK div 2 \<Longrightarrow> align_size sz \<le> POWER_BLOCK div 2"
  by (auto simp: align_size_def slab_consts) presburger

text \<open>The classes up to \<open>i\<close> are set, each at least \<open>d\<close> bytes larger than the one before.\<close>

definition init_inv :: "nat \<Rightarrow> nat \<Rightarrow> slabclass_t list \<Rightarrow> bool" where
  "init_inv d i cls \<longleftrightarrow>
    length cls = POWER_LARGEST + 1 \<and> i < POWER_LARGEST \<and> cls ! 0 = empty_class \<and>
    (\<forall>k. 1 \<le> k \<and> k \<le> i \<longrightarrow> (\<exists>z. cls ! k = empty_class\<lparr>cls_size := z, perslab := POWER_BLOCK div z\<rparr> \<and>
      TINY_SIZE \<le> z \<and> z \<le> POWER_BLOCK div 2 \<and> cls_size (cls ! (k - 1)) + d \<le> z)) \<and>
    (\<forall>k. i < k \<and> k \<le> POWER_LARGEST \<longrightarrow> cls ! k = empty_class)"

lemma init_inv_step:
  assumes "init_inv d i cls" and "i + 1 < POWER_LARGEST" and "z \<le> POWER_BLOCK div 2"
    and "TINY_SIZE \<le> z" and "cls_size (cls ! i) + d \<le> z"
  shows "init_inv d (i + 1) (cls[i + 1 := (cls ! (i + 1))\<lparr>cls_size := z, perslab := POWER_BLOCK div z\<rparr>])"
  using assms unfolding init_inv_def
  by (auto simp: nth_list_update le_Suc_eq)

lemma init_loop_inv:
  assumes "init_inv d i cls" and "TINY_SIZE \<le> sz" and "cls_size (cls ! i) + d \<le> sz"
    and grow: "\<And>z. TINY_SIZE \<le> z \<Longrightarrow> z + d \<le> z * num div den"
    and "init_loop num den i sz cls = (i', cls')"
  shows "1 \<le> i' \<and> i' \<le> POWER_LARGEST \<and> init_inv d (i' - 1) cls'"
  using assms(1-3,5)
proof (induction "POWER_LARGEST - i" arbitrary: i sz cls rule: less_induct)
  case less
  let ?z = "align_size sz"
  let ?cls = "cls[i + 1 := (cls ! (i + 1))\<lparr>cls_size := ?z, perslab := POWER_BLOCK div ?z\<rparr>]"
  have i: "i < POWER_LARGEST" "length cls = POWER_LARGEST + 1"
    using less.prems(1) by (simp_all add: init_inv_def)
  have z: "TINY_SIZE \<le> ?z" "cls_size (cls ! i) + d \<le> ?z"
    using less.prems(2,3) align_size_bounds(1) [of sz] by simp_all
  show ?case
  proof (cases "i + 1 < POWER_LARGEST \<and> sz \<le> POWER_BLOCK div 2")
    case True
    then have "init_inv d (i + 1) ?cls"
      using less.prems(1) z align_size_bounds(2) by (intro init_inv_step) auto
    moreover have "init_loop num den (i + 1) (?z * num div den) ?cls = (i', cls')"
      using less.prems(4) True by (subst (asm) init_loop.simps) (simp add: Let_def)
    moreover have "?z + d \<le> ?z * num div den" using grow z(1) .
    moreover have "POWER_LARGEST - (i + 1) < POWER_LARGEST - i" using True by linarith
    ultimately show ?thesis
      using less.hyps [of "i + 1" ?cls "?z * num div den"] i z by simp
  next
    case False
    then have "i' = i + 1" "cls' = cls"
      using less.prems(4) by (subst (asm) init_loop.simps; simp add: Let_def split: if_splits)+
    then show ?thesis using less.prems(1) i by simp
  qed
qed

lemma slab_init_shape:
  assumes "slab_init limit num den s0 = Some s"
    and grow: "\<And>z. TINY_SIZE \<le> z \<Longrightarrow> z + d \<le> z * num div den" and "d \<le> 1"
  obtains i cls where "1 \<le> i" "i \<le> POWER_LARGEST" "init_inv d (i - 1) cls"
    "s = s0\<lparr>mem_limit := limit,
      slabclass := cls[i := empty_class\<lparr>cls_size := POWER_BLOCK, perslab := 1\<rparr>],
      power_largest := int i\<rparr>"
proof -
  obtain i cls where loop: "init_loop num den (POWER_SMALLEST - 1) TINY_SIZE
      (replicate (POWER_LARGEST + 1) empty_class) = (i, cls)"
    by fastforce
  have "init_inv d 0 (replicate (POWER_LARGEST + 1) empty_class)"
    by (auto simp: init_inv_def slab_consts nth_append simp del: replicate.simps)
  then have inv: "1 \<le> i" "i \<le> POWER_LARGEST" "init_inv d (i - 1) cls"
    using init_loop_inv [OF _ _ _ grow loop] assms(3)
    by (auto simp: slab_consts empty_class_def simp del: replicate.simps replicate_Suc)
  then have "cls ! i = empty_class" by (auto simp: init_inv_def)
  then show ?thesis
    using that [OF inv] assms(1) loop by (simp add: slab_init_def split: if_splits)
qed

text \<open>All classes of a fresh allocator are empty.\<close>

definition class_fresh :: "slabclass_t \<Rightarrow> bool" where
  "class_fresh c \<longleftrightarrow> c = empty_class\<lparr>cls_size := cls_size c, perslab := perslab c\<rparr>"

lemma init_classes:
  assumes i: "1 \<le> i" "i \<le> POWER_LARGEST" and inv: "init_inv d (i - 1) cls"
    and cls': "cls' = cls[i := empty_class\<lparr>cls_size := POWER_BLOCK, perslab := 1\<rparr>]"
  shows "length cls' = POWER_LARGEST + 1" "cls' ! 0 = empty_class" "cls_size (cls' ! i) = POWER_BLOCK"
    "1 \<le> k \<Longrightarrow> k \<le> i \<Longrightarrow> TINY_SIZE \<le> cls_size (cls' ! k) \<and>
      perslab (cls' ! k) = POWER_BLOCK div cls_size (cls' ! k) \<and>
      class_fresh (cls' ! k)"
    "d \<le> 1 \<Longrightarrow> k < i \<Longrightarrow> cls_size (cls' ! k) + d \<le> cls_size (cls' ! (k + 1))"
proof -
  show "length cls' = POWER_LARGEST + 1" "cls' ! 0 = empty_class" "cls_size (cls' ! i) = POWER_BLOCK"
    using i inv by (simp_all add: init_inv_def cls')
  have below: "\<exists>z. cls' ! k = empty_class\<lparr>cls_size := z, perslab := POWER_BLOCK div z\<rparr> \<and>
      TINY_SIZE \<le> z \<and> z \<le> POWER_BLOCK div 2 \<and> cls_size (cls' ! (k - 1)) + d \<le> z"
    if "1 \<le> k" "k < i" for k
    using that inv by (simp add: init_inv_def cls')
  have top: "cls' ! i = empty_class\<lparr>cls_size := POWER_BLOCK, perslab := 1\<rparr>"
    using i inv by (simp add: init_inv_def cls')
  show "TINY_SIZE \<le> cls_size (cls' ! k) \<and>
      perslab (cls' ! k) = POWER_BLOCK div cls_size (cls' ! k) \<and>
      class_fresh (cls' ! k)"
    if "1 \<le> k" "k \<le> i"
    using that top below [of k] by (cases "k = i") (auto simp: slab_consts class_fresh_def)
  show "cls_size (cls' ! k) + d \<le> cls_size (cls' ! (k + 1))" if "d \<le> 1" "k < i"
  proof (cases "k + 1 = i")
    case True
    have "cls_size (cls' ! k) \<le> POWER_BLOCK div 2"
      using below [of k] \<open>cls' ! 0 = empty_class\<close> that(2) by (cases "k = 0") (auto simp: empty_class_def)
    then show ?thesis using True top that(1) by (simp add: slab_consts)
  next
    case False
    then show ?thesis using below [of "k + 1"] that by auto
  qed
qed

lemma slab_init_steps:
  assumes "slab_init limit num den s0 = Some s"
    and "\<And>z. TINY_SIZE \<le> z \<Longrightarrow> z + d \<le> z * num div den" and "d \<le> 1"
  shows "table_ok s" and "\<forall>i. 1 \<le> i \<and> i \<le> power_largest s \<longrightarrow> class_fresh (class_at s i)"
    and "\<forall>i. 0 \<le> i \<and> i < power_largest s \<longrightarrow> size_of s i + d \<le> size_of s (i + 1)"
proof -
  obtain k cls where k: "1 \<le> k" "k \<le> POWER_LARGEST" "init_inv d (k - 1) cls"
    and s: "s = s0\<lparr>mem_limit := limit,
      slabclass := cls[k := empty_class\<lparr>cls_size := POWER_BLOCK, perslab := 1\<rparr>],
      power_largest := int k\<rparr>"
    using slab_init_shape [OF assms] .
  note c = init_classes [OF k refl]
  show step: "\<forall>i. 0 \<le> i \<and> i < power_largest s \<longrightarrow> size_of s i + d \<le> size_of s (i + 1)"
    using c(5) [OF assms(3)] by (auto simp: s class_at_def nat_add_distrib zless_nat_eq_int_zless)
  show "table_ok s"
    using c(1-3) c(4) [of "nat i" for i] step k
    by (auto simp: table_ok_def s class_at_def empty_class_def nat_le_iff le_nat_iff)
  show "\<forall>i. 1 \<le> i \<and> i \<le> power_largest s \<longrightarrow> class_fresh (class_at s i)"
  proof (intro allI impI)
    fix i assume "1 \<le> i \<and> i \<le> power_largest s"
    then have "1 \<le> nat i" "nat i \<le> k" by (auto simp: s)
    then have "class_fresh ((slabclass s) ! nat i)"
      using c(4) [of "nat i"] by (simp add: s)
    then show "class_fresh (class_at s i)" by (simp add: class_at_def)
  qed
qed

lemma growth_weak: "den < num \<Longrightarrow> 0 < den \<Longrightarrow> z + 0 \<le> z * num div (den :: nat)"
  by (simp add: less_eq_div_iff_mult_less_eq)

lemma growth_strict: "17 * den \<le> 16 * num \<Longrightarrow> 0 < den \<Longrightarrow> TINY_SIZE \<le> z \<Longrightarrow> z + 1 \<le> z * num div den"
proof -
  assume a: "17 * den \<le> 16 * num" "0 < den" "TINY_SIZE \<le> z"
  have "16 * ((z + 1) * den) \<le> z * (17 * den)"
    using a(3) by (simp add: slab_consts algebra_simps)
  also have "\<dots> \<le> z * (16 * num)" using a(1) by simp
  finally show ?thesis using a(2) by (simp add: less_eq_div_iff_mult_less_eq)
qed

lemma slab_init_factor:
  "slab_init limit num den s0 = Some s \<Longrightarrow> den < num \<and> mem_limit s = limit"
  by (auto simp: slab_init_def Let_def split: if_splits prod.splits)

section \<open>Blocks\<close>

text \<open>The chunks a class has cut its pages into, and those it can hand out: the free list and
  the untouched end of the last page.\<close>

definition chunks :: "slabclass_t \<Rightarrow> nat list" where
  "chunks c = concat (map (\<lambda>pg. map (\<lambda>k. pg + k * cls_size c) [0..<perslab c]) (slab_list c))"

definition fresh_tail :: "slabclass_t \<Rightarrow> nat list" where
  "fresh_tail c = (case end_page_ptr c of None \<Rightarrow> []
    | Some e \<Rightarrow> map (\<lambda>k. e + k * cls_size c) [0..<end_page_free c])"

definition avail :: "slabclass_t \<Rightarrow> nat list" where
  "avail c = slots c @ fresh_tail c"

definition class_ok :: "slabclass_t \<Rightarrow> bool" where
  "class_ok c \<longleftrightarrow> distinct (avail c) \<and> set (avail c) \<subseteq> set (chunks c) \<and>
    (end_page_ptr c = None \<longleftrightarrow> end_page_free c = 0)"

definition apart :: "nat \<Rightarrow> nat \<Rightarrow> nat \<Rightarrow> nat \<Rightarrow> bool" where
  "apart a n b m \<longleftrightarrow> a + n \<le> b \<or> b + m \<le> a"

definition pages :: "slab \<Rightarrow> (int \<times> nat) set" where
  "pages s = {(i, pg). 1 \<le> i \<and> i \<le> power_largest s \<and> pg \<in> set (slab_list (class_at s i))}"

definition pages_ok :: "slab \<Rightarrow> bool" where
  "pages_ok s \<longleftrightarrow> (\<forall>(i, pg) \<in> pages s. \<forall>(j, pg') \<in> pages s.
    (i = j \<and> pg = pg') \<or> apart pg POWER_BLOCK pg' POWER_BLOCK)"

text \<open>The blocks in use: the address of the header and the number of bytes from there on.\<close>

type_synonym live = "nat \<Rightarrow> nat option"

definition malloced :: "slab \<Rightarrow> nat \<Rightarrow> bool" where
  "malloced s a = (case heads s a of Some h \<Rightarrow> is_malloc h | None \<Rightarrow> False)"

definition chunk_live :: "slab \<Rightarrow> nat \<Rightarrow> nat \<Rightarrow> bool" where
  "chunk_live s a n \<longleftrightarrow> n \<le> POWER_BLOCK \<and>
    (\<exists>h. heads s a = Some h \<and> unat (head_size h) = n) \<and>
    a \<in> set (chunks (class_at s (slab_clsid s n))) - set (avail (class_at s (slab_clsid s n)))"

definition outside :: "slab \<Rightarrow> live \<Rightarrow> nat \<Rightarrow> nat \<Rightarrow> bool" where
  "outside s L a n \<longleftrightarrow>
    (\<forall>(i, pg) \<in> pages s. apart a n pg POWER_BLOCK) \<and>
    (\<forall>b m. L b = Some m \<and> malloced s b \<longrightarrow> apart a n b m)"

definition slab_ok :: "slab \<Rightarrow> live \<Rightarrow> bool" where
  "slab_ok s L \<longleftrightarrow> table_ok s \<and> pages_ok s \<and>
    (\<forall>i. 1 \<le> i \<and> i \<le> power_largest s \<longrightarrow> class_ok (class_at s i)) \<and>
    (\<forall>a n. L a = Some n \<longrightarrow> sizeof_head \<le> n \<and>
      (if malloced s a then outside s (L(a := None)) a n else chunk_live s a n))"

text \<open>What \<open>malloc\<close> and \<open>valloc\<close> promise: memory that overlaps nothing the program holds.\<close>

definition env_fresh :: "sysmem \<Rightarrow> slab \<Rightarrow> live \<Rightarrow> bool" where
  "env_fresh env s L \<longleftrightarrow>
    (\<forall>n a. sys_malloc env n = Some a \<longrightarrow> outside s L a n) \<and>
    (\<forall>n a. sys_valloc env n = Some a \<longrightarrow> outside s L a n)"

lemma size_of_class:
  "table_ok s \<Longrightarrow> 1 \<le> i \<Longrightarrow> i \<le> power_largest s \<Longrightarrow>
    perslab (class_at s i) * size_of s i \<le> POWER_BLOCK \<and> 0 < size_of s i"
  by (force simp: table_ok_def slab_consts)

text \<open>A chunk lies in one page of its class.\<close>

lemma chunk_in_page:
  assumes "table_ok s" and i: "1 \<le> i" "i \<le> power_largest s" and "a \<in> set (chunks (class_at s i))"
  obtains pg k where "(i, pg) \<in> pages s" "a = pg + k * size_of s i" "a + size_of s i \<le> pg + POWER_BLOCK"
proof -
  obtain pg k where pg: "pg \<in> set (slab_list (class_at s i))" "k < perslab (class_at s i)"
      and a: "a = pg + k * size_of s i"
    using assms(4) by (auto simp: chunks_def)
  have "(k + 1) * size_of s i \<le> perslab (class_at s i) * size_of s i"
    using pg(2) by (intro mult_right_mono) simp_all
  then have "a + size_of s i \<le> pg + POWER_BLOCK"
    using size_of_class [OF assms(1) i] a by (simp add: algebra_simps)
  then show ?thesis using that [of pg k] a pg(1) i by (simp add: pages_def)
qed

lemma clsid_range:
  "table_ok s \<Longrightarrow> 0 < n \<Longrightarrow> n \<le> POWER_BLOCK \<Longrightarrow>
    1 \<le> slab_clsid s n \<and> slab_clsid s n \<le> power_largest s \<and> n \<le> size_of s (slab_clsid s n)"
  by (cases rule: slab_clsid_cases [of s n]) auto

lemma sizeof_head_pos: "sizeof_head \<le> n \<Longrightarrow> 0 < n"
  by (simp add: sizeof_head_def)

lemma chunk_live_page:
  assumes "table_ok s" and "chunk_live s a n" and "sizeof_head \<le> n"
  obtains pg k where "(slab_clsid s n, pg) \<in> pages s" "a = pg + k * size_of s (slab_clsid s n)"
    "a + n \<le> pg + POWER_BLOCK" "n \<le> size_of s (slab_clsid s n)"
proof -
  have n: "0 < n" "n \<le> POWER_BLOCK"
    using assms(2,3) by (auto simp: chunk_live_def sizeof_head_def)
  note r = clsid_range [OF assms(1) n]
  have a: "a \<in> set (chunks (class_at s (slab_clsid s n)))"
    using assms(2) by (simp add: chunk_live_def)
  obtain pg k where "(slab_clsid s n, pg) \<in> pages s" "a = pg + k * size_of s (slab_clsid s n)"
      "a + size_of s (slab_clsid s n) \<le> pg + POWER_BLOCK"
    using chunk_in_page [OF assms(1) _ _ a] r by blast
  then show ?thesis using that [of pg k] r by linarith
qed

lemma apart_sym: "apart a n b m \<longleftrightarrow> apart b m a n"
  by (auto simp: apart_def)

lemma slab_okD:
  assumes "slab_ok s L" and "L a = Some n"
  shows "sizeof_head \<le> n" "\<not> malloced s a \<Longrightarrow> chunk_live s a n"
    "malloced s a \<Longrightarrow> outside s (L(a := None)) a n"
  using assms unfolding slab_ok_def by (metis (full_types))+

lemma slab_okI:
  assumes "table_ok s" and "pages_ok s"
    and "\<And>i. 1 \<le> i \<Longrightarrow> i \<le> power_largest s \<Longrightarrow> class_ok (class_at s i)"
    and "\<And>a n. L a = Some n \<Longrightarrow> sizeof_head \<le> n"
    and "\<And>a n. L a = Some n \<Longrightarrow> \<not> malloced s a \<Longrightarrow> chunk_live s a n"
    and "\<And>a n. L a = Some n \<Longrightarrow> malloced s a \<Longrightarrow> outside s (L(a := None)) a n"
  shows "slab_ok s L"
  using assms unfolding slab_ok_def by simp

text \<open>Blocks in use never overlap.\<close>

lemma live_apart:
  assumes ok: "slab_ok s L" and "L a = Some n" "L b = Some m" "a \<noteq> b"
  shows "apart a n b m"
proof -
  have tab: "table_ok s" and len: "sizeof_head \<le> n" "sizeof_head \<le> m"
    using ok assms(2,3) by (auto simp: slab_ok_def)
  have out: "apart x l y k" if xy: "L x = Some l" "L y = Some k" "x \<noteq> y" "malloced s x" for x l y k
  proof -
    have o: "outside s (L(x := None)) x l" and k: "sizeof_head \<le> k"
      using ok xy by (auto simp: slab_ok_def)
    show ?thesis
    proof (cases "malloced s y")
      case False
      then have "chunk_live s y k" using ok xy(2) by (auto simp: slab_ok_def)
      then obtain pg i where "(i, pg) \<in> pages s" "pg \<le> y" "y + k \<le> pg + POWER_BLOCK"
        using chunk_live_page [OF tab _ k] by (metis le_add1)
      then show ?thesis using o by (fastforce simp: outside_def apart_def)
    qed (use o xy in \<open>auto simp: outside_def\<close>)
  qed
  show ?thesis
  proof (cases "malloced s a \<or> malloced s b")
    case False
    then have c: "chunk_live s a n" "chunk_live s b m" using ok assms(2,3) by (auto simp: slab_ok_def)
    obtain pg k where a: "(slab_clsid s n, pg) \<in> pages s" "a = pg + k * size_of s (slab_clsid s n)"
        "a + n \<le> pg + POWER_BLOCK" "n \<le> size_of s (slab_clsid s n)"
      using chunk_live_page [OF tab c(1) len(1)] .
    obtain pg' k' where b: "(slab_clsid s m, pg') \<in> pages s" "b = pg' + k' * size_of s (slab_clsid s m)"
        "b + m \<le> pg' + POWER_BLOCK" "m \<le> size_of s (slab_clsid s m)"
      using chunk_live_page [OF tab c(2) len(2)] .
    consider "slab_clsid s n = slab_clsid s m" "pg = pg'" | "apart pg POWER_BLOCK pg' POWER_BLOCK"
      using ok a(1) b(1) by (fastforce simp: slab_ok_def pages_ok_def)
    then show ?thesis
    proof cases
      case 1
      let ?z = "size_of s (slab_clsid s m)"
      have "k + 1 \<le> k' \<or> k' + 1 \<le> k" using 1 a(2) b(2) assms(4) by fastforce
      then have "(k + 1) * ?z \<le> k' * ?z \<or> (k' + 1) * ?z \<le> k * ?z"
        by (metis mult_le_mono1)
      then show ?thesis using 1 a b by (auto simp: apart_def algebra_simps)
    next
      case 2
      then show ?thesis using a b by (auto simp: apart_def)
    qed
  qed (use out assms apart_sym in blast)
qed

subsection \<open>Updating one class\<close>

lemma class_at_set_class:
  "table_ok s \<Longrightarrow> 1 \<le> i \<Longrightarrow> i \<le> power_largest s \<Longrightarrow> 0 \<le> j \<Longrightarrow>
    class_at (set_class i c s) j = (if j = i then c else class_at s j)"
  by (auto simp: class_at_def set_class_def table_ok_def nth_list_update eq_nat_nat_iff)

lemma set_class_fields [simp]:
  "power_largest (set_class i c s) = power_largest s" "heads (set_class i c s) = heads s"
  "ram (set_class i c s) = ram s" "mem_limit (set_class i c s) = mem_limit s"
  "mem_malloced (set_class i c s) = mem_malloced s"
  by (simp_all add: set_class_def)

lemma size_of_set_class:
  "cls_size c = size_of s i \<Longrightarrow> size_of (set_class i c s) = size_of s"
  by (rule ext) (metis (no_types, lifting) class_at_def set_class_def select_convs(1)
      list_update_beyond not_le nth_list_update slab.ext_inject slab.surjective slab.update_convs(1))

lemma table_ok_set_class:
  assumes "table_ok s" and "1 \<le> i" "i \<le> power_largest s"
    and "cls_size c = size_of s i" and "perslab c = perslab (class_at s i)"
  shows "table_ok (set_class i c s)"
proof -
  have "length (slabclass (set_class i c s)) = length (slabclass s)" by (simp add: set_class_def)
  moreover have ps: "1 \<le> j \<Longrightarrow> perslab (class_at (set_class i c s) j) = perslab (class_at s j)" for j
    using class_at_set_class [OF assms(1-3), of j c] assms(5) by simp
  ultimately show ?thesis
    using assms(1) fun_cong [OF size_of_set_class [OF assms(4)]] ps
    unfolding table_ok_def by (simp only: set_class_fields) simp
qed

lemma slab_clsid_set_class:
  "cls_size c = size_of s i \<Longrightarrow> slab_clsid (set_class i c s) n = slab_clsid s n"
  by (simp add: slab_clsid_def size_of_set_class split: option.split)

lemma pages_set_class:
  assumes "table_ok s" and "1 \<le> i" "i \<le> power_largest s"
  shows "pages (set_class i c s) =
    {(j, pg) \<in> pages s. j \<noteq> i} \<union> {(j, pg). j = i \<and> pg \<in> set (slab_list c)}"
  using class_at_set_class [OF assms] assms(2,3) by (auto simp: pages_def split: if_splits)

lemma chunks_mono:
  "cls_size c' = cls_size c \<Longrightarrow> perslab c' = perslab c \<Longrightarrow> set (slab_list c) \<subseteq> set (slab_list c') \<Longrightarrow>
    set (chunks c) \<subseteq> set (chunks c')"
  by (auto simp: chunks_def)

text \<open>One class changes: it keeps its sizes and its pages, perhaps gains some that lie outside
  everything, and offers no block in use.\<close>

lemma slab_ok_set_class:
  assumes ok: "slab_ok s L" and i: "1 \<le> i" "i \<le> power_largest s"
    and sz: "cls_size c = size_of s i" "perslab c = perslab (class_at s i)"
    and c: "class_ok c" "set (slab_list (class_at s i)) \<subseteq> set (slab_list c)"
    and pages: "pages_ok (set_class i c s)"
    and av: "\<And>b n. L b = Some n \<Longrightarrow> \<not> malloced s b \<Longrightarrow> slab_clsid s n = i \<Longrightarrow> b \<notin> set (avail c)"
    and out: "\<And>b n pg. L b = Some n \<Longrightarrow> malloced s b \<Longrightarrow> pg \<in> set (slab_list c) \<Longrightarrow>
      apart b n pg POWER_BLOCK"
  shows "slab_ok (set_class i c s) L"
proof -
  let ?s = "set_class i c s"
  have tab: "table_ok s" using ok by (simp add: slab_ok_def)
  note at = class_at_set_class [OF tab i] and cid = slab_clsid_set_class [OF sz(1)]
  have mal: "malloced ?s = malloced s" by (simp add: malloced_def fun_eq_iff)
  show ?thesis
  proof (rule slab_okI)
    show "class_ok (class_at ?s j)" if "1 \<le> j" "j \<le> power_largest ?s" for j
      using ok c(1) at [of j c] that by (auto simp: slab_ok_def)
    show "chunk_live ?s b n" if "L b = Some n" "\<not> malloced ?s b" for b n
    proof -
      have live: "chunk_live s b n" "0 < n" "n \<le> POWER_BLOCK"
        using slab_okD [OF ok that(1)] that(2) mal by (auto simp: chunk_live_def dest: sizeof_head_pos)
      then have "0 \<le> slab_clsid s n" using clsid_range [OF tab, of n] by simp
      then show ?thesis
        using live(1) av [OF that(1)] that(2) mal chunks_mono [OF sz c(2)] at [of "slab_clsid s n" c] cid
        by (auto simp: chunk_live_def)
    qed
    show "outside ?s (L(b := None)) b n" if "L b = Some n" "malloced ?s b" for b n
      using slab_okD(3) [OF ok that(1)] that out [OF that(1)] pages_set_class [OF tab i, of c] mal
      by (auto simp: outside_def)
  qed (use ok pages slab_okD(1) [OF ok] table_ok_set_class [OF tab i sz] in simp_all)
qed

lemma slab_ok_same_pages:
  assumes ok: "slab_ok s L" and i: "1 \<le> i" "i \<le> power_largest s"
    and sz: "cls_size c = size_of s i" "perslab c = perslab (class_at s i)"
    and c: "class_ok c" "slab_list c = slab_list (class_at s i)"
    and av: "\<And>b n. L b = Some n \<Longrightarrow> \<not> malloced s b \<Longrightarrow> slab_clsid s n = i \<Longrightarrow> b \<notin> set (avail c)"
  shows "slab_ok (set_class i c s) L"
proof (rule slab_ok_set_class [OF ok i sz c(1) _ _ av])
  have tab: "table_ok s" "pages_ok s" using ok by (simp_all add: slab_ok_def)
  have "pages (set_class i c s) = pages s"
    using i c(2) unfolding pages_set_class [OF tab(1) i] by (auto simp: pages_def)
  then show "pages_ok (set_class i c s)" using tab(2) by (simp add: pages_ok_def)
  show "apart b n pg POWER_BLOCK" if "L b = Some n" "malloced s b" "pg \<in> set (slab_list c)" for b n pg
    using slab_okD(3) [OF ok that(1,2)] that(3) c(2) i by (auto simp: outside_def pages_def)
qed (use c(2) in auto)

text \<open>A block is handed out: its header is written.\<close>

lemma write_head_fields [simp]:
  "power_largest (write_head a b sz s) = power_largest s" "class_at (write_head a b sz s) = class_at s"
  "slabclass (write_head a b sz s) = slabclass s"
  by (simp_all add: write_head_def class_at_def fun_eq_iff)

lemma write_head_same [simp]:
  "table_ok (write_head a b sz s) = table_ok s" "pages (write_head a b sz s) = pages s"
  "pages_ok (write_head a b sz s) = pages_ok s" "slab_clsid (write_head a b sz s) n = slab_clsid s n"
  by (simp_all add: table_ok_def pages_def pages_ok_def slab_clsid_def split: option.split)

lemma malloced_write_head: "malloced (write_head a b sz s) x = (if x = a then b else malloced s x)"
  by (simp add: malloced_def write_head_def)

lemma chunk_live_write_head: "x \<noteq> a \<Longrightarrow> chunk_live (write_head a b sz s) x n = chunk_live s x n"
  by (simp add: chunk_live_def) (simp add: write_head_def)

lemma slab_ok_write_head:
  assumes ok: "slab_ok s L" and fresh: "L a = None" and n: "sizeof_head \<le> unat sz"
    and out: "if b then outside s L a (unat sz) else chunk_live (write_head a b sz s) a (unat sz)"
  shows "slab_ok (write_head a b sz s) (L(a \<mapsto> unat sz))"
proof -
  let ?s = "write_head a b sz s" and ?L = "L(a \<mapsto> unat sz)"
  have clauses: "sizeof_head \<le> k \<and> (malloced ?s x \<longrightarrow> outside ?s (?L(x := None)) x k) \<and>
      (\<not> malloced ?s x \<longrightarrow> chunk_live ?s x k)" if x: "?L x = Some k" for x k
  proof (cases "x = a")
    case True
    then show ?thesis
      using x n out fresh by (auto simp: malloced_write_head outside_def split: if_splits)
  next
    case False
    then have L: "L x = Some k" using x by simp
    have "apart x k a (unat sz)" if "malloced s x" b
      using out L that apart_sym [of x k] by (auto simp: outside_def)
    then show ?thesis
      using False fresh slab_okD [OF ok L]
      by (auto simp: malloced_write_head outside_def chunk_live_write_head split: if_splits)
  qed
  show ?thesis
    by (rule slab_okI) (use ok clauses in \<open>auto simp: slab_ok_def\<close>)
qed

subsection \<open>Every operation keeps the blocks apart\<close>

lemma avail_no_live:
  assumes ok: "slab_ok s L" and i: "1 \<le> i" "i \<le> power_largest s" and a: "a \<in> set (avail (class_at s i))"
  shows "L a = None"
proof (rule ccontr)
  assume "L a \<noteq> None"
  then obtain n where n: "L a = Some n" by blast
  have tab: "table_ok s" and "a \<in> set (chunks (class_at s i))"
    using ok i a by (auto simp: slab_ok_def class_ok_def)
  then obtain pg k where pg: "(i, pg) \<in> pages s" "a = pg + k * size_of s i" "a + size_of s i \<le> pg + POWER_BLOCK"
    using chunk_in_page [OF tab i] by blast
  have z: "0 < size_of s i" using size_of_class [OF tab i] by simp
  show False
  proof (cases "malloced s a")
    case True
    then show False
      using slab_okD [OF ok n] pg z by (fastforce simp: outside_def apart_def sizeof_head_def)
  next
    case False
    note live = slab_okD(2) [OF ok n False]
    obtain pg' k' where pg': "(slab_clsid s n, pg') \<in> pages s"
        "a = pg' + k' * size_of s (slab_clsid s n)" "a + n \<le> pg' + POWER_BLOCK"
      using chunk_live_page [OF tab live slab_okD(1) [OF ok n]] .
    have "0 < n" using slab_okD(1) [OF ok n] by (rule sizeof_head_pos)
    then have "\<not> apart pg POWER_BLOCK pg' POWER_BLOCK" using pg pg' z by (auto simp: apart_def)
    then have "slab_clsid s n = i" using ok pg(1) pg'(1) by (fastforce simp: slab_ok_def pages_ok_def)
    then show False using live a by (simp add: chunk_live_def)
  qed
qed

text \<open>A class gains a page while it has nothing left to offer.\<close>

lemma distinct_steps: "0 < z \<Longrightarrow> distinct (map (\<lambda>k. e + k * z) [0..<n])" for e z n :: nat
  by (auto simp: distinct_map inj_on_def)

lemma perslab_pos:
  assumes "table_ok s" and "1 \<le> i" "i \<le> power_largest s"
  shows "0 < perslab (class_at s i) \<and> 0 < size_of s i"
proof -
  have "size_of s i \<le> size_of s (power_largest s)"
    using size_table.sorted [OF table_ok_size_table [OF assms(1)], of i "power_largest s"] assms(2,3)
    by simp
  then show ?thesis
    using assms by (auto simp: table_ok_def div_greater_zero_iff slab_consts)
qed

lemma add_page_ok:
  assumes ok: "slab_ok s L" and i: "1 \<le> i" "i \<le> power_largest s"
    and none: "avail (class_at s i) = []" and out: "outside s L ptr POWER_BLOCK"
    and c: "c = (class_at s i)\<lparr>list_size := l, end_page_ptr := Some ptr,
      end_page_free := perslab (class_at s i), slab_list := slab_list (class_at s i) @ [ptr]\<rparr>"
  shows "slab_ok (set_class i c s) L"
proof (rule slab_ok_set_class [OF ok i])
  let ?c = "class_at s i"
  have tab: "table_ok s" using ok by (simp add: slab_ok_def)
  note pos = perslab_pos [OF tab i]
  show "cls_size c = size_of s i" "perslab c = perslab ?c" "set (slab_list ?c) \<subseteq> set (slab_list c)"
    by (auto simp: c)
  have tail: "avail c = map (\<lambda>k. ptr + k * size_of s i) [0..<perslab ?c]"
    using none by (simp add: c avail_def fresh_tail_def)
  then show "class_ok c"
    using pos distinct_steps [of "size_of s i" ptr] by (auto simp: class_ok_def chunks_def c)
  have "pages (set_class i c s) = insert (i, ptr) (pages s)"
    using i unfolding pages_set_class [OF tab i] by (auto simp: c pages_def)
  moreover have "\<forall>(j, pg) \<in> pages s. apart ptr POWER_BLOCK pg POWER_BLOCK \<and> apart pg POWER_BLOCK ptr POWER_BLOCK"
    using out by (auto simp: outside_def apart_def)
  ultimately show "pages_ok (set_class i c s)"
    using ok unfolding slab_ok_def pages_ok_def by auto
  show "b \<notin> set (avail c)" if b: "L b = Some n" "\<not> malloced s b" "slab_clsid s n = i" for b n
  proof
    assume "b \<in> set (avail c)"
    then obtain k where k: "k < perslab ?c" "b = ptr + k * size_of s i" using tail by auto
    have "(k + 1) * size_of s i \<le> perslab ?c * size_of s i"
      using k(1) by (intro mult_right_mono) simp_all
    then have "ptr \<le> b" "b + size_of s i \<le> ptr + POWER_BLOCK"
      using k size_of_class [OF tab i] by (simp_all add: algebra_simps)
    moreover obtain pg where "(i, pg) \<in> pages s" "pg \<le> b" "b + n \<le> pg + POWER_BLOCK"
      using chunk_live_page [OF tab slab_okD(2) [OF ok b(1,2)] slab_okD(1) [OF ok b(1)]] b(3)
      by (metis le_add1)
    ultimately show False
      using out pos slab_okD(1) [OF ok b(1)] by (fastforce simp: outside_def apart_def sizeof_head_def)
  qed
  show "apart b n pg POWER_BLOCK" if "L b = Some n" "malloced s b" "pg \<in> set (slab_list c)" for b n pg
    using slab_okD(3) [OF ok that(1,2)] that out apart_sym [of b n] i
    by (auto simp: c outside_def pages_def)
qed

lemma slab_ok_counters [simp]:
  "slab_ok (s\<lparr>mem_malloced := x\<rparr>) L = slab_ok s L" "slab_ok (s\<lparr>ram := m\<rparr>) L = slab_ok s L"
  by (simp_all add: slab_ok_def table_ok_def pages_ok_def pages_def malloced_def outside_def
      chunk_live_def class_at_def slab_clsid_def cong: option.case_cong)

lemma class_at_counters [simp]: "class_at (s\<lparr>mem_malloced := x\<rparr>) = class_at s"
  by (simp add: class_at_def fun_eq_iff)

lemma slab_clsid_counters [simp]: "slab_clsid (s\<lparr>mem_malloced := x\<rparr>) n = slab_clsid s n"
  by (simp add: slab_clsid_def cong: option.case_cong)

lemma resize_list_ok:
  assumes ok: "slab_ok s L" and i: "1 \<le> i" "i \<le> power_largest s"
  shows "slab_ok (set_class i ((class_at s i)\<lparr>list_size := l\<rparr>) s) L"
proof (rule slab_ok_same_pages [OF ok i])
  let ?c = "class_at s i"
  have same: "avail (?c\<lparr>list_size := l\<rparr>) = avail ?c" "chunks (?c\<lparr>list_size := l\<rparr>) = chunks ?c"
    by (simp_all add: avail_def fresh_tail_def chunks_def split: option.split)
  show "class_ok (?c\<lparr>list_size := l\<rparr>)"
    using ok i same by (simp add: slab_ok_def class_ok_def)
  show "b \<notin> set (avail (?c\<lparr>list_size := l\<rparr>))"
    if "L b = Some n" "\<not> malloced s b" "slab_clsid s n = i" for b n
    using slab_okD(2) [OF ok that(1,2)] that(3) same by (simp add: chunk_live_def)
qed simp_all

lemma newslab_ok:
  assumes ok: "slab_ok s L" and env: "env_fresh env s L" and i: "1 \<le> i" "i \<le> power_largest s"
    and none: "avail (class_at s i) = []" and step: "do_slabs_newslab env i s = (r, s')"
  shows "slab_ok s' L \<and> power_largest s' = power_largest s \<and> heads s' = heads s \<and> ram s' = ram s \<and>
    (\<forall>n. slab_clsid s' n = slab_clsid s n)"
proof -
  let ?c = "class_at s i"
  have tab: "table_ok s" using ok by (simp add: slab_ok_def)
  obtain k p where grow: "grow_slab_list env ?c = (k, p)" by fastforce
  then obtain l where p: "p = ?c\<lparr>list_size := l\<rparr>"
    by (auto simp: grow_slab_list_def Let_def split: if_splits intro: that [of "list_size ?c"])
  have out: "outside s L ptr POWER_BLOCK" if "sys_valloc env POWER_BLOCK = Some ptr" for ptr
    using env that by (simp add: env_fresh_def)
  show ?thesis
    using step grow ok resize_list_ok [OF ok i] add_page_ok [OF ok i none out refl] i
    by (auto simp: do_slabs_newslab_def Let_def p slab_clsid_set_class split: if_splits option.splits)
qed

text \<open>A chunk the class offers is taken out and given a header.\<close>

lemma take_chunk_ok:
  assumes ok: "slab_ok s L" and i: "1 \<le> i" "i \<le> power_largest s"
    and n: "slab_clsid s (unat sz) = i" "sizeof_head \<le> unat sz" "unat sz \<le> POWER_BLOCK"
    and c: "cls_size c = size_of s i" "perslab c = perslab (class_at s i)"
      "slab_list c = slab_list (class_at s i)" "class_ok c"
    and a: "a \<in> set (avail (class_at s i))" "set (avail c) = set (avail (class_at s i)) - {a}"
  shows "slab_ok (write_head a False sz (set_class i c s)) (L(a \<mapsto> unat sz))"
proof -
  let ?s = "set_class i c s"
  have tab: "table_ok s" using ok by (simp add: slab_ok_def)
  have "slab_ok ?s L"
    using slab_okD(2) [OF ok] c a(2)
    by (intro slab_ok_same_pages [OF ok i]) (auto simp: chunk_live_def)
  moreover have "chunk_live (write_head a False sz ?s) a (unat sz)"
  proof -
    have "unat (ucast sz :: u32) = unat sz"
      using n(3) by (simp add: unsigned_ucast_eq take_bit_nat_eq_self slab_consts)
    moreover have "a \<in> set (chunks c)"
      using ok i a(1) chunks_mono [OF c(1,2)] c(3) by (auto simp: slab_ok_def class_ok_def)
    moreover have "class_at ?s i = c" using class_at_set_class [OF tab i, of i c] i by simp
    ultimately show ?thesis
      using n a(2) slab_clsid_set_class [OF c(1)]
      by (simp add: chunk_live_def) (simp add: write_head_def)
  qed
  ultimately show ?thesis
    using avail_no_live [OF ok i a(1)] n(2) by (intro slab_ok_write_head) simp_all
qed

lemma fresh_tail_Cons:
  "end_page_ptr c = Some e \<Longrightarrow> end_page_free c = Suc f \<Longrightarrow>
    fresh_tail c = e # map (\<lambda>k. (e + cls_size c) + k * cls_size c) [0..<f]"
proof -
  assume e: "end_page_ptr c = Some e" "end_page_free c = Suc f"
  have "map (\<lambda>k. e + k * cls_size c) [0..<Suc f] = e # map (\<lambda>k. e + Suc k * cls_size c) [0..<f]"
    by (simp only: upt_conv_Cons [of 0] zero_less_Suc list.map map_Suc_upt [symmetric] map_map o_def) simp
  then show ?thesis using e by (simp add: fresh_tail_def add.assoc)
qed

lemma take_slot:
  assumes "class_ok c" and "slots c \<noteq> []"
  shows "class_ok (c\<lparr>slots := butlast (slots c)\<rparr>)" and "last (slots c) \<in> set (avail c)"
    and "set (avail (c\<lparr>slots := butlast (slots c)\<rparr>)) = set (avail c) - {last (slots c)}"
proof -
  obtain xs x where xs: "slots c = xs @ [x]" using assms(2) by (metis rev_exhaust)
  have tail: "fresh_tail (c\<lparr>slots := v\<rparr>) = fresh_tail c" "chunks (c\<lparr>slots := v\<rparr>) = chunks c" for v
    by (simp_all add: fresh_tail_def chunks_def split: option.split)
  show "class_ok (c\<lparr>slots := butlast (slots c)\<rparr>)" "last (slots c) \<in> set (avail c)"
    "set (avail (c\<lparr>slots := butlast (slots c)\<rparr>)) = set (avail c) - {last (slots c)}"
    using assms(1) by (auto simp: class_ok_def avail_def xs tail)
qed

lemma take_tail:
  assumes ok: "class_ok c" and e: "end_page_ptr c = Some e" and "slots c = []"
    and c': "c' = (if end_page_free c - 1 \<noteq> 0
      then c\<lparr>end_page_free := end_page_free c - 1, end_page_ptr := Some (e + cls_size c)\<rparr>
      else c\<lparr>end_page_free := end_page_free c - 1, end_page_ptr := None\<rparr>)"
  shows "class_ok c'" and "e \<in> set (avail c)" and "set (avail c') = set (avail c) - {e}"
proof -
  obtain f where f: "end_page_free c = Suc f" using ok e by (cases "end_page_free c") (auto simp: class_ok_def)
  have av: "avail c = e # avail c'"
    using assms(3) fresh_tail_Cons [OF e f] by (auto simp: avail_def c' f fresh_tail_def)
  moreover have "chunks c' = chunks c" "end_page_ptr c' = None \<longleftrightarrow> end_page_free c' = 0"
    by (auto simp: c' chunks_def f)
  ultimately show "class_ok c'" "e \<in> set (avail c)" "set (avail c') = set (avail c) - {e}"
    using ok by (auto simp: class_ok_def)
qed

text \<open>The block a call of \<open>slab_alloc\<close> hands out.\<close>

definition handed_out :: "live \<Rightarrow> nat option \<Rightarrow> nat \<Rightarrow> live \<Rightarrow> bool" where
  "handed_out L r n L' = (case r of
      None \<Rightarrow> L' = L
    | Some ptr \<Rightarrow> sizeof_head \<le> ptr \<and> L (ptr - sizeof_head) = None \<and>
        L' = L(ptr - sizeof_head \<mapsto> n))"

lemma alloc_class_take:
  assumes ok: "slab_ok s L" and i: "1 \<le> i" "i \<le> power_largest s"
    and n: "slab_clsid s (unat sz) = i" "sizeof_head \<le> unat sz" "unat sz \<le> POWER_BLOCK"
    and some: "end_page_ptr (class_at s i) \<noteq> None \<or> slots (class_at s i) \<noteq> []"
    and step: "alloc_class env i sz s = (r, s')"
  shows "\<exists>L'. handed_out L r (unat sz) L' \<and> slab_ok s' L' \<and> r \<noteq> None"
proof -
  let ?c = "class_at s i"
  have c: "class_ok ?c" using ok i by (simp add: slab_ok_def)
  show ?thesis
  proof (cases "slots ?c = []")
    case False
    then have "r = Some (last (slots ?c) + sizeof_head)" and
      "s' = write_head (last (slots ?c)) False sz (set_class i (?c\<lparr>slots := butlast (slots ?c)\<rparr>) s)"
      using step some by (auto simp: alloc_class_def Let_def split: if_splits)
    then show ?thesis
      using take_chunk_ok [OF ok i n _ _ _ take_slot [OF c False]]
        avail_no_live [OF ok i take_slot(2) [OF c False]]
      by (simp add: handed_out_def)
  next
    case True
    then obtain e where e: "end_page_ptr ?c = Some e" using some by auto
    let ?c' = "if end_page_free ?c - 1 \<noteq> 0
      then ?c\<lparr>end_page_free := end_page_free ?c - 1, end_page_ptr := Some (e + cls_size ?c)\<rparr>
      else ?c\<lparr>end_page_free := end_page_free ?c - 1, end_page_ptr := None\<rparr>"
    have "r = Some (e + sizeof_head)" "s' = write_head e False sz (set_class i ?c' s)"
      using step e True by (auto simp: alloc_class_def Let_def split: if_splits)
    then show ?thesis
      using take_chunk_ok [OF ok i n _ _ _ take_tail [OF c e True refl]]
        avail_no_live [OF ok i take_tail(2) [OF c e True refl]]
      by (simp add: handed_out_def)
  qed
qed

lemma newslab_page:
  assumes "do_slabs_newslab env i s = (r, s')" "r \<noteq> 0" and "table_ok s" "1 \<le> i" "i \<le> power_largest s"
  shows "end_page_ptr (class_at s' i) \<noteq> None"
  using assms class_at_set_class [OF assms(3-5), of i]
  by (auto simp: do_slabs_newslab_def Let_def split: if_splits option.splits prod.splits)

lemma alloc_class_ok:
  assumes ok: "slab_ok s L" and env: "env_fresh env s L" and i: "1 \<le> i" "i \<le> power_largest s"
    and n: "slab_clsid s (unat sz) = i" "sizeof_head \<le> unat sz" "unat sz \<le> POWER_BLOCK"
    and step: "alloc_class env i sz s = (r, s')"
  shows "\<exists>L'. handed_out L r (unat sz) L' \<and> slab_ok s' L'"
proof (cases "end_page_ptr (class_at s i) \<noteq> None \<or> slots (class_at s i) \<noteq> []")
  case True
  then show ?thesis using alloc_class_take [OF ok i n True step] by blast
next
  case False
  then have none: "avail (class_at s i) = []" by (simp add: avail_def fresh_tail_def)
  obtain k t where new: "do_slabs_newslab env i s = (k, t)" by fastforce
  note t = newslab_ok [OF ok env i none new]
  show ?thesis
  proof (cases "k = 0")
    case True
    then have "r = None" "s' = t" using False new step by (auto simp: alloc_class_def)
    then show ?thesis using t by (simp add: handed_out_def)
  next
    case k: False
    have page: "end_page_ptr (class_at t i) \<noteq> None"
      using newslab_page [OF new k _ i] ok by (simp add: slab_ok_def)
    then have "alloc_class env i sz t = (r, s')"
      using step False new k by (auto simp: alloc_class_def Let_def split: if_splits)
    then show ?thesis
      using alloc_class_take [of t L i sz env r s'] t i n page by auto
  qed
qed

lemma unat_head_sum:
  "unat sz + sizeof_head < 2 ^ 64 \<Longrightarrow> unat (sz + word_of_nat sizeof_head) = unat sz + sizeof_head" for sz :: u64
  by (simp add: sizeof_head_def unat_word_ariths)

lemma slab_alloc_ok:
  assumes ok: "slab_ok s L" and env: "env_fresh env s L" and sz: "unat sz + sizeof_head < 2 ^ 64"
  obtains r s' L' where "slab_alloc env sz s = Some (r, s')" "handed_out L r (unat sz + sizeof_head) L'"
    "slab_ok s' L'"
proof -
  let ?sz = "sz + word_of_nat sizeof_head"
  have tab: "table_ok s" and pl: "power_largest s > 0" using ok by (auto simp: slab_ok_def table_ok_def)
  have n: "unat ?sz = unat sz + sizeof_head" "0 < unat ?sz" "sizeof_head \<le> unat ?sz"
    using unat_head_sum [OF sz] by (simp_all add: sizeof_head_def)
  from slab_clsid_cases [OF tab n(2)] show ?thesis
  proof cases
    case 1
    obtain r s' where step: "alloc_class env (slab_clsid s (unat ?sz)) ?sz s = (r, s')" by fastforce
    then show ?thesis
      using alloc_class_ok [OF ok env 1(1,2) refl n(3) 1(4) step] that n(1) 1 pl
      by (auto simp: slab_alloc_def Let_def POWER_SMALLEST_def)
  next
    case 2
    show ?thesis
    proof (cases "sys_malloc env (unat ?sz)")
      case None
      then show ?thesis
        using that [of None s L] ok 2(1) pl
        by (simp add: slab_alloc_def alloc_malloc_def Let_def POWER_SMALLEST_def handed_out_def)
    next
      case (Some a)
      then have out: "outside s L a (unat ?sz)" using env by (simp add: env_fresh_def)
      have "L a = None"
      proof (rule ccontr)
        assume "L a \<noteq> None"
        then obtain m where m: "L a = Some m" by blast
        show False
        proof (cases "malloced s a")
          case True
          then show False using out m n(2) slab_okD(1) [OF ok m]
            by (fastforce simp: outside_def apart_def sizeof_head_def)
        next
          case False
          then obtain pg i where "(i, pg) \<in> pages s" "pg \<le> a" "a + m \<le> pg + POWER_BLOCK"
            using chunk_live_page [OF tab slab_okD(2) [OF ok m] slab_okD(1) [OF ok m]]
            by (metis le_add1)
          then show False using out n(2) slab_okD(1) [OF ok m]
            by (fastforce simp: outside_def apart_def sizeof_head_def)
        qed
      qed
      then show ?thesis
        using that [of "Some (a + sizeof_head)" "write_head a True ?sz s" "L(a \<mapsto> unat ?sz)"]
          slab_ok_write_head [OF ok _ n(3), of a True] out 2(1) pl Some n(1)
        by (simp add: slab_alloc_def alloc_malloc_def Let_def POWER_SMALLEST_def handed_out_def)
    qed
  qed
qed

lemma slab_ok_static:
  assumes "slab_ok s L"
  shows "table_ok s" "pages_ok s" "1 \<le> i \<Longrightarrow> i \<le> power_largest s \<Longrightarrow> class_ok (class_at s i)"
  using assms by (simp_all add: slab_ok_def)

lemma slab_ok_forget:
  assumes ok: "slab_ok s L"
  shows "slab_ok s (L(a := None))"
proof (rule slab_okI)
  fix b n assume "(L(a := None)) b = Some n"
  then have L: "L b = Some n" by (simp split: if_splits)
  show "sizeof_head \<le> n" using slab_okD(1) [OF ok L] .
  show "chunk_live s b n" if "\<not> malloced s b" using slab_okD(2) [OF ok L that] .
  show "outside s (L(a := None, b := None)) b n" if "malloced s b"
    using slab_okD(3) [OF ok L that] by (auto simp: outside_def split: if_splits)
qed (use slab_ok_static [OF ok] in simp_all)

text \<open>What \<open>slab_free\<close> does to a chunk, when its class is the one the header's size leads to.\<close>

lemma slab_free_chunk:
  assumes "heads s a = Some h" "\<not> is_malloc h" "slab_clsid s (unat (head_size h)) = i" "1 \<le> i" "i < 256"
  shows "\<exists>t. slab_free env (Some (a + sizeof_head)) s = Some
    (if length (slots (class_at s i)) = sl_total (class_at s i) \<and>
        \<not> sys_realloc env ((if sl_total (class_at s i) \<noteq> 0 then sl_total (class_at s i) * 2 else 1024) * 8)
     then s
     else set_class i ((class_at s i)\<lparr>sl_total := t, slots := slots (class_at s i) @ [a]\<rparr>) s)"
  using assms
  by (intro exI [where x = "if length (slots (class_at s i)) = sl_total (class_at s i)
      then if sl_total (class_at s i) \<noteq> 0 then sl_total (class_at s i) * 2 else 1024
      else sl_total (class_at s i)"])
    (simp add: slab_free_def Let_def POWER_SMALLEST_def)

lemma slab_free_ok:
  assumes ok: "slab_ok s L" and a: "L a = Some n"
  obtains s' where "slab_free env (Some (a + sizeof_head)) s = Some s'" "slab_ok s' (L(a := None))"
    "ram s' = ram s"
proof -
  note tab = slab_ok_static(1) [OF ok] and keep = slab_ok_forget [OF ok, of a]
  show ?thesis
  proof (cases "malloced s a")
    case True
    let ?s = "s\<lparr>heads := (heads s)(a := None)\<rparr>"
    have same: "class_at ?s = class_at s" "slab_clsid ?s k = slab_clsid s k" "pages ?s = pages s" for k
      by (simp_all add: class_at_def slab_clsid_def pages_def fun_eq_iff cong: option.case_cong)
    then have "table_ok ?s" "pages_ok ?s"
      using ok by (simp_all add: slab_ok_def table_ok_def pages_ok_def)
    moreover have "malloced ?s b \<longleftrightarrow> malloced s b" "chunk_live ?s b k \<longleftrightarrow> chunk_live s b k" if "b \<noteq> a" for b k
      using that by (simp_all add: malloced_def chunk_live_def same)
    ultimately have "slab_ok ?s (L(a := None))"
      using slab_ok_static [OF ok] slab_okD [OF keep]
      by (intro slab_okI) (auto simp: outside_def same split: if_splits)
    moreover have "slab_free env (Some (a + sizeof_head)) s = Some ?s"
      using True by (auto simp: slab_free_def malloced_def split: option.splits)
    ultimately show ?thesis using that by simp
  next
    case False
    note live = slab_okD(2) [OF ok a False]
    let ?i = "slab_clsid s n"
    have i: "1 \<le> ?i" "?i \<le> power_largest s" "power_largest s \<le> int POWER_LARGEST"
      using clsid_range [OF tab] live tab slab_okD(1) [OF ok a]
      by (auto simp: chunk_live_def table_ok_def dest: sizeof_head_pos)
    then have byte: "?i < 256" by (simp add: slab_consts)
    obtain h where h: "heads s a = Some h" "unat (head_size h) = n" "\<not> is_malloc h"
      using live False by (auto simp: chunk_live_def malloced_def)
    let ?c = "\<lambda>t. (class_at s ?i)\<lparr>sl_total := t, slots := slots (class_at s ?i) @ [a]\<rparr>"
    have c: "class_ok (?c t)" "set (avail (?c t)) = insert a (set (avail (class_at s ?i)))" for t
    proof -
      have "fresh_tail (?c t) = fresh_tail (class_at s ?i)" "chunks (?c t) = chunks (class_at s ?i)"
        by (simp_all add: fresh_tail_def chunks_def split: option.split)
      then show "class_ok (?c t)" "set (avail (?c t)) = insert a (set (avail (class_at s ?i)))"
        using ok i live by (auto simp: slab_ok_def class_ok_def avail_def chunk_live_def)
    qed
    have new: "slab_ok (set_class ?i (?c t) s) (L(a := None))" for t
    proof (rule slab_ok_same_pages [OF keep i(1,2)])
      show "b \<notin> set (avail (?c t))"
        if "(L(a := None)) b = Some m" "\<not> malloced s b" "slab_clsid s m = ?i" for b m
        using slab_okD(2) [OF keep that(1,2)] that(1,3) c(2) by (auto simp: chunk_live_def split: if_splits)
    qed (simp_all add: c)
    obtain t b where "slab_free env (Some (a + sizeof_head)) s =
        Some (if b then s else set_class ?i (?c t) s)"
      using slab_free_chunk [OF h(1,3) _ i(1) byte] h(2) by blast
    then show ?thesis using that keep new by (cases b) auto
  qed
qed

subsection \<open>What a call leaves alone\<close>

lemma newslab_frame:
  "do_slabs_newslab env i s = (r, s') \<Longrightarrow> ram s' = ram s \<and> heads s' = heads s"
  by (auto simp: do_slabs_newslab_def Let_def split: if_splits option.splits prod.splits)

lemma write_head_frame:
  "ram (write_head a b sz s) = ram s"
  "heads (write_head a b sz s) = (heads s)(a \<mapsto> \<lparr>is_malloc = b, head_size = ucast sz\<rparr>)"
  by (simp_all add: write_head_def)

lemma alloc_class_frame:
  assumes "alloc_class env i sz s = (r, s')"
  shows "ram s' = ram s \<and> (case r of None \<Rightarrow> heads s' = heads s
    | Some ptr \<Rightarrow> sizeof_head \<le> ptr \<and>
        heads s' = (heads s)(ptr - sizeof_head \<mapsto> \<lparr>is_malloc = False, head_size = ucast sz\<rparr>))"
proof -
  let ?p = "class_at s i"
  obtain ok t where pre: "(if end_page_ptr ?p \<noteq> None then (1, s)
      else if length (slots ?p) \<noteq> 0 then (1, s) else do_slabs_newslab env i s) = (ok, t)"
    by fastforce
  then have t: "ram t = ram s" "heads t = heads s"
    by (auto split: if_splits dest: newslab_frame)
  show ?thesis
    using assms pre t
    by (auto simp: alloc_class_def Let_def write_head_frame split: if_splits option.splits)
qed

lemma slab_alloc_frame:
  assumes "slab_alloc env sz s = Some (r, s')"
  shows "ram s' = ram s \<and> (case r of None \<Rightarrow> heads s' = heads s
    | Some ptr \<Rightarrow> sizeof_head \<le> ptr \<and> (\<exists>b. heads s' = (heads s)(ptr - sizeof_head \<mapsto>
        \<lparr>is_malloc = b, head_size = ucast (sz + word_of_nat sizeof_head)\<rparr>)))"
  using assms
  by (auto simp: slab_alloc_def alloc_malloc_def Let_def write_head_frame
      split: if_splits option.splits dest!: alloc_class_frame)

lemma slab_free_frame:
  "slab_free env (Some (a + sizeof_head)) s = Some s' \<Longrightarrow>
    ram s' = ram s \<and> (\<forall>b. b \<noteq> a \<longrightarrow> heads s' b = heads s b)"
  by (auto simp: slab_free_def Let_def split: if_splits option.splits)

text \<open>The header of every block in use holds its size, in the 32 bits it has for it.\<close>

definition heads_ok :: "slab \<Rightarrow> live \<Rightarrow> bool" where
  "heads_ok s L \<longleftrightarrow> (\<forall>a n. L a = Some n \<longrightarrow> (\<exists>h. heads s a = Some h \<and> head_size h = word_of_nat n))"

definition slab_inv :: "slab \<Rightarrow> live \<Rightarrow> bool" where
  "slab_inv s L \<longleftrightarrow> slab_ok s L \<and> heads_ok s L"

lemma ucast_head_sum:
  "unat sz + sizeof_head < 2 ^ 64 \<Longrightarrow>
    (ucast (sz + word_of_nat sizeof_head) :: u32) = word_of_nat (unat sz + sizeof_head)" for sz :: u64
  using unat_head_sum [of sz] by (metis of_nat_unat)

lemma slab_inv_alloc:
  assumes inv: "slab_inv s L" and env: "env_fresh env s L" and sz: "unat sz + sizeof_head < 2 ^ 64"
  shows "\<exists>r s' L'. slab_alloc env sz s = Some (r, s') \<and> handed_out L r (unat sz + sizeof_head) L' \<and>
    slab_inv s' L'"
proof -
  obtain r s' L' where step: "slab_alloc env sz s = Some (r, s')"
    "handed_out L r (unat sz + sizeof_head) L'" "slab_ok s' L'"
    using slab_alloc_ok [OF _ env sz] inv by (auto simp: slab_inv_def)
  moreover have "heads_ok s' L'"
    using slab_alloc_frame [OF step(1)] step(2) inv ucast_head_sum [OF sz]
    by (auto simp: handed_out_def heads_ok_def slab_inv_def split: option.splits)
  ultimately show ?thesis by (auto simp: slab_inv_def)
qed

lemma slab_inv_free:
  assumes inv: "slab_inv s L" and a: "L a = Some n"
  shows "\<exists>s'. slab_free env (Some (a + sizeof_head)) s = Some s' \<and> slab_inv s' (L(a := None))"
proof -
  obtain s' where step: "slab_free env (Some (a + sizeof_head)) s = Some s'" "slab_ok s' (L(a := None))"
    using slab_free_ok [of s L a n env] inv a by (auto simp: slab_inv_def)
  moreover have "heads_ok s' (L(a := None))"
    using slab_free_frame [OF step(1)] inv by (auto simp: heads_ok_def slab_inv_def)
  ultimately show ?thesis by (auto simp: slab_inv_def)
qed

lemma slab_init_inv:
  assumes "slab_init limit num den s0 = Some s" and "0 < den"
  shows "slab_inv s (\<lambda>_. None)"
proof -
  have grow: "z + 0 \<le> z * num div den" for z
    using growth_weak slab_init_factor [OF assms(1)] assms(2) by blast
  note tab = slab_init_steps [OF assms(1), of 0, OF grow]
  have "class_ok c" "slab_list c = []" if "class_fresh c" for c
  proof -
    have "slots c = [] \<and> end_page_ptr c = None \<and> end_page_free c = 0 \<and> slab_list c = []"
      by (subst (1 2 3 4) that [unfolded class_fresh_def]) (simp add: empty_class_def)
    then show "class_ok c" "slab_list c = []" by (simp_all add: class_ok_def avail_def fresh_tail_def)
  qed
  then show ?thesis
    using tab by (auto simp: slab_inv_def heads_ok_def slab_ok_def pages_ok_def pages_def)
qed

section \<open>The interface\<close>

text \<open>States reached by calls of an allocator, with the list of the blocks its callers hold, each with its address and size:
  every call of \<open>alloc\<close> that returns a block puts one more on the list, whatever its address, so that a block
  handed out twice is on it twice. A caller frees only what it holds, and the system's memory is fresh at every call.\<close>

inductive heap_reach for fresh alloc free and s0 :: 's where
  start: "heap_reach fresh alloc free s0 s0 []"
| alloc: "heap_reach fresh alloc free s0 s bs \<Longrightarrow> fresh env s (map_of bs) \<Longrightarrow> unat (sz :: u64) + sizeof_head < 2 ^ 64 \<Longrightarrow>
    alloc env sz s = Some (Some ptr, s') \<Longrightarrow>
    heap_reach fresh alloc free s0 s' ((ptr - sizeof_head, unat sz + sizeof_head) # bs)"
| alloc_null: "heap_reach fresh alloc free s0 s bs \<Longrightarrow> fresh env s (map_of bs) \<Longrightarrow> unat sz + sizeof_head < 2 ^ 64 \<Longrightarrow>
    alloc env sz s = Some (None, s') \<Longrightarrow> heap_reach fresh alloc free s0 s' bs"
| free: "heap_reach fresh alloc free s0 s bs \<Longrightarrow> (a, n) \<in> set bs \<Longrightarrow>
    free env (Some (a + sizeof_head)) s = Some s' \<Longrightarrow> heap_reach fresh alloc free s0 s' (remove1 (a, n) bs)"

lemma map_of_remove1:
  assumes "distinct (map fst bs)" and "(a, n) \<in> set bs"
  shows "map_of (remove1 (a, n) bs) = (map_of bs)(a := None) \<and> distinct (map fst (remove1 (a, n) bs))"
  using assms
proof (induction bs)
  case (Cons x bs)
  have "map_of bs a = None" if "x = (a, n)" using that Cons.prems(1) by (simp add: map_of_eq_None_iff)
  moreover have "fst ` set (remove1 (a, n) bs) \<subseteq> fst ` set bs" using set_remove1_subset [of "(a, n)" bs] by (rule image_mono)
  moreover have "fst x \<noteq> a" if "x \<noteq> (a, n)" using that Cons.prems by (cases x) (auto simp: rev_image_eqI)
  ultimately show ?case
    using Cons by (auto simp: fun_upd_twist fun_upd_idem)
qed auto

text \<open>What the callers of an allocator rely on.\<close>

locale allocator =
  fixes inv :: "'s \<Rightarrow> live \<Rightarrow> bool"
    and fresh :: "'e \<Rightarrow> 's \<Rightarrow> live \<Rightarrow> bool"
    and alloc :: "'e \<Rightarrow> u64 \<Rightarrow> 's \<Rightarrow> (nat option \<times> 's) option"
    and free :: "'e \<Rightarrow> nat option \<Rightarrow> 's \<Rightarrow> 's option"
  assumes alloc_inv: "inv s L \<Longrightarrow> fresh env s L \<Longrightarrow> unat sz + sizeof_head < 2 ^ 64 \<Longrightarrow>
      \<exists>r s' L'. alloc env sz s = Some (r, s') \<and> handed_out L r (unat sz + sizeof_head) L' \<and> inv s' L'"
    and free_inv: "inv s L \<Longrightarrow> L a = Some n \<Longrightarrow>
      \<exists>s'. free env (Some (a + sizeof_head)) s = Some s' \<and> inv s' (L(a := None))"
    and inv_apart: "inv s L \<Longrightarrow> L a = Some n \<Longrightarrow> L b = Some m \<Longrightarrow> a \<noteq> b \<Longrightarrow> apart a n b m"
begin

lemma reach_inv:
  "heap_reach fresh alloc free s0 s bs \<Longrightarrow> inv s0 (\<lambda>_. None) \<Longrightarrow> distinct (map fst bs) \<and> inv s (map_of bs)"
proof (induction rule: heap_reach.induct)
  case (alloc s bs env sz ptr s')
  then have "handed_out (map_of bs) (Some ptr) (unat sz + sizeof_head) (map_of ((ptr - sizeof_head, unat sz + sizeof_head) # bs)) \<and>
      inv s' (map_of ((ptr - sizeof_head, unat sz + sizeof_head) # bs))"
    using alloc_inv [of s "map_of bs" env sz] by (auto simp: handed_out_def)
  then show ?case using alloc.IH alloc.prems by (simp add: handed_out_def map_of_eq_None_iff del: fun_upd_apply)
next
  case (alloc_null s bs env sz s')
  then show ?case using alloc_inv [of s "map_of bs" env sz] by (auto simp: handed_out_def)
next
  case (free s bs a n env s')
  then show ?case using free_inv [of s "map_of bs" a n env] map_of_remove1 [of bs a n] by (auto simp del: fun_upd_apply)
qed simp

text \<open>A block on the list is in use, and no other on it has its address.\<close>

lemma reach_live:
  assumes "heap_reach fresh alloc free s0 s bs" and "inv s0 (\<lambda>_. None)" and "(a, n) \<in> set bs"
  shows "inv s (map_of bs)" "map_of bs a = Some n"
  using reach_inv [OF assms(1,2)] assms(3) by simp_all

lemma reach_apart:
  assumes "heap_reach fresh alloc free s0 s bs" and "inv s0 (\<lambda>_. None)"
    and "i < j" and "j < length bs" and "bs ! i = (a, n)" and "bs ! j = (b, m)"
  shows "apart a n b m"
proof -
  note r = reach_inv [OF assms(1,2)]
  have "a \<noteq> b" using r nth_eq_iff_index_eq [of "map fst bs" i j] assms(3-6) by auto
  moreover have "map_of bs a = Some n" "map_of bs b = Some m"
    using r assms(3-6) by (metis less_trans map_of_eq_Some_iff nth_mem)+
  ultimately show ?thesis using inv_apart r by blast
qed

lemma reach_returns:
  assumes "heap_reach fresh alloc free s0 s bs" and "inv s0 (\<lambda>_. None)"
  shows "fresh env s (map_of bs) \<Longrightarrow> unat sz + sizeof_head < 2 ^ 64 \<Longrightarrow> \<exists>r s'. alloc env sz s = Some (r, s')"
    and "(a, n) \<in> set bs \<Longrightarrow> \<exists>s'. free env (Some (a + sizeof_head)) s = Some s'"
  using alloc_inv reach_inv [OF assms] free_inv reach_live [OF assms] by blast+

end

interpretation slab: allocator slab_inv env_fresh slab_alloc slab_free
proof
  show "\<exists>r s' L'. slab_alloc env sz s = Some (r, s') \<and> handed_out L r (unat sz + sizeof_head) L' \<and>
      slab_inv s' L'" if "slab_inv s L" "env_fresh env s L" "unat sz + sizeof_head < 2 ^ 64" for s L env sz
    using slab_inv_alloc [OF that] .
  show "\<exists>s'. slab_free env (Some (a + sizeof_head)) s = Some s' \<and> slab_inv s' (L(a := None))"
    if "slab_inv s L" "L a = Some n" for s L a n env
    using slab_inv_free [OF that] .
  show "apart a n b m" if "slab_inv s L" "L a = Some n" "L b = Some m" "a \<noteq> b" for s L a n b m
    using live_apart [OF _ that(2-4)] that(1) by (auto simp: slab_inv_def)
qed

abbreviation slab_reach :: "slab \<Rightarrow> slab \<Rightarrow> (nat \<times> nat) list \<Rightarrow> bool" where
  "slab_reach \<equiv> heap_reach env_fresh slab_alloc slab_free"

text \<open>The table every caller of \<open>slab_init\<close> gets, with its growth factor 1.125.\<close>

definition slab_boot :: slab where
  "slab_boot = \<lparr>slabclass = [], mem_limit = 0, mem_malloced = 0, power_largest = -1,
    heads = (\<lambda>_. None), ram = (\<lambda>_. 0)\<rparr>"

definition slab_started :: slab where
  "slab_started = the (slab_init 0 9 8 slab_boot)"

lemma slab_started: "slab_init 0 9 8 slab_boot = Some slab_started"
  by (simp add: slab_started_def slab_init_def split: prod.split)

lemma slab_init_strict:
  assumes "slab_init limit num den s0 = Some s" and "0 < den" and "17 * den \<le> 16 * num"
  shows "strict_size_table (size_of s) (power_largest s)"
proof -
  note steps = slab_init_steps [OF assms(1), of 1, OF growth_strict [OF assms(3,2)]]
  show ?thesis
  proof (intro strict_size_table.intro strict_size_table_axioms.intro)
    show "size_table (size_of s) (power_largest s)" using table_ok_size_table steps(1) by simp
    show "size_of s i < size_of s j" if "0 \<le> i" "i < j" "j \<le> power_largest s" for i j
      by (rule chain_strict [where f = "size_of s", OF _ that]) (use steps(3) in \<open>simp add: Suc_le_eq\<close>)
  qed
qed

interpretation started: strict_size_table "size_of slab_started" "power_largest slab_started"
  using slab_init_strict [OF slab_started] by simp

section \<open>Properties\<close>

lemma slab_alloc_big:
  assumes "table_ok s" and "POWER_BLOCK < unat sz + sizeof_head" and "unat sz + sizeof_head < 2 ^ 64"
    and "sys_malloc env (unat sz + sizeof_head) = Some a"
  shows "slab_alloc env sz s = Some (Some (a + sizeof_head), write_head a True (sz + word_of_nat sizeof_head) s)"
proof -
  have n: "unat (sz + word_of_nat sizeof_head) = unat sz + sizeof_head" using unat_head_sum [OF assms(3)] .
  have "slab_clsid s (unat sz + sizeof_head) = power_largest s + 1" "0 < power_largest s"
    using slab_clsid_cases [OF assms(1), of "unat sz + sizeof_head"] assms(1,2)
    by (auto simp: sizeof_head_def table_ok_def)
  then show ?thesis
    using n assms(4) by (simp add: slab_alloc_def alloc_malloc_def Let_def POWER_SMALLEST_def)
qed

lemma free_then_alloc:
  assumes inv: "slab_inv s L" and a: "L a = Some n" and chunk: "\<not> malloced s a"
    and free: "slab_free env (Some (a + sizeof_head)) s = Some s'" and grow: "\<forall>k. sys_realloc env k"
    and sz: "unat sz + sizeof_head < 2 ^ 64" "slab_clsid s (unat sz + sizeof_head) = slab_clsid s n"
  shows "\<exists>s''. slab_alloc env' sz s' = Some (Some (a + sizeof_head), s'')"
proof -
  let ?i = "slab_clsid s n"
  have ok: "slab_ok s L" and tab: "table_ok s" using inv by (auto simp: slab_inv_def slab_ok_def)
  note live = slab_okD(2) [OF ok a chunk]
  have n: "0 < n" "n \<le> POWER_BLOCK"
    using live sizeof_head_pos [OF slab_okD(1) [OF ok a]] by (simp_all add: chunk_live_def)
  have i: "1 \<le> ?i" "?i \<le> power_largest s" "?i < 256"
    using clsid_range [OF tab n] tab by (simp_all add: table_ok_def slab_consts)
  obtain h where h: "heads s a = Some h" "unat (head_size h) = n" "\<not> is_malloc h"
    using live chunk by (auto simp: chunk_live_def malloced_def)
  obtain t where s': "s' = set_class ?i ((class_at s ?i)\<lparr>sl_total := t, slots := slots (class_at s ?i) @ [a]\<rparr>) s"
    using slab_free_chunk [OF h(1,3) _ i(1,3), of env] h(2) free grow by auto
  then have "slots (class_at s' ?i) = slots (class_at s ?i) @ [a]" "power_largest s' = power_largest s"
      "slab_clsid s' k = slab_clsid s k" for k
    using class_at_set_class [OF tab i(1,2), of ?i] i by (simp_all add: slab_clsid_set_class)
  then show ?thesis
    using i sz unat_head_sum [OF sz(1)]
    by (auto simp: slab_alloc_def alloc_class_def Let_def POWER_SMALLEST_def)
qed

lemma realloc_bytes:
  assumes inv: "slab_inv s L" and env: "env_fresh env s L" and a: "L a = Some n" "n < 2 ^ 32"
    and sz: "unat sz + sizeof_head < 2 ^ 64" "sz \<noteq> 0"
    and step: "slab_realloc env (Some (a + sizeof_head)) sz s = Some (Some p, s')"
  shows "slab_inv s' (L(p - sizeof_head \<mapsto> unat sz + sizeof_head, a := None))"
    and "i < n - sizeof_head \<Longrightarrow> i < unat sz \<Longrightarrow> ram s' (p + i) = ram s (a + sizeof_head + i)"
    and "L b = Some m \<Longrightarrow> b \<le> x \<Longrightarrow> x < b + m \<Longrightarrow> ram s' x = ram s x"
proof -
  obtain r t L' where al: "slab_alloc env sz s = Some (r, t)" "handed_out L r (unat sz + sizeof_head) L'"
      "slab_inv t L'"
    using slab_inv_alloc [OF inv env sz(1)] by blast
  let ?q = "p - sizeof_head"
  have r: "r = Some p" using step al(1) sz(2)
    by (auto simp: slab_realloc_def split: option.splits)
  then have L': "L' = L(?q \<mapsto> unat sz + sizeof_head)" "L ?q = None" "sizeof_head \<le> p"
    using al(2) by (auto simp: handed_out_def)
  have qa: "?q \<noteq> a" using L'(2) a(1) by auto
  have "L' a = Some n" using L' qa a(1) by simp
  then obtain h where h: "heads t a = Some h" "head_size h = word_of_nat n"
    using al(3) unfolding slab_inv_def heads_ok_def by blast
  have hn: "unat (head_size h) = n" using a(2) h(2) by (simp add: unat_of_nat)
  let ?k = "if unat sz < n then unat sz else n"
  let ?u = "t\<lparr>ram := copy_ram p (a + sizeof_head) ?k (ram t)\<rparr>"
  have "slab_inv ?u L'" using al(3) by (simp add: slab_inv_def heads_ok_def)
  then obtain v where v: "slab_free env (Some (a + sizeof_head)) ?u = Some v" "slab_inv v (L'(a := None))"
    using slab_inv_free [of ?u L' a n env] L' qa a(1) by auto
  have s': "s' = v"
    using step al(1) r sz(2) h hn v(1) by (simp add: slab_realloc_def Let_def split: if_splits)
  have ram: "ram s' = copy_ram p (a + sizeof_head) ?k (ram s)"
    using slab_free_frame [OF v(1)] slab_alloc_frame [OF al(1)] s' by simp
  show "slab_inv s' (L(?q \<mapsto> unat sz + sizeof_head, a := None))" using v(2) s' L'(1) by simp
  show "ram s' (p + i) = ram s (a + sizeof_head + i)" if "i < n - sizeof_head" "i < unat sz"
    using that by (auto simp: ram copy_ram_def)
  show "ram s' x = ram s x" if b: "L b = Some m" "b \<le> x" "x < b + m"
  proof -
    have "b \<noteq> ?q" using b(1) L'(2) by auto
    then have "apart ?q (unat sz + sizeof_head) b m"
      using slab.inv_apart [OF al(3), of ?q "unat sz + sizeof_head" b m] L'(1) b(1) by simp
    then show ?thesis using b L'(3) by (auto simp: ram copy_ram_def apart_def sizeof_head_def)
  qed
qed

text \<open>
  C19. \<open>slab_clsid\<close> is a best fit: on the table that \<open>slab_init\<close> builds with any growth factor
  of at least 17/16 (the program uses 1.125), the binary search returns what the linear search
  of the other build returns: for a size up to 4 MB the first class whose chunks are large
  enough, every class before it being too small, and \<open>power_largest + 1\<close> beyond.
\<close>

theorem slab_clsid_best_fit:
  assumes "slab_init limit num den s0 = Some s" and "0 < den" and "17 * den \<le> 16 * num" and "0 < n"
  shows "slab_clsid s n = slab_clsid_linear s n \<and>
    (if n \<le> POWER_BLOCK
     then 1 \<le> slab_clsid s n \<and> slab_clsid s n \<le> power_largest s \<and>
       n \<le> cls_size (class_at s (slab_clsid s n)) \<and>
       (\<forall>j. 0 \<le> j \<and> j < slab_clsid s n \<longrightarrow> cls_size (class_at s j) < n)
     else slab_clsid s n = power_largest s + 1)"
proof -
  note strict = slab_init_strict [OF assms(1-3)]
  have tab: "size_table (size_of s) (power_largest s)" "size_of s (power_largest s) = POWER_BLOCK"
    using slab_init_steps(1) [OF assms(1), of 1, OF growth_strict [OF assms(3,2)]] table_ok_size_table
    by (auto simp: table_ok_def)
  have "slab_clsid s n = slab_clsid_linear s n"
    using strict_size_table.loop_scan [OF strict assms(4)] assms(4)
    by (simp add: slab_clsid_def slab_clsid_linear_def POWER_SMALLEST_def)
  moreover from size_table.loop_cases [OF tab(1) assms(4)] show ?thesis
  proof cases
    case (1 r)
    then show ?thesis
      using strict_size_table.found_least [OF strict, of r n] assms(4) tab(2) calculation
      by (simp add: slab_clsid_def)
  next
    case 2
    then show ?thesis using assms(4) tab(2) calculation by (simp add: slab_clsid_def)
  qed
qed

theorem slab_clsid_best_fit_witness:
  "slab_init 0 9 8 slab_boot = Some slab_started \<and> (0::nat) < 8 \<and> (17::nat) * 8 \<le> 16 * 9 \<and> (0::nat) < 100 \<and>
    slab_clsid slab_started 100 = slab_clsid_linear slab_started 100 \<and>
    100 \<le> cls_size (class_at slab_started (slab_clsid slab_started 100))"
  using slab_clsid_best_fit [OF slab_started, of 100] slab_started by (auto simp: slab_consts)

text \<open>
  C18. No block is handed out to two owners: after \<open>slab_init\<close> and any sequence of \<open>slab_alloc\<close> and
  \<open>slab_free\<close> calls (each freeing a block in use, each allocation short of \<open>SIZE_MAX\<close> by the
  size of a header), the blocks that were handed out and not yet freed are pairwise disjoint: the list \<open>bs\<close> has one
  entry for each call that returned a block, with the bytes its caller asked for and its header, and no two
  entries share a byte. The next call returns too, and a block it hands out shares no byte with those in use.
\<close>

theorem slab_blocks_disjoint:
  assumes "slab_init limit num den s0 = Some s1" and "0 < den" and "slab_reach s1 s bs"
  shows "(\<forall>i j a n b m. i < j \<and> j < length bs \<and> bs ! i = (a, n) \<and> bs ! j = (b, m) \<longrightarrow> a + n \<le> b \<or> b + m \<le> a) \<and>
    (\<forall>env a n. (a, n) \<in> set bs \<longrightarrow> slab_free env (Some (a + sizeof_head)) s \<noteq> None) \<and>
    (\<forall>env sz. env_fresh env s (map_of bs) \<and> unat sz + sizeof_head < 2 ^ 64 \<longrightarrow>
      (\<exists>r s'. slab_alloc env sz s = Some (r, s') \<and>
        (\<forall>ptr. r = Some ptr \<longrightarrow> sizeof_head \<le> ptr \<and> (\<forall>(a, n)\<in>set bs. ptr + unat sz \<le> a \<or> a + n \<le> ptr - sizeof_head))))"
proof (intro conjI allI impI)
  note inv = slab_init_inv [OF assms(1,2)]
  show "a + n \<le> b \<or> b + m \<le> a" if "i < j \<and> j < length bs \<and> bs ! i = (a, n) \<and> bs ! j = (b, m)" for i j a n b m
    using slab.reach_apart [OF assms(3) inv, of i j a n b m] that by (auto simp: apart_def)
  show "slab_free env (Some (a + sizeof_head)) s \<noteq> None" if "(a, n) \<in> set bs" for env a n
    using slab.reach_returns(2) [OF assms(3) inv that, of env] by auto
  fix env and sz :: u64 assume e: "env_fresh env s (map_of bs) \<and> unat sz + sizeof_head < 2 ^ 64"
  then obtain r s' where r: "slab_alloc env sz s = Some (r, s')" using slab.reach_returns(1) [OF assms(3) inv] by blast
  have "sizeof_head \<le> ptr \<and> (\<forall>(a, n)\<in>set bs. ptr + unat sz \<le> a \<or> a + n \<le> ptr - sizeof_head)" if ptr: "r = Some ptr" for ptr
  proof -
    have "slab_reach s1 s' ((ptr - sizeof_head, unat sz + sizeof_head) # bs)"
      using heap_reach.alloc [of env_fresh slab_alloc slab_free s1, OF assms(3)] e r ptr by auto
    note new = slab.reach_apart [OF this inv, of 0]
    have h: "sizeof_head \<le> ptr"
      using slab_inv_alloc [of s "map_of bs" env sz] slab.reach_inv [OF assms(3) inv] e r ptr by (auto simp: handed_out_def)
    have "ptr + unat sz \<le> a \<or> a + n \<le> ptr - sizeof_head" if an: "(a, n) \<in> set bs" for a n
    proof -
      obtain j where "j < length bs" "bs ! j = (a, n)" using an by (auto simp: in_set_conv_nth)
      then show ?thesis using new [of "Suc j" "ptr - sizeof_head" "unat sz + sizeof_head" a n] h by (auto simp: apart_def)
    qed
    then show ?thesis using h by blast
  qed
  then show "\<exists>r s'. slab_alloc env sz s = Some (r, s') \<and>
      (\<forall>ptr. r = Some ptr \<longrightarrow> sizeof_head \<le> ptr \<and> (\<forall>(a, n)\<in>set bs. ptr + unat sz \<le> a \<or> a + n \<le> ptr - sizeof_head))"
    using r by blast
qed

lemma started_class:
  assumes "1 \<le> i" "i \<le> power_largest slab_started"
  shows "slots (class_at slab_started i) = []" "end_page_ptr (class_at slab_started i) = None"
    "slab_list (class_at slab_started i) = []" "list_size (class_at slab_started i) = 0"
proof -
  have "class_fresh (class_at slab_started i)"
    using slab_init_steps(2) [OF slab_started, of 0, OF growth_weak] assms by simp
  then show "slots (class_at slab_started i) = []" "end_page_ptr (class_at slab_started i) = None"
    "slab_list (class_at slab_started i) = []" "list_size (class_at slab_started i) = 0"
    by (subst class_fresh_def [THEN iffD1], simp_all add: empty_class_def)+
qed

lemma started_pages: "pages slab_started = {}"
  using started_class(3) by (auto simp: pages_def)

text \<open>Two blocks too large for the classes, at 10 MB and at 20 MB.\<close>

definition example_env :: "nat \<Rightarrow> sysmem" where
  "example_env a = \<lparr>sys_malloc = (\<lambda>n. if n \<le> 10000000 then Some a else None),
    sys_valloc = (\<lambda>n. None), sys_realloc = (\<lambda>n. True)\<rparr>"

definition example_slab :: slab where
  "example_slab = write_head 10000000 True (5000000 + word_of_nat sizeof_head) slab_started"

lemma started_table: "table_ok slab_started"
  using slab_init_inv [OF slab_started] by (simp add: slab_inv_def slab_ok_def)

lemma example_slab_reach: "slab_reach slab_started example_slab [(10000000, 5000008)]"
proof -
  have "slab_alloc (example_env 10000000) 5000000 slab_started = Some (Some (10000000 + sizeof_head), example_slab)"
    unfolding example_slab_def
    by (rule slab_alloc_big [OF started_table]) (simp_all add: example_env_def sizeof_head_def slab_consts)
  from heap_reach.alloc [of env_fresh slab_alloc slab_free slab_started, OF heap_reach.start _ _ this]
  show ?thesis
    using started_pages by (simp add: env_fresh_def example_env_def outside_def sizeof_head_def)
qed

lemma example_fresh: "env_fresh (example_env 20000000) example_slab (map_of [(10000000, 5000008)])"
  using started_pages
  by (auto simp: env_fresh_def example_env_def outside_def apart_def example_slab_def split: if_splits)

lemma example_alloc:
  assumes "POWER_BLOCK < unat sz + sizeof_head" and "unat sz + sizeof_head \<le> 10000000"
  shows "slab_alloc (example_env 20000000) sz example_slab = Some (Some (20000000 + sizeof_head),
    write_head 20000000 True (sz + word_of_nat sizeof_head) example_slab)"
  using assms started_table
  by (intro slab_alloc_big) (simp_all add: example_env_def example_slab_def)

lemma example_reach:
  "\<exists>s. slab_reach slab_started s [(20000000, 5000008), (10000000, 5000008)]"
  using heap_reach.alloc [of env_fresh slab_alloc slab_free slab_started,
      OF example_slab_reach example_fresh _ example_alloc [of 5000000]]
  by (auto simp: sizeof_head_def slab_consts)

theorem slab_blocks_disjoint_witness:
  "slab_init 0 9 8 slab_boot = Some slab_started \<and> (0::nat) < 8 \<and>
    (\<exists>s. slab_reach slab_started s [(20000000, 5000008), (10000000, 5000008)] \<and>
      slab_free (example_env 0) (Some (10000000 + sizeof_head)) s \<noteq> None)"
proof -
  obtain s where s: "slab_reach slab_started s [(20000000, 5000008), (10000000, 5000008)]"
    using example_reach by blast
  have "slab_free (example_env 0) (Some (10000000 + sizeof_head)) s \<noteq> None"
    using slab_blocks_disjoint [OF slab_started _ s] by simp
  then show ?thesis using s slab_started by auto
qed

text \<open>
  Freed memory is reused: when a block from a class is freed (and the free list could
  grow), the next allocation from that class gets the same address back, whatever the system
  allocator answers. The class is found again from the size in the header, its index passing
  through an \<open>unsigned char\<close>.
\<close>

theorem slab_free_alloc:
  assumes "slab_init limit num den s0 = Some s1" and "0 < den" and "slab_reach s1 s bs"
    and "(a, n) \<in> set bs" and "\<not> malloced s a"
    and "\<forall>k. sys_realloc env k" and "slab_free env (Some (a + sizeof_head)) s = Some s'"
    and "unat sz + sizeof_head < 2 ^ 64" and "slab_clsid s (unat sz + sizeof_head) = slab_clsid s n"
  shows "\<exists>s''. slab_alloc env' sz s' = Some (Some (a + sizeof_head), s'')"
  using free_then_alloc [OF slab.reach_live [OF assms(3) slab_init_inv [OF assms(1,2)] assms(4)] assms(5,7,6,8,9)] .

text \<open>The first block of 100 bytes on a page at address 4096.\<close>

definition page_env :: sysmem where
  "page_env = \<lparr>sys_malloc = (\<lambda>n. None), sys_valloc = (\<lambda>n. Some 4096), sys_realloc = (\<lambda>n. True)\<rparr>"

lemma started_alloc:
  "\<exists>s. slab_reach slab_started s [(4096, 108)] \<and> \<not> malloced s 4096"
proof -
  have inv: "slab_inv slab_started (\<lambda>_. None)" using slab_init_inv [OF slab_started] by simp
  then have tab: "table_ok slab_started" by (simp add: slab_inv_def slab_ok_def)
  let ?i = "slab_clsid slab_started 108"
  have i: "1 \<le> ?i" "?i \<le> power_largest slab_started"
    using clsid_range [OF tab, of 108] by (simp_all add: slab_consts)
  have "mem_limit slab_started = 0"
    using slab_init_factor [OF slab_started] by simp
  then obtain s where al: "alloc_class page_env ?i 108 slab_started = (Some (4096 + sizeof_head), s)"
    using started_class [OF i] class_at_set_class [OF tab i, of ?i] i
    by (simp add: alloc_class_def do_slabs_newslab_def grow_slab_list_def page_env_def Let_def)
  then have "slab_alloc page_env 100 slab_started = Some (Some (4096 + sizeof_head), s)"
    using i by (simp add: slab_alloc_def Let_def POWER_SMALLEST_def sizeof_head_def)
  from heap_reach.alloc [of env_fresh slab_alloc slab_free slab_started, OF heap_reach.start _ _ this]
  have "slab_reach slab_started s [(4096, 108)]"
    using started_pages by (simp add: env_fresh_def page_env_def outside_def sizeof_head_def)
  then show ?thesis
    using alloc_class_frame [OF al] by (auto simp: malloced_def sizeof_head_def)
qed

theorem slab_free_alloc_witness:
  "\<exists>s s' s''. slab_init 0 9 8 slab_boot = Some slab_started \<and> slab_reach slab_started s [(4096, 108)] \<and>
    \<not> malloced s 4096 \<and> slab_free page_env (Some (4096 + sizeof_head)) s = Some s' \<and>
    slab_alloc page_env 100 s' = Some (Some (4096 + sizeof_head), s'')"
proof -
  obtain s where s: "slab_reach slab_started s [(4096, 108)]" "\<not> malloced s 4096"
    using started_alloc by blast
  obtain s' where s': "slab_free page_env (Some (4096 + sizeof_head)) s = Some s'"
    using slab.reach_returns(2) [OF s(1) slab_init_inv [OF slab_started], of 4096 108 page_env] by auto
  have "\<exists>s''. slab_alloc page_env 100 s' = Some (Some (4096 + sizeof_head), s'')"
    by (rule slab_free_alloc [OF slab_started _ s(1) _ s(2) _ s', where n = 108])
      (simp_all add: page_env_def sizeof_head_def)
  then show ?thesis using s s' slab_started by blast
qed

text \<open>
  \<open>slab_realloc\<close> keeps the bytes: a block in use that is moved to a new size has, up to
  the smaller of the two sizes, the bytes it had; no other block in use changes; the new block
  is in use in place of the old. Blocks of 4 GB and more are excluded, whose size the 32-bit
  field of the header cannot hold.
\<close>

theorem slab_realloc_keeps_bytes:
  assumes "slab_init limit num den s0 = Some s1" and "0 < den" and "slab_reach s1 s bs"
    and "env_fresh env s (map_of bs)" and "(a, n) \<in> set bs" and "n < 2 ^ 32"
    and "unat sz + sizeof_head < 2 ^ 64" and "sz \<noteq> 0"
    and "slab_realloc env (Some (a + sizeof_head)) sz s = Some (Some p, s')"
  shows "slab_inv s' ((map_of bs)(p - sizeof_head \<mapsto> unat sz + sizeof_head, a := None)) \<and>
    (\<forall>i < min (n - sizeof_head) (unat sz). ram s' (p + i) = ram s (a + sizeof_head + i)) \<and>
    (\<forall>(b, m)\<in>set bs. \<forall>x. b \<le> x \<and> x < b + m \<longrightarrow> ram s' x = ram s x)"
proof -
  note live = slab.reach_live [OF assms(3) slab_init_inv [OF assms(1,2)]]
  show ?thesis using realloc_bytes [OF live(1) [OF assms(5)] assms(4) live(2) [OF assms(5)] assms(6-9)] live(2)
    by (auto simp del: split_paired_All) (metis live(2))
qed

theorem slab_realloc_keeps_bytes_witness:
  "\<exists>s'. slab_init 0 9 8 slab_boot = Some slab_started \<and>
    slab_reach slab_started example_slab [(10000000, 5000008)] \<and>
    env_fresh (example_env 20000000) example_slab (map_of [(10000000, 5000008)]) \<and>
    slab_realloc (example_env 20000000) (Some (10000000 + sizeof_head)) 6000000 example_slab =
      Some (Some (20000000 + sizeof_head), s') \<and>
    (\<forall>i < 5000000. ram s' (20000000 + sizeof_head + i) = ram example_slab (10000000 + sizeof_head + i))"
proof -
  have h: "heads example_slab 10000000 = Some \<lparr>is_malloc = True, head_size = 5000008\<rparr>"
    by (simp add: example_slab_def write_head_def sizeof_head_def)
  have "\<exists>s'. slab_realloc (example_env 20000000) (Some (10000000 + sizeof_head)) 6000000 example_slab =
      Some (Some (20000000 + sizeof_head), s')"
    using example_alloc [of 6000000] h
    by (auto simp: slab_realloc_def Let_def sizeof_head_def slab_consts slab_free_def write_head_def)
  then obtain s' where s': "slab_realloc (example_env 20000000) (Some (10000000 + sizeof_head)) 6000000
      example_slab = Some (Some (20000000 + sizeof_head), s')" by blast
  have "\<forall>i < min (5000008 - sizeof_head) (unat (6000000 :: u64)).
      ram s' (20000000 + sizeof_head + i) = ram example_slab (10000000 + sizeof_head + i)"
    using slab_realloc_keeps_bytes [OF slab_started _ example_slab_reach example_fresh _ _ _ _ s']
    by (simp add: sizeof_head_def)
  then show ?thesis
    using s' slab_started example_slab_reach example_fresh by (auto simp: sizeof_head_def)
qed

end
