(* ===== verification/Slab_Debug.thy ===== *)
theory Slab_Debug
  imports Slab
begin

text \<open>
  \<^verbatim>\<open>src/src/slab.c\<close> in the debug build (\<open>NEED_DEBUG\<close> 1, which \<open>TESTMODE\<close> switches on): a header of 16 bytes with a magic number,
  counters of calls, the filling of free memory with \<open>0xCC\<close>, \<open>is_valid_mem\<close> and \<open>slab_stats\<close>. The state is
  that of theory \<open>Slab\<close> with the magic numbers by the address of the header and the counters. The
  branches for \<open>NEED_DEBUG\<close> 2 are never compiled, since \<^verbatim>\<open>slab.h\<close> sets the macro to 1 or 0.

  The lemmas compare the two builds on a block that is freed twice, and say what \<open>slab_stats\<close> prints.
\<close>

section \<open>The code\<close>

text \<open>\<open>sizeof(slabhead_t)\<close> with \<open>magic_head\<close> and \<open>color\<close>.\<close>

definition sizeof_debug_head :: nat where "sizeof_debug_head = 16"

definition MAGIC :: u32 where "MAGIC = 0xfeedbeef"
definition FILL :: u32 where "FILL = 0xCCCCCCCC"

record debug_slab =
  base :: slab
  magic_head :: "nat \<Rightarrow> u32"
  alloc_times :: u64
  free_times :: u64
  realloc_times :: u64

text \<open>A new slab is filled: \<open>memset\<close> in \<open>do_slabs_newslab\<close>. \<open>old\<close> is the state before.\<close>

definition fill_new :: "int \<Rightarrow> slab \<Rightarrow> debug_slab \<Rightarrow> debug_slab" where
  "fill_new cid old d =
    (let pages = slab_list (class_at (base d) cid)
     in if length pages \<le> length (slab_list (class_at old cid)) then d
        else let p = last pages in
          d\<lparr>magic_head := (\<lambda>a. if p \<le> a \<and> a < p + POWER_BLOCK then FILL else magic_head d a),
            base := (base d)\<lparr>ram := (\<lambda>a. if p \<le> a \<and> a < p + POWER_BLOCK then 0xCC else ram (base d) a)\<rparr>\<rparr>)"

text \<open>The block behind a header: \<open>alloc_class\<close> and \<open>alloc_malloc\<close> of the release build give the address behind a
  header of 8 bytes.\<close>

definition debug_block :: "nat option \<Rightarrow> debug_slab \<Rightarrow> nat option \<times> debug_slab" where
  "debug_block ptr d =
    (case ptr of
      None \<Rightarrow> (None, d)
    | Some p \<Rightarrow>
        let head = p - sizeof_head
        in (Some (head + sizeof_debug_head), d\<lparr>magic_head := (magic_head d)(head := MAGIC)\<rparr>))"

definition debug_alloc :: "sysmem \<Rightarrow> u64 \<Rightarrow> debug_slab \<Rightarrow> (nat option \<times> debug_slab) option" where
  "debug_alloc env sz d =
    (let d = d\<lparr>alloc_times := alloc_times d + 1\<rparr>; s = base d
     in if \<not> power_largest s > 0 then None
        else
          let sz = sz + word_of_nat sizeof_debug_head;
              cid = slab_clsid s (unat sz)
          in if cid < int POWER_SMALLEST then Some (None, d)
             else if cid > power_largest s then
               (case alloc_malloc env sz s of (ptr, s') \<Rightarrow> Some (debug_block ptr (d\<lparr>base := s'\<rparr>)))
             else
               (case alloc_class env cid sz s of (ptr, s') \<Rightarrow> Some (debug_block ptr (fill_new cid s (d\<lparr>base := s'\<rparr>)))))"

definition debug_free :: "sysmem \<Rightarrow> nat option \<Rightarrow> debug_slab \<Rightarrow> debug_slab option" where
  "debug_free env ptr d =
    (case ptr of
      None \<Rightarrow> Some d
    | Some ptr \<Rightarrow>
        let d = d\<lparr>free_times := free_times d + 1\<rparr>; s = base d; head = ptr - sizeof_debug_head
        in case heads s head of
          None \<Rightarrow> None
        | Some h \<Rightarrow>
            if magic_head d head \<noteq> MAGIC then None
            else if is_malloc h then Some (d\<lparr>base := s\<lparr>heads := (heads s)(head := None)\<rparr>\<rparr>)
            else
              let cid = slab_clsid s (unat (head_size h)) mod 256
              in if cid < int POWER_SMALLEST then Some d
                 else
                   let p = class_at s cid;
                       full = (length (slots p) = sl_total p);
                       new_size = (if sl_total p \<noteq> 0 then sl_total p * 2 else 1024)
                   in if full \<and> \<not> sys_realloc env (new_size * 8) then Some d
                      else
                        let s = set_class cid (p\<lparr>sl_total := (if full then new_size else sl_total p), slots := slots p @ [head]\<rparr>) s
                        in Some (d\<lparr>base := s\<lparr>heads := (heads s)(head \<mapsto> \<lparr>is_malloc = True, head_size = FILL\<rparr>)\<rparr>,
                             magic_head := (magic_head d)(head := FILL)\<rparr>))"

definition debug_realloc :: "sysmem \<Rightarrow> nat option \<Rightarrow> u64 \<Rightarrow> debug_slab \<Rightarrow> (nat option \<times> debug_slab) option" where
  "debug_realloc env ptr sz d =
    (let d = d\<lparr>realloc_times := realloc_times d + 1\<rparr>
     in if sz = 0 then Some (None, d)
        else case ptr of
          None \<Rightarrow> debug_alloc env sz d
        | Some ptr \<Rightarrow>
            (case debug_alloc env sz d of
              None \<Rightarrow> None
            | Some (None, d) \<Rightarrow> Some (None, d)
            | Some (Some p, d) \<Rightarrow>
                (case heads (base d) (ptr - sizeof_debug_head) of
                  None \<Rightarrow> None
                | Some h \<Rightarrow>
                    if magic_head d (ptr - sizeof_debug_head) \<noteq> MAGIC then None
                    else
                      let new_size = (if unat sz < unat (head_size h) then unat sz else unat (head_size h));
                          d = d\<lparr>base := (base d)\<lparr>ram := copy_ram p ptr new_size (ram (base d))\<rparr>\<rparr>
                      in (case debug_free env (Some ptr) d of None \<Rightarrow> None | Some d \<Rightarrow> Some (Some p, d)))))"

text \<open>\<open>is_valid_mem\<close> in the two builds.\<close>

definition is_valid_mem :: "nat \<Rightarrow> debug_slab \<Rightarrow> bool" where
  "is_valid_mem ptr d \<longleftrightarrow> magic_head d (ptr - sizeof_debug_head) = MAGIC"

definition is_valid_mem_release :: "nat \<Rightarrow> bool" where
  "is_valid_mem_release ptr \<longleftrightarrow> True"

text \<open>\<open>slab_stats\<close>: the lines printed. The numbers of a class are \<open>unsigned int\<close>s printed by \<open>%d\<close>.\<close>

datatype stat_line =
  DidntInit
| ClassLine int int int int
| Summary nat u64 u64 u64

definition as_int :: "nat \<Rightarrow> int" where
  "as_int n = sint (word_of_nat n :: 32 word)"

fun stats_loop :: "slabclass_t list \<Rightarrow> stat_line list" where
  "stats_loop [] = []"
| "stats_loop (p # ps) =
    (if length (slab_list p) \<noteq> 0
     then [ClassLine (as_int (cls_size p)) (as_int (length (slab_list p))) (as_int (perslab p * length (slab_list p))) (as_int (length (slots p)))]
     else []) @ stats_loop ps"

definition slab_stats :: "debug_slab \<Rightarrow> stat_line list" where
  "slab_stats d =
    (let s = base d
     in if power_largest s = 0 then [DidntInit]
        else stats_loop (map (class_at s) [int POWER_SMALLEST..power_largest s]) @
          [Summary (mem_malloced s) (alloc_times d) (free_times d) (realloc_times d)])"

section \<open>A block freed twice\<close>

text \<open>What freeing a block of a class does in the debug build.\<close>

lemma debug_free_chunk:
  assumes "heads (base d) head = Some h" and "magic_head d head = MAGIC" and "\<not> is_malloc h"
    and "slab_clsid (base d) (unat (head_size h)) mod 256 \<ge> int POWER_SMALLEST" and "\<forall>k. sys_realloc env k"
  shows "\<exists>d'. debug_free env (Some (head + sizeof_debug_head)) d = Some d' \<and> magic_head d' head = FILL \<and>
    free_times d' = free_times d + 1"
  using assms by (auto simp: debug_free_def Let_def)

lemma debug_free_filled:
  "magic_head d head = FILL \<Longrightarrow> debug_free env (Some (head + sizeof_debug_head)) d = None"
  by (auto simp: debug_free_def Let_def FILL_def MAGIC_def split: option.split)

text \<open>What freeing a block of class \<open>i\<close> and allocating from it do in the release build.\<close>

lemma release_free_chunk:
  assumes tab: "table_ok s" and i: "1 \<le> i" "i \<le> power_largest s"
    and h: "heads s a = Some h" "\<not> is_malloc h" "slab_clsid s (unat (head_size h)) = i" and grow: "\<forall>k. sys_realloc env k"
  shows "\<exists>s'. slab_free env (Some (a + sizeof_head)) s = Some s' \<and> slots (class_at s' i) = slots (class_at s i) @ [a] \<and>
    heads s' = heads s \<and> table_ok s' \<and> slab_clsid s' = slab_clsid s \<and> power_largest s' = power_largest s"
proof -
  have "i < 256" using tab i by (simp add: table_ok_def slab_consts)
  then obtain t where t: "slab_free env (Some (a + sizeof_head)) s =
      Some (set_class i ((class_at s i)\<lparr>sl_total := t, slots := slots (class_at s i) @ [a]\<rparr>) s)"
    using slab_free_chunk [OF h i(1), of env] grow by auto
  then show ?thesis using table_ok_set_class [OF tab i] class_at_set_class [OF tab i, of i] i
    by (simp add: slab_clsid_set_class fun_eq_iff)
qed

lemma release_alloc_chunk:
  assumes tab: "table_ok s" and i: "1 \<le> i" "i \<le> power_largest s"
    and sz: "unat sz + sizeof_head < 2 ^ 64" "slab_clsid s (unat sz + sizeof_head) = i" and xs: "slots (class_at s i) = xs @ [a]"
  shows "\<exists>s'. slab_alloc env sz s = Some (Some (a + sizeof_head), s') \<and> slots (class_at s' i) = xs \<and>
    table_ok s' \<and> slab_clsid s' = slab_clsid s \<and> power_largest s' = power_largest s"
proof -
  let ?t = "set_class i ((class_at s i)\<lparr>slots := xs\<rparr>) s"
  have "slab_alloc env sz s = Some (Some (a + sizeof_head), write_head a False (sz + word_of_nat sizeof_head) ?t)"
    using i sz unat_head_sum [OF sz(1)] xs by (auto simp: slab_alloc_def alloc_class_def Let_def POWER_SMALLEST_def)
  moreover have "table_ok ?t" "slots (class_at ?t i) = xs" "slab_clsid ?t = slab_clsid s"
    using table_ok_set_class [OF tab i] class_at_set_class [OF tab i, of i] i by (simp_all add: slab_clsid_set_class fun_eq_iff)
  ultimately show ?thesis by (simp add: fun_eq_iff)
qed

text \<open>
  C20. A block freed twice is handed out twice. In the release build \<open>slab_free\<close> does not notice that a block of
  a class was freed before: both calls return, and the next two allocations of a size of that class, whatever the system
  allocator answers, get the same address, so two owners write to the same bytes. In every reachable state of the allocator.
\<close>

theorem double_free_shares_block:
  assumes "slab_init limit num den s0 = Some s1" and "0 < den" and "slab_reach s1 s bs"
    and "(a, n) \<in> set bs" and "\<not> malloced s a" and "\<forall>k. sys_realloc env k"
    and "unat sz + sizeof_head < 2 ^ 64" and "slab_clsid s (unat sz + sizeof_head) = slab_clsid s n"
  shows "\<exists>s2 s3 s4 s5. slab_free env (Some (a + sizeof_head)) s = Some s2 \<and> slab_free env (Some (a + sizeof_head)) s2 = Some s3 \<and>
    slab_alloc env1 sz s3 = Some (Some (a + sizeof_head), s4) \<and> slab_alloc env2 sz s4 = Some (Some (a + sizeof_head), s5)"
proof -
  note a = slab.reach_live [OF assms(3) slab_init_inv [OF assms(1,2)] assms(4)]
  then have ok: "slab_ok s (map_of bs)" by (simp add: slab_inv_def)
  then have tab: "table_ok s" by (simp add: slab_ok_def)
  note live = slab_okD(2) [OF ok a(2) assms(5)]
  obtain h where h: "heads s a = Some h" "\<not> is_malloc h" "slab_clsid s (unat (head_size h)) = slab_clsid s n"
    using live assms(5) by (auto simp: chunk_live_def malloced_def)
  have i: "1 \<le> slab_clsid s n" "slab_clsid s n \<le> power_largest s"
    using clsid_range [OF tab] live slab_okD(1) [OF ok a(2)] by (auto simp: chunk_live_def dest: sizeof_head_pos)
  let ?i = "slab_clsid s n"
  obtain s2 where s2: "slab_free env (Some (a + sizeof_head)) s = Some s2" "slots (class_at s2 ?i) = slots (class_at s ?i) @ [a]"
      "heads s2 = heads s" "table_ok s2" "slab_clsid s2 = slab_clsid s" "power_largest s2 = power_largest s"
    using release_free_chunk [OF tab i h assms(6)] by blast
  obtain s3 where s3: "slab_free env (Some (a + sizeof_head)) s2 = Some s3" "slots (class_at s3 ?i) = (slots (class_at s ?i) @ [a]) @ [a]"
      "table_ok s3" "slab_clsid s3 = slab_clsid s" "power_largest s3 = power_largest s"
    using release_free_chunk [OF s2(4), of ?i a h env] s2 i h assms(6) by auto
  obtain s4 where s4: "slab_alloc env1 sz s3 = Some (Some (a + sizeof_head), s4)" "slots (class_at s4 ?i) = slots (class_at s ?i) @ [a]"
      "table_ok s4" "slab_clsid s4 = slab_clsid s" "power_largest s4 = power_largest s"
    using release_alloc_chunk [OF s3(3), of ?i sz _ a env1] s3 i assms(7,8) by auto
  obtain s5 where "slab_alloc env2 sz s4 = Some (Some (a + sizeof_head), s5)"
    using release_alloc_chunk [OF s4(3), of ?i sz _ a env2] s4 i assms(7,8) by auto
  then show ?thesis using s2(1) s3(1) s4(1) by blast
qed

theorem double_free_shares_block_witness:
  "\<exists>s s2 s3 s4 s5. slab_reach slab_started s [(4096, 108)] \<and> slab_free page_env (Some 4104) s = Some s2 \<and>
    slab_free page_env (Some 4104) s2 = Some s3 \<and>
    slab_alloc page_env 100 s3 = Some (Some 4104, s4) \<and> slab_alloc page_env 100 s4 = Some (Some 4104, s5)"
proof -
  obtain s where s: "slab_reach slab_started s [(4096, 108)]" "\<not> malloced s 4096"
    using started_alloc by blast
  have e: "\<forall>k. sys_realloc page_env k" by (simp add: page_env_def)
  show ?thesis
    using double_free_shares_block [OF slab_started _ s(1) _ s(2) e, of 108 100 page_env page_env] s(1)
    by (simp add: sizeof_head_def) blast
qed

text \<open>
  The debug build stops at the second call: the first one has overwritten the magic number, which
  the assertion of the second looks for; in between \<open>is_valid_mem\<close> says that the block is not valid.
\<close>

theorem debug_double_free:
  assumes "heads (base d) head = Some h" and "magic_head d head = MAGIC" and "\<not> is_malloc h"
    and "slab_clsid (base d) (unat (head_size h)) mod 256 \<ge> int POWER_SMALLEST" and "\<forall>k. sys_realloc env k"
  shows "\<exists>d'. debug_free env (Some (head + sizeof_debug_head)) d = Some d' \<and>
    is_valid_mem (head + sizeof_debug_head) d \<and> \<not> is_valid_mem (head + sizeof_debug_head) d' \<and>
    debug_free env (Some (head + sizeof_debug_head)) d' = None"
proof -
  obtain d' where d': "debug_free env (Some (head + sizeof_debug_head)) d = Some d'" "magic_head d' head = FILL"
    using debug_free_chunk [OF assms] by blast
  moreover have "FILL \<noteq> MAGIC" by (simp add: FILL_def MAGIC_def)
  ultimately show ?thesis
    using debug_free_filled [OF d'(2)] assms(2)
    by (auto simp: is_valid_mem_def)
qed

text \<open>
  \<open>slab_stats\<close> tests for an allocator that was not initialised by \<open>power_largest == 0\<close>; but the variable starts as -1,
  and \<open>slab_init\<close> sets it to a positive value. So the warning is never printed: before \<open>slab_init\<close> the output is the
  summary alone, and afterwards a line for each class that has slabs, in order, and the summary.
\<close>

lemma stats_loop_lines:
  "stats_loop ps = map (\<lambda>p. ClassLine (as_int (cls_size p)) (as_int (length (slab_list p)))
    (as_int (perslab p * length (slab_list p))) (as_int (length (slots p)))) (filter (\<lambda>p. slab_list p \<noteq> []) ps)"
  by (induction ps) auto

theorem stats_never_warns:
  shows "power_largest (base d) = -1 \<Longrightarrow> slab_stats d = [Summary (mem_malloced (base d)) (alloc_times d) (free_times d) (realloc_times d)]"
    and "slab_init limit num den s0 = Some s1 \<Longrightarrow> 0 < den \<Longrightarrow> slab_reach s1 (base d) bs \<Longrightarrow> DidntInit \<notin> set (slab_stats d)"
proof -
  show "slab_stats d = [Summary (mem_malloced (base d)) (alloc_times d) (free_times d) (realloc_times d)]" if "power_largest (base d) = -1"
    using that by (simp add: slab_stats_def POWER_SMALLEST_def)
  assume i: "slab_init limit num den s0 = Some s1" "0 < den" "slab_reach s1 (base d) bs"
  have "table_ok (base d)" using slab.reach_inv [OF i(3) slab_init_inv [OF i(1,2)]] by (simp add: slab_inv_def slab_ok_def)
  then show "DidntInit \<notin> set (slab_stats d)" by (auto simp: slab_stats_def stats_loop_lines table_ok_def Let_def)
qed

end
