(* ===== verification/Indexlog.thy ===== *)
theory Indexlog
  imports Crc32
begin

text \<open>
  \<^verbatim>\<open>src/src/indexlog.c\<close> and the index records of \<^verbatim>\<open>src/include/storage.h\<close>: the journal of
  index changes. A log file is a magic number followed by blocks; a block is a checksum, a count
  and that many items of 44 bytes. The logger collects items in one of two buffers and writes
  a buffer out when it is full, when it is flushed, and when it is closed. The file behind the
  descriptor is the list of its bytes, opened for appending; what \<open>write\<close> manages to write of
  a buffer is the argument \<open>nwrite\<close>. Both mutexes are held over every change of the state, so
  a call is atomic. The logger's \<open>working_buffer\<close> and \<open>storing_buffer\<close> pointers are functions
  of \<open>curr_working_buf\<close>, with which the code always sets them.

  The lemmas show that reading back a closed log gives the appended items in order, that a
  truncated log gives a prefix of them, and what is lost when a write fails.
\<close>

section \<open>Index records\<close>

definition KEY_LEN :: nat where "KEY_LEN = 16"

record index_value_t =
  iv_crc32 :: u32
  iv_block_id :: u32
  iv_data_size :: u64
  iv_offset :: u64

text \<open>The bytes of an \<open>index_value_t\<close>, in memory and in the index database.\<close>

definition value_bytes :: "index_value_t \<Rightarrow> bytes" where
  "value_bytes v = u32_bytes (iv_crc32 v) @ u32_bytes (iv_block_id v) @
    u64_bytes (iv_data_size v) @ u64_bytes (iv_offset v)"

definition bytes_value :: "bytes \<Rightarrow> index_value_t" where
  "bytes_value bs = \<lparr>iv_crc32 = bytes_u32 (take 4 bs), iv_block_id = bytes_u32 (take 4 (drop 4 bs)),
    iv_data_size = bytes_u64 (take 8 (drop 8 bs)), iv_offset = bytes_u64 (take 8 (drop 16 bs))\<rparr>"

definition sizeof_value :: nat where "sizeof_value = 24"

lemma length_value_bytes [simp, le_simps]: "length (value_bytes v) = 24"
  by (simp add: value_bytes_def)

lemma bytes_value_bytes [simp, le_simps]: "bytes_value (value_bytes v) = v"
  by (simp add: bytes_value_def value_bytes_def)

datatype op_type_t = index_unknown_op | index_append | index_modify | index_del

definition op_code :: "op_type_t \<Rightarrow> u32" where
  "op_code t = (case t of index_unknown_op \<Rightarrow> 0 | index_append \<Rightarrow> 1 | index_modify \<Rightarrow> 2 | index_del \<Rightarrow> 3)"

record index_log_item_s =
  ili_type :: u32
  ili_key :: bytes
  ili_value :: index_value_t

section \<open>The code\<close>

definition LOG_BUF_HEADER_SIZE :: nat where "LOG_BUF_HEADER_SIZE = 4 * 2"
definition LOG_BUF_SIZE :: nat where "LOG_BUF_SIZE = 1024 * 8 - LOG_BUF_HEADER_SIZE"
definition MAGIC_HEADER :: u32 where "MAGIC_HEADER = 0x1d810900"
definition INDEX_LOG_ITEM_SIZE :: nat where "INDEX_LOG_ITEM_SIZE = 4 + KEY_LEN + sizeof_value"

lemmas log_consts = LOG_BUF_HEADER_SIZE_def LOG_BUF_SIZE_def INDEX_LOG_ITEM_SIZE_def KEY_LEN_def
  sizeof_value_def

definition htonl :: "u32 \<Rightarrow> u32" where
  "htonl w = bytes_u32 (rev (u32_bytes w))"

record buf_s =
  crc32sum :: u32
  buf_count :: nat
  buf_ptr :: bytes

record index_logger_s =
  curr_working_buf :: nat
  buffer1 :: buf_s
  buffer2 :: buf_s
  log_file :: bytes
  read_pos :: nat
  fetch_pos :: nat
  fetch_records_amount :: int
  fetch_id :: int

definition zero_buf :: buf_s where
  "zero_buf = \<lparr>crc32sum = 0, buf_count = 0, buf_ptr = replicate LOG_BUF_SIZE 0\<rparr>"

definition working_buffer :: "index_logger_s \<Rightarrow> buf_s" where
  "working_buffer il = (if curr_working_buf il = 1 then buffer1 il else buffer2 il)"

definition storing_buffer :: "index_logger_s \<Rightarrow> buf_s" where
  "storing_buffer il = (if curr_working_buf il = 1 then buffer2 il else buffer1 il)"

definition set_working :: "buf_s \<Rightarrow> index_logger_s \<Rightarrow> index_logger_s" where
  "set_working b il = (if curr_working_buf il = 1 then il\<lparr>buffer1 := b\<rparr> else il\<lparr>buffer2 := b\<rparr>)"

definition set_storing :: "buf_s \<Rightarrow> index_logger_s \<Rightarrow> index_logger_s" where
  "set_storing b il = (if curr_working_buf il = 1 then il\<lparr>buffer2 := b\<rparr> else il\<lparr>buffer1 := b\<rparr>)"

text \<open>\<open>write\<close> on the descriptor: the number of bytes it returns, all of them appended.\<close>

definition write_log :: "(nat \<Rightarrow> nat) \<Rightarrow> bytes \<Rightarrow> index_logger_s \<Rightarrow> nat \<times> index_logger_s" where
  "write_log nwrite bs il =
    (let k = min (nwrite (length bs)) (length bs)
     in (k, il\<lparr>log_file := log_file il @ take k bs\<rparr>))"

text \<open>\<open>index_logger_create\<close>: \<open>None\<close> where an \<open>assert\<close> fails or a null pointer is used,
  \<open>Some None\<close> where the function returns \<open>NULL\<close>. The arguments say whether memory, the
  directory and the file could be had.\<close>

definition index_logger_create :: "bool \<Rightarrow> bool \<Rightarrow> bool \<Rightarrow> (nat \<Rightarrow> nat) \<Rightarrow> index_logger_s option option" where
  "index_logger_create mem_ok dir_ok open_ok nwrite =
    (if \<not> mem_ok then None
     else if \<not> dir_ok \<or> \<not> open_ok then Some None
     else
       let il = \<lparr>curr_working_buf = 0, buffer1 = zero_buf, buffer2 = zero_buf, log_file = [],
                 read_pos = 0, fetch_pos = 0, fetch_records_amount = 0, fetch_id = 0\<rparr>;
           (n, il) = write_log nwrite (u32_bytes (htonl MAGIC_HEADER)) il
       in if n \<noteq> 4 then None
          else Some (Some (il\<lparr>curr_working_buf := 1, fetch_records_amount := -1, fetch_id := -1\<rparr>)))"

definition index_logger_open :: "bool \<Rightarrow> bytes option \<Rightarrow> index_logger_s option option" where
  "index_logger_open mem_ok content =
    (if \<not> mem_ok then None
     else case content of
       None \<Rightarrow> Some None
     | Some file \<Rightarrow> Some (Some
         \<lparr>curr_working_buf = 0, buffer1 = zero_buf, buffer2 = zero_buf, log_file = file,
          read_pos = 0, fetch_pos = 0, fetch_records_amount = -1, fetch_id = -1\<rparr>))"

definition switch_buffer :: "index_logger_s \<Rightarrow> index_logger_s" where
  "switch_buffer il =
    (let il = (if curr_working_buf il = 1 then il\<lparr>curr_working_buf := 2\<rparr> else il\<lparr>curr_working_buf := 1\<rparr>)
     in set_working ((working_buffer il)\<lparr>crc32sum := 0, buf_count := 0\<rparr>) il)"

text \<open>The first \<open>n\<close> bytes of a \<open>buf_s\<close>, which is packed.\<close>

definition buf_bytes :: "buf_s \<Rightarrow> nat \<Rightarrow> bytes" where
  "buf_bytes b n = take n (u32_bytes (crc32sum b) @ le_bytes 4 (buf_count b) @ buf_ptr b)"

definition sync_index_log :: "(nat \<Rightarrow> nat) \<Rightarrow> index_logger_s \<Rightarrow> int \<times> index_logger_s" where
  "sync_index_log nwrite il =
    (let b = storing_buffer il;
         n = buf_count b * INDEX_LOG_ITEM_SIZE;
         b = b\<lparr>crc32sum := crc32_calc (take n (buf_ptr b))\<rparr>;
         (w, il) = write_log nwrite (buf_bytes b (n + LOG_BUF_HEADER_SIZE)) (set_storing b il)
     in (if w = n + LOG_BUF_HEADER_SIZE then RET_SUCCESS else RET_FAILED, il))"

text \<open>\<open>memcpy\<close> into a buffer.\<close>

definition put_at :: "nat \<Rightarrow> bytes \<Rightarrow> bytes \<Rightarrow> bytes" where
  "put_at off bs xs = take off xs @ bs @ drop (off + length bs) xs"

definition put_item :: "index_log_item_s \<Rightarrow> buf_s \<Rightarrow> buf_s" where
  "put_item ili b =
    (let ptr = buf_count b * INDEX_LOG_ITEM_SIZE;
         xs = put_at ptr (u32_bytes (ili_type ili)) (buf_ptr b);
         ptr = ptr + 4;
         xs = put_at ptr (ili_key ili) xs;
         ptr = ptr + KEY_LEN;
         xs = put_at ptr (value_bytes (ili_value ili)) xs
     in b\<lparr>buf_ptr := xs, buf_count := buf_count b + 1\<rparr>)"

definition index_logger_append ::
  "(nat \<Rightarrow> nat) \<Rightarrow> index_log_item_s \<Rightarrow> index_logger_s \<Rightarrow> int \<times> index_logger_s" where
  "index_logger_append nwrite ili il =
    (let (r, il) =
       (if LOG_BUF_SIZE < (buf_count (working_buffer il) + 1) * INDEX_LOG_ITEM_SIZE
        then sync_index_log nwrite (switch_buffer il) else (RET_SUCCESS, il))
     in if r \<noteq> RET_SUCCESS then (RET_FAILED, il)
        else (RET_SUCCESS, set_working (put_item ili (working_buffer il)) il))"

definition index_logger_flush :: "(nat \<Rightarrow> nat) \<Rightarrow> index_logger_s \<Rightarrow> int \<times> index_logger_s" where
  "index_logger_flush nwrite il =
    (if buf_count (working_buffer il) = 0 then (RET_SUCCESS, il)
     else let (r, il) = sync_index_log nwrite (switch_buffer il)
          in (if r \<noteq> RET_SUCCESS then RET_FAILED else RET_SUCCESS, il))"

text \<open>\<open>index_logger_close\<close>: what is left is the file.\<close>

definition index_logger_close :: "(nat \<Rightarrow> nat) \<Rightarrow> index_logger_s \<Rightarrow> int \<times> bytes" where
  "index_logger_close nwrite il =
    (let il = (if curr_working_buf il \<noteq> 0 then snd (index_logger_flush nwrite il) else il)
     in (RET_SUCCESS, log_file il))"

text \<open>\<open>read\<close> from the descriptor.\<close>

definition read_log :: "nat \<Rightarrow> index_logger_s \<Rightarrow> bytes \<times> index_logger_s" where
  "read_log n il =
    (let bs = take n (drop (read_pos il) (log_file il))
     in (bs, il\<lparr>read_pos := read_pos il + length bs\<rparr>))"

text \<open>The parts of \<open>index_logger_fetch\<close>: \<open>Inl\<close> where the code jumps to \<open>done\<close> with \<open>ili\<close> null.\<close>

definition fetch_magic :: "index_logger_s \<Rightarrow> index_logger_s + index_logger_s" where
  "fetch_magic il =
    (if fetch_pos il = 0 then
       let (bs, il) = read_log 4 il
       in if length bs \<noteq> 4 \<or> bytes_u32 bs \<noteq> htonl MAGIC_HEADER then Inl il else Inr il
     else Inr il)"

definition fetch_block :: "index_logger_s \<Rightarrow> index_logger_s + index_logger_s" where
  "fetch_block il =
    (if fetch_id il = -1 then
       let (bs, il) = read_log 4 il
       in if length bs \<noteq> 4 then Inl il
          else
            let (cs, il) = read_log 4 il
            in if length cs \<noteq> 4 then Inl il
               else Inr (il\<lparr>fetch_records_amount := int (unat (bytes_u32 cs)), fetch_id := 0\<rparr>)
     else Inr il)"

definition fetch_item :: "index_logger_s \<Rightarrow> index_log_item_s option \<times> index_logger_s" where
  "fetch_item il =
    (let (t, il) = read_log 4 il
     in if length t \<noteq> 4 then (None, il)
        else
          let (k, il) = read_log KEY_LEN il
          in if length k \<noteq> KEY_LEN then (None, il)
             else
               let (v, il) = read_log sizeof_value il
               in if length v \<noteq> sizeof_value then (None, il)
                  else
                    let il = il\<lparr>fetch_id := fetch_id il + 1\<rparr>;
                        il = (if fetch_id il = fetch_records_amount il then il\<lparr>fetch_id := -1\<rparr> else il)
                    in (Some \<lparr>ili_type = bytes_u32 t, ili_key = k, ili_value = bytes_value v\<rparr>, il))"

definition fetch_done :: "index_log_item_s option \<times> index_logger_s \<Rightarrow> index_log_item_s option \<times> index_logger_s" where
  "fetch_done r = (case r of (ili, il) \<Rightarrow> (ili, il\<lparr>fetch_pos := read_pos il\<rparr>))"

definition index_logger_fetch :: "bool \<Rightarrow> index_logger_s \<Rightarrow> index_log_item_s option \<times> index_logger_s" where
  "index_logger_fetch mem_ok il = fetch_done
    (case fetch_magic il of
      Inl il \<Rightarrow> (None, il)
    | Inr il \<Rightarrow>
        (case fetch_block il of
          Inl il \<Rightarrow> (None, il)
        | Inr il \<Rightarrow> if \<not> mem_ok then (None, il) else fetch_item il))"

section \<open>Reading a log to its end\<close>

lemmas fetch_defs = index_logger_fetch_def fetch_done_def fetch_magic_def fetch_block_def
  fetch_item_def read_log_def Let_def split_beta

lemma fetch_item_progress:
  "fetch_item il = (Some i, il') \<Longrightarrow>
    log_file il' = log_file il \<and> read_pos il' = read_pos il + INDEX_LOG_ITEM_SIZE \<and>
    read_pos il' \<le> length (log_file il)"
  by (auto simp: fetch_item_def read_log_def Let_def log_consts split: if_splits)

lemma fetch_magic_progress:
  "fetch_magic il = Inr il' \<Longrightarrow> log_file il' = log_file il \<and> read_pos il \<le> read_pos il'"
  by (auto simp: fetch_magic_def read_log_def Let_def split: if_splits)

lemma fetch_block_progress:
  "fetch_block il = Inr il' \<Longrightarrow> log_file il' = log_file il \<and> read_pos il \<le> read_pos il'"
  by (auto simp: fetch_block_def read_log_def Let_def split: if_splits)

lemma fetch_progress:
  assumes "index_logger_fetch mem_ok il = (Some i, il')"
  shows "log_file il' = log_file il \<and> read_pos il < read_pos il' \<and> read_pos il' \<le> length (log_file il)"
proof -
  obtain a b where m: "fetch_magic il = Inr a" and b: "fetch_block a = Inr b"
    and i: "fetch_done (fetch_item b) = (Some i, il')"
    using assms by (auto simp: index_logger_fetch_def fetch_done_def split: sum.splits if_splits)
  then obtain c where c: "fetch_item b = (Some i, c)" "il' = c\<lparr>fetch_pos := read_pos c\<rparr>"
    by (auto simp: fetch_done_def split: prod.splits)
  show ?thesis
    using fetch_magic_progress [OF m] fetch_block_progress [OF b] fetch_item_progress [OF c(1)] c(2)
    by (simp add: log_consts)
qed

text \<open>The loop of \<open>print_indexlog\<close> in \<^verbatim>\<open>src/tools/replay_journal.c\<close>: fetch until \<open>NULL\<close>. It ends
  because every item takes bytes from the file.\<close>

function fetch_all :: "index_logger_s \<Rightarrow> index_log_item_s list" where
  "fetch_all il =
    (case index_logger_fetch True il of
      (None, _) \<Rightarrow> []
    | (Some ili, il) \<Rightarrow> ili # fetch_all il)"
  by pat_completeness auto

termination
  by (relation "measure (\<lambda>il. length (log_file il) - read_pos il)")
    (auto dest!: sym [of "(Some _, _)"] fetch_progress)

declare fetch_all.simps [simp del]

definition replay :: "bytes \<Rightarrow> index_log_item_s list" where
  "replay file = (case index_logger_open True (Some file) of
      Some (Some il) \<Rightarrow> fetch_all il | _ \<Rightarrow> [])"

section \<open>What a log file holds\<close>

definition item_bytes :: "index_log_item_s \<Rightarrow> bytes" where
  "item_bytes i = u32_bytes (ili_type i) @ ili_key i @ value_bytes (ili_value i)"

abbreviation item_ok :: "index_log_item_s \<Rightarrow> bool" where
  "item_ok i \<equiv> length (ili_key i) = KEY_LEN"

definition block_bytes :: "index_log_item_s list \<Rightarrow> bytes" where
  "block_bytes is = u32_bytes (crc32_calc (concat (map item_bytes is))) @ le_bytes 4 (length is) @
    concat (map item_bytes is)"

definition BLOCK_ITEMS :: nat where "BLOCK_ITEMS = LOG_BUF_SIZE div INDEX_LOG_ITEM_SIZE"

definition block_ok :: "index_log_item_s list \<Rightarrow> bool" where
  "block_ok is \<longleftrightarrow> is \<noteq> [] \<and> length is \<le> BLOCK_ITEMS \<and> list_all item_ok is"

definition log_bytes :: "index_log_item_s list list \<Rightarrow> bytes" where
  "log_bytes bss = u32_bytes (htonl MAGIC_HEADER) @ concat (map block_bytes bss)"

lemma length_item_bytes [simp]: "item_ok i \<Longrightarrow> length (item_bytes i) = INDEX_LOG_ITEM_SIZE"
  by (simp add: item_bytes_def log_consts)

lemma length_items: "list_all item_ok is \<Longrightarrow> length (concat (map item_bytes is)) = length is * INDEX_LOG_ITEM_SIZE"
  by (induction "is") auto

text \<open>A reader that stands in front of some bytes: between blocks (\<open>None\<close>) or in a block with
  so many items still to come.\<close>

definition at_bytes :: "index_logger_s \<Rightarrow> nat option \<Rightarrow> bytes \<Rightarrow> bool" where
  "at_bytes il left bs \<longleftrightarrow>
    fetch_pos il = read_pos il \<and> read_pos il \<noteq> 0 \<and> drop (read_pos il) (log_file il) = bs \<and>
    (case left of None \<Rightarrow> fetch_id il = -1
     | Some n \<Rightarrow> fetch_id il \<ge> 0 \<and> fetch_records_amount il = fetch_id il + int n)"

lemma read_log_at:
  assumes "drop (read_pos il) (log_file il) = xs @ ys" and "length xs = n"
  shows "read_log n il = (xs, il\<lparr>read_pos := read_pos il + n\<rparr>)"
    and "drop (read_pos il + n) (log_file il) = ys"
proof -
  show "read_log n il = (xs, il\<lparr>read_pos := read_pos il + n\<rparr>)"
    using assms by (simp add: read_log_def)
  show "drop (read_pos il + n) (log_file il) = ys"
    using arg_cong [OF assms(1), of "drop n"] assms(2) by (simp add: add.commute)
qed

lemma fetch_item_at:
  assumes at: "at_bytes il (Some (Suc n)) (item_bytes i @ rest)" and ok: "item_ok i"
  shows "\<exists>il'. index_logger_fetch True il = (Some i, il') \<and>
    at_bytes il' (if n = 0 then None else Some n) rest"
proof -
  let ?at = "\<lambda>k. il\<lparr>read_pos := read_pos il + k\<rparr>"
  have d: "drop (read_pos il) (log_file il) = u32_bytes (ili_type i) @ ili_key i @ value_bytes (ili_value i) @ rest"
    using at by (simp add: at_bytes_def item_bytes_def)
  note r1 = read_log_at [OF d length_u32_bytes]
  have k: "length (ili_key i) = KEY_LEN" using ok .
  have d1: "drop (read_pos (?at 4)) (log_file (?at 4)) = ili_key i @ value_bytes (ili_value i) @ rest"
    using r1(2) by simp
  note r2 = read_log_at [OF d1 k]
  have d2: "drop (read_pos (?at (4 + KEY_LEN))) (log_file (?at (4 + KEY_LEN))) = value_bytes (ili_value i) @ rest"
    using r2(2) by (simp add: add.assoc)
  have v: "length (value_bytes (ili_value i)) = sizeof_value" by (simp add: sizeof_value_def)
  note r3 = read_log_at [OF d2 v]
  show ?thesis
    using at r1(1) r2(1) r3 ok
    by (auto simp: index_logger_fetch_def fetch_done_def fetch_magic_def fetch_block_def
        fetch_item_def Let_def at_bytes_def add.assoc sizeof_value_def KEY_LEN_def)
qed

lemma fetch_pos_irrelevant:
  assumes "fetch_magic il = Inr il'"
  shows "index_logger_fetch True il = index_logger_fetch True (il'\<lparr>fetch_pos := Suc n\<rparr>)"
proof -
  have "fetch_magic (il'\<lparr>fetch_pos := Suc n\<rparr>) = Inr (il'\<lparr>fetch_pos := Suc n\<rparr>)"
    by (simp add: fetch_magic_def)
  moreover have "fetch_block (il'\<lparr>fetch_pos := k\<rparr>) =
      map_sum (\<lambda>il. il\<lparr>fetch_pos := k\<rparr>) (\<lambda>il. il\<lparr>fetch_pos := k\<rparr>) (fetch_block il')" for k
    by (simp add: fetch_block_def read_log_def Let_def)
  moreover have "fetch_done (fetch_item (x\<lparr>fetch_pos := k\<rparr>)) = fetch_done (fetch_item x)" for x k
    by (simp add: fetch_item_def read_log_def Let_def fetch_done_def)
  ultimately show ?thesis
    using assms by (simp add: index_logger_fetch_def fetch_done_def split: sum.split)
qed

lemma unat_count: "n < 2 ^ 32 \<Longrightarrow> unat (bytes_u32 (le_bytes 4 n)) = n"
  by (simp add: bytes_u32_def le_nat_le_bytes unat_of_nat)

lemma fetch_block_at:
  assumes at: "at_bytes il None (block_bytes (i # is) @ rest)" and ok: "block_ok (i # is)"
  shows "\<exists>il'. index_logger_fetch True il = (Some i, il') \<and>
    at_bytes il' (if is = [] then None else Some (length is)) (concat (map item_bytes is) @ rest)"
proof -
  let ?at = "\<lambda>k. il\<lparr>read_pos := read_pos il + k\<rparr>" and ?n = "length (i # is)"
  let ?b = "(?at 8)\<lparr>fetch_records_amount := int ?n, fetch_id := 0\<rparr>"
  have d: "drop (read_pos il) (log_file il) =
      u32_bytes (crc32_calc (concat (map item_bytes (i # is)))) @ le_bytes 4 ?n @
      concat (map item_bytes (i # is)) @ rest"
    using at by (simp add: at_bytes_def block_bytes_def)
  note r1 = read_log_at [OF d length_u32_bytes]
  have d1: "drop (read_pos (?at 4)) (log_file (?at 4)) = le_bytes 4 ?n @ concat (map item_bytes (i # is)) @ rest"
    using r1(2) by simp
  note r2 = read_log_at [OF d1 length_le_bytes]
  have n: "unat (bytes_u32 (le_bytes 4 ?n)) = ?n"
    using ok by (intro unat_count) (simp add: block_ok_def BLOCK_ITEMS_def log_consts)
  have blk: "fetch_magic il = Inr il" "fetch_block il = Inr ?b"
    using at r1(1) r2(1) n
    by (simp_all add: fetch_magic_def fetch_block_def Let_def at_bytes_def)
  have same: "fetch_magic ?b = Inr ?b" "fetch_block ?b = Inr ?b"
    using at by (simp_all add: fetch_magic_def fetch_block_def at_bytes_def)
  let ?c = "?b\<lparr>fetch_pos := read_pos ?b\<rparr>"
  have "at_bytes ?c (Some (Suc (length is))) (item_bytes i @ concat (map item_bytes is) @ rest)"
    using r2(2) by (simp add: at_bytes_def add.assoc)
  moreover have "item_ok i" using ok by (simp add: block_ok_def)
  moreover have "index_logger_fetch True il = index_logger_fetch True ?b"
    using blk same by (simp add: index_logger_fetch_def)
  moreover have "index_logger_fetch True ?b = index_logger_fetch True ?c"
    using fetch_pos_irrelevant [OF same(1), of "read_pos il + 7"] by (simp add: eval_nat_numeral)
  ultimately show ?thesis using fetch_item_at by fastforce
qed

lemma fetch_end:
  assumes "at_bytes il None []"
  shows "fst (index_logger_fetch True il) = None"
  using assms
  by (simp add: at_bytes_def index_logger_fetch_def fetch_done_def fetch_magic_def fetch_block_def
      read_log_def Let_def)

lemma fetch_all_items:
  assumes "at_bytes il (if is = [] then None else Some (length is)) (concat (map item_bytes is) @ rest)"
    and "list_all item_ok is" and "\<And>il. at_bytes il None rest \<Longrightarrow> fetch_all il = xs"
  shows "fetch_all il = is @ xs"
  using assms
proof (induction "is" arbitrary: il)
  case (Cons i "is")
  then obtain il' where "index_logger_fetch True il = (Some i, il')"
    "at_bytes il' (if is = [] then None else Some (length is)) (concat (map item_bytes is) @ rest)"
    using fetch_item_at [of il "length is" i] by fastforce
  then show ?case using Cons by (subst fetch_all.simps) auto
qed simp

lemma fetch_all_blocks:
  assumes "at_bytes il None (concat (map block_bytes bss))" and "list_all block_ok bss"
  shows "fetch_all il = concat bss"
  using assms
proof (induction bss arbitrary: il)
  case Nil
  then show ?case using fetch_end [of il] by (subst fetch_all.simps) (auto split: prod.split option.split)
next
  case (Cons b bss)
  then obtain i "is" where b: "b = i # is" by (cases b) (auto simp: block_ok_def)
  then obtain il' where f: "index_logger_fetch True il = (Some i, il')" and
    at: "at_bytes il' (if is = [] then None else Some (length is))
      (concat (map item_bytes is) @ concat (map block_bytes bss))"
    using fetch_block_at [of il i "is"] Cons.prems by fastforce
  have "fetch_all il' = is @ concat bss"
    using Cons b by (intro fetch_all_items [OF at]) (auto simp: block_ok_def)
  then show ?case using f b by (subst fetch_all.simps) simp
qed

lemma replay_log_bytes:
  assumes "list_all block_ok bss"
  shows "replay (log_bytes bss) = concat bss"
proof -
  obtain il where opened: "index_logger_open True (Some (log_bytes bss)) = Some (Some il)"
    and il: "read_pos il = 0" "fetch_pos il = 0" "fetch_id il = -1" "log_file il = log_bytes bss"
    by (simp add: index_logger_open_def)
  have "drop (read_pos il) (log_file il) = u32_bytes (htonl MAGIC_HEADER) @ concat (map block_bytes bss)"
    using il by (simp add: log_bytes_def)
  note r = read_log_at [OF this length_u32_bytes]
  then have m: "fetch_magic il = Inr (il\<lparr>read_pos := 4\<rparr>)"
    using il by (simp add: fetch_magic_def)
  let ?il = "il\<lparr>read_pos := 4, fetch_pos := 4\<rparr>"
  have "index_logger_fetch True il = index_logger_fetch True ?il"
    using fetch_pos_irrelevant [OF m, of 3] by (simp add: eval_nat_numeral)
  then have "fetch_all il = fetch_all ?il" by (subst (1 2) fetch_all.simps) simp
  also have "\<dots> = concat bss"
    using r(2) il by (intro fetch_all_blocks [OF _ assms]) (simp add: at_bytes_def)
  finally show ?thesis using opened by (simp add: replay_def)
qed

section \<open>What a logger writes\<close>

text \<open>The blocks in the file and the items still in the working buffer.\<close>

definition log_inv :: "index_logger_s \<Rightarrow> index_log_item_s list list \<Rightarrow> index_log_item_s list \<Rightarrow> bool" where
  "log_inv il bss ws \<longleftrightarrow>
    curr_working_buf il \<in> {1, 2} \<and> log_file il = log_bytes bss \<and> list_all block_ok bss \<and>
    length (buf_ptr (buffer1 il)) = LOG_BUF_SIZE \<and> length (buf_ptr (buffer2 il)) = LOG_BUF_SIZE \<and>
    list_all item_ok ws \<and> length ws \<le> BLOCK_ITEMS \<and>
    buf_count (working_buffer il) = length ws \<and>
    take (length ws * INDEX_LOG_ITEM_SIZE) (buf_ptr (working_buffer il)) = concat (map item_bytes ws)"

text \<open>A \<open>write\<close> that writes all it is given.\<close>

definition full_write :: "(nat \<Rightarrow> nat) \<Rightarrow> bool" where
  "full_write nwrite \<longleftrightarrow> (\<forall>n. n \<le> nwrite n)"

lemma create_inv:
  assumes "full_write nwrite"
  shows "\<exists>il. index_logger_create True True True nwrite = Some (Some il) \<and> log_inv il [] []"
proof -
  have "nwrite 4 \<ge> 4" using assms by (simp add: full_write_def)
  then show ?thesis
    by (simp add: index_logger_create_def write_log_def log_inv_def log_bytes_def zero_buf_def
        working_buffer_def)
qed

lemma put_at_put_at:
  "off + length a \<le> length xs \<Longrightarrow> put_at (off + length a) b (put_at off a xs) = put_at off (a @ b) xs"
  by (simp add: put_at_def add.assoc add.commute [of "length b"])

lemma length_put_at: "off + length bs \<le> length xs \<Longrightarrow> length (put_at off bs xs) = length xs"
  by (simp add: put_at_def)

lemma take_put_at: "off + length bs \<le> length xs \<Longrightarrow> take (off + length bs) (put_at off bs xs) = take off xs @ bs"
  by (simp add: put_at_def)

lemma put_item_bytes:
  assumes "item_ok i" and "(buf_count b + 1) * INDEX_LOG_ITEM_SIZE \<le> length (buf_ptr b)"
  shows "put_item i b = b\<lparr>buf_ptr := put_at (buf_count b * INDEX_LOG_ITEM_SIZE) (item_bytes i) (buf_ptr b),
    buf_count := buf_count b + 1\<rparr>"
proof -
  let ?p = "buf_count b * INDEX_LOG_ITEM_SIZE"
  have len: "?p + 4 + KEY_LEN + sizeof_value \<le> length (buf_ptr b)"
    using assms(2) by (simp add: log_consts)
  then have "put_at (?p + 4) (ili_key i) (put_at ?p (u32_bytes (ili_type i)) (buf_ptr b)) =
      put_at ?p (u32_bytes (ili_type i) @ ili_key i) (buf_ptr b)"
    using put_at_put_at [of ?p "u32_bytes (ili_type i)" "buf_ptr b"] by simp
  then show ?thesis
    using put_at_put_at [of ?p "u32_bytes (ili_type i) @ ili_key i" "buf_ptr b" "value_bytes (ili_value i)"]
      assms(1) len
    by (simp add: put_item_def Let_def item_bytes_def add.assoc)
qed

lemma put_item_inv:
  assumes inv: "log_inv il bss ws" and ok: "item_ok i" and room: "length ws < BLOCK_ITEMS"
  shows "log_inv (set_working (put_item i (working_buffer il)) il) bss (ws @ [i])"
proof -
  let ?b = "working_buffer il" and ?n = "length ws * INDEX_LOG_ITEM_SIZE"
  have b: "buf_count ?b = length ws" "length (buf_ptr ?b) = LOG_BUF_SIZE"
      "take ?n (buf_ptr ?b) = concat (map item_bytes ws)"
    using inv by (auto simp: log_inv_def working_buffer_def)
  have fits: "?n + length (item_bytes i) \<le> length (buf_ptr ?b)"
    using room ok b by (simp add: BLOCK_ITEMS_def log_consts)
  then have "put_item i ?b = ?b\<lparr>buf_ptr := put_at ?n (item_bytes i) (buf_ptr ?b), buf_count := length ws + 1\<rparr>"
    using put_item_bytes [of i ?b] ok b by simp
  then show ?thesis
    using inv ok room take_put_at [OF fits] length_put_at [OF fits] b
    by (auto simp: log_inv_def set_working_def working_buffer_def add.commute)
qed

text \<open>Switching the buffers and writing the full one out.\<close>

lemma store_block:
  assumes inv: "log_inv il bss ws" and ws: "ws \<noteq> []" and wr: "full_write nwrite"
  shows "\<exists>il'. sync_index_log nwrite (switch_buffer il) = (RET_SUCCESS, il') \<and> log_inv il' (bss @ [ws]) []"
proof -
  let ?n = "length ws * INDEX_LOG_ITEM_SIZE" and ?s = "switch_buffer il"
  let ?b = "(working_buffer il)\<lparr>crc32sum := crc32_calc (concat (map item_bytes ws))\<rparr>"
  have st: "storing_buffer ?s = working_buffer il" "log_file ?s = log_file il"
    using inv
    by (auto simp: log_inv_def switch_buffer_def set_working_def working_buffer_def storing_buffer_def Let_def)
  have len: "length (concat (map item_bytes ws)) = ?n" using inv length_items by (simp add: log_inv_def)
  have "buf_bytes ?b (?n + LOG_BUF_HEADER_SIZE) = block_bytes ws"
    using inv len by (simp add: buf_bytes_def block_bytes_def log_inv_def LOG_BUF_HEADER_SIZE_def)
  moreover have "length (block_bytes ws) = ?n + LOG_BUF_HEADER_SIZE"
    using len by (simp add: block_bytes_def LOG_BUF_HEADER_SIZE_def)
  moreover have "min (nwrite (?n + LOG_BUF_HEADER_SIZE)) (?n + LOG_BUF_HEADER_SIZE) = ?n + LOG_BUF_HEADER_SIZE"
    using wr by (simp add: full_write_def min_absorb2)
  ultimately have "sync_index_log nwrite ?s = (RET_SUCCESS, (set_storing ?b ?s)\<lparr>log_file := log_file ?s @ block_bytes ws\<rparr>)"
    using inv st by (simp add: sync_index_log_def Let_def log_inv_def write_log_def set_storing_def)
  moreover have "log_inv ((set_storing ?b ?s)\<lparr>log_file := log_file ?s @ block_bytes ws\<rparr>) (bss @ [ws]) []"
    using inv ws
    by (auto simp: log_inv_def block_ok_def log_bytes_def switch_buffer_def set_working_def
        set_storing_def working_buffer_def Let_def)
  ultimately show ?thesis by blast
qed

lemma append_inv:
  assumes inv: "log_inv il bss ws" and ok: "item_ok i" and wr: "full_write nwrite"
  shows "\<exists>il' bss' ws'. index_logger_append nwrite i il = (RET_SUCCESS, il') \<and> log_inv il' bss' ws' \<and>
    concat bss' @ ws' = concat bss @ ws @ [i]"
proof (cases "length ws < BLOCK_ITEMS")
  case True
  then have "\<not> LOG_BUF_SIZE < (buf_count (working_buffer il) + 1) * INDEX_LOG_ITEM_SIZE"
    using inv by (simp add: log_inv_def BLOCK_ITEMS_def log_consts)
  then have "index_logger_append nwrite i il = (RET_SUCCESS, set_working (put_item i (working_buffer il)) il)"
    by (simp add: index_logger_append_def)
  then show ?thesis using put_item_inv [OF inv ok True] by (intro exI conjI) auto
next
  case False
  then have full: "length ws = BLOCK_ITEMS" "ws \<noteq> []"
    using inv by (auto simp: log_inv_def BLOCK_ITEMS_def log_consts)
  obtain il' where il': "sync_index_log nwrite (switch_buffer il) = (RET_SUCCESS, il')"
      "log_inv il' (bss @ [ws]) []"
    using store_block [OF inv full(2) wr] by blast
  have "LOG_BUF_SIZE < (buf_count (working_buffer il) + 1) * INDEX_LOG_ITEM_SIZE"
    using inv full by (simp add: log_inv_def BLOCK_ITEMS_def log_consts)
  then have "index_logger_append nwrite i il = (RET_SUCCESS, set_working (put_item i (working_buffer il')) il')"
    using il'(1) by (simp add: index_logger_append_def)
  moreover have "log_inv (set_working (put_item i (working_buffer il')) il') (bss @ [ws]) [i]"
    using put_item_inv [OF il'(2) ok] by (simp add: BLOCK_ITEMS_def log_consts)
  ultimately show ?thesis
    by (intro exI [where x = "set_working (put_item i (working_buffer il')) il'"]
        exI [where x = "bss @ [ws]"] exI [where x = "[i]"]) simp
qed

lemma close_inv:
  assumes inv: "log_inv il bss ws" and wr: "full_write nwrite"
  shows "\<exists>bss'. index_logger_close nwrite il = (RET_SUCCESS, log_bytes bss') \<and> list_all block_ok bss' \<and>
    concat bss' = concat bss @ ws"
proof (cases "ws = []")
  case True
  then show ?thesis
    using inv by (intro exI [where x = bss])
      (auto simp: index_logger_close_def index_logger_flush_def log_inv_def)
next
  case False
  obtain il' where "sync_index_log nwrite (switch_buffer il) = (RET_SUCCESS, il')" "log_inv il' (bss @ [ws]) []"
    using store_block [OF inv False wr] by blast
  then show ?thesis
    using inv False by (intro exI [where x = "bss @ [ws]"])
      (auto simp: index_logger_close_def index_logger_flush_def log_inv_def)
qed

text \<open>A sequence of appends; it goes on after a failure, as the callers do.\<close>

fun append_all :: "(nat \<Rightarrow> nat) \<Rightarrow> index_log_item_s list \<Rightarrow> index_logger_s \<Rightarrow> index_logger_s" where
  "append_all nwrite [] il = il"
| "append_all nwrite (i # is) il = append_all nwrite is (snd (index_logger_append nwrite i il))"

lemma append_all_inv:
  assumes "log_inv il bss ws" and "list_all item_ok is" and "full_write nwrite"
  shows "\<exists>bss' ws'. log_inv (append_all nwrite is il) bss' ws' \<and> concat bss' @ ws' = concat bss @ ws @ is"
  using assms
proof (induction "is" arbitrary: il bss ws)
  case (Cons i "is")
  then obtain il' bss' ws' where a: "index_logger_append nwrite i il = (RET_SUCCESS, il')"
      "log_inv il' bss' ws'" "concat bss' @ ws' = concat bss @ ws @ [i]"
    using append_inv [of il bss ws i nwrite] by auto
  then obtain bss2 ws2 where "log_inv (append_all nwrite is il') bss2 ws2"
      "concat bss2 @ ws2 = concat bss' @ ws' @ is"
    using Cons.IH [of il' bss' ws'] Cons.prems by auto
  moreover have "concat bss' @ ws' @ is = concat bss @ ws @ i # is"
    using a(3) by (metis append.assoc append_Cons append_Nil)
  ultimately show ?case using a(1) by (intro exI [where x = bss2] exI [where x = ws2]) simp
qed auto

text \<open>A reader of a prefix of a file sees a prefix of the items.\<close>

definition cut :: "nat \<Rightarrow> index_logger_s \<Rightarrow> index_logger_s" where
  "cut k il = il\<lparr>log_file := take k (log_file il)\<rparr>"

lemma read_log_cut:
  assumes "read_log n (cut k il) = (bs, t)" and "length bs = n"
  shows "\<exists>il'. read_log n il = (bs, il') \<and> t = cut k il'"
proof -
  have bs: "bs = take n (drop (read_pos il) (take k (log_file il)))"
    and t: "t = (cut k il)\<lparr>read_pos := read_pos il + length bs\<rparr>"
    using assms(1) by (auto simp: read_log_def Let_def cut_def)
  have "bs = take n (drop (read_pos il) (log_file il))"
    using bs assms(2) by (auto simp: drop_take min_def split: if_splits)
  then show ?thesis using t by (simp add: read_log_def Let_def cut_def)
qed

lemma cut_fields [simp]:
  "fetch_pos (cut k il) = fetch_pos il" "fetch_id (cut k il) = fetch_id il" "read_pos (cut k il) = read_pos il"
  "fetch_records_amount (cut k il) = fetch_records_amount il"
  by (simp_all add: cut_def)

lemma cut_update:
  "(cut k il)\<lparr>fetch_id := a\<rparr> = cut k (il\<lparr>fetch_id := a\<rparr>)"
  "(cut k il)\<lparr>fetch_pos := b\<rparr> = cut k (il\<lparr>fetch_pos := b\<rparr>)"
  "(cut k il)\<lparr>fetch_records_amount := c, fetch_id := a\<rparr> = cut k (il\<lparr>fetch_records_amount := c, fetch_id := a\<rparr>)"
  by (simp_all add: cut_def)

lemma fetch_magic_cut:
  assumes "fetch_magic (cut k il) = Inr t"
  shows "\<exists>il'. fetch_magic il = Inr il' \<and> t = cut k il'"
proof (cases "fetch_pos il = 0")
  case True
  obtain bs u where r: "read_log 4 (cut k il) = (bs, u)" by fastforce
  then have "length bs = 4" using assms True by (auto simp: fetch_magic_def split: if_splits)
  then show ?thesis
    using read_log_cut [OF r] assms True r by (auto simp: fetch_magic_def split: if_splits)
qed (use assms in \<open>auto simp: fetch_magic_def\<close>)

lemma fetch_block_cut:
  assumes "fetch_block (cut k il) = Inr t"
  shows "\<exists>il'. fetch_block il = Inr il' \<and> t = cut k il'"
proof (cases "fetch_id il = -1")
  case True
  obtain bs u where r: "read_log 4 (cut k il) = (bs, u)" by fastforce
  then have bs: "length bs = 4" using assms True by (auto simp: fetch_block_def split: if_splits)
  then obtain v where v: "read_log 4 il = (bs, v)" "u = cut k v" using read_log_cut [OF r] by blast
  obtain cs w where q: "read_log 4 (cut k v) = (cs, w)" by fastforce
  then have "length cs = 4" using assms True r v bs by (auto simp: fetch_block_def split: if_splits)
  then show ?thesis
    using read_log_cut [OF q] assms True r v bs q cut_update by (auto simp: fetch_block_def)
qed (use assms in \<open>auto simp: fetch_block_def\<close>)

lemma fetch_item_cut:
  assumes "fetch_item (cut k il) = (Some i, t)"
  shows "\<exists>il'. fetch_item il = (Some i, il') \<and> t = cut k il'"
proof -
  obtain a1 u1 where r1: "read_log 4 (cut k il) = (a1, u1)" by fastforce
  then have l1: "length a1 = 4" using assms by (auto simp: fetch_item_def split: if_splits)
  then obtain v1 where v1: "read_log 4 il = (a1, v1)" "u1 = cut k v1" using read_log_cut [OF r1] by blast
  obtain a2 u2 where r2: "read_log KEY_LEN (cut k v1) = (a2, u2)" by fastforce
  then have l2: "length a2 = KEY_LEN" using assms r1 l1 v1 by (auto simp: fetch_item_def split: if_splits)
  then obtain v2 where v2: "read_log KEY_LEN v1 = (a2, v2)" "u2 = cut k v2" using read_log_cut [OF r2] by blast
  obtain a3 u3 where r3: "read_log sizeof_value (cut k v2) = (a3, u3)" by fastforce
  then have l3: "length a3 = sizeof_value"
    using assms r1 l1 v1 r2 l2 v2 by (auto simp: fetch_item_def split: if_splits)
  then obtain v3 where v3: "read_log sizeof_value v2 = (a3, v3)" "u3 = cut k v3" using read_log_cut [OF r3] by blast
  show ?thesis
    using assms r1 l1 v1 r2 l2 v2 r3 l3 v3 cut_update
    by (auto simp: fetch_item_def Let_def split: if_splits)
qed

lemma fetch_cut:
  assumes "index_logger_fetch True (cut k il) = (Some i, t)"
  shows "\<exists>il'. index_logger_fetch True il = (Some i, il') \<and> t = cut k il'"
proof -
  obtain a b c where "fetch_magic (cut k il) = Inr a" "fetch_block a = Inr b" "fetch_item b = (Some i, c)"
    and t: "t = c\<lparr>fetch_pos := read_pos c\<rparr>"
    using assms by (auto simp: index_logger_fetch_def fetch_done_def split: sum.splits prod.splits)
  then obtain a' b' c' where "fetch_magic il = Inr a'" "fetch_block a' = Inr b'" "fetch_item b' = (Some i, c')"
    "c = cut k c'"
    using fetch_magic_cut fetch_block_cut fetch_item_cut by metis
  then show ?thesis using t cut_update by (auto simp: index_logger_fetch_def fetch_done_def)
qed

lemma fetch_all_cut: "\<exists>n. fetch_all (cut k il) = take n (fetch_all il)"
proof (induction il rule: fetch_all.induct)
  case (1 il)
  obtain r t where f: "index_logger_fetch True (cut k il) = (r, t)" by fastforce
  show ?case
  proof (cases r)
    case None
    then have "fetch_all (cut k il) = []" using f by (subst fetch_all.simps) simp
    then show ?thesis by (intro exI [where x = 0]) simp
  next
    case (Some i)
    then obtain il' where il': "index_logger_fetch True il = (Some i, il')" "t = cut k il'"
      using fetch_cut f by blast
    then obtain n where "fetch_all (cut k il') = take n (fetch_all il')"
      using 1 [OF il'(1) [symmetric] _] by auto
    then show ?thesis
      using f Some il' by (intro exI [where x = "Suc n"]) (simp add: fetch_all.simps)
  qed
qed

section \<open>Properties\<close>

text \<open>The log of a run: create, append, close.\<close>

definition write_items :: "(nat \<Rightarrow> nat) \<Rightarrow> index_log_item_s list \<Rightarrow> bytes option" where
  "write_items nwrite is = (case index_logger_create True True True nwrite of
      Some (Some il) \<Rightarrow> Some (snd (index_logger_close nwrite (append_all nwrite is il)))
    | _ \<Rightarrow> None)"

lemma write_items_blocks:
  assumes "full_write nwrite" and "list_all item_ok is"
  shows "\<exists>bss. write_items nwrite is = Some (log_bytes bss) \<and> list_all block_ok bss \<and> concat bss = is"
proof -
  obtain il where il: "index_logger_create True True True nwrite = Some (Some il)" "log_inv il [] []"
    using create_inv [OF assms(1)] by blast
  obtain bss ws where "log_inv (append_all nwrite is il) bss ws" "concat bss @ ws = is"
    using append_all_inv [OF il(2) assms(2,1)] by auto
  then show ?thesis
    using close_inv [of "append_all nwrite is il" bss ws nwrite] assms(1) il(1)
    by (auto simp: write_items_def)
qed

text \<open>
  C23. The journal keeps what is logged: when the writes succeed, a log that was created,
  appended to any number of times and closed is, read back by opening it and fetching until
  \<open>NULL\<close>, exactly the sequence of the appended items, across all buffer switches.
\<close>

theorem indexlog_roundtrip:
  assumes "\<forall>n. n \<le> nwrite n" and "list_all (\<lambda>i. length (ili_key i) = KEY_LEN) is"
  shows "\<exists>file. write_items nwrite is = Some file \<and> replay file = is"
  using write_items_blocks [of nwrite "is"] assms replay_log_bytes by (auto simp: full_write_def)

definition example_item :: index_log_item_s where
  "example_item = \<lparr>ili_type = op_code index_append, ili_key = replicate 16 7,
    ili_value = \<lparr>iv_crc32 = 1, iv_block_id = 2, iv_data_size = 3, iv_offset = 800024\<rparr>\<rparr>"

theorem indexlog_roundtrip_witness:
  "(\<forall>n. n \<le> (\<lambda>n. n) (n :: nat)) \<and> list_all (\<lambda>i. length (ili_key i) = KEY_LEN) (replicate 200 example_item) \<and>
    (\<exists>file. write_items (\<lambda>n. n) (replicate 200 example_item) = Some file \<and>
      replay file = replicate 200 example_item)"
  using indexlog_roundtrip [of "\<lambda>n. n" "replicate 200 example_item"]
  by (auto simp: list_all_iff example_item_def KEY_LEN_def)

text \<open>
  C24. A crash loses only the tail: a log file cut off at any byte reads back as a prefix of
  the items that were logged, never as anything else.
\<close>

theorem indexlog_crash_prefix:
  assumes "\<forall>n. n \<le> nwrite n" and "list_all (\<lambda>i. length (ili_key i) = KEY_LEN) is"
    and "write_items nwrite is = Some file"
  shows "\<exists>n. replay (take k file) = take n is"
proof -
  have all: "replay file = is"
    using write_items_blocks [of nwrite "is"] assms replay_log_bytes by (auto simp: full_write_def)
  obtain il where il: "index_logger_open True (Some file) = Some (Some il)"
      "index_logger_open True (Some (take k file)) = Some (Some (cut k il))"
    by (simp add: index_logger_open_def cut_def)
  then show ?thesis using fetch_all_cut [of k il] all by (simp add: replay_def)
qed

theorem indexlog_crash_prefix_witness:
  "\<exists>file. write_items (\<lambda>n. n) [example_item] = Some file \<and>
    (\<exists>n. replay (take 30 file) = take n [example_item])"
proof -
  obtain f where f: "write_items (\<lambda>n. n) [example_item] = Some f"
    using write_items_blocks [of "\<lambda>n. n" "[example_item]"]
    by (auto simp: full_write_def example_item_def KEY_LEN_def)
  have "\<exists>n. replay (take 30 f) = take n [example_item]"
    by (rule indexlog_crash_prefix [OF _ _ f]) (simp_all add: example_item_def KEY_LEN_def)
  then show ?thesis using f by blast
qed

text \<open>
  C35. A failed write loses a buffer: when an append finds the working buffer full and the
  write of it comes up short, the call reports failure, the other buffer is empty and in use,
  and of the full buffer only the bytes that were written remain, in the file; neither its
  items nor the new one will be written again.
\<close>

theorem indexlog_append_failure:
  assumes "curr_working_buf il \<in> {1, 2}" and "buf_count (working_buffer il) = 186"
    and "nwrite 8192 < 8192" and "length (buf_ptr (working_buffer il)) = LOG_BUF_SIZE"
  shows "\<exists>il' bs. index_logger_append nwrite ili il = (RET_FAILED, il') \<and>
    buf_count (working_buffer il') = 0 \<and> length bs = nwrite 8192 \<and> log_file il' = log_file il @ bs"
proof -
  let ?b = "working_buffer il"
  let ?c = "?b\<lparr>crc32sum := crc32_calc (take (186 * INDEX_LOG_ITEM_SIZE) (buf_ptr ?b))\<rparr>"
  let ?s = "switch_buffer il"
  let ?bs = "take (nwrite 8192) (buf_bytes ?c 8192)"
  let ?il = "(set_storing ?c ?s)\<lparr>log_file := log_file il @ ?bs\<rparr>"
  have s: "storing_buffer ?s = ?b" "log_file (set_storing x ?s) = log_file il" for x
    using assms(1)
    by (auto simp: switch_buffer_def set_working_def set_storing_def working_buffer_def storing_buffer_def Let_def)
  have len: "length (buf_bytes ?c 8192) = 8192" using assms(4) by (simp add: buf_bytes_def log_consts)
  have "sync_index_log nwrite ?s = (RET_FAILED, ?il)"
    using s assms(2,3) len
    by (simp add: sync_index_log_def Let_def write_log_def log_consts)
  then have "index_logger_append nwrite ili il = (RET_FAILED, ?il)"
    using assms(2) by (simp add: index_logger_append_def log_consts ret_code_defs)
  moreover have "buf_count (working_buffer ?il) = 0"
    using assms(1) by (auto simp: switch_buffer_def set_working_def set_storing_def working_buffer_def Let_def)
  moreover have "length ?bs = nwrite 8192" using len assms(3) by simp
  ultimately show ?thesis by (intro exI [where x = ?il] exI [where x = ?bs]) simp
qed

definition full_logger :: index_logger_s where
  "full_logger = \<lparr>curr_working_buf = 1, buffer1 = zero_buf\<lparr>buf_count := 186\<rparr>, buffer2 = zero_buf,
    log_file = [], read_pos = 0, fetch_pos = 0, fetch_records_amount = -1, fetch_id = -1\<rparr>"

theorem indexlog_append_failure_witness:
  "curr_working_buf full_logger \<in> {1, 2} \<and> buf_count (working_buffer full_logger) = 186 \<and>
    (\<lambda>n. 0) 8192 < (8192 :: nat) \<and>
    (\<exists>il'. index_logger_append (\<lambda>n. 0) example_item full_logger = (RET_FAILED, il') \<and>
      buf_count (working_buffer il') = 0)"
  using indexlog_append_failure [of full_logger "\<lambda>n. 0" example_item]
  by (auto simp: full_logger_def working_buffer_def zero_buf_def)

end
