(* ===== verification/Item_Memory.thy ===== *)
theory Item_Memory
  imports Slab Indexlog "HOL-Library.Monad_Syntax"
begin

text \<open>
  The memory of the records that \<open>index_logger_fetch\<close> of \<^verbatim>\<open>src/src/indexlog.c\<close> returns: a record is three blocks, and
  whatever fails on the way the blocks already taken are given back. The code is a client of the locale \<open>allocator\<close>: the
  result is proved from its laws alone, and holds for the slab allocator by the interpretation of theory \<open>Slab\<close>.
\<close>

definition ITEM_STRUCT_SIZE :: u64 where "ITEM_STRUCT_SIZE = 24"
definition INDEX_KEY_SIZE :: u64 where "INDEX_KEY_SIZE = 16"
definition INDEX_VALUE_SIZE :: u64 where "INDEX_VALUE_SIZE = 24"

lemmas item_sizes = ITEM_STRUCT_SIZE_def INDEX_KEY_SIZE_def INDEX_VALUE_SIZE_def

text \<open>The pointers to the item, its key and its value.\<close>

type_synonym item_ptrs = "nat \<times> nat \<times> nat"

text \<open>\<open>env\<close> is what the system answers at a state of the allocator.\<close>

definition index_logger_free_item :: "('e \<Rightarrow> nat option \<Rightarrow> 's \<Rightarrow> 's option) \<Rightarrow> ('s \<Rightarrow> 'e) \<Rightarrow> item_ptrs \<Rightarrow> 's \<Rightarrow> (int \<times> 's) option" where
  "index_logger_free_item free env ili s =
    (case ili of (item, key, val) \<Rightarrow> do {
       s \<leftarrow> free (env s) (Some val) s;
       s \<leftarrow> free (env s) (Some key) s;
       s \<leftarrow> free (env s) (Some item) s;
       Some (RET_SUCCESS, s)
     })"

text \<open>The blocks of a fetch; \<open>reads_ok\<close> says whether the three reads got all their bytes.\<close>

definition fetch_memory :: "('e \<Rightarrow> u64 \<Rightarrow> 's \<Rightarrow> (nat option \<times> 's) option) \<Rightarrow> ('e \<Rightarrow> nat option \<Rightarrow> 's \<Rightarrow> 's option) \<Rightarrow> ('s \<Rightarrow> 'e) \<Rightarrow>
  bool \<Rightarrow> 's \<Rightarrow> (item_ptrs option \<times> 's) option" where
  "fetch_memory alloc free env reads_ok s = do {
     (ili, s) \<leftarrow> alloc (env s) ITEM_STRUCT_SIZE s;
     case ili of
       None \<Rightarrow> Some (None, s)
     | Some item \<Rightarrow> do {
         (index_key, s) \<leftarrow> alloc (env s) INDEX_KEY_SIZE s;
         case index_key of
           None \<Rightarrow> do { s \<leftarrow> free (env s) (Some item) s; Some (None, s) }
         | Some key \<Rightarrow> do {
             (index_value, s) \<leftarrow> alloc (env s) INDEX_VALUE_SIZE s;
             case index_value of
               None \<Rightarrow> do { s \<leftarrow> free (env s) (Some key) s; s \<leftarrow> free (env s) (Some item) s; Some (None, s) }
             | Some val \<Rightarrow>
                 if reads_ok then Some (Some (item, key, val), s)
                 else do { (_, s) \<leftarrow> index_logger_free_item free env (item, key, val) s; Some (None, s) }
           }
       }
   }"

context allocator
begin

lemma alloc_block:
  assumes "inv s L" and "\<forall>s L. inv s L \<longrightarrow> fresh (env s) s L" and "unat sz + sizeof_head < 2 ^ 64"
  obtains (refused) s' where "alloc (env s) sz s = Some (None, s')" "inv s' L"
    | (block) a s' where "alloc (env s) sz s = Some (Some (a + sizeof_head), s')" "L a = None" "inv s' (L(a \<mapsto> unat sz + sizeof_head))"
proof -
  obtain r s' L' where r: "alloc (env s) sz s = Some (r, s')" "handed_out L r (unat sz + sizeof_head) L'" "inv s' L'"
    using alloc_inv [OF assms(1) assms(2) [rule_format, OF assms(1)] assms(3)] by blast
  show ?thesis
  proof (cases r)
    case None
    then show ?thesis using refused r by (simp add: handed_out_def)
  next
    case (Some ptr)
    then show ?thesis using block [of "ptr - sizeof_head" s'] r by (simp add: handed_out_def)
  qed
qed

text \<open>A block that was the last to be taken is given back.\<close>

lemma free_block:
  assumes "inv s (L(a \<mapsto> n))" and "L a = None"
  shows "\<exists>s'. free e (Some (a + sizeof_head)) s = Some s' \<and> inv s' L"
  using free_inv [OF assms(1), of a n e] assms(2) by (simp add: fun_upd_idem)

lemma free_item:
  assumes "inv s (L(a \<mapsto> n, b \<mapsto> m, c \<mapsto> l))" and "L a = None" "L b = None" "L c = None" "distinct [a, b, c]"
  shows "\<exists>s'. index_logger_free_item free env (a + sizeof_head, b + sizeof_head, c + sizeof_head) s = Some (RET_SUCCESS, s') \<and> inv s' L"
proof -
  obtain s1 where s1: "free (env s) (Some (c + sizeof_head)) s = Some s1" "inv s1 (L(a \<mapsto> n, b \<mapsto> m))"
    using free_block [of s "L(a \<mapsto> n, b \<mapsto> m)" c l] assms by auto
  obtain s2 where s2: "free (env s1) (Some (b + sizeof_head)) s1 = Some s2" "inv s2 (L(a \<mapsto> n))"
    using free_block [of s1 "L(a \<mapsto> n)" b m] s1(2) assms by auto
  obtain s3 where "free (env s2) (Some (a + sizeof_head)) s2 = Some s3" "inv s3 L" using free_block [of s2 L a n] s2(2) assms by auto
  then show ?thesis using s1(1) s2(1) by (simp add: index_logger_free_item_def)
qed

text \<open>A fetch that fails leaves the memory as it was; one that succeeds has taken three new blocks, which \<open>index_logger_free_item\<close> gives back.\<close>

lemma fetch_keeps_memory:
  assumes "inv s L" and env: "\<forall>s L. inv s L \<longrightarrow> fresh (env s) s L"
  shows "\<exists>r s'. fetch_memory alloc free env reads_ok s = Some (r, s') \<and>
    (case r of
      None \<Rightarrow> inv s' L
    | Some (i, k, v) \<Rightarrow> \<exists>a b c L'. i = a + sizeof_head \<and> k = b + sizeof_head \<and> v = c + sizeof_head \<and> distinct [a, b, c] \<and>
        L a = None \<and> L b = None \<and> L c = None \<and> dom L' = dom L \<union> {a, b, c} \<and> inv s' L' \<and>
        (\<exists>s''. index_logger_free_item free env (i, k, v) s' = Some (RET_SUCCESS, s'') \<and> inv s'' L))"
proof -
  have small: "unat ITEM_STRUCT_SIZE + sizeof_head < 2 ^ 64" "unat INDEX_KEY_SIZE + sizeof_head < 2 ^ 64" "unat INDEX_VALUE_SIZE + sizeof_head < 2 ^ 64"
    by (simp_all add: item_sizes sizeof_head_def)
  from assms(1) env small(1) show ?thesis
  proof (cases rule: alloc_block)
    case (refused s1)
    then show ?thesis by (simp add: fetch_memory_def)
  next
    case (block a s1)
    note a = this
    from a(3) env small(2) show ?thesis
    proof (cases rule: alloc_block)
      case (refused s2)
      then show ?thesis using a free_block [OF refused(2) a(2), of "env s2"] by (auto simp: fetch_memory_def)
    next
      case (block b s2)
      note b = this
      then have Lb: "L b = None" "b \<noteq> a" by (auto split: if_splits)
      from b(3) env small(3) show ?thesis
      proof (cases rule: alloc_block)
        case (refused s3)
        obtain s4 where s4: "free (env s3) (Some (b + sizeof_head)) s3 = Some s4" "inv s4 (L(a \<mapsto> unat ITEM_STRUCT_SIZE + sizeof_head))"
          using free_block [OF refused(2) b(2)] by blast
        then show ?thesis using a b refused free_block [OF s4(2) a(2), of "env s4"] by (auto simp: fetch_memory_def)
      next
        case (block c s3)
        then have Lc: "L c = None" "c \<noteq> a" "c \<noteq> b" by (auto split: if_splits)
        obtain s4 where s4: "index_logger_free_item free env (a + sizeof_head, b + sizeof_head, c + sizeof_head) s3 = Some (RET_SUCCESS, s4)" "inv s4 L"
          using free_item [OF block(3), of env] a(2) Lb Lc by auto
        let ?L = "L(a \<mapsto> unat ITEM_STRUCT_SIZE + sizeof_head, b \<mapsto> unat INDEX_KEY_SIZE + sizeof_head, c \<mapsto> unat INDEX_VALUE_SIZE + sizeof_head)"
        have "fetch_memory alloc free env reads_ok s =
            Some (if reads_ok then (Some (a + sizeof_head, b + sizeof_head, c + sizeof_head), s3) else (None, s4))"
          using a(1) b(1) block(1) s4(1) by (simp add: fetch_memory_def)
        moreover have "dom ?L = dom L \<union> {a, b, c}" by auto
        moreover have "distinct [a, b, c]" using Lb(2) Lc(2,3) by auto
        ultimately show ?thesis
          using s4 block(3) a(2) Lb(1) Lc(1)
          by (intro exI [where x = "if reads_ok then Some (a + sizeof_head, b + sizeof_head, c + sizeof_head) else None"]
              exI [where x = "if reads_ok then s3 else s4"] conjI)
            (simp, cases reads_ok, simp only: if_True option.case prod.case,
              intro exI [where x = a] exI [where x = b] exI [where x = c] exI [where x = ?L] conjI, simp_all)
      qed
    qed
  qed
qed

end

text \<open>With the slab allocator of the program.\<close>

lemma fetch_no_leak:
  assumes "slab_inv s L" and "\<forall>s L. slab_inv s L \<longrightarrow> env_fresh (env s) s L" and "fetch_memory slab_alloc slab_free env reads_ok s = Some (None, s')"
  shows "slab_inv s' L"
  using slab.fetch_keeps_memory [OF assms(1,2), of reads_ok] assms(3) by auto

lemma fetch_then_free:
  assumes "slab_inv s L" and "\<forall>s L. slab_inv s L \<longrightarrow> env_fresh (env s) s L" and "fetch_memory slab_alloc slab_free env reads_ok s = Some (Some ili, s')"
  shows "\<exists>s''. index_logger_free_item slab_free env ili s' = Some (RET_SUCCESS, s'') \<and> slab_inv s'' L"
  using slab.fetch_keeps_memory [OF assms(1,2), of reads_ok] assms(3) by (cases ili) auto

end
