(* ===== verification/Bdblib.thy ===== *)
theory Bdblib
  imports Indexlog
begin

text \<open>
  \<^verbatim>\<open>src/src/bdblib.c\<close>: the wrappers around Berkeley DB. The database itself is third-party code:
  the methods of its handle are the record \<open>db_api\<close>, an argument of every definition, and what
  the wrappers rely on is the locale \<open>berkeley_db\<close>, in terms of the map of keys to values a
  database holds. The wrappers then form an index store (\<open>index_store\<close>), the interface the
  block store uses.
\<close>

section \<open>The database interface\<close>

text \<open>The methods \<open>put\<close>, \<open>get\<close> (with the size of the caller's buffer, \<open>DB_DBT_USERMEM\<close>),
  \<open>del\<close>, \<open>sync\<close> and \<open>close\<close> of a \<open>DB\<close> handle, with their return codes, and the constant
  \<open>DB_NOTFOUND\<close>.\<close>

record 'db db_api =
  db_put :: "'db \<Rightarrow> bytes \<Rightarrow> bytes \<Rightarrow> int \<times> 'db"
  db_get :: "'db \<Rightarrow> bytes \<Rightarrow> nat \<Rightarrow> int \<times> bytes"
  db_del :: "'db \<Rightarrow> bytes \<Rightarrow> int \<times> 'db"
  db_close :: "'db \<Rightarrow> int"
  env_close :: "'db \<Rightarrow> int"
  DB_NOTFOUND :: int

section \<open>The code\<close>

record 'db bdb_t =
  dbp :: 'db
  error_no :: int

definition insert_record :: "'db db_api \<Rightarrow> 'db bdb_t \<Rightarrow> bytes \<Rightarrow> bytes \<Rightarrow> int \<times> 'db bdb_t" where
  "insert_record api bdbp key val =
    (let bdbp = bdbp\<lparr>error_no := 0\<rparr>;
         (ret, db) = db_put api (dbp bdbp) key val;
         bdbp = bdbp\<lparr>dbp := db\<rparr>
     in if ret \<noteq> 0 then (ret, bdbp\<lparr>error_no := ret\<rparr>) else (ret, bdbp))"

text \<open>\<open>find_record\<close>: the return code and what \<open>dbt_ptr->data\<close> points to, \<open>None\<close> for \<open>NULL\<close>.
  \<open>mem_ok\<close> says whether the value buffer could be allocated. A value shorter than the buffer
  is followed by the zeros the buffer was filled with.\<close>

definition find_record :: "'db db_api \<Rightarrow> bool \<Rightarrow> 'db bdb_t \<Rightarrow> bytes \<Rightarrow> nat \<Rightarrow> int \<times> bytes option \<times> 'db bdb_t" where
  "find_record api mem_ok bdbp key value_len =
    (if \<not> mem_ok then (-1, None, bdbp\<lparr>error_no := -1\<rparr>)
     else
       let (ret, val) = db_get api (dbp bdbp) key value_len
       in if ret \<noteq> 0 then
            if ret \<noteq> DB_NOTFOUND api then (ret, None, bdbp\<lparr>error_no := ret\<rparr>)
            else (ret, None, bdbp)
          else (ret, Some (take value_len (val @ replicate value_len 0)), bdbp))"

definition del_record :: "'db db_api \<Rightarrow> 'db bdb_t \<Rightarrow> bytes \<Rightarrow> int \<times> 'db bdb_t" where
  "del_record api bdbp key =
    (let (ret, db) = db_del api (dbp bdbp) key in (ret, bdbp\<lparr>dbp := db\<rparr>))"

definition close_bdb :: "'db db_api \<Rightarrow> 'db bdb_t \<Rightarrow> int" where
  "close_bdb api bdbp =
    (let ret = db_close api (dbp bdbp)
     in if ret \<noteq> 0 then ret
        else let ret = env_close api (dbp bdbp) in if ret \<noteq> 0 then ret else 0)"

text \<open>\<open>sync_bdb\<close>, with what \<open>DB->sync\<close> returns: the code is dropped. Syncing changes nothing the database holds.\<close>

definition sync_bdb :: "int \<Rightarrow> 'db bdb_t \<Rightarrow> int \<times> 'db bdb_t" where
  "sync_bdb sync_ret bdbp = (0, bdbp)"

text \<open>\<open>open_transaction_bdb\<close>: the calls it makes of the library, in order, each with the return
  code the argument \<open>answer\<close> gives; the first that fails ends the process (\<open>Inl\<close> of the calls
  made).\<close>

datatype db_call = db_env_create | set_cache_max nat nat | set_cachesize nat nat
  | log_in_memory | set_lg_bsize nat | env_open | db_create | set_pagesize nat | db_open

definition DEFAULT_PAGE_SIZE :: nat where "DEFAULT_PAGE_SIZE = 1024 * 4"

definition open_calls :: "nat \<Rightarrow> nat \<Rightarrow> db_call list" where
  "open_calls cache_size page_size =
    [db_env_create] @
    (if cache_size \<noteq> 0 then [set_cache_max 1 0] else []) @
    (if cache_size \<noteq> 0
     then [set_cachesize (cache_size div (1024 * 1024 * 1024)) (cache_size mod (1024 * 1024 * 1024))]
     else []) @
    [log_in_memory, set_lg_bsize (16 * 1024 * 1024), env_open, db_create,
     set_pagesize (if page_size = 0 then DEFAULT_PAGE_SIZE else page_size), db_open]"

fun run_calls :: "(db_call \<Rightarrow> int) \<Rightarrow> db_call list \<Rightarrow> db_call list \<Rightarrow> db_call list + db_call list" where
  "run_calls answer made [] = Inr made"
| "run_calls answer made (c # cs) =
    (if answer c \<noteq> 0 then Inl (made @ [c]) else run_calls answer (made @ [c]) cs)"

definition open_transaction_bdb ::
  "(db_call \<Rightarrow> int) \<Rightarrow> 'db \<Rightarrow> nat \<Rightarrow> nat \<Rightarrow> db_call list + 'db bdb_t" where
  "open_transaction_bdb answer db cache_size page_size =
    (case run_calls answer [] (open_calls cache_size page_size) of
      Inl made \<Rightarrow> Inl made
    | Inr _ \<Rightarrow> Inr \<lparr>dbp = db, error_no = 0\<rparr>)"

section \<open>What the wrappers rely on\<close>

text \<open>Documented behaviour of a healthy database (\<open>good\<close>): \<open>put\<close> adds or replaces, \<open>get\<close>
  returns the value (which fits the buffer) or \<open>DB_NOTFOUND\<close>, \<open>del\<close> removes or reports
  \<open>DB_NOTFOUND\<close>.\<close>

locale berkeley_db =
  fixes api :: "'db db_api" and view :: "'db \<Rightarrow> bytes \<Rightarrow> bytes option" and good :: "'db \<Rightarrow> bool"
  assumes put_law: "good d \<Longrightarrow> \<exists>d'. db_put api d k v = (0, d') \<and> good d' \<and> view d' = (view d)(k \<mapsto> v)"
    and get_law: "good d \<Longrightarrow> (case view d k of None \<Rightarrow> fst (db_get api d k n) = DB_NOTFOUND api
      | Some v \<Rightarrow> length v \<le> n \<longrightarrow> db_get api d k n = (0, v))"
    and del_law: "good d \<Longrightarrow> (case view d k of None \<Rightarrow> db_del api d k = (DB_NOTFOUND api, d)
      | Some v \<Rightarrow> \<exists>d'. db_del api d k = (0, d') \<and> good d' \<and> view d' = (view d)(k := None))"
    and notfound_code: "DB_NOTFOUND api \<noteq> 0" "DB_NOTFOUND api \<noteq> -1"

text \<open>What the block store relies on: a map from keys to index values.\<close>

locale index_store =
  fixes insert_rec :: "'b \<Rightarrow> bytes \<Rightarrow> bytes \<Rightarrow> int \<times> 'b"
    and find_rec :: "'b \<Rightarrow> bytes \<Rightarrow> int \<times> bytes option \<times> 'b"
    and del_rec :: "'b \<Rightarrow> bytes \<Rightarrow> int \<times> 'b"
    and recs :: "'b \<Rightarrow> bytes \<Rightarrow> bytes option" and live :: "'b \<Rightarrow> bool" and missing :: int
  assumes insert_law: "live b \<Longrightarrow> \<exists>b'. insert_rec b k v = (0, b') \<and> live b' \<and> recs b' = (recs b)(k \<mapsto> v)"
    and find_law: "live b \<Longrightarrow> (case recs b k of None \<Rightarrow> find_rec b k = (missing, None, b)
      | Some v \<Rightarrow> length v = 24 \<longrightarrow> find_rec b k = (0, Some v, b))"
    and del_rec_law: "live b \<Longrightarrow> recs b k = Some v \<Longrightarrow>
      \<exists>b'. del_rec b k = (0, b') \<and> live b' \<and> recs b' = (recs b)(k := None)"
    and missing_code: "missing \<noteq> 0" "missing \<noteq> -1"
begin

lemma find_after_insert:
  assumes "live b" and "length v = 24" and "insert_rec b k v = (r, b')"
  shows "r = 0 \<and> live b' \<and> find_rec b' k = (0, Some v, b') \<and>
    (k' \<noteq> k \<longrightarrow> recs b' k' = recs b k')"
proof -
  have b': "r = 0" "live b'" "recs b' = (recs b)(k \<mapsto> v)"
    using insert_law [OF assms(1), of k v] assms(3) by auto
  moreover have "find_rec b' k = (0, Some v, b')"
    using find_law [OF b'(2), of k] b'(3) assms(2) by simp
  ultimately show ?thesis by simp
qed

lemma find_after_delete:
  assumes "live b" and "recs b k = Some v" and "del_rec b k = (r, b')"
  shows "r = 0 \<and> live b' \<and> find_rec b' k = (missing, None, b')"
  using del_rec_law [OF assms(1,2)] find_law [of b' k] assms(3) by auto

end

context berkeley_db
begin

lemma insert_record_ok:
  "good (dbp b) \<Longrightarrow> \<exists>b'. insert_record api b k v = (0, b') \<and> good (dbp b') \<and>
    view (dbp b') = (view (dbp b))(k \<mapsto> v)"
  using put_law [of "dbp b" k v] by (auto simp: insert_record_def Let_def)

lemma find_record_found:
  "good (dbp b) \<Longrightarrow> view (dbp b) k = Some v \<Longrightarrow> length v = n \<Longrightarrow>
    find_record api True b k n = (0, Some v, b)"
  using get_law [of "dbp b" k n] by (auto simp: find_record_def)

lemma find_record_missing:
  "good (dbp b) \<Longrightarrow> view (dbp b) k = None \<Longrightarrow> find_record api True b k n = (DB_NOTFOUND api, None, b)"
  using get_law [of "dbp b" k n] notfound_code by (auto simp: find_record_def split_beta)

lemma del_record_ok:
  "good (dbp b) \<Longrightarrow> view (dbp b) k = Some v \<Longrightarrow>
    \<exists>b'. del_record api b k = (0, b') \<and> good (dbp b') \<and> view (dbp b') = (view (dbp b))(k := None)"
  using del_law [of "dbp b" k] by (auto simp: del_record_def)

end

sublocale berkeley_db \<subseteq> index: index_store "insert_record api" "\<lambda>b k. find_record api True b k 24"
  "del_record api" "\<lambda>b. view (dbp b)" "\<lambda>b. good (dbp b)" "DB_NOTFOUND api"
proof
  fix b k v
  show "good (dbp b) \<Longrightarrow> \<exists>b'. insert_record api b k v = (0, b') \<and> good (dbp b') \<and>
      view (dbp b') = (view (dbp b))(k \<mapsto> v)"
    by (rule insert_record_ok)
  show "good (dbp b) \<Longrightarrow> (case view (dbp b) k of
        None \<Rightarrow> find_record api True b k 24 = (DB_NOTFOUND api, None, b)
      | Some v \<Rightarrow> length v = 24 \<longrightarrow> find_record api True b k 24 = (0, Some v, b))"
    using find_record_found find_record_missing by (auto split: option.split)
  show "good (dbp b) \<Longrightarrow> view (dbp b) k = Some v \<Longrightarrow>
      \<exists>b'. del_record api b k = (0, b') \<and> good (dbp b') \<and> view (dbp b') = (view (dbp b))(k := None)"
    by (rule del_record_ok)
qed (rule notfound_code)+

context berkeley_db
begin

lemmas insert_then_find = index.find_after_insert
lemmas delete_then_find = index.find_after_delete

lemma insert_then_present:
  "good (dbp b) \<Longrightarrow> insert_record api b k v = (r, b') \<Longrightarrow> view (dbp b') k = Some v"
  using index.insert_law [of b k v] by auto

end

text \<open>A database in memory, an association list, shows that the laws can hold.\<close>

definition mem_db :: "(bytes \<times> bytes) list db_api" where
  "mem_db = \<lparr>db_put = (\<lambda>d k v. (0, (k, v) # d)),
    db_get = (\<lambda>d k n. case map_of d k of None \<Rightarrow> (-30988, [])
      | Some v \<Rightarrow> if length v \<le> n then (0, v) else (-30999, [])),
    db_del = (\<lambda>d k. if map_of d k = None then (-30988, d) else (0, filter (\<lambda>(k', v). k' \<noteq> k) d)),
    db_close = (\<lambda>d. 0), env_close = (\<lambda>d. 0), DB_NOTFOUND = -30988\<rparr>"

lemma map_of_filter_key: "map_of (filter (\<lambda>(k', v). k' \<noteq> k) d) = (map_of d)(k := None)"
  by (induction d) (auto simp: fun_eq_iff)

interpretation mem: berkeley_db mem_db map_of "\<lambda>d. True"
  by unfold_locales (auto simp: mem_db_def map_of_filter_key split: option.split)

text \<open>\<open>open_transaction_bdb\<close> returns a handle exactly when every library call it makes succeeds;
  otherwise it stops at the first that fails. The cache size reaches the library split into
  gigabytes and bytes without loss.\<close>

lemma run_calls_result:
  "run_calls answer made cs =
    (if \<forall>c\<in>set cs. answer c = 0 then Inr (made @ cs)
     else Inl (made @ takeWhile (\<lambda>c. answer c = 0) cs @ [hd (dropWhile (\<lambda>c. answer c = 0) cs)]))"
  by (induction cs arbitrary: made) auto

lemma open_transaction_bdb_calls:
  "open_transaction_bdb answer db cache_size page_size =
    (if \<forall>c \<in> set (open_calls cache_size page_size). answer c = 0 then Inr \<lparr>dbp = db, error_no = 0\<rparr>
     else Inl (takeWhile (\<lambda>c. answer c = 0) (open_calls cache_size page_size) @
       [hd (dropWhile (\<lambda>c. answer c = 0) (open_calls cache_size page_size))])) \<and>
   (\<forall>g b. set_cachesize g b \<in> set (open_calls cache_size page_size) \<longrightarrow>
     g * 2 ^ 30 + b = cache_size \<and> b < 2 ^ 30)"
  by (auto simp: open_transaction_bdb_def run_calls_result open_calls_def split: if_splits)

section \<open>Properties\<close>

text \<open>
  On a healthy database the wrappers are an index: after \<open>insert_record\<close> of a value of
  the size of an index value, \<open>find_record\<close> returns success and that very value; after
  \<open>del_record\<close> of a key that was present it returns \<open>DB_NOTFOUND\<close>.
\<close>

theorem bdb_insert_find_delete:
  assumes "berkeley_db api view good" and "good (dbp b)" and "length v = 24"
    and "insert_record api b k v = (r, b1)" and "del_record api b1 k = (r', b2)"
  shows "r = 0 \<and> find_record api True b1 k 24 = (0, Some v, b1) \<and>
    r' = 0 \<and> find_record api True b2 k 24 = (DB_NOTFOUND api, None, b2)"
  using berkeley_db.insert_then_find [OF assms(1-4)]
    berkeley_db.delete_then_find [OF assms(1) _ _ assms(5)]
    berkeley_db.insert_then_present [OF assms(1,2,4)] by auto

theorem bdb_insert_find_delete_witness:
  "berkeley_db mem_db map_of (\<lambda>d. True) \<and>
    find_record mem_db True (snd (insert_record mem_db \<lparr>dbp = [], error_no = 0\<rparr> [1] (replicate 24 7))) [1] 24 =
      (0, Some (replicate 24 7), snd (insert_record mem_db \<lparr>dbp = [], error_no = 0\<rparr> [1] (replicate 24 7)))"
  using bdb_insert_find_delete [OF mem.berkeley_db_axioms _ _ prod.collapse [symmetric] prod.collapse [symmetric],
      where b = "\<lparr>dbp = [], error_no = 0\<rparr>" and v = "replicate 24 7" and k = "[1]"]
    mem.berkeley_db_axioms
  by simp

end
