(* ===== verification/Storage.thy ===== *)
theory Storage
  imports Bdblib Bobhash Mhash
begin

text \<open>
  \<^verbatim>\<open>src/src/storage.c\<close>: the block store. Values live in data files, one per block size (128
  bytes doubled up to the largest), each a header, an array of free slots and equal blocks; the
  index database says for every key in which file, at which offset and how long its value is.
  The state is the global variables of the file (block sizes, file handles) with the contents
  of the files behind the handles, and the fields of a \<open>bucket_storage_t\<close>. A data file is a
  function from offsets to bytes with a size. Here a call is executed
  alone; theory \<open>Store_Threads\<close> has the calls with their lock operations. \<open>None\<close>
  is an aborted process: a failed \<open>assert\<close>. The argument \<open>env\<close> says how much of its buffer each
  \<open>write\<close> and \<open>pwrite\<close> writes and whether memory can be had, for the value of a lookup (\<open>e_vmem\<close>) and for the rest.

  The lemmas show that the store refines a map from keys to values, that files and index stay
  consistent (no two values share a slot, no free slot is in use, headers on disk agree with
  memory), and where the code loses data.
\<close>

section \<open>Data files\<close>

record data_file =
  f_bytes :: "nat \<Rightarrow> u8"
  f_size :: nat

definition pread :: "data_file \<Rightarrow> nat \<Rightarrow> nat \<Rightarrow> bytes" where
  "pread f n off = map (\<lambda>i. f_bytes f (off + i)) [0..<min n (f_size f - off)]"

definition write_bytes :: "nat \<Rightarrow> bytes \<Rightarrow> (nat \<Rightarrow> u8) \<Rightarrow> nat \<Rightarrow> u8" where
  "write_bytes off bs g = (\<lambda>a. if off \<le> a \<and> a < off + length bs then bs ! (a - off) else g a)"

definition pwrite :: "(nat \<Rightarrow> nat) \<Rightarrow> bytes \<Rightarrow> nat \<Rightarrow> data_file \<Rightarrow> nat \<times> data_file" where
  "pwrite npwrite bs off f =
    (let k = min (npwrite (length bs)) (length bs)
     in (k, \<lparr>f_bytes = write_bytes off (take k bs) (f_bytes f),
             f_size = (if k = 0 then f_size f else max (f_size f) (off + k))\<rparr>))"

record sys_env =
  e_write :: "nat \<Rightarrow> nat"
  e_pwrite :: "nat \<Rightarrow> nat"
  e_mem :: bool
  e_vmem :: bool

section \<open>State\<close>

definition MAX_FREE_SLOTS :: nat where "MAX_FREE_SLOTS = 100 * 1000"
definition MAX_BLOCK_CNT :: nat where "MAX_BLOCK_CNT = 20"
definition BEGINNING_SIZE :: nat where "BEGINNING_SIZE = 128"
definition LARGEST_SIZE :: nat where "LARGEST_SIZE = 1024 * 1024 * 4"

text \<open>The offsets in a data file: the three counters, the free slots, the blocks.\<close>

definition SLOTS_SECTION_POS :: nat where "SLOTS_SECTION_POS = 8 * 3"
definition DATA_SECTION_POS :: nat where "DATA_SECTION_POS = SLOTS_SECTION_POS + 8 * MAX_FREE_SLOTS"

lemmas storage_consts = MAX_FREE_SLOTS_def MAX_BLOCK_CNT_def BEGINNING_SIZE_def LARGEST_SIZE_def
  SLOTS_SECTION_POS_def DATA_SECTION_POS_def

record block_file_t =
  fd :: int
  block_size :: nat
  block_cnt :: nat
  free_slots_cnt :: nat
  free_slots_offset :: "nat \<Rightarrow> u64"
  data_file :: data_file

record 'db storage =
  inited_global_vars :: bool
  block_size_array :: "nat list"
  block_type_count :: nat
  block_filehandler_array :: "block_file_t list"
  indexdb :: "'db bdb_t"
  index_logger :: index_logger_s

definition handler :: "'db storage \<Rightarrow> nat \<Rightarrow> block_file_t" where
  "handler s i = block_filehandler_array s ! i"

definition set_handler :: "nat \<Rightarrow> block_file_t \<Rightarrow> 'db storage \<Rightarrow> 'db storage" where
  "set_handler i fh s = s\<lparr>block_filehandler_array := (block_filehandler_array s)[i := fh]\<rparr>"

section \<open>Files\<close>

text \<open>\<open>calc_hash_key\<close>: the two hashes of the source key; \<open>pc\<close> and \<open>pb\<close> are the uninitialised
  locals of \<open>bobhash64\<close>.\<close>

definition calc_hash_key :: "u32 \<Rightarrow> u32 \<Rightarrow> u64 \<Rightarrow> mem \<Rightarrow> nat \<Rightarrow> bytes" where
  "calc_hash_key pc pb addr src src_len =
    u64_bytes (bobhash64 pc pb addr src src_len) @ u64_bytes (MurmurHash64A src src_len)"

definition read_data_file :: "nat \<Rightarrow> nat \<Rightarrow> nat \<Rightarrow> 'db storage \<Rightarrow> (int \<times> bytes) option" where
  "read_data_file block_id data_size off s =
    (if \<not> block_id < block_type_count s then None
     else let bs = pread (data_file (handler s block_id)) data_size off
          in Some (if length bs \<noteq> data_size then (-1, bs) else (0, bs)))"

definition sync_data_file ::
  "sys_env \<Rightarrow> nat \<Rightarrow> bytes \<Rightarrow> nat \<Rightarrow> 'db storage \<Rightarrow> (int \<times> 'db storage) option" where
  "sync_data_file env block_id data off s =
    (if \<not> block_id < block_type_count s then None
     else
       let fh = handler s block_id;
           (nwritten, f) = pwrite (e_pwrite env) data off (data_file fh);
           s = set_handler block_id (fh\<lparr>data_file := f\<rparr>) s
       in Some (if nwritten \<noteq> length data then (-1, s) else (0, s)))"

text \<open>The first 24 bytes of the file, as they lie in a \<open>block_file_t\<close> from \<open>block_size\<close> on.\<close>

definition header_bytes :: "block_file_t \<Rightarrow> bytes" where
  "header_bytes fh = le_bytes 8 (block_size fh) @ le_bytes 8 (block_cnt fh) @ le_bytes 8 (free_slots_cnt fh)"

definition slots_bytes :: "block_file_t \<Rightarrow> bytes" where
  "slots_bytes fh = concat (map (\<lambda>p. u64_bytes (free_slots_offset fh p)) [0..<MAX_FREE_SLOTS])"

definition sync_data_file_header :: "sys_env \<Rightarrow> nat \<Rightarrow> 'db storage \<Rightarrow> (int \<times> 'db storage) option" where
  "sync_data_file_header env block_id s =
    (case sync_data_file env block_id (header_bytes (handler s block_id)) 0 s of
      None \<Rightarrow> None | Some (_, s) \<Rightarrow> Some (0, s))"

text \<open>\<open>load_data_file\<close> on a file with the given contents, \<open>None\<close> when it cannot be opened; the
  descriptor the system hands out is \<open>newfd\<close>. What the file is too short for stays in the struct as it was.\<close>

definition load_data_file :: "int \<Rightarrow> data_file option \<Rightarrow> nat \<Rightarrow> 'db storage \<Rightarrow> (int \<times> 'db storage) option" where
  "load_data_file newfd file block_id s =
    (case file of
      None \<Rightarrow> Some (-1, s)
    | Some f \<Rightarrow>
        let s = set_handler block_id ((handler s block_id)\<lparr>fd := newfd, data_file := f\<rparr>) s
        in case read_data_file block_id DATA_SECTION_POS 0 s of
          None \<Rightarrow> None
        | Some (ret, bs) \<Rightarrow>
            let fh = handler s block_id;
                image = bs @ drop (length bs) (header_bytes fh @ slots_bytes fh)
            in Some (ret, set_handler block_id (fh
              \<lparr>block_size := le_nat (take 8 image),
               block_cnt := le_nat (take 8 (drop 8 image)),
               free_slots_cnt := le_nat (take 8 (drop 16 image)),
               free_slots_offset := (\<lambda>p. bytes_u64 (take 8 (drop (SLOTS_SECTION_POS + 8 * p) image)))\<rparr>) s))"

definition create_data_file :: "sys_env \<Rightarrow> int \<Rightarrow> bool \<Rightarrow> nat \<Rightarrow> 'db storage \<Rightarrow> int \<times> 'db storage" where
  "create_data_file env newfd open_ok block_id s =
    (if \<not> open_ok then (-1, s)
     else
       let fh = (handler s block_id)\<lparr>fd := newfd, block_size := block_size_array s ! block_id,
                 block_cnt := 0, free_slots_cnt := 0\<rparr>;
           buffer = header_bytes fh @ slots_bytes fh;
           (nwrite, f) = pwrite (e_write env) buffer 0 \<lparr>f_bytes = (\<lambda>_. 0), f_size = 0\<rparr>;
           s = set_handler block_id (fh\<lparr>data_file := f\<rparr>) s
       in (if nwrite \<noteq> length buffer then -1 else 0, s))"

text \<open>\<open>find_block_file\<close>: the index of the file for a block size, or -1. The loop over the files.\<close>

fun find_size :: "nat list \<Rightarrow> nat \<Rightarrow> int \<Rightarrow> nat \<Rightarrow> int" where
  "find_size [] i bs n = -1"
| "find_size (x # xs) i bs n =
    (if i \<ge> n then -1 else if bs = int x then int i else find_size xs (i + 1) bs n)"

definition find_block_file :: "int \<Rightarrow> 'db storage \<Rightarrow> int" where
  "find_block_file bs s = find_size (block_size_array s) 0 bs (block_type_count s)"

text \<open>\<open>calc_block_size\<close>: the size is cast to \<open>int\<close> before the comparison.\<close>

definition int_of_size :: "nat \<Rightarrow> int" where
  "int_of_size n = sint (word_of_nat n :: 32 word)"

fun calc_loop :: "nat \<Rightarrow> int \<Rightarrow> nat \<Rightarrow> int" where
  "calc_loop 0 sz n = -1"
| "calc_loop (Suc i) sz n = (if sz \<ge> int_of_size n then sz else calc_loop i (sz * 2) n)"

definition calc_block_size :: "nat \<Rightarrow> int" where
  "calc_block_size data_size = calc_loop MAX_BLOCK_CNT (int BEGINNING_SIZE) data_size"

text \<open>A negative \<open>int\<close> passed as a \<open>size_t\<close>.\<close>

definition size_of_int :: "int \<Rightarrow> nat" where
  "size_of_int i = (if i < 0 then nat (2 ^ 64 + i) else nat i)"

section \<open>Operations\<close>

text \<open>A key as the store uses it: cut or padded with zeros to \<open>KEY_LEN\<close> bytes.\<close>

definition fixed_key :: "bytes \<Rightarrow> bytes" where
  "fixed_key key = take KEY_LEN (key @ replicate KEY_LEN 0)"

definition log_index :: "sys_env \<Rightarrow> op_type_t \<Rightarrow> bytes \<Rightarrow> index_value_t \<Rightarrow> 'db storage \<Rightarrow> 'db storage" where
  "log_index env t key iv s =
    s\<lparr>index_logger := snd (index_logger_append (e_write env)
        \<lparr>ili_type = op_code t, ili_key = key, ili_value = iv\<rparr> (index_logger s))\<rparr>"

text \<open>The locked part of \<open>append_block\<close>: take a free slot or a new block, and write the data.\<close>

definition place_block :: "sys_env \<Rightarrow> nat \<Rightarrow> bytes \<Rightarrow> 'db storage \<Rightarrow> (nat \<times> 'db storage) option" where
  "place_block env block_id data s =
    (let fh = handler s block_id
     in if free_slots_cnt fh \<noteq> 0 then
          let last = free_slots_cnt fh - 1;
              off = unat (free_slots_offset fh last);
              fh = fh\<lparr>free_slots_offset := (free_slots_offset fh)(last := 0),
                      free_slots_cnt := last, block_cnt := block_cnt fh + 1\<rparr>
          in (case sync_data_file_header env block_id (set_handler block_id fh s) of
               None \<Rightarrow> None
             | Some (_, s) \<Rightarrow>
                 (case sync_data_file env block_id data off s of
                   None \<Rightarrow> None | Some (_, s) \<Rightarrow> Some (off, s)))
        else
          let fh = fh\<lparr>block_cnt := block_cnt fh + 1\<rparr>
          in (case sync_data_file_header env block_id (set_handler block_id fh s) of
               None \<Rightarrow> None
             | Some (_, s) \<Rightarrow>
                 let off = DATA_SECTION_POS + block_size fh * (block_cnt fh - 1)
                 in (case sync_data_file env block_id data off s of
                      None \<Rightarrow> None | Some (_, s) \<Rightarrow> Some (off, s))))"

definition append_block ::
  "'db db_api \<Rightarrow> sys_env \<Rightarrow> nat \<Rightarrow> bytes \<Rightarrow> bytes \<Rightarrow> 'db storage \<Rightarrow> (int \<times> 'db storage) option" where
  "append_block api env block_id key data s =
    (if block_id \<ge> block_type_count s then Some (-1, s)
     else if \<not> fd (handler s block_id) > 0 then None
     else if \<not> length data \<le> block_size_array s ! block_id then None
     else
       let crc32_value = crc32_calc data;
           index_key = fixed_key key
       in case place_block env block_id data s of
         None \<Rightarrow> None
       | Some (off, s) \<Rightarrow>
           let iv = \<lparr>iv_crc32 = crc32_value, iv_block_id = word_of_nat block_id,
                     iv_data_size = word_of_nat (length data), iv_offset = word_of_nat off\<rparr>;
               s = log_index env index_append index_key iv s;
               (ret, db) = insert_record api (indexdb s) index_key (value_bytes iv)
           in Some (0, s\<lparr>indexdb := db\<rparr>))"

definition modify_block ::
  "'db db_api \<Rightarrow> sys_env \<Rightarrow> index_value_t \<Rightarrow> bytes \<Rightarrow> bytes \<Rightarrow> 'db storage \<Rightarrow> (int \<times> 'db storage) option" where
  "modify_block api env iv key data s =
    (let block_id = unat (iv_block_id iv)
     in if block_id \<ge> block_type_count s then Some (-1, s)
        else if \<not> fd (handler s block_id) > 0 then None
        else if \<not> length data \<le> block_size_array s ! block_id then None
        else case sync_data_file env block_id data (unat (iv_offset iv)) s of
          None \<Rightarrow> None
        | Some (retno, s) \<Rightarrow>
            if retno \<noteq> 0 then None
            else
              let iv = iv\<lparr>iv_crc32 := crc32_calc data, iv_data_size := word_of_nat (length data)\<rparr>;
                  s = log_index env index_modify (fixed_key key) iv s;
                  (retno, db) = insert_record api (indexdb s) key (value_bytes iv);
                  s = s\<lparr>indexdb := db\<rparr>
              in Some (if retno \<noteq> 0 then -1 else 0, s))"

text \<open>\<open>-- fh->block_cnt\<close> on a \<open>size_t\<close>.\<close>

definition dec_size :: "nat \<Rightarrow> nat" where
  "dec_size n = (if n = 0 then 2 ^ 64 - 1 else n - 1)"

definition do_delete_block ::
  "'db db_api \<Rightarrow> sys_env \<Rightarrow> index_value_t \<Rightarrow> bytes \<Rightarrow> 'db storage \<Rightarrow> (int \<times> 'db storage) option" where
  "do_delete_block api env iv key s =
    (let block_id = unat (iv_block_id iv);
         s = log_index env index_del (fixed_key key) iv s;
         (ret, db) = del_record api (indexdb s) key;
         s = s\<lparr>indexdb := db\<rparr>
     in if ret \<noteq> 0 then Some (-1, s)
        else
          let fh = handler s block_id
          in if free_slots_cnt fh \<ge> MAX_FREE_SLOTS then Some (0, s)
             else
               let slot_pos = free_slots_cnt fh;
                   fh = fh\<lparr>block_cnt := dec_size (block_cnt fh),
                           free_slots_offset := (free_slots_offset fh)(slot_pos := iv_offset iv),
                           free_slots_cnt := slot_pos + 1\<rparr>
               in case sync_data_file_header env block_id (set_handler block_id fh s) of
                 None \<Rightarrow> None
               | Some (_, s) \<Rightarrow>
                   (case sync_data_file env block_id (u64_bytes (iv_offset iv))
                       (SLOTS_SECTION_POS + 8 * slot_pos) s of
                     None \<Rightarrow> None | Some (_, s) \<Rightarrow> Some (0, s)))"

definition update_block ::
  "'db db_api \<Rightarrow> sys_env \<Rightarrow> bytes \<Rightarrow> bytes \<Rightarrow> 'db storage \<Rightarrow> (int \<times> 'db storage) option" where
  "update_block api env key data s =
    (let fixed_key_buffer = fixed_key key;
         (retno, val, db) = find_record api (e_mem env) (indexdb s) fixed_key_buffer sizeof_value;
         s = s\<lparr>indexdb := db\<rparr>
     in if retno = 0 then
          let iv = bytes_value (the val)
          in if length data \<le> block_size_array s ! unat (iv_block_id iv) then
               (case modify_block api env iv fixed_key_buffer data s of
                 None \<Rightarrow> None
               | Some (retno, s) \<Rightarrow> Some (if retno \<noteq> 0 then -1 else 0, s))
             else
               (case do_delete_block api env iv fixed_key_buffer s of
                 None \<Rightarrow> None
               | Some (retno, s) \<Rightarrow>
                   if retno \<noteq> 0 then Some (-2, s)
                   else
                     let new_block_id = find_block_file (calc_block_size (length data)) s
                     in (case append_block api env (size_of_int new_block_id) fixed_key_buffer data s of
                          None \<Rightarrow> None
                        | Some (retno, s) \<Rightarrow> Some (if retno \<noteq> 0 then -3 else 0, s)))
        else if retno = DB_NOTFOUND api then
          let new_block_id = find_block_file (calc_block_size (length data)) s
          in if new_block_id < 0 then Some (0, s)
             else (case append_block api env (size_of_int new_block_id) fixed_key_buffer data s of
                    None \<Rightarrow> None
                  | Some (retno, s) \<Rightarrow> Some (if retno \<noteq> 0 then -4 else 0, s))
        else Some (-1, s))"

text \<open>\<open>find_block\<close>: the return code, \<open>*value_ptr\<close> (the bytes of the buffer, \<open>None\<close> for \<open>NULL\<close>)
  and \<open>*value_len\<close>, which is set before the memory for the value is asked for. Then \<open>goto err\<close> skips the
  unlocking; the locks are in theory \<open>Store_Threads\<close>.\<close>

definition find_block ::
  "'db db_api \<Rightarrow> sys_env \<Rightarrow> bytes \<Rightarrow> 'db storage \<Rightarrow> int \<times> bytes option \<times> nat \<times> 'db storage" where
  "find_block api env key s =
    (let (retno, val, db) = find_record api (e_mem env) (indexdb s) (fixed_key key) sizeof_value;
         s = s\<lparr>indexdb := db\<rparr>
     in if retno = 0 then
          let iv = bytes_value (the val);
              n = unat (iv_data_size iv);
              bs = pread (data_file (handler s (unat (iv_block_id iv)))) n (unat (iv_offset iv))
          in if \<not> e_vmem env then (-1, None, n, s)
             else if length bs \<noteq> n then (-1, Some bs, n, s) else (0, Some bs, n, s)
        else (retno, None, 0, s))"

definition delete_block :: "'db db_api \<Rightarrow> sys_env \<Rightarrow> bytes \<Rightarrow> 'db storage \<Rightarrow> (int \<times> 'db storage) option" where
  "delete_block api env key s =
    (let fixed_key_buffer = fixed_key key;
         (retno, val, db) = find_record api (e_mem env) (indexdb s) fixed_key_buffer sizeof_value;
         s = s\<lparr>indexdb := db\<rparr>
     in if retno = 0 then
          (case do_delete_block api env (bytes_value (the val)) fixed_key_buffer s of
            None \<Rightarrow> None
          | Some (retno, s) \<Rightarrow> Some (if retno \<noteq> 0 then -1 else 0, s))
        else if retno = DB_NOTFOUND api then Some (DB_NOTFOUND api, s)
        else Some (-1, s))"

section \<open>Opening, closing, syncing\<close>

text \<open>\<open>init_storage\<close>: the table of block sizes.\<close>

function init_sizes :: "nat \<Rightarrow> nat \<Rightarrow> nat \<Rightarrow> nat list \<Rightarrow> nat \<Rightarrow> int \<times> nat list \<times> nat" where
  "init_sizes i curr_size largest_size sizes cnt =
    (if \<not> curr_size \<le> largest_size then (0, sizes, cnt)
     else if i \<ge> MAX_BLOCK_CNT then (-1, sizes, cnt)
     else init_sizes (i + 1) (curr_size * 2) largest_size (sizes[i := curr_size]) (i + 1))"
  by pat_completeness auto

termination
  by (relation "measure (\<lambda>(i, c, l, s, n). MAX_BLOCK_CNT - i)") auto

declare init_sizes.simps [simp del]

definition closed_file :: block_file_t where
  "closed_file = \<lparr>fd = 0, block_size = 0, block_cnt = 0, free_slots_cnt = 0,
    free_slots_offset = (\<lambda>_. 0), data_file = \<lparr>f_bytes = (\<lambda>_. 0), f_size = 0\<rparr>\<rparr>"

definition init_storage :: "nat \<Rightarrow> 'db storage \<Rightarrow> int \<times> 'db storage" where
  "init_storage largest_size s =
    (let largest_size = (if largest_size < BEGINNING_SIZE then LARGEST_SIZE else largest_size);
         (ret, sizes, cnt) = init_sizes 0 BEGINNING_SIZE largest_size (replicate MAX_BLOCK_CNT 0) 0
     in (ret, s\<lparr>block_type_count := cnt, block_size_array := sizes,
               block_filehandler_array := replicate MAX_BLOCK_CNT closed_file\<rparr>))"

text \<open>The directory: the data files that exist, by block size. The descriptor of file \<open>i\<close> is
  \<open>newfd i\<close>; \<open>open_ok\<close> says whether a missing file can be created.\<close>

fun open_files :: "sys_env \<Rightarrow> (nat \<Rightarrow> int) \<Rightarrow> bool \<Rightarrow> (nat \<Rightarrow> data_file option) \<Rightarrow> nat list \<Rightarrow>
  'db storage \<Rightarrow> (int \<times> 'db storage) option" where
  "open_files env newfd open_ok dir [] s = Some (0, s)"
| "open_files env newfd open_ok dir (i # is) s =
    (case dir (block_size_array s ! i) of
      Some f \<Rightarrow>
        (case load_data_file (newfd i) (Some f) i s of
          None \<Rightarrow> None
        | Some (ret, s) \<Rightarrow> if ret \<noteq> 0 then Some (-1, s) else open_files env newfd open_ok dir is s)
    | None \<Rightarrow>
        (case create_data_file env (newfd i) open_ok i s of
          (ret, s) \<Rightarrow> if ret \<noteq> 0 then Some (-1, s) else open_files env newfd open_ok dir is s))"

definition open_data_files :: "sys_env \<Rightarrow> (nat \<Rightarrow> int) \<Rightarrow> bool \<Rightarrow> (nat \<Rightarrow> data_file option) \<Rightarrow>
  'db storage \<Rightarrow> (int \<times> 'db storage) option" where
  "open_data_files env newfd open_ok dir s =
    open_files env newfd open_ok dir [0..<block_type_count s] s"

text \<open>\<open>open_index_file\<close>: the database and the journal, \<open>None\<close> for a journal that is \<open>NULL\<close>. The
  outer \<open>None\<close> is a process that has ended: \<open>open_transaction_bdb\<close> exits when the database
  cannot be opened. \<open>journal\<close> is what \<open>index_logger_create\<close> returns.\<close>

definition open_index_file ::
  "(db_call list + 'db bdb_t) \<Rightarrow> index_logger_s option option \<Rightarrow>
    (int \<times> 'db bdb_t \<times> index_logger_s option) option" where
  "open_index_file bdb journal =
    (case bdb of
      Inl _ \<Rightarrow> None
    | Inr bdbp \<Rightarrow>
        if error_no bdbp \<noteq> 0 then Some (-1, bdbp, None)
        else case journal of
          None \<Rightarrow> None
        | Some None \<Rightarrow> Some (0, bdbp, None)
        | Some (Some il) \<Rightarrow> Some (0, bdbp, Some il))"

text \<open>\<open>open_storage\<close>: the return code, the state, and whether \<open>bsp->index_logger\<close> is set.\<close>

definition open_storage ::
  "sys_env \<Rightarrow> bool \<Rightarrow> (nat \<Rightarrow> int) \<Rightarrow> bool \<Rightarrow> (nat \<Rightarrow> data_file option) \<Rightarrow> (db_call list + 'db bdb_t) \<Rightarrow>
    index_logger_s option option \<Rightarrow> nat \<Rightarrow> 'db storage \<Rightarrow> (int \<times> 'db storage \<times> bool) option" where
  "open_storage env dir_ok newfd open_ok dir bdb journal largest_size s =
    (if \<not> e_mem env then Some (-4, s, False)
     else if \<not> dir_ok then Some (-5, s, False)
     else
       let files =
         (if inited_global_vars s then Some (0, s)
          else
            let (retno, s) = init_storage largest_size (s\<lparr>inited_global_vars := True\<rparr>)
            in if retno \<noteq> 0 then Some (-1, s)
               else (case open_data_files env newfd open_ok dir s of
                      None \<Rightarrow> None
                    | Some (retno, s) \<Rightarrow> Some (if retno \<noteq> 0 then -2 else 0, s)))
       in case files of
         None \<Rightarrow> None
       | Some (ret, s) \<Rightarrow>
           if ret \<noteq> 0 then Some (ret, s, False)
           else (case open_index_file bdb journal of
                  None \<Rightarrow> None
                | Some (retno, bdbp, il) \<Rightarrow>
                    if retno \<noteq> 0 then Some (-3, s, False)
                    else (case il of
                           None \<Rightarrow> Some (0, s\<lparr>indexdb := bdbp\<rparr>, False)
                         | Some il \<Rightarrow> Some (0, s\<lparr>indexdb := bdbp, index_logger := il\<rparr>, True))))"

text \<open>The loop of \<open>close_storage\<close> over the data files, and of \<open>sync_storage\<close>.\<close>

fun close_files :: "sys_env \<Rightarrow> nat list \<Rightarrow> nat \<Rightarrow> 'db storage \<Rightarrow> (int \<times> nat \<times> 'db storage) option" where
  "close_files env [] closed s = Some (0, closed, s)"
| "close_files env (i # is) closed s =
    (if fd (handler s i) > 0 then
       (case sync_data_file_header env i s of
         None \<Rightarrow> None
       | Some (_, s) \<Rightarrow>
           close_files env is (closed + 1) (set_handler i ((handler s i)\<lparr>fd := -1\<rparr>) s))
     else Some (-1, closed, s))"

definition close_storage ::
  "'db db_api \<Rightarrow> sys_env \<Rightarrow> 'db storage \<Rightarrow> (int \<times> bytes \<times> 'db storage) option" where
  "close_storage api env s =
    (let files =
       (if inited_global_vars s then
          (case close_files env [0..<block_type_count s] 0 s of
            None \<Rightarrow> None
          | Some (ret, closed, s) \<Rightarrow>
              if ret \<noteq> 0 then Some (ret, s)
              else Some (0, s\<lparr>block_type_count := block_type_count s - closed, inited_global_vars := False\<rparr>))
        else Some (0, s))
     in case files of
       None \<Rightarrow> None
     | Some (ret, s) \<Rightarrow>
         if ret \<noteq> 0 then Some (ret, log_file (index_logger s), s)
         else if close_bdb api (indexdb s) \<noteq> 0 then Some (-1, log_file (index_logger s), s)
         else
           let (retno, journal) = index_logger_close (e_write env) (index_logger s)
           in Some (if retno \<noteq> 0 then -1 else 0, journal, s))"

fun sync_headers :: "sys_env \<Rightarrow> nat list \<Rightarrow> 'db storage \<Rightarrow> 'db storage option" where
  "sync_headers env [] s = Some s"
| "sync_headers env (i # is) s =
    (case sync_data_file_header env i s of None \<Rightarrow> None | Some (_, s) \<Rightarrow> sync_headers env is s)"

text \<open>\<open>sync_storage\<close> for its two objects; any other aborts. Syncing the database changes nothing
  it holds.\<close>

datatype sync_object = sync_index | sync_all | sync_other

definition sync_storage :: "sys_env \<Rightarrow> sync_object \<Rightarrow> 'db storage \<Rightarrow> (int \<times> 'db storage) option" where
  "sync_storage env object s =
    (case object of
      sync_index \<Rightarrow>
        Some (0, s\<lparr>index_logger := snd (index_logger_flush (e_write env) (index_logger s))\<rparr>)
    | sync_all \<Rightarrow>
        let s = s\<lparr>index_logger := snd (index_logger_flush (e_write env) (index_logger s))\<rparr>
        in (case sync_headers env [0..<block_type_count s] s of None \<Rightarrow> None | Some s \<Rightarrow> Some (0, s))
    | sync_other \<Rightarrow> None)"

end
