(* ===== verification/Storage_Correct.thy ===== *)
theory Storage_Correct
  imports Storage
begin

text \<open>
  Correctness of the block store of theory \<open>Storage\<close>: the invariant that ties the index, the
  data files and the free slots together, and the refinement of a map from keys to values.
\<close>

section \<open>Files\<close>

definition full_env :: "sys_env \<Rightarrow> bool" where
  "full_env env \<longleftrightarrow> (\<forall>n. n \<le> e_write env n) \<and> (\<forall>n. n \<le> e_pwrite env n) \<and> e_mem env \<and> e_vmem env"

definition put_data :: "nat \<Rightarrow> bytes \<Rightarrow> block_file_t \<Rightarrow> block_file_t" where
  "put_data off bs fh = fh\<lparr>data_file := \<lparr>f_bytes = write_bytes off bs (f_bytes (data_file fh)),
    f_size = (if bs = [] then f_size (data_file fh) else max (f_size (data_file fh)) (off + length bs))\<rparr>\<rparr>"

lemma put_data_fields [simp]:
  "fd (put_data off bs fh) = fd fh" "block_size (put_data off bs fh) = block_size fh"
  "block_cnt (put_data off bs fh) = block_cnt fh" "free_slots_cnt (put_data off bs fh) = free_slots_cnt fh"
  "free_slots_offset (put_data off bs fh) = free_slots_offset fh"
  by (simp_all add: put_data_def)

lemma handler_set_handler [simp]:
  "i < length (block_filehandler_array s) \<Longrightarrow>
    handler (set_handler i fh s) j = (if j = i then fh else handler s j)"
  by (simp add: handler_def set_handler_def)

lemma set_handler_fields [simp]:
  "block_size_array (set_handler i fh s) = block_size_array s"
  "block_type_count (set_handler i fh s) = block_type_count s"
  "length (block_filehandler_array (set_handler i fh s)) = length (block_filehandler_array s)"
  "indexdb (set_handler i fh s) = indexdb s" "index_logger (set_handler i fh s) = index_logger s"
  "inited_global_vars (set_handler i fh s) = inited_global_vars s"
  "set_handler i fh (set_handler i fh' s) = set_handler i fh s"
  by (simp_all add: set_handler_def)

lemma pwrite_full:
  "n \<le> np n \<Longrightarrow> length bs = n \<Longrightarrow>
    pwrite np bs off f = (n, \<lparr>f_bytes = write_bytes off bs (f_bytes f),
      f_size = (if bs = [] then f_size f else max (f_size f) (off + n))\<rparr>)"
  by (auto simp: pwrite_def min_absorb2)

lemma sync_data_file_full:
  assumes "full_env env" and "i < block_type_count s" and "i < length (block_filehandler_array s)"
  shows "sync_data_file env i bs off s = Some (0, set_handler i (put_data off bs (handler s i)) s)"
  using assms pwrite_full [of "length bs" "e_pwrite env" bs]
  by (simp add: sync_data_file_def full_env_def put_data_def Let_def)

lemma sync_header_full:
  assumes "full_env env" and "i < block_type_count s" and "i < length (block_filehandler_array s)"
  shows "sync_data_file_header env i s =
    Some (0, set_handler i (put_data 0 (header_bytes (handler s i)) (handler s i)) s)"
  using sync_data_file_full [OF assms] by (simp add: sync_data_file_header_def)

lemma length_header_bytes [simp]: "length (header_bytes fh) = SLOTS_SECTION_POS"
  by (simp add: header_bytes_def SLOTS_SECTION_POS_def)

text \<open>What a read returns after a write.\<close>

lemma pread_eq:
  "off + n \<le> f_size f \<Longrightarrow> pread f n off = map (\<lambda>i. f_bytes f (off + i)) [0..<n]"
  by (simp add: pread_def)

lemma pread_put_same:
  "pread (data_file (put_data off bs fh)) (length bs) off = bs"
  by (rule nth_equalityI) (auto simp: pread_def put_data_def write_bytes_def)

text \<open>The bytes of a value can be read: it is empty or lies in the file.\<close>

definition readable :: "block_file_t \<Rightarrow> nat \<Rightarrow> nat \<Rightarrow> bool" where
  "readable fh off n \<longleftrightarrow> n = 0 \<or> off + n \<le> f_size (data_file fh)"

lemma readable_put: "readable fh off n \<Longrightarrow> readable (put_data w bs fh) off n"
  by (auto simp: readable_def put_data_def)

lemma length_pread: "readable fh off n \<Longrightarrow> length (pread (data_file fh) n off) = n"
  by (auto simp: readable_def pread_def)

lemma pread_put_apart:
  assumes "readable fh off n" and "off + n \<le> w \<or> w + length bs \<le> off"
  shows "pread (data_file (put_data w bs fh)) n off = pread (data_file fh) n off"
proof (cases "n = 0")
  case False
  then have "off + n \<le> f_size (data_file fh)" "off + n \<le> f_size (data_file (put_data w bs fh))"
    using assms(1) by (auto simp: readable_def put_data_def)
  then show ?thesis
    using assms(2) by (auto simp: pread_eq) (auto simp: put_data_def write_bytes_def)
qed (simp add: pread_def)

lemma f_size_put: "f_size (data_file fh) \<le> f_size (data_file (put_data w bs fh))"
  "bs \<noteq> [] \<Longrightarrow> w + length bs \<le> f_size (data_file (put_data w bs fh))"
  by (auto simp: put_data_def)

section \<open>The invariant of one data file\<close>

definition slots_total :: "block_file_t \<Rightarrow> nat" where
  "slots_total fh = block_cnt fh + free_slots_cnt fh"

text \<open>The offsets of the blocks of a file.\<close>

definition slot_at :: "block_file_t \<Rightarrow> nat \<Rightarrow> bool" where
  "slot_at fh off \<longleftrightarrow> (\<exists>j < slots_total fh. off = DATA_SECTION_POS + block_size fh * j)"

definition free_at :: "block_file_t \<Rightarrow> nat \<Rightarrow> bool" where
  "free_at fh off \<longleftrightarrow> (\<exists>p < free_slots_cnt fh. unat (free_slots_offset fh p) = off)"

text \<open>The header and the free slots on disk are those in memory.\<close>

definition on_disk :: "block_file_t \<Rightarrow> bool" where
  "on_disk fh \<longleftrightarrow> pread (data_file fh) SLOTS_SECTION_POS 0 = header_bytes fh \<and>
    (\<forall>p < free_slots_cnt fh. pread (data_file fh) 8 (SLOTS_SECTION_POS + 8 * p) = u64_bytes (free_slots_offset fh p))"

definition file_ok :: "nat \<Rightarrow> block_file_t \<Rightarrow> bool" where
  "file_ok bs fh \<longleftrightarrow>
    fd fh > 0 \<and> block_size fh = bs \<and> 0 < bs \<and> free_slots_cnt fh \<le> MAX_FREE_SLOTS \<and>
    DATA_SECTION_POS \<le> f_size (data_file fh) \<and>
    DATA_SECTION_POS + bs * slots_total fh < 2 ^ 63 \<and>
    (\<forall>p < free_slots_cnt fh. slot_at fh (unat (free_slots_offset fh p))) \<and>
    inj_on (free_slots_offset fh) {..<free_slots_cnt fh} \<and> on_disk fh"

lemma slot_bounds:
  assumes "slot_at fh off" and "file_ok bs fh"
  shows "DATA_SECTION_POS \<le> off" "off + bs < 2 ^ 63" "unat (word_of_nat off :: u64) = off"
proof -
  obtain j where j: "j < slots_total fh" "off = DATA_SECTION_POS + bs * j"
    using assms by (auto simp: slot_at_def file_ok_def)
  have "bs * (j + 1) \<le> bs * slots_total fh" using j(1) by (intro mult_le_mono2) simp
  then show "DATA_SECTION_POS \<le> off" "off + bs < 2 ^ 63"
    using j(2) assms(2) by (auto simp: file_ok_def algebra_simps)
  then show "unat (word_of_nat off :: u64) = off" by (simp add: unat_of_nat)
qed

text \<open>Different slots do not overlap.\<close>

lemma slots_apart:
  assumes "slot_at fh a" and "slot_at fh' b" and "block_size fh' = block_size fh" and "a \<noteq> b"
  shows "a + block_size fh \<le> b \<or> b + block_size fh \<le> a"
proof -
  let ?z = "block_size fh"
  obtain i j where ij: "a = DATA_SECTION_POS + ?z * i" "b = DATA_SECTION_POS + ?z * j"
    using assms(1-3) by (auto simp: slot_at_def)
  then have "i + 1 \<le> j \<or> j + 1 \<le> i" using assms(4) by fastforce
  then have "?z * (i + 1) \<le> ?z * j \<or> ?z * (j + 1) \<le> ?z * i" by (metis mult_le_mono2)
  then show ?thesis using ij by (simp add: algebra_simps)
qed

lemma slot_not_free_counted:
  assumes "file_ok bs fh" and "slot_at fh off" and "\<not> free_at fh off"
  shows "0 < block_cnt fh"
proof -
  let ?F = "(\<lambda>p. unat (free_slots_offset fh p)) ` {..<free_slots_cnt fh}"
  let ?S = "(\<lambda>j. DATA_SECTION_POS + block_size fh * j) ` {..<slots_total fh}"
  have "inj_on (\<lambda>p. unat (free_slots_offset fh p)) {..<free_slots_cnt fh}"
    using assms(1) by (auto simp: file_ok_def inj_on_def word_unat_eq_iff)
  then have "card ?F = free_slots_cnt fh" by (simp add: card_image)
  moreover have "?F \<subseteq> ?S - {off}"
    using assms(1,3) by (auto simp: file_ok_def slot_at_def free_at_def)
  then have "card ?F \<le> card (?S - {off})" by (intro card_mono) auto
  moreover have "off \<in> ?S" using assms(2) by (auto simp: slot_at_def)
  then have "card (?S - {off}) < card ?S" by (intro card_Diff1_less) auto
  moreover have "card ?S \<le> slots_total fh" using card_image_le [of "{..<slots_total fh}"] by simp
  ultimately show ?thesis by (simp add: slots_total_def)
qed

text \<open>Writes into the blocks leave the header and the free slots on disk alone.\<close>

lemma on_disk_put_data:
  assumes "on_disk fh" and "DATA_SECTION_POS \<le> w" and "DATA_SECTION_POS \<le> f_size (data_file fh)"
    and "free_slots_cnt fh \<le> MAX_FREE_SLOTS"
  shows "on_disk (put_data w bs fh)"
proof -
  have "header_bytes (put_data w bs fh) = header_bytes fh" by (simp add: header_bytes_def)
  moreover have "pread (data_file (put_data w bs fh)) SLOTS_SECTION_POS 0 = pread (data_file fh) SLOTS_SECTION_POS 0"
    using assms(2,3) by (intro pread_put_apart) (auto simp: readable_def storage_consts)
  moreover have "pread (data_file (put_data w bs fh)) 8 (SLOTS_SECTION_POS + 8 * p) =
      pread (data_file fh) 8 (SLOTS_SECTION_POS + 8 * p)" if "p < free_slots_cnt fh" for p
    using assms(2-4) that by (intro pread_put_apart) (auto simp: readable_def storage_consts)
  ultimately show ?thesis using assms(1) by (simp add: on_disk_def)
qed

lemma slot_at_put_data [simp]: "slot_at (put_data w bs fh) = slot_at fh"
  and free_at_put_data [simp]: "free_at (put_data w bs fh) = free_at fh"
  and slots_total_put_data [simp]: "slots_total (put_data w bs fh) = slots_total fh"
  by (simp_all add: slot_at_def free_at_def slots_total_def fun_eq_iff)

lemma file_ok_put_data:
  assumes "file_ok bs fh" and "DATA_SECTION_POS \<le> w"
  shows "file_ok bs (put_data w data fh)"
  using assms on_disk_put_data [of fh w data] f_size_put(1) [of fh w data]
  by (auto simp: file_ok_def)

text \<open>The header of a file is written after its counters change.\<close>

definition put_header :: "block_file_t \<Rightarrow> block_file_t" where
  "put_header fh = put_data 0 (header_bytes fh) fh"

lemma put_header_fields [simp]:
  "fd (put_header fh) = fd fh" "block_size (put_header fh) = block_size fh"
  "block_cnt (put_header fh) = block_cnt fh" "free_slots_cnt (put_header fh) = free_slots_cnt fh"
  "free_slots_offset (put_header fh) = free_slots_offset fh"
  "slot_at (put_header fh) = slot_at fh" "free_at (put_header fh) = free_at fh"
  "slots_total (put_header fh) = slots_total fh"
  by (simp_all add: put_header_def)

lemma put_header_size: "DATA_SECTION_POS \<le> f_size (data_file fh) \<Longrightarrow>
    f_size (data_file (put_header fh)) = f_size (data_file fh)"
  by (auto simp: put_header_def put_data_def storage_consts header_bytes_def)

lemma put_header_pread:
  "SLOTS_SECTION_POS \<le> off \<Longrightarrow> readable fh off n \<Longrightarrow>
    pread (data_file (put_header fh)) n off = pread (data_file fh) n off"
  unfolding put_header_def by (intro pread_put_apart) auto

lemma put_header_on_disk:
  assumes "DATA_SECTION_POS \<le> f_size (data_file fh)" and "free_slots_cnt fh \<le> MAX_FREE_SLOTS"
    and "\<And>p. p < free_slots_cnt fh \<Longrightarrow>
      pread (data_file fh) 8 (SLOTS_SECTION_POS + 8 * p) = u64_bytes (free_slots_offset fh p)"
  shows "on_disk (put_header fh)"
proof -
  have "pread (data_file (put_header fh)) SLOTS_SECTION_POS 0 = header_bytes (put_header fh)"
    using pread_put_same [of 0 "header_bytes fh" fh]
    by (simp only: put_header_def length_header_bytes) (simp add: header_bytes_def)
  moreover have "pread (data_file (put_header fh)) 8 (SLOTS_SECTION_POS + 8 * p) =
      u64_bytes (free_slots_offset fh p)" if "p < free_slots_cnt fh" for p
    using put_header_pread [of "SLOTS_SECTION_POS + 8 * p" fh 8] assms that
    by (simp add: readable_def storage_consts)
  ultimately show ?thesis by (simp add: on_disk_def)
qed

subsection \<open>Placing a block\<close>

definition placed :: "bytes \<Rightarrow> block_file_t \<Rightarrow> nat \<times> block_file_t" where
  "placed data fh =
    (if free_slots_cnt fh \<noteq> 0 then
       let last = free_slots_cnt fh - 1; off = unat (free_slots_offset fh last)
       in (off, put_data off data (put_header (fh\<lparr>free_slots_offset := (free_slots_offset fh)(last := 0),
             free_slots_cnt := last, block_cnt := block_cnt fh + 1\<rparr>)))
     else
       let off = DATA_SECTION_POS + block_size fh * block_cnt fh
       in (off, put_data off data (put_header (fh\<lparr>block_cnt := block_cnt fh + 1\<rparr>))))"

lemma place_block_full:
  assumes "full_env env" and "i < block_type_count s" and "i < length (block_filehandler_array s)"
  shows "place_block env i data s =
    (case placed data (handler s i) of (off, fh) \<Rightarrow> Some (off, set_handler i fh s))"
  using assms
  by (simp add: place_block_def placed_def Let_def sync_header_full sync_data_file_full put_header_def)

lemma placed_off:
  assumes ok: "file_ok bs fh" and p: "placed data fh = (off, fh')"
  shows "(free_at fh off \<and> free_slots_cnt fh' + 1 = free_slots_cnt fh \<and> slots_total fh' = slots_total fh) \<or>
    (free_slots_cnt fh = 0 \<and> free_slots_cnt fh' = 0 \<and> off = DATA_SECTION_POS + bs * slots_total fh \<and>
      slots_total fh' = slots_total fh + 1)"
    and "slot_at fh' off" "block_size fh' = block_size fh" "fd fh' = fd fh"
    and "p < free_slots_cnt fh' \<Longrightarrow> free_slots_offset fh' p = free_slots_offset fh p"
    and "p < free_slots_cnt fh' \<Longrightarrow> unat (free_slots_offset fh p) \<noteq> off"
proof -
  have last: "free_at fh (unat (free_slots_offset fh (free_slots_cnt fh - Suc 0)))" if "0 < free_slots_cnt fh"
    using that unfolding free_at_def by (intro exI [where x = "free_slots_cnt fh - Suc 0"]) simp
  show *: "(free_at fh off \<and> free_slots_cnt fh' + 1 = free_slots_cnt fh \<and> slots_total fh' = slots_total fh) \<or>
    (free_slots_cnt fh = 0 \<and> free_slots_cnt fh' = 0 \<and> off = DATA_SECTION_POS + bs * slots_total fh \<and>
      slots_total fh' = slots_total fh + 1)"
    using p ok last
    by (auto simp: placed_def Let_def slots_total_def file_ok_def split: if_splits)
  show bs: "block_size fh' = block_size fh" "fd fh' = fd fh"
    using p by (auto simp: placed_def Let_def split: if_splits)
  show "slot_at fh' off"
    using * ok bs by (auto simp: free_at_def file_ok_def slot_at_def)
  show "free_slots_offset fh' p = free_slots_offset fh p" if "p < free_slots_cnt fh'"
    using p that by (auto simp: placed_def Let_def split: if_splits)
  show "unat (free_slots_offset fh p) \<noteq> off" if "p < free_slots_cnt fh'"
  proof -
    let ?l = "free_slots_cnt fh - 1"
    have l: "off = unat (free_slots_offset fh ?l)" "p < ?l"
      using p that by (auto simp: placed_def Let_def split: if_splits)
    then have "p \<in> {..<free_slots_cnt fh}" "?l \<in> {..<free_slots_cnt fh}" by auto
    then have "free_slots_offset fh p \<noteq> free_slots_offset fh ?l"
      using ok l(2) inj_onD [of "free_slots_offset fh" "{..<free_slots_cnt fh}" p ?l]
      by (auto simp: file_ok_def)
    then show ?thesis using l(1) by (simp add: word_unat_eq_iff)
  qed
qed

lemma placed_bytes:
  assumes ok: "file_ok bs fh" and p: "placed data fh = (off, fh')" and len: "length data \<le> bs"
  shows "pread (data_file fh') (length data) off = data" "readable fh' off (length data)"
    and "slot_at fh o' \<Longrightarrow> o' \<noteq> off \<Longrightarrow> n \<le> bs \<Longrightarrow> readable fh o' n \<Longrightarrow>
      readable fh' o' n \<and> pread (data_file fh') n o' = pread (data_file fh) n o'"
proof -
  obtain g where g: "fh' = put_data off data (put_header g)" "data_file g = data_file fh"
    using p by (auto simp: placed_def Let_def split: if_splits)
  have bs: "block_size fh = bs" "DATA_SECTION_POS \<le> f_size (data_file fh)" using ok by (auto simp: file_ok_def)
  show "pread (data_file fh') (length data) off = data" unfolding g(1) by (rule pread_put_same)
  show "readable fh' off (length data)"
    using f_size_put(2) [of data off "put_header g"] by (auto simp: readable_def g(1))
  assume o: "slot_at fh o'" "o' \<noteq> off" "n \<le> bs" "readable fh o' n"
  have r: "readable g o' n" using o(4) by (simp add: readable_def g(2))
  then have r': "readable (put_header g) o' n" unfolding put_header_def by (rule readable_put)
  have "o' + bs \<le> off \<or> off + bs \<le> o'"
    using slots_apart [OF o(1) placed_off(2) [OF ok p] _ o(2)] placed_off(3) [OF ok p] bs by simp
  then have "pread (data_file fh') n o' = pread (data_file (put_header g)) n o'"
    unfolding g(1) using o(3) len by (intro pread_put_apart [OF r']) auto
  moreover have "DATA_SECTION_POS \<le> o'" using slot_bounds(1) [OF o(1) ok] .
  then have "pread (data_file (put_header g)) n o' = pread (data_file g) n o'"
    by (intro put_header_pread [OF _ r]) (simp add: storage_consts)
  ultimately show "readable fh' o' n \<and> pread (data_file fh') n o' = pread (data_file fh) n o'"
    using readable_put [OF r'] g by simp
qed

lemma placed_file_ok:
  assumes ok: "file_ok bs fh" and p: "placed data fh = (off, fh')"
    and room: "DATA_SECTION_POS + bs * (slots_total fh + 1) < 2 ^ 63"
  shows "file_ok bs fh'"
proof -
  obtain g where g: "fh' = put_data off data (put_header g)" "data_file g = data_file fh"
      "free_slots_cnt g = free_slots_cnt fh'" "free_slots_offset g = free_slots_offset fh'"
    using p by (auto simp: placed_def Let_def split: if_splits)
  note po = placed_off [OF ok p]
  have le: "free_slots_cnt fh' \<le> free_slots_cnt fh" "slots_total fh \<le> slots_total fh'" using po(1) by auto
  have f: "DATA_SECTION_POS \<le> f_size (data_file g)" "free_slots_cnt fh \<le> MAX_FREE_SLOTS" "block_size fh = bs"
    using ok g(2) by (auto simp: file_ok_def)
  have disk: "pread (data_file g) 8 (SLOTS_SECTION_POS + 8 * q) = u64_bytes (free_slots_offset g q)"
    if "q < free_slots_cnt g" for q
    using ok that le(1) g(2-4) po(5) [of q] by (simp add: file_ok_def on_disk_def)
  have "on_disk (put_header g)"
    using le(1) f(2) g(3) by (intro put_header_on_disk [OF f(1) _ disk]) simp
  moreover have "DATA_SECTION_POS \<le> off" using po(2) by (auto simp: slot_at_def)
  ultimately have "on_disk fh'"
    using f le g(3) put_header_size [OF f(1)] by (subst g(1), intro on_disk_put_data) auto
  moreover have "slot_at fh' (unat (free_slots_offset fh' q))" if "q < free_slots_cnt fh'" for q
  proof -
    have "slot_at fh (unat (free_slots_offset fh q))" using ok that le by (auto simp: file_ok_def)
    then show ?thesis using po(3,5) that le(2) by (auto simp: slot_at_def intro: less_le_trans)
  qed
  moreover have "inj_on (free_slots_offset fh') {..<free_slots_cnt fh'}"
    using ok po(5) le(1) by (auto simp: file_ok_def inj_on_def)
  moreover have "DATA_SECTION_POS \<le> f_size (data_file fh')"
    using f(1) put_header_size [OF f(1)] f_size_put(1) [of "put_header g" off data] g(1) by simp
  moreover have "DATA_SECTION_POS + bs * slots_total fh' < 2 ^ 63"
    using po(1) ok room by (auto simp: file_ok_def)
  ultimately show ?thesis using ok po(3,4) le f by (auto simp: file_ok_def)
qed

subsection \<open>Freeing a block\<close>

definition freed :: "u64 \<Rightarrow> block_file_t \<Rightarrow> block_file_t" where
  "freed off fh = put_data (SLOTS_SECTION_POS + 8 * free_slots_cnt fh) (u64_bytes off)
    (put_header (fh\<lparr>block_cnt := block_cnt fh - 1,
      free_slots_offset := (free_slots_offset fh)(free_slots_cnt fh := off),
      free_slots_cnt := free_slots_cnt fh + 1\<rparr>))"

lemma freed_counts:
  assumes "0 < block_cnt fh"
  shows "slots_total (freed off fh) = slots_total fh" "block_size (freed off fh) = block_size fh"
    "fd (freed off fh) = fd fh" "slot_at (freed off fh) o' = slot_at fh o'"
    "free_at (freed off fh) o' \<longleftrightarrow> free_at fh o' \<or> o' = unat off"
proof -
  show *: "slots_total (freed off fh) = slots_total fh" "block_size (freed off fh) = block_size fh"
    "fd (freed off fh) = fd fh"
    using assms by (simp_all add: freed_def) (simp add: slots_total_def)
  then show "slot_at (freed off fh) o' = slot_at fh o'" by (simp add: slot_at_def)
  show "free_at (freed off fh) o' \<longleftrightarrow> free_at fh o' \<or> o' = unat off"
  proof -
    have "free_at (freed off fh) o' \<longleftrightarrow>
        (\<exists>p < free_slots_cnt fh + 1. unat (((free_slots_offset fh)(free_slots_cnt fh := off)) p) = o')"
      by (simp add: freed_def) (simp add: free_at_def)
    also have "\<dots> \<longleftrightarrow> (\<exists>p < free_slots_cnt fh. unat (free_slots_offset fh p) = o') \<or> o' = unat off"
      by (auto simp: less_Suc_eq) (metis nat_less_le)+
    finally show ?thesis by (simp add: free_at_def)
  qed
qed

lemma freed_bytes:
  assumes ok: "file_ok bs fh" and room: "free_slots_cnt fh < MAX_FREE_SLOTS"
    and "DATA_SECTION_POS \<le> o'" and r: "readable fh o' n"
  shows "readable (freed off fh) o' n" "pread (data_file (freed off fh)) n o' = pread (data_file fh) n o'"
proof -
  let ?g = "fh\<lparr>block_cnt := block_cnt fh - 1,
      free_slots_offset := (free_slots_offset fh)(free_slots_cnt fh := off), free_slots_cnt := free_slots_cnt fh + 1\<rparr>"
  have g: "readable ?g o' n" using r by (simp add: readable_def)
  then have h: "readable (put_header ?g) o' n" unfolding put_header_def by (rule readable_put)
  then show "readable (freed off fh) o' n" unfolding freed_def by (rule readable_put)
  have "pread (data_file (freed off fh)) n o' = pread (data_file (put_header ?g)) n o'"
    unfolding freed_def using assms(3) room by (intro pread_put_apart [OF h]) (simp add: storage_consts)
  also have "\<dots> = pread (data_file ?g) n o'"
    using assms(3) by (intro put_header_pread [OF _ g]) (simp add: storage_consts)
  finally show "pread (data_file (freed off fh)) n o' = pread (data_file fh) n o'" by simp
qed

lemma freed_file_ok:
  assumes ok: "file_ok bs fh" and room: "free_slots_cnt fh < MAX_FREE_SLOTS"
    and off: "slot_at fh (unat off)" "\<not> free_at fh (unat off)"
  shows "file_ok bs (freed off fh)"
proof -
  have cnt: "0 < block_cnt fh" using slot_not_free_counted [OF ok off] .
  note c = freed_counts [OF cnt]
  define g where "g = fh\<lparr>block_cnt := block_cnt fh - 1,
      free_slots_offset := (free_slots_offset fh)(free_slots_cnt fh := off), free_slots_cnt := free_slots_cnt fh + 1\<rparr>"
  have f: "freed off fh = put_data (SLOTS_SECTION_POS + 8 * free_slots_cnt fh) (u64_bytes off) (put_header g)"
    by (simp add: freed_def g_def)
  have size: "DATA_SECTION_POS \<le> f_size (data_file fh)" using ok by (simp add: file_ok_def)
  then have size': "f_size (data_file (put_header g)) = f_size (data_file fh)"
    using put_header_size [of g] by (simp add: g_def)
  have hdr: "pread (data_file (put_header g)) SLOTS_SECTION_POS 0 = header_bytes (freed off fh)"
    using pread_put_same [of 0 "header_bytes g" g] unfolding put_header_def length_header_bytes
    by (simp add: f header_bytes_def)
  have "pread (data_file (freed off fh)) SLOTS_SECTION_POS 0 = pread (data_file (put_header g)) SLOTS_SECTION_POS 0"
    unfolding f using size size'
    by (intro pread_put_apart) (auto simp: readable_def storage_consts)
  note this [unfolded hdr]
  moreover have "pread (data_file (freed off fh)) 8 (SLOTS_SECTION_POS + 8 * p) =
      u64_bytes (free_slots_offset (freed off fh) p)" if p: "p < free_slots_cnt (freed off fh)" for p
  proof (cases "p = free_slots_cnt fh")
    case True
    then show ?thesis
      using pread_put_same [of "SLOTS_SECTION_POS + 8 * p" "u64_bytes off" "put_header g"]
      by (simp add: f) (simp add: g_def)
  next
    case False
    then have lt: "p < free_slots_cnt fh" using p by (simp add: f) (simp add: g_def)
    have "pread (data_file (freed off fh)) 8 (SLOTS_SECTION_POS + 8 * p) =
        pread (data_file (put_header g)) 8 (SLOTS_SECTION_POS + 8 * p)"
      unfolding f using lt room size size' by (intro pread_put_apart) (auto simp: readable_def storage_consts)
    also have "\<dots> = pread (data_file g) 8 (SLOTS_SECTION_POS + 8 * p)"
      using lt room size by (intro put_header_pread) (auto simp: readable_def storage_consts g_def)
    also have "\<dots> = u64_bytes (free_slots_offset fh p)"
      using ok lt by (simp add: file_ok_def on_disk_def g_def)
    finally show ?thesis using False by (simp add: f) (simp add: g_def)
  qed
  ultimately have disk: "on_disk (freed off fh)" by (simp add: on_disk_def)
  have fs: "free_slots_cnt (freed off fh) = free_slots_cnt fh + 1"
      "free_slots_offset (freed off fh) = (free_slots_offset fh)(free_slots_cnt fh := off)"
    by (simp_all add: freed_def)
  have new: "free_slots_offset fh q \<noteq> off" if "q < free_slots_cnt fh" for q
    using off(2) that by (auto simp: free_at_def)
  have "inj_on (free_slots_offset (freed off fh)) {..<free_slots_cnt (freed off fh)}"
    using ok new unfolding fs by (auto simp: file_ok_def inj_on_def less_Suc_eq) metis+
  moreover have "slot_at (freed off fh) (unat (free_slots_offset (freed off fh) q))"
    if "q < free_slots_cnt (freed off fh)" for q
    using ok off(1) that c(4) unfolding fs by (auto simp: file_ok_def less_Suc_eq)
  moreover have "DATA_SECTION_POS \<le> f_size (data_file (freed off fh))"
    using size size' f_size_put(1) [of "put_header g"] by (metis f order_trans)
  ultimately show ?thesis
    using ok disk room fs(1) c by (auto simp: file_ok_def)
qed

section \<open>The invariant of the store\<close>

definition tables_ok :: "'db storage \<Rightarrow> bool" where
  "tables_ok s \<longleftrightarrow> inited_global_vars s \<and> 1 \<le> block_type_count s \<and> block_type_count s \<le> MAX_BLOCK_CNT \<and>
    length (block_size_array s) = MAX_BLOCK_CNT \<and> length (block_filehandler_array s) = MAX_BLOCK_CNT \<and>
    (\<forall>i < block_type_count s. block_size_array s ! i = BEGINNING_SIZE * 2 ^ i)"

text \<open>A record of the index agrees with the data file it names.\<close>

definition rec_at :: "block_file_t \<Rightarrow> index_value_t \<Rightarrow> bool" where
  "rec_at fh v \<longleftrightarrow>
    (let n = unat (iv_data_size v); off = unat (iv_offset v)
     in n \<le> block_size fh \<and> slot_at fh off \<and> \<not> free_at fh off \<and> readable fh off n \<and>
        crc32_calc (pread (data_file fh) n off) = iv_crc32 v)"

definition rec_block :: "bytes \<Rightarrow> nat" where
  "rec_block vb = unat (iv_block_id (bytes_value vb))"

definition rec_offset :: "bytes \<Rightarrow> nat" where
  "rec_offset vb = unat (iv_offset (bytes_value vb))"

definition rec_data :: "'db storage \<Rightarrow> bytes \<Rightarrow> bytes" where
  "rec_data s vb = pread (data_file (handler s (rec_block vb))) (unat (iv_data_size (bytes_value vb))) (rec_offset vb)"

definition index_ok :: "(bytes \<Rightarrow> bytes option) \<Rightarrow> 'db storage \<Rightarrow> bool" where
  "index_ok V s \<longleftrightarrow>
    (\<forall>k vb. V k = Some vb \<longrightarrow> length k = KEY_LEN \<and> length vb = 24 \<and>
      rec_block vb < block_type_count s \<and> rec_at (handler s (rec_block vb)) (bytes_value vb)) \<and>
    (\<forall>k k' vb vb'. V k = Some vb \<and> V k' = Some vb' \<and> k \<noteq> k' \<longrightarrow>
      (rec_block vb, rec_offset vb) \<noteq> (rec_block vb', rec_offset vb'))"

definition files_ok :: "'db storage \<Rightarrow> bool" where
  "files_ok s \<longleftrightarrow> (\<forall>i < block_type_count s. file_ok (block_size_array s ! i) (handler s i))"

text \<open>The value a key has.\<close>

definition contents :: "(bytes \<Rightarrow> bytes option) \<Rightarrow> 'db storage \<Rightarrow> bytes \<Rightarrow> bytes option" where
  "contents V s k = map_option (rec_data s) (V k)"

text \<open>Every data file can take so many more blocks before its offsets leave \<open>off_t\<close>.\<close>

definition room :: "nat \<Rightarrow> 'db storage \<Rightarrow> bool" where
  "room n s \<longleftrightarrow> (\<forall>i < block_type_count s.
    DATA_SECTION_POS + block_size_array s ! i * (slots_total (handler s i) + n) < 2 ^ 63)"

lemma file_okD: "files_ok s \<Longrightarrow> i < block_type_count s \<Longrightarrow> file_ok (block_size_array s ! i) (handler s i)"
  by (simp add: files_ok_def)

lemma block_size_bound: "tables_ok s \<Longrightarrow> i < block_type_count s \<Longrightarrow> block_size_array s ! i \<le> 2 ^ 26"
proof -
  assume t: "tables_ok s" "i < block_type_count s"
  then have "i \<le> 19" by (auto simp: tables_ok_def storage_consts)
  then have "(2 :: nat) ^ i \<le> 2 ^ 19" by (rule power_increasing) simp
  then show ?thesis using t by (simp add: tables_ok_def storage_consts)
qed

text \<open>One file and the record of one key change.\<close>

lemma index_update:
  assumes ix: "index_ok V s" and t: "tables_ok s" and i: "i < block_type_count s"
    and bs: "block_size fh = block_size (handler s i)"
    and keep: "\<And>k' vb'. V k' = Some vb' \<Longrightarrow> k' \<noteq> k \<Longrightarrow> rec_block vb' = i \<Longrightarrow>
      rec_at fh (bytes_value vb') \<and>
      pread (data_file fh) (unat (iv_data_size (bytes_value vb'))) (rec_offset vb') = rec_data s vb'"
    and new: "\<And>vb. nv = Some vb \<Longrightarrow> length k = KEY_LEN \<and> length vb = 24 \<and> rec_block vb = i \<and>
      rec_at fh (bytes_value vb) \<and>
      (\<forall>k' vb'. V k' = Some vb' \<and> k' \<noteq> k \<longrightarrow> (rec_block vb', rec_offset vb') \<noteq> (i, rec_offset vb))"
  shows "index_ok (V(k := nv)) (set_handler i fh s)"
    and "contents (V(k := nv)) (set_handler i fh s) =
      (contents V s)(k := map_option (rec_data (set_handler i fh s)) nv)"
proof -
  let ?s = "set_handler i fh s"
  have len: "i < length (block_filehandler_array s)" using t i by (simp add: tables_ok_def)
  note h = handler_set_handler [OF len]
  have old: "rec_at (handler ?s (rec_block vb')) (bytes_value vb') \<and> rec_data ?s vb' = rec_data s vb'"
    if "V k' = Some vb'" "k' \<noteq> k" for k' vb'
    using keep [OF that] ix that(1) by (auto simp: h index_ok_def rec_data_def)
  show "index_ok (V(k := nv)) ?s"
    using ix old new i unfolding index_ok_def by (auto simp: h split: if_splits) blast
  show "contents (V(k := nv)) ?s = (contents V s)(k := map_option (rec_data ?s) nv)"
    using old by (auto simp: contents_def fun_eq_iff intro!: option.map_cong0)
qed

lemma files_update:
  assumes "files_ok s" and "tables_ok s" and "i < block_type_count s" and "file_ok (block_size_array s ! i) fh"
  shows "files_ok (set_handler i fh s)" "tables_ok (set_handler i fh s)"
  using assms by (auto simp: files_ok_def tables_ok_def)

text \<open>The journal and the database handle do not matter to files and index.\<close>

lemma storage_frame [simp]:
  "handler (s\<lparr>index_logger := l\<rparr>) = handler s" "handler (s\<lparr>indexdb := db\<rparr>) = handler s"
  "tables_ok (s\<lparr>index_logger := l\<rparr>) = tables_ok s" "tables_ok (s\<lparr>indexdb := db\<rparr>) = tables_ok s"
  "files_ok (s\<lparr>index_logger := l\<rparr>) = files_ok s" "files_ok (s\<lparr>indexdb := db\<rparr>) = files_ok s"
  "index_ok V (s\<lparr>index_logger := l\<rparr>) = index_ok V s" "index_ok V (s\<lparr>indexdb := db\<rparr>) = index_ok V s"
  "rec_data (s\<lparr>index_logger := l\<rparr>) = rec_data s" "rec_data (s\<lparr>indexdb := db\<rparr>) = rec_data s"
  "contents V (s\<lparr>index_logger := l\<rparr>) = contents V s" "contents V (s\<lparr>indexdb := db\<rparr>) = contents V s"
  "room n (s\<lparr>index_logger := l\<rparr>) = room n s" "room n (s\<lparr>indexdb := db\<rparr>) = room n s"
proof -
  show *: "handler (s\<lparr>index_logger := l\<rparr>) = handler s" "handler (s\<lparr>indexdb := db\<rparr>) = handler s"
    by (simp_all add: handler_def fun_eq_iff)
  show **: "rec_data (s\<lparr>index_logger := l\<rparr>) = rec_data s" "rec_data (s\<lparr>indexdb := db\<rparr>) = rec_data s"
    by (simp_all add: rec_data_def fun_eq_iff *)
  show "contents V (s\<lparr>index_logger := l\<rparr>) = contents V s" "contents V (s\<lparr>indexdb := db\<rparr>) = contents V s"
    by (simp_all add: contents_def fun_eq_iff **)
qed (simp_all add: handler_def tables_ok_def files_ok_def index_ok_def room_def)

lemma log_index_fields [simp]:
  "indexdb (log_index env t k v s) = indexdb s" "block_size_array (log_index env t k v s) = block_size_array s"
  "block_type_count (log_index env t k v s) = block_type_count s"
  "block_filehandler_array (log_index env t k v s) = block_filehandler_array s"
  by (simp_all add: log_index_def)

lemma log_index_frame [simp]:
  "handler (log_index env t k v s) = handler s" "tables_ok (log_index env t k v s) = tables_ok s"
  "files_ok (log_index env t k v s) = files_ok s" "index_ok V (log_index env t k v s) = index_ok V s"
  "contents V (log_index env t k v s) = contents V s" "room n (log_index env t k v s) = room n s"
  by (simp_all add: log_index_def)

lemma length_fixed_key [simp]: "length (fixed_key key) = KEY_LEN"
  by (simp add: fixed_key_def)

lemma fixed_key_id [simp]: "length key = KEY_LEN \<Longrightarrow> fixed_key key = key"
  by (simp add: fixed_key_def)

text \<open>The record of a value just placed.\<close>

definition new_value :: "nat \<Rightarrow> bytes \<Rightarrow> nat \<Rightarrow> index_value_t" where
  "new_value i data off = \<lparr>iv_crc32 = crc32_calc data, iv_block_id = word_of_nat i,
    iv_data_size = word_of_nat (length data), iv_offset = word_of_nat off\<rparr>"

lemma placed_index:
  assumes ix: "index_ok V s" and f: "files_ok s" and t: "tables_ok s" and i: "i < block_type_count s"
    and len: "length data \<le> block_size_array s ! i" and k: "length k = KEY_LEN" and none: "V k = None"
    and rm: "room 1 s" and p: "placed data (handler s i) = (off, fh)"
  shows "index_ok (V(k \<mapsto> value_bytes (new_value i data off))) (set_handler i fh s)"
    and "contents (V(k \<mapsto> value_bytes (new_value i data off))) (set_handler i fh s) = (contents V s)(k \<mapsto> data)"
    and "files_ok (set_handler i fh s)" "tables_ok (set_handler i fh s)"
proof -
  let ?bs = "block_size_array s ! i" and ?h = "handler s i" and ?v = "new_value i data off"
  have ok: "file_ok ?bs ?h" using file_okD [OF f i] .
  then have bs: "block_size ?h = ?bs" by (simp add: file_ok_def)
  have ok': "file_ok ?bs fh" using rm i placed_file_ok [OF ok p] by (simp add: room_def)
  note po = placed_off [OF ok p] and pb = placed_bytes [OF ok p len]
  show "files_ok (set_handler i fh s)" "tables_ok (set_handler i fh s)"
    using files_update [OF f t i ok'] .
  have n: "unat (word_of_nat (length data) :: u64) = length data"
    using len block_size_bound [OF t i] by (simp add: unat_of_nat)
  have iw: "unat (word_of_nat i :: u32) = i"
    using t i by (simp add: unat_of_nat tables_ok_def storage_consts)
  have ow: "unat (word_of_nat off :: u64) = off" using slot_bounds(3) [OF po(2) ok'] .
  have vb: "rec_block (value_bytes ?v) = i" "rec_offset (value_bytes ?v) = off"
    using iw ow by (simp_all add: rec_block_def rec_offset_def new_value_def)
  have unfree: "\<not> free_at fh off" using po(5,6) by (auto simp: free_at_def)
  have at: "rec_at fh (bytes_value (value_bytes ?v))"
    using po(2,3) unfree pb(1,2) n ow len bs by (simp add: rec_at_def Let_def new_value_def)
  have other: "rec_offset vb' \<noteq> off \<and> slot_at ?h (rec_offset vb') \<and> \<not> free_at ?h (rec_offset vb')"
    if "V k' = Some vb'" "rec_block vb' = i" for k' vb'
  proof -
    have r: "slot_at ?h (rec_offset vb')" "\<not> free_at ?h (rec_offset vb')"
      using ix that by (auto simp: index_ok_def rec_at_def rec_offset_def Let_def)
    moreover have "\<not> slot_at ?h (DATA_SECTION_POS + ?bs * slots_total ?h)"
      using bs ok by (auto simp: slot_at_def file_ok_def)
    ultimately show ?thesis using po(1) by auto
  qed
  have new: "length k = KEY_LEN \<and> length vb = 24 \<and> rec_block vb = i \<and>
      rec_at fh (bytes_value vb) \<and>
      (\<forall>k' vb'. V k' = Some vb' \<and> k' \<noteq> k \<longrightarrow> (rec_block vb', rec_offset vb') \<noteq> (i, rec_offset vb))"
    if "Some (value_bytes ?v) = Some vb" for vb
  proof -
    have "vb = value_bytes ?v" using that by simp
    then show ?thesis using k vb at other by (auto simp del: bytes_value_bytes)
  qed
  have keep: "rec_at fh (bytes_value vb') \<and>
      pread (data_file fh) (unat (iv_data_size (bytes_value vb'))) (rec_offset vb') = rec_data s vb'"
    if V: "V k' = Some vb'" "k' \<noteq> k" "rec_block vb' = i" for k' vb'
  proof -
    have r: "rec_at ?h (bytes_value vb')" using ix V by (auto simp: index_ok_def)
    then have "readable fh (rec_offset vb') (unat (iv_data_size (bytes_value vb'))) \<and>
        pread (data_file fh) (unat (iv_data_size (bytes_value vb'))) (rec_offset vb') = rec_data s vb'"
      using pb(3) [of "rec_offset vb'"] other [OF V(1,3)] bs V(3)
      by (simp add: rec_at_def Let_def rec_offset_def rec_data_def)
    moreover have "slot_at fh (rec_offset vb')"
    proof -
      have "slots_total ?h \<le> slots_total fh" using po(1) by auto
      then show ?thesis using other [OF V(1,3)] po(3) unfolding slot_at_def by (metis less_le_trans)
    qed
    moreover have "\<not> free_at fh (rec_offset vb')"
      using other [OF V(1,3)] po(1,5) by (auto simp: free_at_def)
    ultimately show ?thesis
      using r V(3) po(3) by (auto simp: rec_at_def Let_def rec_offset_def rec_data_def)
  qed
  show "index_ok (V(k \<mapsto> value_bytes ?v)) (set_handler i fh s)"
    by (rule index_update(1) [OF ix t i po(3)], erule (2) keep, erule new)
  have "contents (V(k \<mapsto> value_bytes ?v)) (set_handler i fh s) =
      (contents V s)(k := map_option (rec_data (set_handler i fh s)) (Some (value_bytes ?v)))"
    by (rule index_update(2) [OF ix t i po(3)], erule (2) keep, erule new)
  moreover
  have "rec_data (set_handler i fh s) (value_bytes ?v) = data"
    using pb(1) vb n t i by (simp add: rec_data_def tables_ok_def) (simp add: new_value_def)
  ultimately show "contents (V(k \<mapsto> value_bytes ?v)) (set_handler i fh s) = (contents V s)(k \<mapsto> data)"
    by simp
qed

lemma modified_index:
  assumes ix: "index_ok V s" and f: "files_ok s" and t: "tables_ok s" and V: "V k = Some vb"
    and i: "i = rec_block vb" and len: "length data \<le> block_size_array s ! i"
    and v: "v = (bytes_value vb)\<lparr>iv_crc32 := crc32_calc data, iv_data_size := word_of_nat (length data)\<rparr>"
    and fh: "fh = put_data (rec_offset vb) data (handler s i)"
  shows "index_ok (V(k \<mapsto> value_bytes v)) (set_handler i fh s)"
    and "contents (V(k \<mapsto> value_bytes v)) (set_handler i fh s) = (contents V s)(k \<mapsto> data)"
    and "files_ok (set_handler i fh s)" "tables_ok (set_handler i fh s)"
proof -
  let ?bs = "block_size_array s ! i" and ?h = "handler s i"
  have rec: "length k = KEY_LEN" "i < block_type_count s" "rec_at ?h (bytes_value vb)"
    using ix V i by (auto simp: index_ok_def)
  have ok: "file_ok ?bs ?h" using file_okD [OF f rec(2)] .
  then have bs: "block_size ?h = ?bs" by (simp add: file_ok_def)
  have slot: "slot_at ?h (rec_offset vb)" "\<not> free_at ?h (rec_offset vb)"
    using rec(3) by (auto simp: rec_at_def Let_def rec_offset_def)
  have ok': "file_ok ?bs fh" unfolding fh using file_ok_put_data [OF ok slot_bounds(1) [OF slot(1) ok]] .
  show "files_ok (set_handler i fh s)" "tables_ok (set_handler i fh s)"
    using files_update [OF f t rec(2) ok'] .
  have n: "unat (word_of_nat (length data) :: u64) = length data"
    using len block_size_bound [OF t rec(2)] by (simp add: unat_of_nat)
  have vb: "rec_block (value_bytes v) = i" "rec_offset (value_bytes v) = rec_offset vb"
    by (simp_all add: rec_block_def rec_offset_def v i)
  have pr: "pread (data_file fh) (length data) (rec_offset vb) = data" unfolding fh by (rule pread_put_same)
  have at: "rec_at fh (bytes_value (value_bytes v))"
    using slot pr n len bs f_size_put(2) [of data "rec_offset vb" ?h]
    by (auto simp: rec_at_def Let_def v rec_offset_def fh readable_def)
  have other: "rec_offset vb' \<noteq> rec_offset vb" if "V k' = Some vb'" "k' \<noteq> k" "rec_block vb' = i" for k' vb'
    using ix V that i unfolding index_ok_def by blast
  have new: "length k = KEY_LEN \<and> length wb = 24 \<and> rec_block wb = i \<and> rec_at fh (bytes_value wb) \<and>
      (\<forall>k' vb'. V k' = Some vb' \<and> k' \<noteq> k \<longrightarrow> (rec_block vb', rec_offset vb') \<noteq> (i, rec_offset wb))"
    if "Some (value_bytes v) = Some wb" for wb
  proof -
    have "wb = value_bytes v" using that by simp
    then show ?thesis using rec(1) vb at other by (auto simp del: bytes_value_bytes)
  qed
  have keep: "rec_at fh (bytes_value vb') \<and>
      pread (data_file fh) (unat (iv_data_size (bytes_value vb'))) (rec_offset vb') = rec_data s vb'"
    if W: "V k' = Some vb'" "k' \<noteq> k" "rec_block vb' = i" for k' vb'
  proof -
    let ?n = "unat (iv_data_size (bytes_value vb'))"
    have r: "rec_at ?h (bytes_value vb')" using ix W by (auto simp: index_ok_def)
    then have r': "slot_at ?h (rec_offset vb')" "?n \<le> ?bs" "readable ?h (rec_offset vb') ?n"
      using bs by (auto simp: rec_at_def Let_def rec_offset_def)
    have "rec_offset vb' + ?bs \<le> rec_offset vb \<or> rec_offset vb + ?bs \<le> rec_offset vb'"
      using slots_apart [OF r'(1) slot(1) _ other [OF W]] bs by simp
    then have "pread (data_file fh) ?n (rec_offset vb') = rec_data s vb'"
      unfolding fh rec_data_def W(3) using r'(2) len by (intro pread_put_apart [OF r'(3)]) auto
    then show ?thesis
      using r readable_put [OF r'(3)] W(3)
      by (auto simp: rec_at_def Let_def rec_offset_def rec_data_def fh)
  qed
  have bs': "block_size fh = block_size ?h" by (simp add: fh)
  show "index_ok (V(k \<mapsto> value_bytes v)) (set_handler i fh s)"
    by (rule index_update(1) [OF ix t rec(2) bs'], erule (2) keep, erule new)
  have "contents (V(k \<mapsto> value_bytes v)) (set_handler i fh s) =
      (contents V s)(k := map_option (rec_data (set_handler i fh s)) (Some (value_bytes v)))"
    by (rule index_update(2) [OF ix t rec(2) bs'], erule (2) keep, erule new)
  moreover
  have "rec_data (set_handler i fh s) (value_bytes v) = data"
    using pr vb n t rec(2) by (simp add: rec_data_def tables_ok_def) (simp add: v)
  ultimately show "contents (V(k \<mapsto> value_bytes v)) (set_handler i fh s) = (contents V s)(k \<mapsto> data)"
    by simp
qed

lemma freed_index:
  assumes ix: "index_ok V s" and f: "files_ok s" and t: "tables_ok s" and V: "V k = Some vb"
    and i: "i = rec_block vb" and full: "free_slots_cnt (handler s i) < MAX_FREE_SLOTS"
    and fh: "fh = freed (iv_offset (bytes_value vb)) (handler s i)"
  shows "index_ok (V(k := None)) (set_handler i fh s)"
    and "contents (V(k := None)) (set_handler i fh s) = (contents V s)(k := None)"
    and "files_ok (set_handler i fh s)" "tables_ok (set_handler i fh s)"
    and "slots_total fh = slots_total (handler s i)"
proof -
  let ?bs = "block_size_array s ! i" and ?h = "handler s i"
  have rec: "i < block_type_count s" "rec_at ?h (bytes_value vb)" using ix V i by (auto simp: index_ok_def)
  have ok: "file_ok ?bs ?h" using file_okD [OF f rec(1)] .
  have slot: "slot_at ?h (rec_offset vb)" "\<not> free_at ?h (rec_offset vb)"
    using rec(2) by (auto simp: rec_at_def Let_def rec_offset_def)
  note c = freed_counts [OF slot_not_free_counted [OF ok slot], of "iv_offset (bytes_value vb)", folded fh]
  have ok': "file_ok ?bs fh"
    unfolding fh using freed_file_ok [OF ok full] slot by (simp add: rec_offset_def)
  show "files_ok (set_handler i fh s)" "tables_ok (set_handler i fh s)" "slots_total fh = slots_total ?h"
    using files_update [OF f t rec(1) ok'] c(1) .
  have keep: "rec_at fh (bytes_value vb') \<and>
      pread (data_file fh) (unat (iv_data_size (bytes_value vb'))) (rec_offset vb') = rec_data s vb'"
    if W: "V k' = Some vb'" "k' \<noteq> k" "rec_block vb' = i" for k' vb'
  proof -
    let ?n = "unat (iv_data_size (bytes_value vb'))"
    have r: "rec_at ?h (bytes_value vb')" using ix W by (auto simp: index_ok_def)
    then have r': "slot_at ?h (rec_offset vb')" "readable ?h (rec_offset vb') ?n"
      by (auto simp: rec_at_def Let_def rec_offset_def)
    have "rec_offset vb' \<noteq> rec_offset vb" using ix V W i unfolding index_ok_def by blast
    then show ?thesis
      using r freed_bytes [OF ok full slot_bounds(1) [OF r'(1) ok] r'(2), folded fh] c(2,4,5) W(3)
      by (auto simp: rec_at_def Let_def rec_offset_def rec_data_def fh)
  qed
  show "index_ok (V(k := None)) (set_handler i fh s)"
    by (rule index_update(1) [OF ix t rec(1) c(2)], erule (2) keep, simp)
  have "contents (V(k := None)) (set_handler i fh s) =
      (contents V s)(k := map_option (rec_data (set_handler i fh s)) None)"
    by (rule index_update(2) [OF ix t rec(1) c(2)], erule (2) keep, simp)
  then show "contents (V(k := None)) (set_handler i fh s) = (contents V s)(k := None)" by simp
qed

section \<open>Size classes\<close>

lemma int_of_size_small: "n < 2 ^ 31 \<Longrightarrow> int_of_size n = int n"
  by (simp add: int_of_size_def sint_uint uint_nat unat_of_nat signed_take_bit_int_eq_self)

lemma calc_loop_result:
  assumes "n < 2 ^ 31"
  shows "(calc_loop k (int sz) n = -1 \<and> (\<forall>j<k. sz * 2 ^ j < n)) \<or>
    (\<exists>j<k. calc_loop k (int sz) n = int (sz * 2 ^ j) \<and> n \<le> sz * 2 ^ j \<and> (\<forall>j'<j. sz * 2 ^ j' < n))"
proof (induction k arbitrary: sz)
  case (Suc k)
  show ?case
  proof (cases "n \<le> sz")
    case True
    then show ?thesis using int_of_size_small [OF assms] by (intro disjI2 exI [where x = 0]) simp
  next
    case False
    have "calc_loop (Suc k) (int sz) n = calc_loop k (int sz * 2) n"
      using False int_of_size_small [OF assms] by simp
    then have step: "calc_loop (Suc k) (int sz) n = calc_loop k (int (sz * 2)) n" by simp
    from Suc [of "sz * 2"] show ?thesis
    proof (elim disjE conjE exE)
      assume "calc_loop k (int (sz * 2)) n = -1" "\<forall>j<k. sz * 2 * 2 ^ j < n"
      then show ?thesis using step False by (auto simp: less_Suc_eq_0_disj mult.assoc)
    next
      fix j assume "j < k" "calc_loop k (int (sz * 2)) n = int (sz * 2 * 2 ^ j)" "n \<le> sz * 2 * 2 ^ j"
        "\<forall>j'<j. sz * 2 * 2 ^ j' < n"
      then show ?thesis
        using step False
        by (intro disjI2 exI [where x = "Suc j"]) (auto simp: less_Suc_eq_0_disj mult.assoc)
    qed
  qed
qed simp

lemma find_size_table:
  assumes "\<And>m. m < length xs \<Longrightarrow> i + m < n \<Longrightarrow> xs ! m = BEGINNING_SIZE * 2 ^ (i + m)"
    and "n \<le> i + length xs" and "i \<le> j"
  shows "find_size xs i (int (BEGINNING_SIZE * 2 ^ j)) n = (if j < n then int j else -1)"
  using assms
proof (induction xs arbitrary: i)
  case (Cons x xs)
  show ?case
  proof (cases "i < n")
    case True
    then have x: "x = BEGINNING_SIZE * 2 ^ i" using Cons.prems(1) [of 0] by simp
    have "find_size xs (Suc i) (int (BEGINNING_SIZE * 2 ^ j)) n = (if j < n then int j else -1)" if "j \<noteq> i"
      using Cons.prems(1) [of "Suc _"] Cons.prems(2,3) that by (intro Cons.IH) auto
    then show ?thesis using True x by (auto simp: BEGINNING_SIZE_def)
  qed (use Cons.prems(3) in auto)
qed auto

lemma find_size_none: "find_size xs i (-1) n = -1"
  by (induction xs arbitrary: i) auto

text \<open>The largest value the store takes.\<close>

definition largest_block :: "'db storage \<Rightarrow> nat" where
  "largest_block s = block_size_array s ! (block_type_count s - 1)"

lemma size_class:
  assumes t: "tables_ok s" and n: "n \<le> largest_block s"
  obtains j where "find_block_file (calc_block_size n) s = int j" "j < block_type_count s"
    "n \<le> block_size_array s ! j" "\<forall>j'<j. block_size_array s ! j' < n"
proof -
  let ?c = "block_type_count s"
  have c: "1 \<le> ?c" "?c \<le> 20" "\<And>i. i < ?c \<Longrightarrow> block_size_array s ! i = 128 * 2 ^ i"
    using t by (auto simp: tables_ok_def storage_consts)
  have top: "n \<le> 128 * 2 ^ (?c - 1)" using n c by (simp add: largest_block_def)
  also have "\<dots> \<le> 128 * 2 ^ 19" using c(2) by (intro mult_le_mono2 power_increasing) auto
  finally have "n < 2 ^ 31" by simp
  note r = calc_loop_result [OF this, of MAX_BLOCK_CNT BEGINNING_SIZE]
  have "?c - 1 < MAX_BLOCK_CNT" "\<not> BEGINNING_SIZE * 2 ^ (?c - 1) < n"
    using c top by (auto simp: storage_consts)
  then obtain j where j: "calc_block_size n = int (BEGINNING_SIZE * 2 ^ j)" "n \<le> BEGINNING_SIZE * 2 ^ j"
      "\<forall>j'<j. BEGINNING_SIZE * 2 ^ j' < n"
    using r unfolding calc_block_size_def by blast
  have "\<not> ?c \<le> j"
  proof
    assume "?c \<le> j"
    then have "?c - 1 < j" using c(1) by simp
    then show False using j(3) top unfolding BEGINNING_SIZE_def by (meson not_less)
  qed
  then have jc: "j < ?c" by simp
  have "find_block_file (calc_block_size n) s = int j"
    unfolding find_block_file_def j(1) using t jc find_size_table [of "block_size_array s" 0 ?c j]
    by (auto simp: tables_ok_def)
  then show ?thesis
    using that [of j] jc j(2,3) c(3) by (simp add: storage_consts)
qed

lemma size_too_large:
  assumes t: "tables_ok s" and n: "largest_block s < n" "n < 2 ^ 31"
  shows "find_block_file (calc_block_size n) s = -1"
proof -
  let ?c = "block_type_count s"
  have c: "1 \<le> ?c" "\<And>i. i < ?c \<Longrightarrow> block_size_array s ! i = 128 * 2 ^ i"
    using t by (auto simp: tables_ok_def storage_consts)
  from calc_loop_result [OF n(2), of MAX_BLOCK_CNT BEGINNING_SIZE] show ?thesis
  proof (elim disjE conjE exE)
    assume "calc_loop MAX_BLOCK_CNT (int BEGINNING_SIZE) n = -1"
    then show ?thesis by (simp add: calc_block_size_def find_block_file_def find_size_none)
  next
    fix j assume j: "calc_loop MAX_BLOCK_CNT (int BEGINNING_SIZE) n = int (BEGINNING_SIZE * 2 ^ j)"
      "n \<le> BEGINNING_SIZE * 2 ^ j"
    have "\<not> j < ?c"
    proof
      assume "j < ?c"
      then have "(128 :: nat) * 2 ^ j \<le> 128 * 2 ^ (?c - 1)" by (intro mult_le_mono2 power_increasing) auto
      also have "\<dots> < n" using n(1) c by (simp add: largest_block_def)
      finally show False using j(2) by (simp add: BEGINNING_SIZE_def)
    qed
    moreover have "calc_block_size n = int (BEGINNING_SIZE * 2 ^ j)" using j(1) by (simp add: calc_block_size_def)
    moreover have "find_size (block_size_array s) 0 (int (BEGINNING_SIZE * 2 ^ j)) ?c = (if j < ?c then int j else -1)"
      using t by (intro find_size_table) (auto simp: tables_ok_def)
    ultimately show ?thesis unfolding find_block_file_def by simp
  qed
qed

section \<open>The operations\<close>

definition storage_inv :: "('db \<Rightarrow> bytes \<Rightarrow> bytes option) \<Rightarrow> ('db \<Rightarrow> bool) \<Rightarrow> 'db storage \<Rightarrow> bool" where
  "storage_inv view good s \<longleftrightarrow> tables_ok s \<and> files_ok s \<and> good (dbp (indexdb s)) \<and>
    index_ok (view (dbp (indexdb s))) s"

definition stored :: "('db \<Rightarrow> bytes \<Rightarrow> bytes option) \<Rightarrow> 'db storage \<Rightarrow> bytes \<Rightarrow> bytes option" where
  "stored view s = contents (view (dbp (indexdb s))) s"

lemma room_set_handler:
  assumes "room (k + n) s" and "tables_ok s" and "i < block_type_count s"
    and "slots_total fh \<le> slots_total (handler s i) + k"
  shows "room n (set_handler i fh s)"
proof -
  have l: "i < length (block_filehandler_array s)" using assms(2,3) by (simp add: tables_ok_def)
  have "DATA_SECTION_POS + block_size_array s ! j * (slots_total (handler (set_handler i fh s) j) + n) < 2 ^ 63"
    if j: "j < block_type_count s" for j
  proof -
    have "slots_total (handler (set_handler i fh s) j) + n \<le> slots_total (handler s j) + (k + n)"
      using assms(4) l by simp
    then have "DATA_SECTION_POS + block_size_array s ! j * (slots_total (handler (set_handler i fh s) j) + n) \<le>
        DATA_SECTION_POS + block_size_array s ! j * (slots_total (handler s j) + (k + n))"
      by (intro add_left_mono mult_le_mono2)
    also have "\<dots> < 2 ^ 63" using assms(1) j by (simp add: room_def)
    finally show ?thesis .
  qed
  then show ?thesis by (simp add: room_def)
qed

lemma room_mono: "room (k + n) s \<Longrightarrow> room n s"
  unfolding room_def by (meson add_left_mono le_add2 le_less_trans mult_le_mono2)

context berkeley_db
begin

abbreviation "s_inv \<equiv> storage_inv view good"
abbreviation "s_map \<equiv> stored view"

lemma append_block_ok:
  assumes inv: "s_inv s" and env: "full_env env" and i: "i < block_type_count s"
    and k: "length k = KEY_LEN" and none: "view (dbp (indexdb s)) k = None"
    and len: "length data \<le> block_size_array s ! i" and rm: "room (1 + n) s"
  shows "\<exists>s'. append_block api env i k data s = Some (0, s') \<and> s_inv s' \<and>
    s_map s' = (s_map s)(k \<mapsto> data) \<and> room n s' \<and>
    block_type_count s' = block_type_count s \<and> block_size_array s' = block_size_array s"
proof -
  let ?V = "view (dbp (indexdb s))"
  have st: "tables_ok s" "files_ok s" "index_ok ?V s" "good (dbp (indexdb s))"
    using inv by (auto simp: storage_inv_def)
  have l: "i < length (block_filehandler_array s)" using st(1) i by (simp add: tables_ok_def)
  obtain off fh where p: "placed data (handler s i) = (off, fh)" by fastforce
  have rm1: "room 1 s" using rm room_mono [of n 1 s] by (simp add: add.commute)
  note pi = placed_index [OF st(3,2,1) i len k none rm1 p]
  have ok: "file_ok (block_size_array s ! i) (handler s i)" using file_okD [OF st(2) i] .
  let ?v = "value_bytes (new_value i data off)" and ?s = "set_handler i fh s"
  let ?t = "log_index env index_append k (new_value i data off) ?s"
  obtain b where b: "insert_record api (indexdb s) k ?v = (0, b)" "good (dbp b)" "view (dbp b) = ?V(k \<mapsto> ?v)"
    using insert_record_ok [OF st(4)] by blast
  have "append_block api env i k data s = Some (0, ?t\<lparr>indexdb := b\<rparr>)"
    using i ok len k b(1) place_block_full [OF env i l] p
    by (simp add: append_block_def file_ok_def Let_def new_value_def)
  moreover have "s_inv (?t\<lparr>indexdb := b\<rparr>)"
    using pi b by (simp add: storage_inv_def)
  moreover have "s_map (?t\<lparr>indexdb := b\<rparr>) = (s_map s)(k \<mapsto> data)"
    using pi(2) b(3) by (simp add: stored_def)
  moreover have "slots_total fh \<le> slots_total (handler s i) + 1"
    using placed_off(1) [OF ok p] by auto
  then have "room n (?t\<lparr>indexdb := b\<rparr>)"
    using room_set_handler [OF rm st(1) i] by simp
  ultimately show ?thesis by simp
qed

lemma modify_block_ok:
  assumes inv: "s_inv s" and env: "full_env env" and V: "view (dbp (indexdb s)) k = Some vb"
    and len: "length data \<le> block_size_array s ! rec_block vb" and rm: "room n s"
  shows "\<exists>s'. modify_block api env (bytes_value vb) k data s = Some (0, s') \<and> s_inv s' \<and>
    s_map s' = (s_map s)(k \<mapsto> data) \<and> room n s' \<and>
    block_type_count s' = block_type_count s \<and> block_size_array s' = block_size_array s"
proof -
  let ?V = "view (dbp (indexdb s))" and ?i = "rec_block vb"
  have st: "tables_ok s" "files_ok s" "index_ok ?V s" "good (dbp (indexdb s))"
    using inv by (auto simp: storage_inv_def)
  have i: "?i < block_type_count s" "length k = KEY_LEN" using st(3) V by (auto simp: index_ok_def)
  have l: "?i < length (block_filehandler_array s)" using st(1) i by (simp add: tables_ok_def)
  let ?v = "(bytes_value vb)\<lparr>iv_crc32 := crc32_calc data, iv_data_size := word_of_nat (length data)\<rparr>"
  let ?fh = "put_data (rec_offset vb) data (handler s ?i)"
  note mi = modified_index [OF st(3,2,1) V refl len refl refl]
  have ok: "file_ok (block_size_array s ! ?i) (handler s ?i)" using file_okD [OF st(2) i(1)] .
  let ?s = "log_index env index_modify k ?v (set_handler ?i ?fh s)"
  obtain b where b: "insert_record api (indexdb s) k (value_bytes ?v) = (0, b)" "good (dbp b)"
      "view (dbp b) = ?V(k \<mapsto> value_bytes ?v)"
    using insert_record_ok [OF st(4)] by blast
  have "modify_block api env (bytes_value vb) k data s = Some (0, ?s\<lparr>indexdb := b\<rparr>)"
    using i ok len b(1) sync_data_file_full [OF env i(1) l]
    by (simp add: modify_block_def file_ok_def Let_def rec_block_def rec_offset_def)
  moreover have "s_inv (?s\<lparr>indexdb := b\<rparr>)" using mi b by (simp add: storage_inv_def)
  moreover have "s_map (?s\<lparr>indexdb := b\<rparr>) = (s_map s)(k \<mapsto> data)"
    using mi(2) b(3) by (simp add: stored_def)
  moreover have "room n (?s\<lparr>indexdb := b\<rparr>)"
    using room_set_handler [of 0 n s ?i ?fh] rm st(1) i(1) by simp
  ultimately show ?thesis by simp
qed

lemma do_delete_block_ok:
  assumes inv: "s_inv s" and env: "full_env env" and V: "view (dbp (indexdb s)) k = Some vb"
    and rm: "room n s"
  shows "\<exists>s'. do_delete_block api env (bytes_value vb) k s = Some (0, s') \<and> s_inv s' \<and>
    s_map s' = (s_map s)(k := None) \<and> room n s' \<and> view (dbp (indexdb s')) k = None \<and>
    block_type_count s' = block_type_count s \<and> block_size_array s' = block_size_array s"
proof -
  let ?V = "view (dbp (indexdb s))" and ?i = "rec_block vb"
  have st: "tables_ok s" "files_ok s" "index_ok ?V s" "good (dbp (indexdb s))"
    using inv by (auto simp: storage_inv_def)
  have i: "?i < block_type_count s" "length k = KEY_LEN" using st(3) V by (auto simp: index_ok_def)
  have l: "?i < length (block_filehandler_array s)" using st(1) i by (simp add: tables_ok_def)
  obtain b where b: "del_record api (indexdb s) k = (0, b)" "good (dbp b)" "view (dbp b) = ?V(k := None)"
    using del_record_ok [OF st(4) V] by blast
  let ?s = "(log_index env index_del k (bytes_value vb) s)\<lparr>indexdb := b\<rparr>"
  show ?thesis
  proof (cases "free_slots_cnt (handler s ?i) \<ge> MAX_FREE_SLOTS")
    case True
    then have "do_delete_block api env (bytes_value vb) k s = Some (0, ?s)"
      using i b(1) by (simp add: do_delete_block_def Let_def rec_block_def)
    moreover have "index_ok (?V(k := None)) s" "contents (?V(k := None)) s = (contents ?V s)(k := None)"
      using st(3) by (auto simp: index_ok_def contents_def fun_eq_iff split: if_splits)
    ultimately show ?thesis
      using st b rm by (intro exI [where x = ?s]) (simp add: storage_inv_def stored_def)
  next
    case False
    let ?fh = "freed (iv_offset (bytes_value vb)) (handler s ?i)"
    note fi = freed_index [OF st(3,2,1) V refl _ refl]
    have "rec_at (handler s ?i) (bytes_value vb)" using st(3) V by (auto simp: index_ok_def)
    then have pos: "0 < block_cnt (handler s ?i)"
      using slot_not_free_counted [OF file_okD [OF st(2) i(1)]] by (auto simp: rec_at_def Let_def)
    have "do_delete_block api env (bytes_value vb) k s = Some (0, set_handler ?i ?fh ?s)"
      using False i l b(1) env pos
      by (simp add: do_delete_block_def Let_def rec_block_def sync_header_full sync_data_file_full
          freed_def put_header_def dec_size_def)
    moreover have "set_handler ?i ?fh ?s = (log_index env index_del k (bytes_value vb) (set_handler ?i ?fh s))\<lparr>indexdb := b\<rparr>"
      by (simp add: set_handler_def log_index_def)
    moreover have "room n (set_handler ?i ?fh s)"
      using room_set_handler [of 0 n s ?i ?fh] rm st(1) i(1) fi(5) False by simp
    ultimately show ?thesis
      using fi False b by (simp add: storage_inv_def stored_def)
  qed
qed

lemma update_block_ok:
  assumes inv: "s_inv s" and env: "full_env env" and len: "length data \<le> largest_block s" and rm: "room (1 + n) s"
  shows "\<exists>s'. update_block api env key data s = Some (0, s') \<and> s_inv s' \<and>
    s_map s' = (s_map s)(fixed_key key \<mapsto> data) \<and> room n s' \<and>
    block_type_count s' = block_type_count s \<and> block_size_array s' = block_size_array s"
proof -
  let ?V = "view (dbp (indexdb s))" and ?k = "fixed_key key"
  have st: "tables_ok s" "index_ok ?V s" "good (dbp (indexdb s))" "e_mem env"
    using inv env by (auto simp: storage_inv_def full_env_def)
  obtain j where j: "find_block_file (calc_block_size (length data)) s = int j" "j < block_type_count s"
      "length data \<le> block_size_array s ! j"
    using size_class [OF st(1) len] by blast
  have same: "find_block_file x t = find_block_file x s"
    if "block_type_count t = block_type_count s" "block_size_array t = block_size_array s"
    for t :: "'a storage" and x
    using that by (simp add: find_block_file_def)
  show ?thesis
  proof (cases "?V ?k")
    case None
    obtain s' where "append_block api env j ?k data s = Some (0, s')" "s_inv s'"
        "s_map s' = (s_map s)(?k \<mapsto> data)" "room n s'"
        "block_type_count s' = block_type_count s" "block_size_array s' = block_size_array s"
      using append_block_ok [OF inv env j(2) _ None j(3) rm] by auto
    then show ?thesis
      using find_record_missing [OF st(3) None] notfound_code j(1) st(4)
      by (simp add: update_block_def size_of_int_def Let_def)
  next
    case (Some vb)
    have f: "find_record api True (indexdb s) ?k sizeof_value = (0, Some vb, indexdb s)"
      using find_record_found [OF st(3) Some] st(2) Some by (auto simp: index_ok_def sizeof_value_def)
    show ?thesis
    proof (cases "length data \<le> block_size_array s ! rec_block vb")
      case True
      have "room n s" using rm by (rule room_mono)
      then obtain s' where "modify_block api env (bytes_value vb) ?k data s = Some (0, s')" "s_inv s'"
        "s_map s' = (s_map s)(?k \<mapsto> data)" "room n s'"
        "block_type_count s' = block_type_count s" "block_size_array s' = block_size_array s"
        using modify_block_ok [OF inv env Some True] by blast
      then show ?thesis using f True st(4) by (simp add: update_block_def rec_block_def Let_def)
    next
      case False
      obtain t where t: "do_delete_block api env (bytes_value vb) ?k s = Some (0, t)" "s_inv t"
          "s_map t = (s_map s)(?k := None)" "room (1 + n) t" "view (dbp (indexdb t)) ?k = None"
          "block_type_count t = block_type_count s" "block_size_array t = block_size_array s"
        using do_delete_block_ok [OF inv env Some rm] by blast
      obtain s' where "append_block api env j ?k data t = Some (0, s')" "s_inv s'"
          "s_map s' = (s_map t)(?k \<mapsto> data)" "room n s'"
          "block_type_count s' = block_type_count t" "block_size_array s' = block_size_array t"
        using append_block_ok [OF t(2) env _ _ t(5) _ t(4), of j data] j t(6,7) by auto
      then show ?thesis
        using f False st(4) t j(1) same [OF t(6,7)]
        by (simp add: update_block_def rec_block_def Let_def size_of_int_def)
    qed
  qed
qed

lemma find_block_ok:
  assumes inv: "s_inv s" and mem: "e_mem env" "e_vmem env"
  shows "find_block api env key s =
    (case s_map s (fixed_key key) of
      None \<Rightarrow> (DB_NOTFOUND api, None, 0, s)
    | Some data \<Rightarrow> (0, Some data, length data, s))"
proof -
  let ?V = "view (dbp (indexdb s))" and ?k = "fixed_key key"
  have st: "index_ok ?V s" "good (dbp (indexdb s))" using inv by (auto simp: storage_inv_def)
  show ?thesis
  proof (cases "?V ?k")
    case None
    then show ?thesis
      using find_record_missing [OF st(2) None] mem notfound_code
      by (simp add: find_block_def stored_def contents_def)
  next
    case (Some vb)
    have r: "length vb = 24" "rec_at (handler s (rec_block vb)) (bytes_value vb)"
      using st(1) Some by (auto simp: index_ok_def)
    have "find_record api True (indexdb s) ?k sizeof_value = (0, Some vb, indexdb s)"
      using find_record_found [OF st(2) Some] r(1) by (simp add: sizeof_value_def)
    moreover have "length (rec_data s vb) = unat (iv_data_size (bytes_value vb))"
      using r(2) length_pread by (auto simp: rec_at_def Let_def rec_data_def rec_offset_def)
    ultimately show ?thesis
      using Some mem
      by (simp add: find_block_def stored_def contents_def rec_data_def rec_block_def rec_offset_def Let_def)
  qed
qed

lemma delete_block_ok:
  assumes inv: "s_inv s" and env: "full_env env" and rm: "room n s"
  shows "\<exists>s'. delete_block api env key s =
      Some (if s_map s (fixed_key key) = None then DB_NOTFOUND api else 0, s') \<and> s_inv s' \<and>
    s_map s' = (s_map s)(fixed_key key := None) \<and> room n s' \<and>
    block_type_count s' = block_type_count s \<and> block_size_array s' = block_size_array s"
proof -
  let ?V = "view (dbp (indexdb s))" and ?k = "fixed_key key"
  have st: "index_ok ?V s" "good (dbp (indexdb s))" "e_mem env"
    using inv env by (auto simp: storage_inv_def full_env_def)
  show ?thesis
  proof (cases "?V ?k")
    case None
    then have none: "s_map s ?k = None" by (simp add: stored_def contents_def)
    then have "s_map s = (s_map s)(?k := None)" by (simp add: fun_upd_idem)
    then show ?thesis
      using find_record_missing [OF st(2) None] st(3) notfound_code inv rm none
      by (simp add: delete_block_def Let_def)
  next
    case (Some vb)
    have "find_record api True (indexdb s) ?k sizeof_value = (0, Some vb, indexdb s)"
      using find_record_found [OF st(2) Some] st(1) Some by (auto simp: index_ok_def sizeof_value_def)
    moreover obtain s' where "do_delete_block api env (bytes_value vb) ?k s = Some (0, s')" "s_inv s'"
        "s_map s' = (s_map s)(?k := None)" "room n s'"
        "block_type_count s' = block_type_count s" "block_size_array s' = block_size_array s"
      using do_delete_block_ok [OF inv env Some rm] by blast
    moreover have "s_map s ?k \<noteq> None" using Some by (simp add: stored_def contents_def)
    ultimately show ?thesis using st(3) by (auto simp: delete_block_def Let_def)
  qed
qed

end

section \<open>The interface: a map from keys to values\<close>

datatype store_op = SetOp bytes bytes | GetOp bytes | DelOp bytes

type_synonym 's block_ops =
  "(bytes \<Rightarrow> bytes \<Rightarrow> 's \<Rightarrow> (int \<times> 's) option) \<times> (bytes \<Rightarrow> 's \<Rightarrow> int \<times> bytes option \<times> nat \<times> 's) \<times>
   (bytes \<Rightarrow> 's \<Rightarrow> (int \<times> 's) option)"

text \<open>The answers of a sequence of calls: each return code, and the value a lookup returns.\<close>

fun store_run :: "'s block_ops \<Rightarrow> store_op list \<Rightarrow> 's \<Rightarrow> ((int \<times> bytes option) list \<times> 's) option" where
  "store_run ops [] s = Some ([], s)"
| "store_run ops (SetOp k d # os) s =
    (case fst ops k d s of None \<Rightarrow> None
     | Some (r, s) \<Rightarrow> map_option (\<lambda>(rs, s). ((r, None) # rs, s)) (store_run ops os s))"
| "store_run ops (GetOp k # os) s =
    (case fst (snd ops) k s of
       (r, d, n, s) \<Rightarrow> map_option (\<lambda>(rs, s). ((r, map_option (take n) d) # rs, s)) (store_run ops os s))"
| "store_run ops (DelOp k # os) s =
    (case snd (snd ops) k s of None \<Rightarrow> None
     | Some (r, s) \<Rightarrow> map_option (\<lambda>(rs, s). ((r, None) # rs, s)) (store_run ops os s))"

text \<open>The answers a map gives.\<close>

fun map_run :: "int \<Rightarrow> (bytes \<Rightarrow> bytes) \<Rightarrow> store_op list \<Rightarrow> (bytes \<Rightarrow> bytes option) \<Rightarrow>
  (int \<times> bytes option) list \<times> (bytes \<Rightarrow> bytes option)" where
  "map_run nf norm [] m = ([], m)"
| "map_run nf norm (SetOp k d # os) m =
    (case map_run nf norm os (m(norm k \<mapsto> d)) of (rs, m) \<Rightarrow> ((0, None) # rs, m))"
| "map_run nf norm (GetOp k # os) m =
    (case map_run nf norm os m of
       (rs, m') \<Rightarrow> ((if m (norm k) = None then nf else 0, m (norm k)) # rs, m'))"
| "map_run nf norm (DelOp k # os) m =
    (case map_run nf norm os (m(norm k := None)) of
       (rs, m') \<Rightarrow> ((if m (norm k) = None then nf else 0, None) # rs, m'))"

fun op_fits :: "nat \<Rightarrow> store_op \<Rightarrow> bool" where
  "op_fits limit (SetOp k d) = (length d \<le> limit)"
| "op_fits limit _ = True"

locale block_store =
  fixes inv :: "nat \<Rightarrow> 's \<Rightarrow> bool" and stored_map :: "'s \<Rightarrow> bytes \<Rightarrow> bytes option"
    and update :: "bytes \<Rightarrow> bytes \<Rightarrow> 's \<Rightarrow> (int \<times> 's) option"
    and lookup :: "bytes \<Rightarrow> 's \<Rightarrow> int \<times> bytes option \<times> nat \<times> 's"
    and delete :: "bytes \<Rightarrow> 's \<Rightarrow> (int \<times> 's) option"
    and norm :: "bytes \<Rightarrow> bytes" and limit :: nat and nf :: int
  assumes update_law: "inv (Suc n) s \<Longrightarrow> length d \<le> limit \<Longrightarrow>
      \<exists>s'. update k d s = Some (0, s') \<and> inv n s' \<and> stored_map s' = (stored_map s)(norm k \<mapsto> d)"
    and lookup_law: "inv n s \<Longrightarrow> lookup k s =
      (case stored_map s (norm k) of None \<Rightarrow> (nf, None, 0, s) | Some d \<Rightarrow> (0, Some d, length d, s))"
    and delete_law: "inv n s \<Longrightarrow>
      \<exists>s'. delete k s = Some (if stored_map s (norm k) = None then nf else 0, s') \<and> inv n s' \<and>
        stored_map s' = (stored_map s)(norm k := None)"
    and inv_less: "inv (Suc n) s \<Longrightarrow> inv n s"
begin

lemma run_refines_more:
  assumes "inv (length os + m) s" and "list_all (op_fits limit) os"
  shows "\<exists>s'. store_run (update, lookup, delete) os s = Some (fst (map_run nf norm os (stored_map s)), s') \<and>
    stored_map s' = snd (map_run nf norm os (stored_map s)) \<and> inv m s'"
  using assms
proof (induction os arbitrary: s)
  case (Cons op os)
  show ?case
  proof (cases op)
    case (SetOp k d)
    then obtain s' where s': "update k d s = Some (0, s')" "inv (length os + m) s'"
        "stored_map s' = (stored_map s)(norm k \<mapsto> d)"
      using update_law [of "length os + m" s d k] Cons.prems by auto
    then show ?thesis using Cons.IH [OF s'(2)] Cons.prems(2) SetOp by (auto simp: fun_upd_def split: prod.split)
  next
    case (GetOp k)
    have "inv (length os + m) s" using inv_less Cons.prems(1) by simp
    then show ?thesis
      using Cons.IH [of s] Cons.prems(2) GetOp lookup_law [of "length os + m" s k]
      by (auto split: prod.split option.split)
  next
    case (DelOp k)
    have "inv (length os + m) s" using inv_less Cons.prems(1) by simp
    then obtain s' where s': "delete k s = Some (if stored_map s (norm k) = None then nf else 0, s')"
        "inv (length os + m) s'" "stored_map s' = (stored_map s)(norm k := None)"
      using delete_law [of "length os + m" s k] by auto
    then show ?thesis using Cons.IH [OF s'(2)] Cons.prems(2) DelOp by (auto simp: fun_upd_def split: prod.split)
  qed
qed simp

lemmas run_refines = run_refines_more [where m = 0, simplified add_0_right]

end

text \<open>The block store over a healthy database and a healthy system.\<close>

locale block_setup = berkeley_db +
  fixes env :: sys_env and top :: nat
  assumes healthy: "full_env env"

sublocale block_setup \<subseteq> store: block_store
  "\<lambda>n s. storage_inv view good s \<and> room n s \<and> largest_block s = top" "stored view"
  "update_block api env" "find_block api env" "delete_block api env" fixed_key top "DB_NOTFOUND api"
proof
  fix n s d k
  have mem: "e_mem env" "e_vmem env" using healthy by (simp_all add: full_env_def)
  show "\<exists>s'. update_block api env k d s = Some (0, s') \<and>
      (s_inv s' \<and> room n s' \<and> largest_block s' = top) \<and> stored view s' = (stored view s)(fixed_key k \<mapsto> d)"
    if "s_inv s \<and> room (Suc n) s \<and> largest_block s = top" "length d \<le> top"
    using update_block_ok [of s env d n k] that healthy by (auto simp: largest_block_def)
  show "find_block api env k s = (case stored view s (fixed_key k) of
      None \<Rightarrow> (DB_NOTFOUND api, None, 0, s) | Some d \<Rightarrow> (0, Some d, length d, s))"
    if "s_inv s \<and> room n s \<and> largest_block s = top"
    using find_block_ok [OF _ mem] that by blast
  show "\<exists>s'. delete_block api env k s =
        Some (if stored view s (fixed_key k) = None then DB_NOTFOUND api else 0, s') \<and>
      (s_inv s' \<and> room n s' \<and> largest_block s' = top) \<and>
      stored view s' = (stored view s)(fixed_key k := None)"
    if "s_inv s \<and> room n s \<and> largest_block s = top"
    using delete_block_ok [of s env n k] that healthy by (auto simp: largest_block_def)
  show "s_inv s \<and> room n s \<and> largest_block s = top" if "s_inv s \<and> room (Suc n) s \<and> largest_block s = top"
    using that room_mono [of 1 n s] by simp
qed

context block_setup
begin

lemmas run_ok = store.run_refines
lemmas run_more = store.run_refines_more

end

definition good_env :: sys_env where
  "good_env = \<lparr>e_write = (\<lambda>n. n), e_pwrite = (\<lambda>n. n), e_mem = True, e_vmem = True\<rparr>"

interpretation mem_store: block_setup mem_db map_of "\<lambda>d. True" good_env top for top
  by unfold_locales (simp add: full_env_def good_env_def)

end
