(* ===== verification/Storage_Lifecycle.thy ===== *)
theory Storage_Lifecycle
  imports Storage_Correct
begin

text \<open>
  Opening, closing and reopening the block store of theory \<open>Storage\<close>: a fresh directory gives an
  empty store, the files on disk always hold enough to open the store again, and the
  properties of the whole store over sequences of calls and restarts.
\<close>

section \<open>The table of block sizes\<close>

lemma init_sizes_result:
  assumes "i \<le> c" and "c \<le> MAX_BLOCK_CNT" and "\<forall>j<c. BEGINNING_SIZE * 2 ^ j \<le> l" and "l < BEGINNING_SIZE * 2 ^ c"
    and "length xs = MAX_BLOCK_CNT" and "\<forall>j<i. xs ! j = BEGINNING_SIZE * 2 ^ j"
  shows "\<exists>ys. init_sizes i (BEGINNING_SIZE * 2 ^ i) l xs i = (0, ys, c) \<and> length ys = MAX_BLOCK_CNT \<and>
    (\<forall>j<c. ys ! j = BEGINNING_SIZE * 2 ^ j)"
  using assms
proof (induction "c - i" arbitrary: i xs)
  case 0
  then have "i = c" by simp
  then show ?case using 0 by (simp add: init_sizes.simps [of c])
next
  case (Suc n)
  then have i: "i < c" "i < MAX_BLOCK_CNT" by auto
  let ?xs = "xs[i := BEGINNING_SIZE * 2 ^ i]"
  have "\<forall>j<i + 1. ?xs ! j = BEGINNING_SIZE * 2 ^ j"
    using Suc.prems(5,6) i by (auto simp: nth_list_update less_Suc_eq)
  then have "\<exists>ys. init_sizes (i + 1) (BEGINNING_SIZE * 2 ^ (i + 1)) l ?xs (i + 1) = (0, ys, c) \<and>
      length ys = MAX_BLOCK_CNT \<and> (\<forall>j<c. ys ! j = BEGINNING_SIZE * 2 ^ j)"
    using Suc.hyps(2) Suc.prems i by (intro Suc.hyps(1)) auto
  moreover have "init_sizes i (BEGINNING_SIZE * 2 ^ i) l xs i =
      init_sizes (i + 1) (BEGINNING_SIZE * 2 ^ (i + 1)) l ?xs (i + 1)"
    using Suc.prems(3) i by (subst init_sizes.simps) (simp add: mult_ac)
  ultimately show ?case by simp
qed

text \<open>The sizes asked for and the sizes there are: \<open>c\<close> classes reach up to \<open>l\<close>.\<close>

definition classes_for :: "nat \<Rightarrow> nat \<Rightarrow> bool" where
  "classes_for l c \<longleftrightarrow> 1 \<le> c \<and> c \<le> MAX_BLOCK_CNT \<and> BEGINNING_SIZE * 2 ^ (c - 1) \<le> l \<and> l < BEGINNING_SIZE * 2 ^ c"

lemma init_storage_result:
  assumes c: "classes_for l c"
  obtains ys where "init_storage l s = (0, s\<lparr>block_type_count := c, block_size_array := ys,
      block_filehandler_array := replicate MAX_BLOCK_CNT closed_file\<rparr>)"
    "length ys = MAX_BLOCK_CNT" "\<forall>j<c. ys ! j = BEGINNING_SIZE * 2 ^ j"
proof -
  have "\<forall>j<c. BEGINNING_SIZE * 2 ^ j \<le> l"
  proof (intro allI impI)
    fix j assume "j < c"
    then have "BEGINNING_SIZE * 2 ^ j \<le> BEGINNING_SIZE * 2 ^ (c - 1)"
      by (intro mult_le_mono2 power_increasing) auto
    also have "\<dots> \<le> l" using c by (simp add: classes_for_def)
    finally show "BEGINNING_SIZE * 2 ^ j \<le> l" .
  qed
  then have "\<exists>ys. init_sizes 0 (BEGINNING_SIZE * 2 ^ 0) l (replicate MAX_BLOCK_CNT 0) 0 = (0, ys, c) \<and>
      length ys = MAX_BLOCK_CNT \<and> (\<forall>j<c. ys ! j = BEGINNING_SIZE * 2 ^ j)"
    using c by (intro init_sizes_result) (auto simp: classes_for_def)
  then obtain ys where ys: "init_sizes 0 BEGINNING_SIZE l (replicate MAX_BLOCK_CNT 0) 0 = (0, ys, c)"
      "length ys = MAX_BLOCK_CNT" "\<forall>j<c. ys ! j = BEGINNING_SIZE * 2 ^ j"
    by auto
  have "BEGINNING_SIZE * 1 \<le> BEGINNING_SIZE * 2 ^ (c - 1)" by (intro mult_le_mono2) simp
  also have "\<dots> \<le> l" using c by (simp add: classes_for_def)
  finally have "\<not> l < BEGINNING_SIZE" by simp
  then show ?thesis using ys that [of ys] by (simp add: init_storage_def Let_def)
qed

section \<open>Creating and loading a data file\<close>

lemma length_slots_bytes [simp]: "length (slots_bytes fh) = 8 * MAX_FREE_SLOTS"
  by (simp add: slots_bytes_def length_concat comp_def sum_list_triv)

lemma header_and_slots: "SLOTS_SECTION_POS + 8 * MAX_FREE_SLOTS = DATA_SECTION_POS"
  by (simp add: DATA_SECTION_POS_def)

text \<open>Two handles on the same file with the same free slots.\<close>

definition same_file :: "block_file_t \<Rightarrow> block_file_t \<Rightarrow> bool" where
  "same_file fh fh' \<longleftrightarrow> data_file fh' = data_file fh \<and> block_size fh' = block_size fh \<and>
    block_cnt fh' = block_cnt fh \<and> free_slots_cnt fh' = free_slots_cnt fh \<and>
    (\<forall>p < free_slots_cnt fh. free_slots_offset fh' p = free_slots_offset fh p)"

lemma same_file_simps:
  assumes "same_file fh fh'"
  shows "slot_at fh' = slot_at fh" "free_at fh' = free_at fh" "slots_total fh' = slots_total fh"
    "rec_at fh' = rec_at fh" "data_file fh' = data_file fh"
proof -
  show *: "slot_at fh' = slot_at fh" "free_at fh' = free_at fh" "slots_total fh' = slots_total fh"
    "data_file fh' = data_file fh"
    using assms by (auto simp: same_file_def slot_at_def free_at_def slots_total_def fun_eq_iff)
  show "rec_at fh' = rec_at fh"
    using assms * by (simp add: rec_at_def readable_def same_file_def fun_eq_iff)
qed

lemma same_file_ok:
  assumes "same_file fh fh'" and "file_ok bs fh" and "0 < fd fh'"
  shows "file_ok bs fh'"
proof -
  have "inj_on (free_slots_offset fh') {..<free_slots_cnt fh}"
    using assms(1,2) by (auto simp: same_file_def file_ok_def inj_on_def)
  moreover have "on_disk fh'"
    using assms(1,2) by (auto simp: same_file_def file_ok_def on_disk_def header_bytes_def)
  ultimately show ?thesis
    using assms same_file_simps [OF assms(1)] by (auto simp: file_ok_def same_file_def)
qed

lemma take_drop_pread:
  "off + n \<le> m \<Longrightarrow> m \<le> f_size f \<Longrightarrow> take n (drop off (pread f m 0)) = pread f n off"
  by (rule nth_equalityI) (auto simp: pread_def)

lemma create_fresh:
  assumes env: "full_env env" and i: "i < length (block_filehandler_array s)" "0 < newfd"
    and bs: "block_size_array s ! i = bs" "0 < bs" "bs < 2 ^ 62"
  obtains fh where "create_data_file env newfd True i s = (0, set_handler i fh s)"
    "file_ok bs fh" "slots_total fh = 0"
proof -
  let ?g = "(handler s i)\<lparr>fd := newfd, block_size := bs, block_cnt := 0, free_slots_cnt := 0\<rparr>"
  let ?b = "header_bytes ?g @ slots_bytes ?g"
  let ?f = "\<lparr>f_bytes = write_bytes 0 ?b (\<lambda>_. 0), f_size = DATA_SECTION_POS\<rparr>"
  let ?fh = "?g\<lparr>data_file := ?f\<rparr>"
  have len: "length ?b = DATA_SECTION_POS" by (simp add: header_and_slots)
  have ne: "header_bytes h \<noteq> []" for h
    using length_header_bytes [of h] by (auto simp: storage_consts simp del: length_header_bytes)
  have "pwrite (e_write env) ?b 0 \<lparr>f_bytes = \<lambda>_. 0, f_size = 0\<rparr> = (DATA_SECTION_POS, ?f)"
    using pwrite_full [OF _ len] env ne by (simp add: full_env_def)
  then have "create_data_file env newfd True i s = (0, set_handler i ?fh s)"
    using len bs(1) by (simp add: create_data_file_def Let_def del: length_append)
  moreover have "pread ?f SLOTS_SECTION_POS 0 = header_bytes ?fh"
    by (rule nth_equalityI)
      (auto simp: pread_def write_bytes_def nth_append header_bytes_def storage_consts)
  then have "file_ok bs ?fh"
    using i bs by (simp add: file_ok_def slots_total_def on_disk_def DATA_SECTION_POS_def
        SLOTS_SECTION_POS_def MAX_FREE_SLOTS_def)
  ultimately show ?thesis using that [of ?fh] by (simp add: slots_total_def)
qed

lemma load_back:
  assumes ok: "file_ok bs fh" "bs < 2 ^ 62" and i: "i < length (block_filehandler_array s)" "i < block_type_count s" "0 < newfd"
  obtains fh' where "load_data_file newfd (Some (data_file fh)) i s = Some (0, set_handler i fh' s)"
    "same_file fh fh'" "fd fh' = newfd"
proof -
  let ?f = "data_file fh" and ?D = DATA_SECTION_POS
  let ?bs = "pread ?f ?D 0"
  have sz: "?D \<le> f_size ?f" "free_slots_cnt fh \<le> MAX_FREE_SLOTS" "block_size fh = bs" "on_disk fh"
    using ok by (auto simp: file_ok_def)
  have "1 * slots_total fh \<le> bs * slots_total fh" using ok by (intro mult_le_mono1) (simp add: file_ok_def)
  also have "\<dots> < 2 ^ 63" using ok by (simp add: file_ok_def)
  finally have cnt: "block_cnt fh < 2 ^ 64" "free_slots_cnt fh < 2 ^ 64" by (simp_all add: slots_total_def)
  have h: "take 8 (drop off ?bs) = take 8 (drop off (header_bytes fh))" if "off \<le> 16" for off
  proof -
    have "take 24 ?bs = header_bytes fh"
      using take_drop_pread [of 0 24 ?D ?f] sz(1,4) by (simp add: on_disk_def storage_consts)
    moreover have "take 8 (drop off ?bs) = take 8 (drop off (take 24 ?bs))"
      using that by (simp add: take_drop min_def)
    ultimately show ?thesis by simp
  qed
  have "le_nat (take 8 (drop 0 (header_bytes fh))) = bs" "le_nat (take 8 (drop 8 (header_bytes fh))) = block_cnt fh"
      "le_nat (take 8 (drop 16 (header_bytes fh))) = free_slots_cnt fh"
    using sz(3) ok(2) cnt by (simp_all add: header_bytes_def)
  then have hd: "le_nat (take 8 (drop 0 ?bs)) = bs" "le_nat (take 8 (drop 8 ?bs)) = block_cnt fh"
      "le_nat (take 8 (drop 16 ?bs)) = free_slots_cnt fh"
    by (simp_all only: h)
  have sl: "bytes_u64 (take 8 (drop (SLOTS_SECTION_POS + 8 * p) ?bs)) = free_slots_offset fh p"
    if p: "p < free_slots_cnt fh" for p
  proof -
    have "SLOTS_SECTION_POS + 8 * p + 8 \<le> ?D" using p sz(2) by (simp add: DATA_SECTION_POS_def)
    then have "take 8 (drop (SLOTS_SECTION_POS + 8 * p) ?bs) = u64_bytes (free_slots_offset fh p)"
      using take_drop_pread sz(1,4) p unfolding on_disk_def by metis
    then show ?thesis by simp
  qed
  have len: "length ?bs = ?D" using sz(1) by (simp add: pread_def)
  let ?fh = "(handler s i)\<lparr>fd := newfd, data_file := ?f, block_size := bs, block_cnt := block_cnt fh,
    free_slots_cnt := free_slots_cnt fh,
    free_slots_offset := (\<lambda>p. bytes_u64 (take 8 (drop (SLOTS_SECTION_POS + 8 * p) ?bs)))\<rparr>"
  have "load_data_file newfd (Some ?f) i s = Some (0, set_handler i ?fh s)"
    using i len header_and_slots by (simp add: load_data_file_def read_data_file_def Let_def hd(2,3) hd(1) [simplified])
  then show ?thesis using that [of ?fh] sl sz(3) by (simp add: same_file_def)
qed

section \<open>Opening all data files\<close>

text \<open>A handle opened on a missing file (\<open>None\<close>) or on the file of another handle.\<close>

definition opened :: "nat \<Rightarrow> block_file_t option \<Rightarrow> block_file_t \<Rightarrow> bool" where
  "opened bs old fh \<longleftrightarrow> file_ok bs fh \<and>
    (case old of None \<Rightarrow> slots_total fh = 0 | Some g \<Rightarrow> same_file g fh)"

text \<open>The files of the directory are missing or well-formed, and their block sizes sensible.\<close>

definition openable :: "(nat \<Rightarrow> block_file_t option) \<Rightarrow> (nat \<Rightarrow> int) \<Rightarrow> 'db storage \<Rightarrow> nat \<Rightarrow> bool" where
  "openable old newfd s i \<longleftrightarrow> i < block_type_count s \<and> i < length (block_filehandler_array s) \<and>
    0 < newfd i \<and> 0 < block_size_array s ! i \<and> block_size_array s ! i < 2 ^ 62 \<and>
    (\<forall>g. old i = Some g \<longrightarrow> file_ok (block_size_array s ! i) g)"

definition same_tables :: "'db storage \<Rightarrow> 'db storage \<Rightarrow> bool" where
  "same_tables s s' \<longleftrightarrow> block_size_array s' = block_size_array s \<and> block_type_count s' = block_type_count s \<and>
    length (block_filehandler_array s') = length (block_filehandler_array s) \<and>
    inited_global_vars s' = inited_global_vars s \<and> indexdb s' = indexdb s \<and> index_logger s' = index_logger s"

lemma same_tables_openable: "same_tables s s' \<Longrightarrow> openable old newfd s' i = openable old newfd s i"
  by (simp add: same_tables_def openable_def)

lemma open_one:
  assumes env: "full_env env" and o: "openable old newfd s i"
    and d: "dir (block_size_array s ! i) = map_option data_file (old i)"
  obtains fh where "opened (block_size_array s ! i) (old i) fh"
    "open_files env newfd True dir (i # is) s = open_files env newfd True dir is (set_handler i fh s)"
proof (cases "old i")
  case None
  have i: "i < length (block_filehandler_array s)" "0 < newfd i" "0 < block_size_array s ! i"
      "block_size_array s ! i < 2 ^ 62"
    using o by (auto simp: openable_def)
  obtain fh where fh: "create_data_file env (newfd i) True i s = (0, set_handler i fh s)"
      "file_ok (block_size_array s ! i) fh" "slots_total fh = 0"
    using create_fresh [OF env i(1,2) refl i(3,4)] by blast
  then show ?thesis using that [of fh] d None by (simp add: opened_def)
next
  case (Some g)
  have g: "file_ok (block_size_array s ! i) g" "0 < newfd i" "block_size_array s ! i < 2 ^ 62"
      "i < length (block_filehandler_array s)" "i < block_type_count s"
    using o Some by (auto simp: openable_def)
  obtain fh where fh: "load_data_file (newfd i) (Some (data_file g)) i s = Some (0, set_handler i fh s)"
      "same_file g fh" "fd fh = newfd i"
    using load_back [OF g(1,3,4,5,2)] by blast
  then have "file_ok (block_size_array s ! i) fh" using same_file_ok [OF fh(2) g(1)] g(2) by simp
  then show ?thesis using that [of fh] d fh Some by (simp add: opened_def)
qed

lemma open_files_ok:
  assumes env: "full_env env" and "\<forall>i\<in>set is. openable old newfd s i" and "distinct is"
    and "\<forall>i\<in>set is. dir (block_size_array s ! i) = map_option data_file (old i)"
  shows "\<exists>s'. open_files env newfd True dir is s = Some (0, s') \<and> same_tables s s' \<and>
    (\<forall>j. j \<notin> set is \<longrightarrow> handler s' j = handler s j) \<and>
    (\<forall>i\<in>set is. opened (block_size_array s ! i) (old i) (handler s' i))"
  using assms(2-)
proof (induction "is" arbitrary: s)
  case Nil
  then show ?case by (simp add: same_tables_def)
next
  case (Cons i "is")
  then have o: "openable old newfd s i" by simp
  obtain fh where fh: "opened (block_size_array s ! i) (old i) fh"
      "open_files env newfd True dir (i # is) s = open_files env newfd True dir is (set_handler i fh s)"
    using open_one [OF env o, of dir "is"] Cons.prems(3) by auto
  let ?s = "set_handler i fh s"
  have t: "same_tables s ?s" by (simp add: same_tables_def)
  have h: "handler ?s j = (if j = i then fh else handler s j)" for j
    using o by (simp add: openable_def)
  have "\<exists>s'. open_files env newfd True dir is ?s = Some (0, s') \<and> same_tables ?s s' \<and>
    (\<forall>j. j \<notin> set is \<longrightarrow> handler s' j = handler ?s j) \<and>
    (\<forall>i\<in>set is. opened (block_size_array ?s ! i) (old i) (handler s' i))"
    using Cons.prems same_tables_openable [OF t] by (intro Cons.IH) auto
  then obtain s' where s': "open_files env newfd True dir is ?s = Some (0, s')" "same_tables ?s s'"
      "\<forall>j. j \<notin> set is \<longrightarrow> handler s' j = handler ?s j"
      "\<forall>i\<in>set is. opened (block_size_array s ! i) (old i) (handler s' i)"
    by auto
  have "opened (block_size_array s ! i) (old i) (handler s' i)"
    using s'(3) Cons.prems(2) h fh(1) by simp
  then show ?case
    using s' fh(2) t h by (intro exI [where x = s']) (auto simp: same_tables_def)
qed

section \<open>Opening the store\<close>

text \<open>The index database and the journal were opened.\<close>

lemma open_storage_ok:
  assumes env: "full_env env" and c: "classes_for l c" and new: "\<not> inited_global_vars s" "\<forall>i. 0 < newfd i"
    and old: "\<forall>i<c. dir (BEGINNING_SIZE * 2 ^ i) = map_option data_file (old i)"
      "\<forall>i<c. \<forall>g. old i = Some g \<longrightarrow> file_ok (BEGINNING_SIZE * 2 ^ i) g"
    and b: "error_no b = 0"
  shows "\<exists>s'. open_storage env True newfd True dir (Inr b) (Some (Some il)) l s = Some (0, s', True) \<and>
    tables_ok s' \<and> files_ok s' \<and> block_type_count s' = c \<and> indexdb s' = b \<and> index_logger s' = il \<and>
    inited_global_vars s' \<and> (\<forall>i<c. opened (BEGINNING_SIZE * 2 ^ i) (old i) (handler s' i))"
proof -
  obtain ys where ys: "init_storage l (s\<lparr>inited_global_vars := True\<rparr>) =
        (0, s\<lparr>inited_global_vars := True, block_type_count := c, block_size_array := ys,
          block_filehandler_array := replicate MAX_BLOCK_CNT closed_file\<rparr>)"
      "length ys = MAX_BLOCK_CNT" "\<forall>j<c. ys ! j = BEGINNING_SIZE * 2 ^ j"
    using init_storage_result [OF c, of "s\<lparr>inited_global_vars := True\<rparr>"] by auto
  let ?s = "s\<lparr>inited_global_vars := True, block_type_count := c, block_size_array := ys,
          block_filehandler_array := replicate MAX_BLOCK_CNT closed_file\<rparr>"
  have cl: "1 \<le> c" "c \<le> MAX_BLOCK_CNT" using c by (auto simp: classes_for_def)
  have bs: "0 < BEGINNING_SIZE * 2 ^ i" "BEGINNING_SIZE * 2 ^ i < 2 ^ 62" if "i < c" for i
  proof -
    have "i \<le> 19" using that cl(2) by (simp add: MAX_BLOCK_CNT_def)
    then have "BEGINNING_SIZE * 2 ^ i \<le> BEGINNING_SIZE * 2 ^ 19" by (intro mult_le_mono2 power_increasing) auto
    then show "0 < BEGINNING_SIZE * 2 ^ i" "BEGINNING_SIZE * 2 ^ i < 2 ^ 62" by (auto simp: BEGINNING_SIZE_def)
  qed
  have "\<exists>s'. open_files env newfd True dir [0..<c] ?s = Some (0, s') \<and> same_tables ?s s' \<and>
      (\<forall>j. j \<notin> set [0..<c] \<longrightarrow> handler s' j = handler ?s j) \<and>
      (\<forall>i\<in>set [0..<c]. opened (block_size_array ?s ! i) (old i) (handler s' i))"
    using ys(3) cl(2) bs new(2) old by (intro open_files_ok [OF env]) (auto simp: openable_def)
  then obtain s' where s': "open_files env newfd True dir [0..<c] ?s = Some (0, s')" "same_tables ?s s'"
      "\<forall>i<c. opened (BEGINNING_SIZE * 2 ^ i) (old i) (handler s' i)"
    using ys(3) by auto
  let ?t = "s'\<lparr>indexdb := b, index_logger := il\<rparr>"
  have h: "handler ?t = handler s'" by (simp add: handler_def fun_eq_iff)
  have "open_storage env True newfd True dir (Inr b) (Some (Some il)) l s = Some (0, ?t, True)"
    using env new(1) ys(1) s'(1) b
    by (simp add: open_storage_def full_env_def open_data_files_def open_index_file_def Let_def)
  moreover have "tables_ok ?t" "files_ok ?t"
    using s'(2,3) ys cl h by (auto simp: tables_ok_def files_ok_def same_tables_def opened_def)
  ultimately show ?thesis using s' h by (auto simp: same_tables_def)
qed

lemma largest_block_classes: "tables_ok s \<Longrightarrow> largest_block s = BEGINNING_SIZE * 2 ^ (block_type_count s - 1)"
  by (simp add: largest_block_def tables_ok_def)

text \<open>A fresh directory: the store is empty.\<close>

lemma open_fresh:
  assumes "full_env env" and c: "classes_for l c" and "\<not> inited_global_vars s" and "\<forall>i. 0 < newfd i"
    and "error_no b = 0" and V: "good (dbp b)" "view (dbp b) = (\<lambda>_. None)"
  shows "\<exists>s'. open_storage env True newfd True (\<lambda>_. None) (Inr b) (Some (Some il)) l s = Some (0, s', True) \<and>
    storage_inv view good s' \<and> stored view s' = (\<lambda>_. None) \<and> block_type_count s' = c \<and>
    largest_block s' = BEGINNING_SIZE * 2 ^ (c - 1) \<and> (\<forall>i<c. slots_total (handler s' i) = 0)"
proof -
  obtain s' where s': "open_storage env True newfd True (\<lambda>_. None) (Inr b) (Some (Some il)) l s = Some (0, s', True)"
      "tables_ok s'" "files_ok s'" "block_type_count s' = c" "indexdb s' = b" "inited_global_vars s'"
      "\<forall>i<c. opened (BEGINNING_SIZE * 2 ^ i) None (handler s' i)"
    using open_storage_ok [OF assms(1-4), of "\<lambda>_. None" "\<lambda>_. None" b il] assms(5) by auto
  have "index_ok (\<lambda>_. None) s'" "contents (\<lambda>_. None) s' = (\<lambda>_. None)"
    by (simp_all add: index_ok_def contents_def fun_eq_iff)
  then show ?thesis
    using s' V largest_block_classes [OF s'(2)] by (simp add: storage_inv_def stored_def opened_def)
qed

section \<open>Closing and reopening\<close>

lemma put_header_id:
  assumes "on_disk fh" and "DATA_SECTION_POS \<le> f_size (data_file fh)"
  shows "put_header fh = fh"
proof -
  let ?f = "data_file fh"
  have sz: "f_size (data_file (put_header fh)) = f_size ?f" by (rule put_header_size [OF assms(2)])
  have h: "header_bytes fh = map (f_bytes ?f) [0..<SLOTS_SECTION_POS]"
    using assms by (simp add: on_disk_def pread_eq storage_consts)
  have "write_bytes 0 (header_bytes fh) (f_bytes ?f) = f_bytes ?f"
    unfolding h by (auto simp: write_bytes_def fun_eq_iff)
  then have "data_file (put_header fh) = ?f" using sz by (simp add: put_header_def put_data_def)
  then show ?thesis by (simp add: put_header_def put_data_def)
qed

lemma sync_header_idle:
  assumes "full_env env" and "tables_ok s" and "files_ok s" and "i < block_type_count s"
  shows "sync_data_file_header env i s = Some (0, s)"
proof -
  have "put_header (handler s i) = handler s i"
    using file_okD [OF assms(3,4)] by (intro put_header_id) (auto simp: file_ok_def)
  then show ?thesis
    using sync_header_full [OF assms(1,4)] assms(2,4)
    by (simp add: tables_ok_def put_header_def set_handler_def handler_def)
qed

lemma sync_headers_idle:
  assumes "full_env env" and "tables_ok s" and "files_ok s" and "set is \<subseteq> {..<block_type_count s}"
  shows "sync_headers env is s = Some s"
  using assms(4) by (induction "is") (auto simp: sync_header_idle [OF assms(1-3)])

lemma close_files_ok:
  assumes env: "full_env env" and "tables_ok s" and "distinct is" and "set is \<subseteq> {..<block_type_count s}"
    and "\<forall>i\<in>set is. file_ok (block_size_array s ! i) (handler s i)"
  shows "\<exists>s'. close_files env is k s = Some (0, k + length is, s') \<and> same_tables s s' \<and>
    (\<forall>j. data_file (handler s' j) = data_file (handler s j))"
  using assms(2-)
proof (induction "is" arbitrary: s k)
  case Nil
  then show ?case by (simp add: same_tables_def)
next
  case (Cons i "is")
  let ?s = "set_handler i ((handler s i)\<lparr>fd := -1\<rparr>) s"
  have i: "i < block_type_count s" "i < length (block_filehandler_array s)" "0 < fd (handler s i)"
      "put_header (handler s i) = handler s i"
    using Cons.prems by (auto simp: tables_ok_def file_ok_def intro!: put_header_id)
  then have "sync_data_file_header env i s = Some (0, set_handler i (handler s i) s)"
    using sync_header_full [OF env i(1,2)] by (simp add: put_header_def)
  then have step: "close_files env (i # is) k s = close_files env is (k + 1) ?s" using i by simp
  have "\<exists>s'. close_files env is (k + 1) ?s = Some (0, k + 1 + length is, s') \<and> same_tables ?s s' \<and>
      (\<forall>j. data_file (handler s' j) = data_file (handler ?s j))"
    using Cons.prems i by (intro Cons.IH) (auto simp: tables_ok_def)
  then show ?case using step i(2) by (auto simp: same_tables_def)
qed

text \<open>The data files of a directory, by block size.\<close>

definition directory :: "'db storage \<Rightarrow> nat \<Rightarrow> data_file option" where
  "directory s bs = map_option (\<lambda>i. data_file (handler s i))
    (find (\<lambda>i. block_size_array s ! i = bs) [0..<length (block_size_array s)])"

lemma directory_nth:
  assumes "tables_ok s" and "i < block_type_count s"
  shows "directory s (BEGINNING_SIZE * 2 ^ i) = Some (data_file (handler s i))"
proof -
  have "find (\<lambda>j. block_size_array s ! j = BEGINNING_SIZE * 2 ^ i) [0..<length (block_size_array s)] = Some i"
    using assms by (auto simp: find_Some_iff tables_ok_def BEGINNING_SIZE_def intro!: exI [where x = i])
  then show ?thesis by (simp add: directory_def)
qed

lemma same_files_index:
  assumes "index_ok V s" and "block_type_count s' = block_type_count s"
    and "\<forall>i<block_type_count s. same_file (handler s i) (handler s' i)"
  shows "index_ok V s'" "contents V s' = contents V s"
proof -
  have r: "rec_block vb < block_type_count s" if "V k = Some vb" for k vb
    using assms(1) that by (auto simp: index_ok_def)
  have f: "rec_at (handler s' (rec_block vb)) = rec_at (handler s (rec_block vb))"
      "data_file (handler s' (rec_block vb)) = data_file (handler s (rec_block vb))" if "V k = Some vb" for k vb
    using same_file_simps(4,5) assms(3) r [OF that] by blast+
  show "index_ok V s'"
    using assms(1,2) f(1) unfolding index_ok_def by metis
  show "contents V s' = contents V s"
    using f(2) by (auto simp: contents_def rec_data_def fun_eq_iff map_option_case split: option.split)
qed

text \<open>The data files of a store that satisfies the invariant open to the same store.\<close>

lemma reopen:
  assumes env: "full_env env" and inv: "storage_inv view good s" and c: "classes_for l (block_type_count s)"
    and new: "\<not> inited_global_vars s0" "\<forall>i. 0 < newfd i"
    and dir: "\<forall>i<block_type_count s. dir (BEGINNING_SIZE * 2 ^ i) = Some (data_file (handler s i))"
    and b: "error_no b = 0" "good (dbp b)" "view (dbp b) = view (dbp (indexdb s))"
  shows "\<exists>s'. open_storage env True newfd True dir (Inr b) (Some (Some il)) l s0 = Some (0, s', True) \<and>
    storage_inv view good s' \<and> stored view s' = stored view s \<and> block_type_count s' = block_type_count s \<and>
    (\<forall>n. room n s \<longrightarrow> room n s')"
proof -
  have st: "tables_ok s" "files_ok s" "index_ok (view (dbp (indexdb s))) s"
    using inv by (auto simp: storage_inv_def)
  have bs: "block_size_array s ! i = BEGINNING_SIZE * 2 ^ i" if "i < block_type_count s" for i
    using st(1) that by (simp add: tables_ok_def)
  have "\<forall>i<block_type_count s. file_ok (BEGINNING_SIZE * 2 ^ i) (handler s i)"
    using file_okD [OF st(2)] bs by simp
  then obtain s' where s': "open_storage env True newfd True dir (Inr b) (Some (Some il)) l s0 = Some (0, s', True)"
      "tables_ok s'" "files_ok s'" "block_type_count s' = block_type_count s" "indexdb s' = b"
      "\<forall>i<block_type_count s. opened (BEGINNING_SIZE * 2 ^ i) (Some (handler s i)) (handler s' i)"
    using open_storage_ok [OF env c new, of dir "\<lambda>i. Some (handler s i)" b il] dir b(1) by auto
  have same: "\<forall>i<block_type_count s. same_file (handler s i) (handler s' i)"
    using s'(6) by (simp add: opened_def)
  note i = same_files_index [OF st(3) s'(4) this]
  have "slots_total (handler s' i) = slots_total (handler s i)" if "i < block_type_count s" for i
    using same_file_simps(3) same that by blast
  then have "room n s'" if "room n s" for n
    using that bs s'(2,4) by (simp add: room_def tables_ok_def)
  then show ?thesis using s' i b by (auto simp: storage_inv_def stored_def)
qed

lemma close_then_reopen:
  assumes env: "full_env env" and inv: "storage_inv view good s" and c: "classes_for l (block_type_count s)" and new: "\<forall>i. 0 < newfd i"
    and b: "error_no b = 0" "good (dbp b)" "view (dbp b) = view (dbp (indexdb s))"
  shows "\<exists>r journal s1 s2. close_storage api env s = Some (r, journal, s1) \<and>
    open_storage env True newfd True (directory s1) (Inr b) (Some (Some il)) l s1 = Some (0, s2, True) \<and>
    storage_inv view good s2 \<and> stored view s2 = stored view s"
proof -
  let ?n = "block_type_count s"
  have st: "tables_ok s" "files_ok s" using inv by (auto simp: storage_inv_def)
  obtain t where t: "close_files env [0..<?n] 0 s = Some (0, ?n, t)" "same_tables s t"
      "\<forall>j. data_file (handler t j) = data_file (handler s j)"
    using close_files_ok [OF env st(1), of "[0..<?n]" 0] file_okD [OF st(2)]
    by (auto simp: atLeast0LessThan)
  let ?s = "t\<lparr>block_type_count := 0, inited_global_vars := False\<rparr>"
  have h: "handler ?s = handler t" by (simp add: handler_def fun_eq_iff)
  have "\<exists>r journal. close_storage api env s = Some (r, journal, ?s)"
    using t(1,2) st(1) by (auto simp: close_storage_def tables_ok_def same_tables_def Let_def split_beta)
  moreover have "directory ?s = directory s"
    using t(2,3) h by (simp add: directory_def same_tables_def fun_eq_iff)
  then have "\<forall>i<?n. directory ?s (BEGINNING_SIZE * 2 ^ i) = Some (data_file (handler s i))"
    using directory_nth [OF st(1)] by simp
  then have "\<exists>s2. open_storage env True newfd True (directory ?s) (Inr b) (Some (Some il)) l ?s = Some (0, s2, True) \<and>
      storage_inv view good s2 \<and> stored view s2 = stored view s"
    using reopen [OF env inv c _ new _ b, of "?s" "directory ?s" il] by auto
  ultimately show ?thesis by blast
qed

text \<open>A fresh store, some calls, a crash, and a new process that goes on.\<close>

lemma same_classes:
  assumes "tables_ok s" and "tables_ok s'" and "largest_block s' = largest_block s"
  shows "block_type_count s' = block_type_count s"
proof -
  have "block_type_count s' - 1 = block_type_count s - 1"
    using assms(3) by (simp add: largest_block_classes [OF assms(1)] largest_block_classes [OF assms(2)] BEGINNING_SIZE_def)
  moreover have "1 \<le> block_type_count s" "1 \<le> block_type_count s'" using assms(1,2) by (auto simp: tables_ok_def)
  ultimately show ?thesis by linarith
qed

lemma crash_and_go_on:
  assumes db: "berkeley_db api view good" and env: "full_env env" and c: "classes_for l c"
    and new: "\<not> inited_global_vars s0" "\<forall>i. 0 < newfd i" and b: "error_no b = 0" "good (dbp b)" "view (dbp b) = (\<lambda>_. None)"
    and fit: "list_all (op_fits (BEGINNING_SIZE * 2 ^ (c - 1))) (ops @ ops')"
      "DATA_SECTION_POS + BEGINNING_SIZE * 2 ^ (c - 1) * length (ops @ ops') < 2 ^ 63"
  shows "\<exists>s1 s2. open_storage env True newfd True (\<lambda>_. None) (Inr b) (Some (Some il)) l s0 = Some (0, s1, True) \<and>
    store_run (update_block api env, find_block api env, delete_block api env) ops s1 =
      Some (fst (map_run (DB_NOTFOUND api) fixed_key ops (\<lambda>_. None)), s2) \<and>
    (\<forall>b' il' s0' newfd'. \<not> inited_global_vars s0' \<and> (\<forall>i. 0 < newfd' i) \<and> error_no b' = 0 \<and> good (dbp b') \<and>
        view (dbp b') = view (dbp (indexdb s2)) \<longrightarrow>
      (\<exists>s3 s4. open_storage env True newfd' True (directory s2) (Inr b') (Some (Some il')) l s0' = Some (0, s3, True) \<and>
        stored view s3 = snd (map_run (DB_NOTFOUND api) fixed_key ops (\<lambda>_. None)) \<and>
        store_run (update_block api env, find_block api env, delete_block api env) ops' s3 =
          Some (fst (map_run (DB_NOTFOUND api) fixed_key ops' (snd (map_run (DB_NOTFOUND api) fixed_key ops (\<lambda>_. None)))), s4) \<and>
        storage_inv view good s4))"
proof -
  let ?run = "store_run (update_block api env, find_block api env, delete_block api env)"
  let ?map = "map_run (DB_NOTFOUND api) fixed_key" and ?top = "BEGINNING_SIZE * 2 ^ (c - 1)"
  have bs: "block_setup api view good env" using db env by (simp add: block_setup_def block_setup_axioms_def)
  obtain s1 where s1: "open_storage env True newfd True (\<lambda>_. None) (Inr b) (Some (Some il)) l s0 = Some (0, s1, True)"
      "storage_inv view good s1" "stored view s1 = (\<lambda>_. None)" "block_type_count s1 = c" "largest_block s1 = ?top"
      "\<forall>i<c. slots_total (handler s1 i) = 0"
    using open_fresh [OF env c new, of b good view il] b by blast
  have t1: "tables_ok s1" using s1(2) by (simp add: storage_inv_def)
  have "room (length (ops @ ops')) s1"
    unfolding room_def
  proof (intro allI impI)
    fix i assume i: "i < block_type_count s1"
    then have "block_size_array s1 ! i * length (ops @ ops') \<le> ?top * length (ops @ ops')"
      using t1 s1(4) by (intro mult_le_mono1) (auto simp: tables_ok_def)
    then have "DATA_SECTION_POS + block_size_array s1 ! i * length (ops @ ops') < 2 ^ 63"
      using fit(2) by (meson add_left_mono order_le_less_trans)
    then show "DATA_SECTION_POS + block_size_array s1 ! i * (slots_total (handler s1 i) + length (ops @ ops')) < 2 ^ 63"
      using s1(4,6) i by simp
  qed
  then obtain s2 where s2: "?run ops s1 = Some (fst (?map ops (\<lambda>_. None)), s2)" "stored view s2 = snd (?map ops (\<lambda>_. None))"
      "storage_inv view good s2" "room (length ops') s2" "largest_block s2 = ?top"
    using block_setup.run_more [OF bs, where os = ops and m = "length ops'" and s = s1 and top = ?top] s1(2,3,5) fit(1)
    by auto
  have t2: "tables_ok s2" using s2(3) by (simp add: storage_inv_def)
  have c2: "block_type_count s2 = c" using same_classes [OF t1 t2] s2(5) s1(4,5) by simp
  have "\<exists>s3 s4. open_storage env True newfd' True (directory s2) (Inr b') (Some (Some il')) l s0' = Some (0, s3, True) \<and>
      stored view s3 = snd (?map ops (\<lambda>_. None)) \<and> ?run ops' s3 = Some (fst (?map ops' (snd (?map ops (\<lambda>_. None)))), s4) \<and>
      storage_inv view good s4"
    if "\<not> inited_global_vars s0'" "\<forall>i. 0 < newfd' i" "error_no b' = 0" "good (dbp b')" "view (dbp b') = view (dbp (indexdb s2))"
    for b' il' s0' newfd'
  proof -
    note h = that
    have "\<forall>i<block_type_count s2. directory s2 (BEGINNING_SIZE * 2 ^ i) = Some (data_file (handler s2 i))"
      using directory_nth [OF t2] by simp
    then obtain s3 where s3: "open_storage env True newfd' True (directory s2) (Inr b') (Some (Some il')) l s0' = Some (0, s3, True)"
        "storage_inv view good s3" "stored view s3 = stored view s2" "block_type_count s3 = c" "room (length ops') s3"
      using reopen [OF env s2(3) _ h(1,2) _ h(3-5), of l "directory s2" il'] c c2 s2(4) by auto
    have "largest_block s3 = ?top"
      using s3(2,4) by (simp add: storage_inv_def largest_block_classes)
    then obtain s4 where "?run ops' s3 = Some (fst (?map ops' (stored view s3)), s4)" "storage_inv view good s4"
      using block_setup.run_ok [OF bs, where os = ops' and s = s3 and top = ?top] s3(2,5) fit(1) by auto
    then show ?thesis using s3(1,3) s2(2) by simp
  qed
  then show ?thesis using s1(1) s2(1) by blast
qed

section \<open>Failures\<close>

context berkeley_db
begin

text \<open>A value larger than every block: a new key is dropped, an old key loses its value.\<close>

lemma update_too_large_new:
  assumes inv: "s_inv s" and env: "full_env env" and none: "s_map s (fixed_key key) = None"
    and big: "largest_block s < length data" "length data < 2 ^ 31"
  shows "update_block api env key data s = Some (0, s)"
proof -
  have "view (dbp (indexdb s)) (fixed_key key) = None" using none by (simp add: stored_def contents_def)
  then have "find_record api True (indexdb s) (fixed_key key) sizeof_value = (DB_NOTFOUND api, None, indexdb s)"
    using inv by (intro find_record_missing) (simp_all add: storage_inv_def)
  then show ?thesis
    using size_too_large [OF _ big] inv env notfound_code
    by (simp add: update_block_def storage_inv_def full_env_def Let_def)
qed

lemma update_too_large_old:
  assumes inv: "s_inv s" and env: "full_env env" and old: "s_map s (fixed_key key) \<noteq> None"
    and rm: "room n s" and big: "largest_block s < length data" "length data < 2 ^ 31"
  shows "\<exists>s'. update_block api env key data s = Some (-3, s') \<and> s_inv s' \<and>
    s_map s' = (s_map s)(fixed_key key := None)"
proof -
  let ?k = "fixed_key key"
  obtain vb where vb: "view (dbp (indexdb s)) ?k = Some vb" using old by (auto simp: stored_def contents_def)
  have st: "tables_ok s" "good (dbp (indexdb s))" "length vb = 24" "rec_block vb < block_type_count s" "e_mem env"
    using inv vb env by (auto simp: storage_inv_def index_ok_def full_env_def)
  have f: "find_record api True (indexdb s) ?k sizeof_value = (0, Some vb, indexdb s)"
    using find_record_found [OF st(2) vb] st(3) by (simp add: sizeof_value_def)
  have "block_size_array s ! rec_block vb \<le> largest_block s"
    using st(1,4) by (auto simp: tables_ok_def largest_block_def BEGINNING_SIZE_def)
  then have le: "\<not> length data \<le> block_size_array s ! rec_block vb" using big by simp
  obtain t where t: "do_delete_block api env (bytes_value vb) ?k s = Some (0, t)" "s_inv t"
      "s_map t = (s_map s)(?k := None)" "block_type_count t = block_type_count s"
      "block_size_array t = block_size_array s"
    using do_delete_block_ok [OF inv env vb rm] by blast
  have "find_block_file (calc_block_size (length data)) t = -1"
    using size_too_large [OF _ _ big(2), of t] big(1) t(2,4,5) by (simp add: storage_inv_def largest_block_def)
  moreover have "append_block api env (size_of_int (-1)) ?k data t = Some (-1, t)"
    using t(2) by (simp add: append_block_def size_of_int_def storage_inv_def tables_ok_def MAX_BLOCK_CNT_def)
  ultimately show ?thesis
    using f le t(1-3) st(5) by (simp add: update_block_def rec_block_def Let_def)
qed

text \<open>An index that refuses the new record: the call still succeeds.\<close>

lemma update_index_refuses:
  assumes inv: "s_inv s" and env: "full_env env" and none: "s_map s (fixed_key key) = None"
    and len: "length data \<le> largest_block s" and e: "e \<noteq> 0"
  shows "\<exists>s'. update_block (api\<lparr>db_put := \<lambda>d k v. (e, d)\<rparr>) env key data s = Some (0, s') \<and>
    s_map s' (fixed_key key) = None"
proof -
  let ?api = "api\<lparr>db_put := \<lambda>d k v. (e, d)\<rparr>" and ?k = "fixed_key key"
  have st: "tables_ok s" "files_ok s" "good (dbp (indexdb s))" "e_mem env"
    using inv env by (auto simp: storage_inv_def full_env_def)
  have V: "view (dbp (indexdb s)) ?k = None" using none by (simp add: stored_def contents_def)
  obtain j where j: "find_block_file (calc_block_size (length data)) s = int j" "j < block_type_count s"
      "length data \<le> block_size_array s ! j"
    using size_class [OF st(1) len] by blast
  have l: "j < length (block_filehandler_array s)" "0 < fd (handler s j)"
    using st(1) j(2) file_okD [OF st(2) j(2)] by (auto simp: tables_ok_def file_ok_def)
  have "find_record ?api True (indexdb s) ?k sizeof_value = (DB_NOTFOUND api, None, indexdb s)"
    using find_record_missing [OF st(3) V, of sizeof_value] by (auto simp: find_record_def split_beta split: if_splits)
  then have "update_block ?api env key data s =
      (case append_block ?api env j ?k data s of
        None \<Rightarrow> None | Some (retno, s) \<Rightarrow> Some (if retno \<noteq> 0 then -4 else 0, s))"
    using j(1) notfound_code st(4) by (simp add: update_block_def size_of_int_def Let_def)
  moreover have "\<exists>s'. append_block ?api env j ?k data s = Some (0, s') \<and> dbp (indexdb s') = dbp (indexdb s)"
    using j l place_block_full [OF env j(2) l(1), of data]
    by (auto simp: append_block_def insert_record_def log_index_def Let_def split_beta)
  ultimately show ?thesis using V by (auto simp: stored_def contents_def)
qed

end

text \<open>A data file that cannot be created: \<open>open_storage\<close> fails, and its next call takes the
  data files for open.\<close>

lemma open_first_fails:
  assumes "e_mem env" and c: "classes_for l c" and new: "\<not> inited_global_vars s"
  shows "\<exists>s1. open_storage env True newfd False (\<lambda>_. None) bdb journal l s = Some (-2, s1, False) \<and>
    inited_global_vars s1 \<and> block_type_count s1 = c \<and> length (block_size_array s1) = MAX_BLOCK_CNT \<and>
    (\<forall>j<c. block_size_array s1 ! j = BEGINNING_SIZE * 2 ^ j) \<and>
    block_filehandler_array s1 = replicate MAX_BLOCK_CNT closed_file"
proof -
  obtain ys where ys: "init_storage l (s\<lparr>inited_global_vars := True\<rparr>) =
        (0, s\<lparr>inited_global_vars := True, block_type_count := c, block_size_array := ys,
          block_filehandler_array := replicate MAX_BLOCK_CNT closed_file\<rparr>)"
      "length ys = MAX_BLOCK_CNT" "\<forall>j<c. ys ! j = BEGINNING_SIZE * 2 ^ j"
    using init_storage_result [OF c, of "s\<lparr>inited_global_vars := True\<rparr>"] by auto
  moreover have "[0..<c] = 0 # [1..<c]" using c by (simp add: classes_for_def upt_conv_Cons)
  ultimately show ?thesis
    using assms by (simp add: open_storage_def open_data_files_def create_data_file_def Let_def)
qed

lemma open_again_skips:
  assumes "e_mem env" and "inited_global_vars s" and "error_no b = 0"
  shows "open_storage env True newfd ok dir (Inr b) (Some (Some il)) l s =
    Some (0, s\<lparr>indexdb := b, index_logger := il\<rparr>, True)"
  using assms by (simp add: open_storage_def open_index_file_def Let_def)

section \<open>Blocks in use\<close>

text \<open>The bytes of the block of an index record.\<close>

definition block_range :: "'db storage \<Rightarrow> bytes \<Rightarrow> nat set" where
  "block_range s vb = {rec_offset vb ..< rec_offset vb + block_size_array s ! rec_block vb}"

lemma records_apart:
  assumes inv: "storage_inv view good s"
    and V: "view (dbp (indexdb s)) k = Some vb" "view (dbp (indexdb s)) k' = Some vb'" "k \<noteq> k'"
    and b: "rec_block vb = rec_block vb'"
  shows "block_range s vb \<inter> block_range s vb' = {}"
proof -
  let ?fh = "handler s (rec_block vb)"
  have x: "index_ok (view (dbp (indexdb s))) s" "files_ok s" using inv by (auto simp: storage_inv_def)
  have r: "rec_block vb < block_type_count s" "rec_at ?fh (bytes_value vb)" "rec_at ?fh (bytes_value vb')"
    using x(1) V(1,2) b unfolding index_ok_def by metis+
  have "rec_offset vb \<noteq> rec_offset vb'" using x(1) V b unfolding index_ok_def by blast
  moreover have "slot_at ?fh (rec_offset vb)" "slot_at ?fh (rec_offset vb')"
    using r(2,3) by (auto simp: rec_at_def rec_offset_def Let_def)
  ultimately have "rec_offset vb + block_size ?fh \<le> rec_offset vb' \<or> rec_offset vb' + block_size ?fh \<le> rec_offset vb"
    by (intro slots_apart) auto
  moreover have "block_size ?fh = block_size_array s ! rec_block vb"
    using file_okD [OF x(2) r(1)] by (simp add: file_ok_def)
  ultimately show ?thesis using b by (auto simp: block_range_def)
qed

lemma record_facts:
  assumes inv: "storage_inv view good s" and V: "view (dbp (indexdb s)) k = Some vb"
  shows "rec_block vb < block_type_count s \<and> \<not> free_at (handler s (rec_block vb)) (rec_offset vb) \<and>
    length (rec_data s vb) \<le> block_size_array s ! rec_block vb \<and>
    crc32_calc (rec_data s vb) = iv_crc32 (bytes_value vb)"
proof -
  let ?fh = "handler s (rec_block vb)"
  have r: "rec_block vb < block_type_count s" "rec_at ?fh (bytes_value vb)" "files_ok s"
    using inv V by (auto simp: storage_inv_def index_ok_def)
  moreover have "block_size ?fh = block_size_array s ! rec_block vb"
    using file_okD [OF r(3,1)] by (simp add: file_ok_def)
  moreover have "length (rec_data s vb) = unat (iv_data_size (bytes_value vb))"
    using r(2) length_pread by (simp add: rec_data_def rec_at_def rec_offset_def Let_def)
  ultimately show ?thesis
    by (auto simp: rec_at_def rec_offset_def rec_data_def Let_def)
qed

section \<open>A concrete store\<close>

definition empty_logger :: index_logger_s where
  "empty_logger = \<lparr>curr_working_buf = 1, buffer1 = zero_buf, buffer2 = zero_buf, log_file = [],
    read_pos = 0, fetch_pos = 0, fetch_records_amount = 0, fetch_id = 0\<rparr>"

definition start_storage :: "(bytes \<times> bytes) list storage" where
  "start_storage = \<lparr>inited_global_vars = False, block_size_array = replicate MAX_BLOCK_CNT 0,
    block_type_count = 0, block_filehandler_array = replicate MAX_BLOCK_CNT closed_file,
    indexdb = \<lparr>dbp = [], error_no = 0\<rparr>, index_logger = empty_logger\<rparr>"

abbreviation "fresh_index \<equiv> \<lparr>dbp = [], error_no = 0\<rparr> :: (bytes \<times> bytes) list bdb_t"

abbreviation "open_small newfd ok dir b \<equiv>
  open_storage good_env True newfd ok dir (Inr b) (Some (Some empty_logger)) 1024"

lemma classes_1024: "classes_for 1024 4"
  by (simp add: classes_for_def storage_consts)

lemma full_good_env: "full_env good_env"
  by (simp add: full_env_def good_env_def)

lemma fresh_store:
  "\<exists>s. open_small (\<lambda>i. 3) True (\<lambda>_. None) fresh_index start_storage = Some (0, s, True) \<and>
    storage_inv map_of (\<lambda>d. True) s \<and> stored map_of s = (\<lambda>_. None) \<and> block_type_count s = 4 \<and>
    largest_block s = 1024 \<and> room 1000 s"
proof -
  obtain s where s: "open_small (\<lambda>i. 3) True (\<lambda>_. None) fresh_index start_storage = Some (0, s, True)"
      "storage_inv map_of (\<lambda>d. True) s" "stored map_of s = (\<lambda>_. None)" "block_type_count s = 4"
      "largest_block s = BEGINNING_SIZE * 2 ^ (4 - 1)" "\<forall>i<4. slots_total (handler s i) = 0"
    using open_fresh [OF full_good_env classes_1024, of start_storage "\<lambda>i. 3" fresh_index "\<lambda>d. True" map_of empty_logger]
    by (auto simp: start_storage_def)
  have "DATA_SECTION_POS + block_size_array s ! i * (slots_total (handler s i) + 1000) < 2 ^ 63" if i: "i < 4" for i
  proof -
    have "block_size_array s ! i \<le> 2 ^ 26" using block_size_bound [of s i] s(2,4) i by (simp add: storage_inv_def)
    then show ?thesis using s(6) i by (simp add: DATA_SECTION_POS_def SLOTS_SECTION_POS_def MAX_FREE_SLOTS_def)
  qed
  then have "room 1000 s" using s(4) by (simp add: room_def)
  then show ?thesis using s by (simp add: BEGINNING_SIZE_def)
qed

text \<open>The same store after one value was set.\<close>

lemma one_value_store:
  obtains s where "storage_inv map_of (\<lambda>d. True) s" "block_type_count s = 4" "largest_block s = 1024"
    "stored map_of s = [fixed_key [1] \<mapsto> [7, 8]]" "room 999 s"
proof -
  obtain s where s: "storage_inv map_of (\<lambda>d. True) s" "stored map_of s = (\<lambda>_. None)" "block_type_count s = 4"
      "largest_block s = 1024" "room 1000 s"
    using fresh_store by blast
  then obtain s' where "storage_inv map_of (\<lambda>d. True) s'" "stored map_of s' = (stored map_of s)(fixed_key [1] \<mapsto> [7, 8])"
      "room 999 s'" "block_type_count s' = block_type_count s" "block_size_array s' = block_size_array s"
    using mem.update_block_ok [OF s(1) full_good_env, of "[7, 8]" 999 "[1]"] by auto
  then show ?thesis using that [of s'] s by (simp add: largest_block_def)
qed

section \<open>Properties\<close>

text \<open>
  C4. The block store is a map. On a healthy index and system, for every sequence of
  \<open>update_block\<close>, \<open>find_block\<close> and \<open>delete_block\<close> calls whose values fit the largest block, from
  any state that satisfies the store's invariant, no call aborts, and the return codes and the
  values read are exactly those of a map from 16-byte keys to values; the final contents are
  the final map, and the invariant holds again.
\<close>

theorem storage_refines_map:
  assumes "berkeley_db api view good" and "full_env env" and "storage_inv view good s"
    and "room (length ops) s" and "list_all (op_fits (largest_block s)) ops"
  shows "\<exists>s'. store_run (update_block api env, find_block api env, delete_block api env) ops s =
      Some (fst (map_run (DB_NOTFOUND api) fixed_key ops (stored view s)), s') \<and>
    stored view s' = snd (map_run (DB_NOTFOUND api) fixed_key ops (stored view s)) \<and> storage_inv view good s'"
proof -
  have "block_setup api view good env"
    using assms(1,2) by (simp add: block_setup_def block_setup_axioms_def)
  from block_setup.run_ok [OF this, where os = ops and s = s and top = "largest_block s"] show ?thesis using assms(3-5) by blast
qed

theorem storage_refines_map_witness:
  "\<exists>s s'. open_small (\<lambda>i. 3) True (\<lambda>_. None) fresh_index start_storage = Some (0, s, True) \<and>
    store_run (update_block mem_db good_env, find_block mem_db good_env, delete_block mem_db good_env)
      [SetOp [1] [7, 8], SetOp [2] (replicate 300 9), GetOp [1], DelOp [1], GetOp [1], GetOp [2]] s =
    Some ([(0, None), (0, None), (0, Some [7, 8]), (0, None), (-30988, None), (0, Some (replicate 300 9))], s')"
proof -
  let ?ops = "[SetOp [1] [7, 8], SetOp [2] (replicate 300 9), GetOp [1], DelOp [1], GetOp [1], GetOp [2]]"
  obtain s where s: "open_small (\<lambda>i. 3) True (\<lambda>_. None) fresh_index start_storage = Some (0, s, True)"
      "storage_inv map_of (\<lambda>d. True) s" "stored map_of s = (\<lambda>_. None)" "largest_block s = 1024" "room 1000 s"
    using fresh_store by blast
  have k: "fixed_key [1] \<noteq> fixed_key [2]" by (simp add: fixed_key_def KEY_LEN_def)
  have "room (length ?ops) s" using room_mono [of 994 "length ?ops" s] s(5) by simp
  from storage_refines_map [OF mem.berkeley_db_axioms full_good_env s(2) this]
  show ?thesis using s k k [symmetric] by (auto simp: mem_db_def)
qed

text \<open>
  A fresh directory: with every file created, \<open>open_storage\<close> succeeds and gives a store that
  satisfies the invariant, holds nothing, has one data file per block size and takes values up
  to the largest power of two (times 128) within the size asked for.
\<close>

theorem storage_open_fresh:
  assumes "full_env env" and "classes_for l c" and "\<not> inited_global_vars s" and "\<forall>i. 0 < newfd i"
    and "error_no b = 0" and "good (dbp b)" and "view (dbp b) = (\<lambda>_. None)"
  shows "\<exists>s'. open_storage env True newfd True (\<lambda>_. None) (Inr b) (Some (Some il)) l s = Some (0, s', True) \<and>
    storage_inv view good s' \<and> stored view s' = (\<lambda>_. None) \<and> block_type_count s' = c \<and>
    largest_block s' = BEGINNING_SIZE * 2 ^ (c - 1) \<and> (\<forall>i<c. slots_total (handler s' i) = 0)"
  using assms by (rule open_fresh)

theorem storage_open_fresh_witness:
  "\<exists>s'. open_small (\<lambda>i. 3) True (\<lambda>_. None) fresh_index start_storage = Some (0, s', True) \<and>
    storage_inv map_of (\<lambda>d. True) s' \<and> largest_block s' = 1024"
  using storage_open_fresh [OF full_good_env classes_1024, of start_storage "\<lambda>i. 3" fresh_index "\<lambda>d. True" map_of empty_logger]
  by (auto simp: start_storage_def BEGINNING_SIZE_def)

text \<open>
  C10. A restart keeps everything: \<open>close_storage\<close> does not abort, and \<open>open_storage\<close> on the data
  files it leaves, with the same block sizes and an index that kept its records, succeeds and
  gives a store with the same contents that satisfies the invariant.
\<close>

theorem storage_restart:
  assumes "full_env env" and "storage_inv view good s" and "classes_for l (block_type_count s)"
    and "\<forall>i. 0 < newfd i" and "error_no b = 0" and "good (dbp b)" and "view (dbp b) = view (dbp (indexdb s))"
  shows "\<exists>r journal s1 s2. close_storage api env s = Some (r, journal, s1) \<and>
    open_storage env True newfd True (directory s1) (Inr b) (Some (Some il)) l s1 = Some (0, s2, True) \<and>
    storage_inv view good s2 \<and> stored view s2 = stored view s"
  using assms by (rule close_then_reopen)

theorem storage_restart_witness:
  "\<exists>s r journal s1 s2. stored map_of s = [fixed_key [1] \<mapsto> [7, 8]] \<and>
    close_storage mem_db good_env s = Some (r, journal, s1) \<and>
    open_small (\<lambda>i. 3) True (directory s1) (indexdb s\<lparr>error_no := 0\<rparr>) s1 = Some (0, s2, True) \<and>
    stored map_of s2 = [fixed_key [1] \<mapsto> [7, 8]]"
proof (rule one_value_store)
  fix s :: "(bytes \<times> bytes) list storage"
  assume s: "storage_inv map_of (\<lambda>d. True) s" "block_type_count s = 4" "stored map_of s = [fixed_key [1] \<mapsto> [7, 8]]"
  show ?thesis
    using storage_restart [OF full_good_env s(1), of 1024 "\<lambda>i. 3" "indexdb s\<lparr>error_no := 0\<rparr>" mem_db empty_logger]
      classes_1024 s by auto
qed

text \<open>
  C11. A crash between two calls loses nothing of what the calls wrote to the data files. Take a store opened on a fresh
  directory and any calls of \<open>update_block\<close>, \<open>find_block\<close> and \<open>delete_block\<close> on it: each answers as a map. Let the process
  die then, without \<open>close_storage\<close>, and a new one open the data files as they are, with an index that kept its
  records: it finds the contents the calls left, and any further calls in it answer like the map going on from there, so
  that block counts and free slots came back too, and no new value damages an old one.
\<close>

theorem storage_crash_restart:
  assumes "berkeley_db api view good" and "full_env env" and "classes_for l c"
    and "\<not> inited_global_vars s0" and "\<forall>i. 0 < newfd i"
    and "error_no b = 0" and "good (dbp b)" and "view (dbp b) = (\<lambda>_. None)"
    and "list_all (op_fits (BEGINNING_SIZE * 2 ^ (c - 1))) (ops @ ops')"
    and "DATA_SECTION_POS + BEGINNING_SIZE * 2 ^ (c - 1) * length (ops @ ops') < 2 ^ 63"
  shows "\<exists>s1 s2. open_storage env True newfd True (\<lambda>_. None) (Inr b) (Some (Some il)) l s0 = Some (0, s1, True) \<and>
    store_run (update_block api env, find_block api env, delete_block api env) ops s1 =
      Some (fst (map_run (DB_NOTFOUND api) fixed_key ops (\<lambda>_. None)), s2) \<and>
    (\<forall>b' il' s0' newfd'. \<not> inited_global_vars s0' \<and> (\<forall>i. 0 < newfd' i) \<and> error_no b' = 0 \<and> good (dbp b') \<and>
        view (dbp b') = view (dbp (indexdb s2)) \<longrightarrow>
      (\<exists>s3 s4. open_storage env True newfd' True (directory s2) (Inr b') (Some (Some il')) l s0' = Some (0, s3, True) \<and>
        stored view s3 = snd (map_run (DB_NOTFOUND api) fixed_key ops (\<lambda>_. None)) \<and>
        store_run (update_block api env, find_block api env, delete_block api env) ops' s3 =
          Some (fst (map_run (DB_NOTFOUND api) fixed_key ops' (snd (map_run (DB_NOTFOUND api) fixed_key ops (\<lambda>_. None)))), s4) \<and>
        storage_inv view good s4))"
  using assms by (rule crash_and_go_on)

theorem storage_crash_restart_witness:
  "\<exists>s1 s2 s3 s4. open_small (\<lambda>i. 3) True (\<lambda>_. None) fresh_index start_storage = Some (0, s1, True) \<and>
    store_run (update_block mem_db good_env, find_block mem_db good_env, delete_block mem_db good_env)
      [SetOp [1] [7, 8], SetOp [2] [9], DelOp [1]] s1 = Some ([(0, None), (0, None), (0, None)], s2) \<and>
    open_small (\<lambda>i. 3) True (directory s2) (indexdb s2\<lparr>error_no := 0\<rparr>) start_storage = Some (0, s3, True) \<and>
    store_run (update_block mem_db good_env, find_block mem_db good_env, delete_block mem_db good_env)
      [GetOp [2], SetOp [3] [5], GetOp [2]] s3 = Some ([(0, Some [9]), (0, None), (0, Some [9])], s4)"
proof -
  have k: "fixed_key [1] \<noteq> fixed_key [2]" "fixed_key [3] \<noteq> fixed_key [2]" by (simp_all add: fixed_key_def KEY_LEN_def)
  have new: "\<not> inited_global_vars start_storage" "\<forall>i::nat. (0::int) < 3" by (simp_all add: start_storage_def)
  have b: "error_no fresh_index = 0" "True" "map_of (dbp fresh_index) = (\<lambda>_. None)" by (simp_all add: fun_eq_iff)
  let ?ops = "[SetOp [1] [7, 8], SetOp [2] [9], DelOp [1]]" and ?ops' = "[GetOp [2], SetOp [3] [5], GetOp [2]]"
  have f: "list_all (op_fits (BEGINNING_SIZE * 2 ^ (4 - 1))) (?ops @ ?ops')"
    "DATA_SECTION_POS + BEGINNING_SIZE * 2 ^ (4 - 1) * length (?ops @ ?ops') < 2 ^ 63" by (simp_all add: storage_consts)
  from storage_crash_restart [OF mem.berkeley_db_axioms full_good_env classes_1024 new b f, of empty_logger]
  obtain s1 s2 where s: "open_small (\<lambda>i. 3) True (\<lambda>_. None) fresh_index start_storage = Some (0, s1, True)"
      "store_run (update_block mem_db good_env, find_block mem_db good_env, delete_block mem_db good_env) ?ops s1 =
        Some (fst (map_run (DB_NOTFOUND mem_db) fixed_key ?ops (\<lambda>_. None)), s2)"
    and go: "\<And>b' il' s0' newfd'. \<not> inited_global_vars s0' \<Longrightarrow> (\<forall>i. 0 < newfd' i) \<Longrightarrow> error_no b' = 0 \<Longrightarrow>
        map_of (dbp b') = map_of (dbp (indexdb s2)) \<Longrightarrow>
      (\<exists>s3 s4. open_storage good_env True newfd' True (directory s2) (Inr b') (Some (Some il')) 1024 s0' = Some (0, s3, True) \<and>
        store_run (update_block mem_db good_env, find_block mem_db good_env, delete_block mem_db good_env) ?ops' s3 =
          Some (fst (map_run (DB_NOTFOUND mem_db) fixed_key ?ops' (snd (map_run (DB_NOTFOUND mem_db) fixed_key ?ops (\<lambda>_. None)))), s4))"
    by blast
  show ?thesis
    using s go [OF new, of "indexdb s2\<lparr>error_no := 0\<rparr>" empty_logger] k k [symmetric] by (auto simp del: store_run.simps)
qed

text \<open>
  C12. No value damages another: in every state the calls can reach, the blocks of two keys in
  one data file do not overlap, the block of a key is not among the free slots, its value fits
  its block, and the checksum kept in the index is that of the bytes in the file.
\<close>

theorem storage_blocks_disjoint:
  assumes "berkeley_db api view good" and "full_env env" and "storage_inv view good s"
    and "room (length ops) s" and "list_all (op_fits (largest_block s)) ops"
    and "store_run (update_block api env, find_block api env, delete_block api env) ops s = Some (rs, s')"
    and "view (dbp (indexdb s')) k = Some vb"
  shows "\<not> free_at (handler s' (rec_block vb)) (rec_offset vb) \<and>
    length (rec_data s' vb) \<le> block_size_array s' ! rec_block vb \<and>
    crc32_calc (rec_data s' vb) = iv_crc32 (bytes_value vb) \<and>
    (\<forall>k' vb'. view (dbp (indexdb s')) k' = Some vb' \<and> k' \<noteq> k \<and> rec_block vb' = rec_block vb \<longrightarrow>
      block_range s' vb \<inter> block_range s' vb' = {})"
proof -
  have "block_setup api view good env"
    using assms(1,2) by (simp add: block_setup_def block_setup_axioms_def)
  from block_setup.run_ok [OF this, where os = ops and s = s and top = "largest_block s"]
  have inv: "storage_inv view good s'" using assms(3-6) by auto
  then show ?thesis using record_facts [OF inv assms(7)] records_apart [OF inv assms(7)] by metis
qed

theorem storage_blocks_disjoint_witness:
  "\<exists>s' vb vb'. map_of (dbp (indexdb s')) (fixed_key [1]) = Some vb \<and>
    map_of (dbp (indexdb s')) (fixed_key [2]) = Some vb' \<and>
    (rec_block vb' = rec_block vb \<longrightarrow> block_range s' vb \<inter> block_range s' vb' = {})"
proof (rule one_value_store)
  fix s :: "(bytes \<times> bytes) list storage"
  assume s: "storage_inv map_of (\<lambda>d. True) s" "largest_block s = 1024"
    "stored map_of s = [fixed_key [1] \<mapsto> [7, 8]]" "room 999 s"
  have k: "fixed_key [1] \<noteq> fixed_key [2]" by (simp add: fixed_key_def KEY_LEN_def)
  have r: "room (length [SetOp [2] [5]]) s" using room_mono [of 998 1 s] s(4) by simp
  obtain s' where s': "update_block mem_db good_env [2] [5] s = Some (0, s')"
      "stored map_of s' = (stored map_of s)(fixed_key [2] \<mapsto> [5])"
    using mem.update_block_ok [OF s(1) full_good_env, of "[5]" 0 "[2]"] s(2) r by auto
  then have "stored map_of s' (fixed_key [1]) = Some [7, 8]" "stored map_of s' (fixed_key [2]) = Some [5]"
    using s(3) k by simp_all
  then obtain vb vb' where v: "map_of (dbp (indexdb s')) (fixed_key [1]) = Some vb"
      "map_of (dbp (indexdb s')) (fixed_key [2]) = Some vb'"
    by (auto simp: stored_def contents_def)
  have "list_all (op_fits (largest_block s)) [SetOp [2] [5]]" using s(2) by simp
  moreover have "store_run (update_block mem_db good_env, find_block mem_db good_env, delete_block mem_db good_env)
      [SetOp [2] [5]] s = Some ([(0, None)], s')"
    using s'(1) by simp
  ultimately have "rec_block vb' = rec_block vb \<longrightarrow> block_range s' vb \<inter> block_range s' vb' = {}"
    using storage_blocks_disjoint [OF mem.berkeley_db_axioms full_good_env s(1) r _ _ v(1)] v(2) k by metis
  then show ?thesis using v by blast
qed

text \<open>
  Choice of the block size: for a value that fits the largest block, \<open>calc_block_size\<close> and
  \<open>find_block_file\<close> give the file of the smallest block that holds it; for a larger one (below
  2 GB) they give -1.
\<close>

theorem storage_best_block:
  assumes "tables_ok s" and "n < 2 ^ 31"
  shows "if n \<le> largest_block s
    then \<exists>j<block_type_count s. find_block_file (calc_block_size n) s = int j \<and> n \<le> block_size_array s ! j \<and>
      (\<forall>j'<j. block_size_array s ! j' < n)
    else find_block_file (calc_block_size n) s = -1"
  using size_class [OF assms(1), of n] size_too_large [OF assms(1) _ assms(2)] by (auto simp: not_le)

theorem storage_best_block_witness:
  "\<exists>s :: (bytes \<times> bytes) list storage. largest_block s = 1024 \<and>
    find_block_file (calc_block_size 1025) s = -1 \<and> (\<exists>j<block_type_count s. 300 \<le> block_size_array s ! j)"
proof -
  obtain s :: "(bytes \<times> bytes) list storage" where s: "tables_ok s" "largest_block s = 1024"
    using fresh_store by (auto simp: storage_inv_def)
  then show ?thesis using storage_best_block [of s 1025] storage_best_block [of s 300] by auto
qed

text \<open>
  A value larger than every block, for a key that is not in the store: \<open>update_block\<close> reports
  success and stores nothing.
\<close>

theorem update_oversized_new_key:
  assumes "berkeley_db api view good" and "full_env env" and "storage_inv view good s"
    and "stored view s (fixed_key key) = None" and "largest_block s < length data" and "length data < 2 ^ 31"
  shows "update_block api env key data s = Some (0, s)"
  using assms(1,3,2,4-) by (rule berkeley_db.update_too_large_new)

theorem update_oversized_new_key_witness:
  "\<exists>s. update_block mem_db good_env [2] (replicate 1025 0) s = Some (0, s) \<and> stored map_of s (fixed_key [2]) = None"
proof (rule one_value_store)
  fix s :: "(bytes \<times> bytes) list storage"
  assume s: "storage_inv map_of (\<lambda>d. True) s" "largest_block s = 1024"
    "stored map_of s = [fixed_key [1] \<mapsto> [7, 8]]"
  have none: "stored map_of s (fixed_key [2]) = None" using s(3) by (simp add: fixed_key_def KEY_LEN_def)
  then show ?thesis
    using update_oversized_new_key [OF mem.berkeley_db_axioms full_good_env s(1) none, of "replicate 1025 0"] s(2)
    by auto
qed

text \<open>
  C36. A value larger than every block, for a key that is in the store: \<open>update_block\<close> fails with
  -3, and the value the key had is gone.
\<close>

theorem update_oversized_loses_value:
  assumes "berkeley_db api view good" and "full_env env" and "storage_inv view good s"
    and "stored view s (fixed_key key) \<noteq> None" and "room n s"
    and "largest_block s < length data" and "length data < 2 ^ 31"
  shows "\<exists>s'. update_block api env key data s = Some (-3, s') \<and> storage_inv view good s' \<and>
    stored view s' = (stored view s)(fixed_key key := None)"
  using assms(1,3,2,4-) by (rule berkeley_db.update_too_large_old)

theorem update_oversized_loses_value_witness:
  "\<exists>s s'. stored map_of s (fixed_key [1]) = Some [7, 8] \<and>
    update_block mem_db good_env [1] (replicate 1025 0) s = Some (-3, s') \<and> stored map_of s' (fixed_key [1]) = None"
proof (rule one_value_store)
  fix s :: "(bytes \<times> bytes) list storage"
  assume s: "storage_inv map_of (\<lambda>d. True) s" "largest_block s = 1024"
    "stored map_of s = [fixed_key [1] \<mapsto> [7, 8]]" "room 999 s"
  have old: "stored map_of s (fixed_key [1]) \<noteq> None" using s(3) by simp
  obtain s' where "update_block mem_db good_env [1] (replicate 1025 0) s = Some (-3, s')"
      "stored map_of s' = (stored map_of s)(fixed_key [1] := None)"
    using update_oversized_loses_value [OF mem.berkeley_db_axioms full_good_env s(1) old s(4), of "replicate 1025 0"]
      s(2) by auto
  then show ?thesis using s(3) by (intro exI [where x = s] exI [where x = s']) simp
qed

text \<open>
  An index that refuses a new record: \<open>append_block\<close> ignores the failure of
  \<open>insert_record\<close>, so \<open>update_block\<close> of a new key reports success while the key stays absent.
\<close>

theorem update_ignores_index_failure:
  assumes "berkeley_db api view good" and "storage_inv view good s" and "full_env env"
    and "stored view s (fixed_key key) = None" and "length data \<le> largest_block s" and "e \<noteq> 0"
  shows "\<exists>s'. update_block (api\<lparr>db_put := \<lambda>d k v. (e, d)\<rparr>) env key data s = Some (0, s') \<and>
    stored view s' (fixed_key key) = None"
  using assms by (rule berkeley_db.update_index_refuses)

theorem update_ignores_index_failure_witness:
  "\<exists>s s'. update_block (mem_db\<lparr>db_put := \<lambda>d k v. (28, d)\<rparr>) good_env [2] [5] s = Some (0, s') \<and>
    stored map_of s' (fixed_key [2]) = None"
proof (rule one_value_store)
  fix s :: "(bytes \<times> bytes) list storage"
  assume s: "storage_inv map_of (\<lambda>d. True) s" "largest_block s = 1024"
    "stored map_of s = [fixed_key [1] \<mapsto> [7, 8]]"
  have none: "stored map_of s (fixed_key [2]) = None" using s(3) by (simp add: fixed_key_def KEY_LEN_def)
  show ?thesis
    using update_ignores_index_failure [OF mem.berkeley_db_axioms s(1) full_good_env none, of "[5]" 28] s(2)
    by auto
qed

text \<open>
  \<open>open_storage\<close> marks the data files as open before it opens them: when it fails because a
  file cannot be created, its next call reports success without opening any, and the first
  \<open>update_block\<close> then aborts the process.
\<close>

theorem open_storage_retry_aborts:
  assumes "berkeley_db api view good" and "full_env env" and "classes_for l c" and "\<not> inited_global_vars s"
    and "error_no b = 0" and "good (dbp b)" and "view (dbp b) = (\<lambda>_. None)" and "length data \<le> BEGINNING_SIZE * 2 ^ (c - 1)"
  shows "\<exists>s1 s2. open_storage env True newfd False (\<lambda>_. None) (Inr b) (Some (Some il)) l s = Some (-2, s1, False) \<and>
    open_storage env True newfd True (\<lambda>_. None) (Inr b) (Some (Some il)) l s1 = Some (0, s2, True) \<and>
    update_block api env key data s2 = None"
proof -
  obtain s1 where s1: "open_storage env True newfd False (\<lambda>_. None) (Inr b) (Some (Some il)) l s = Some (-2, s1, False)"
      "inited_global_vars s1" "block_type_count s1 = c" "length (block_size_array s1) = MAX_BLOCK_CNT"
      "\<forall>j<c. block_size_array s1 ! j = BEGINNING_SIZE * 2 ^ j"
      "block_filehandler_array s1 = replicate MAX_BLOCK_CNT closed_file"
    using open_first_fails [OF _ assms(3,4), of env newfd "Inr b" "Some (Some il)"] assms(2) by (auto simp: full_env_def)
  define t where "t = s1\<lparr>indexdb := b, index_logger := il\<rparr>"
  have td: "indexdb t = b" "error_no b = 0" "block_type_count t = c" "inited_global_vars t"
      "length (block_size_array t) = MAX_BLOCK_CNT" "\<forall>j<c. block_size_array t ! j = BEGINNING_SIZE * 2 ^ j"
      "block_filehandler_array t = replicate MAX_BLOCK_CNT closed_file"
    using s1 assms(5) by (simp_all add: t_def)
  have e: "e_mem env" using assms(2) by (simp add: full_env_def)
  have c: "1 \<le> c" "c \<le> MAX_BLOCK_CNT" using assms(3) by (auto simp: classes_for_def)
  have t: "tables_ok t" using td c by (simp add: tables_ok_def)
  have "length data \<le> largest_block t" using largest_block_classes [OF t] td(3) assms(8) by simp
  then obtain j where j: "find_block_file (calc_block_size (length data)) t = int j" "j < c"
    using size_class [OF t, of "length data" thesis] td(3) by simp
  have "fd (handler t j) = 0" using j(2) c(2) td(7) by (simp add: handler_def closed_file_def)
  then have "append_block api env j (fixed_key key) data t = None"
    using j(2) td(3) by (simp add: append_block_def)
  moreover have "find_record api True (indexdb t) (fixed_key key) sizeof_value = (DB_NOTFOUND api, None, indexdb t)"
    using assms(6,7) td(1) by (intro berkeley_db.find_record_missing [OF assms(1)]) auto
  ultimately have "update_block api env key data t = None"
    using j(1) berkeley_db.notfound_code [OF assms(1)] e by (simp add: update_block_def size_of_int_def Let_def)
  then show ?thesis using s1(1) open_again_skips [OF e s1(2) assms(5)] unfolding t_def by blast
qed

theorem open_storage_retry_aborts_witness:
  "\<exists>s1 s2. open_small (\<lambda>i. 3) False (\<lambda>_. None) fresh_index start_storage = Some (-2, s1, False) \<and>
    open_small (\<lambda>i. 3) True (\<lambda>_. None) fresh_index s1 = Some (0, s2, True) \<and>
    update_block mem_db good_env [1] [7, 8] s2 = None"
  by (rule open_storage_retry_aborts [OF mem.berkeley_db_axioms full_good_env classes_1024])
    (simp_all add: start_storage_def BEGINNING_SIZE_def)

end
