(* ===== verification/Memcached_Protocol.thy ===== *)
theory Memcached_Protocol
  imports Prelude "HOL-Library.Monad_Syntax"
begin

text \<open>
  \<^verbatim>\<open>src/src/memcached_protocol.c\<close> and \<^verbatim>\<open>src/include/memcached_protocol.h\<close>: the parser of request
  lines. The parser works on a copy of the 512-byte head buffer that \<open>strtok_r\<close> and \<open>ScanKey\<close>
  cut in place, so the model keeps the buffer and positions in it. The string functions of the C
  library that the parser calls are modelled on byte lists: \<open>strtok_r\<close> with the delimiter space,
  \<open>strcasecmp\<close> in the C locale, \<open>atoi\<close> and \<open>atol\<close> through \<open>strtol\<close>, which saturates.

  The lemmas show that a request line in the documented format parses to its parts, that whatever
  is parsed leaves a terminated key, and where the scanner of keys reads outside its argument.
\<close>

section \<open>Strings of the C library\<close>

definition cstr_at :: "bytes \<Rightarrow> nat \<Rightarrow> bytes" where
  "cstr_at buf p = takeWhile (\<lambda>c. c \<noteq> 0) (drop p buf)"

abbreviation "cstr buf \<equiv> cstr_at buf 0"

definition SP :: u8 where "SP = 32"
definition CR :: u8 where "CR = 13"
definition LF :: u8 where "LF = 10"

lemmas char_defs = SP_def CR_def LF_def

definition skip_spaces :: "bytes \<Rightarrow> nat \<Rightarrow> nat" where
  "skip_spaces buf p = p + length (takeWhile (\<lambda>c. c = SP) (drop p buf))"

text \<open>\<open>strtok_r\<close> from a position: the start of the token, the buffer with the token cut off, and
  the position where the next call goes on.\<close>

definition strtok_r :: "bytes \<Rightarrow> nat \<Rightarrow> nat option \<times> bytes \<times> nat" where
  "strtok_r buf p =
    (let q = skip_spaces buf p
     in if buf ! q = 0 then (None, buf, q)
        else let e = q + length (takeWhile (\<lambda>c. c \<noteq> SP \<and> c \<noteq> 0) (drop q buf))
             in if buf ! e = 0 then (Some q, buf, e) else (Some q, buf[e := 0], e + 1))"

definition tolower :: "u8 \<Rightarrow> u8" where
  "tolower c = (if 65 \<le> c \<and> c \<le> 90 then c + 32 else c)"

definition strcaseeq :: "bytes \<Rightarrow> bytes \<Rightarrow> bool" where
  "strcaseeq a b \<longleftrightarrow> map tolower a = map tolower b"

definition is_digit :: "u8 \<Rightarrow> bool" where "is_digit c \<longleftrightarrow> 48 \<le> c \<and> c \<le> 57"
definition is_space :: "u8 \<Rightarrow> bool" where "is_space c \<longleftrightarrow> c = SP \<or> 9 \<le> c \<and> c \<le> 13"

definition digits_value :: "bytes \<Rightarrow> nat" where
  "digits_value ds = foldl (\<lambda>a d. a * 10 + (unat d - 48)) 0 ds"

definition strtol :: "bytes \<Rightarrow> int" where
  "strtol s =
    (let s = dropWhile is_space s;
         neg = (s \<noteq> [] \<and> hd s = 45);
         s = (if s \<noteq> [] \<and> (hd s = 45 \<or> hd s = 43) then tl s else s);
         v = int (digits_value (takeWhile is_digit s))
     in max (- (2 ^ 63)) (min (2 ^ 63 - 1) (if neg then - v else v)))"

definition atoi :: "bytes \<Rightarrow> int" where
  "atoi s = sint (word_of_int (strtol s) :: 32 word)"

definition atol :: "bytes \<Rightarrow> int" where "atol s = strtol s"

text \<open>\<open>strstr\<close> with the two bytes of the line end.\<close>

fun find_crlf :: "bytes \<Rightarrow> nat option" where
  "find_crlf (a # b # s) = (if a = CR \<and> b = LF then Some 0 else map_option Suc (find_crlf (b # s)))"
| "find_crlf _ = None"

section \<open>Requests\<close>

definition MAX_KEY_SIZE :: nat where "MAX_KEY_SIZE = 251"
definition MAX_QUERY_HEADER_SIZE :: nat where "MAX_QUERY_HEADER_SIZE = 512"

lemmas protocol_consts = MAX_KEY_SIZE_def MAX_QUERY_HEADER_SIZE_def

datatype cmd_type_e = cmd_unknown | cmd_set | cmd_get | cmd_delete | cmd_sync | cmd_power

datatype parse_status_e = ps_unknown | ps_succ | ps_failed

record query_request_s =
  query_head_buf :: bytes
  query_head_buf_size :: nat
  qr_data :: "bytes option"
  qr_data_size :: u64
  qr_cmd_type :: cmd_type_e
  qr_parse_status :: parse_status_e
  qr_flag :: int
  qr_exptime :: int
  qr_key :: bytes

definition strncpy :: "nat \<Rightarrow> bytes \<Rightarrow> bytes" where
  "strncpy n s = take n (s @ replicate n 0)"

section \<open>The parser\<close>

text \<open>An access through a pointer that the code computes itself, by an index that may be negative: \<open>None\<close> is an
  access outside of the array.\<close>

definition byte_at :: "bytes \<Rightarrow> int \<Rightarrow> u8 option" where
  "byte_at buf i = (if 0 \<le> i \<and> i < int (length buf) then Some (buf ! nat i) else None)"

definition put_byte :: "bytes \<Rightarrow> int \<Rightarrow> u8 \<Rightarrow> bytes option" where
  "put_byte buf i c = (if 0 \<le> i \<and> i < int (length buf) then Some (buf[nat i := c]) else None)"

text \<open>\<open>ScanKey\<close>: the key it copies, or \<open>Some None\<close> where the macro returns \<open>false\<close>.\<close>

definition ScanKey :: "bytes \<Rightarrow> nat \<Rightarrow> bytes option option" where
  "ScanKey buf p =
    (let p = skip_spaces buf p;
         e = int p + int (length (cstr_at buf p))
     in do {
       c \<leftarrow> byte_at buf (e - 1);
       if c \<noteq> LF then Some None
       else do {
         c \<leftarrow> byte_at buf (e - 2);
         if c \<noteq> CR then Some None
         else do {
           c \<leftarrow> byte_at buf (e - 3);
           buf \<leftarrow> put_byte buf (if c = SP then e - 3 else e - 2) 0;
           Some (Some ((strncpy MAX_KEY_SIZE (cstr_at buf p))[MAX_KEY_SIZE - 1 := 0]))
         }
       }
     })"

definition parse_power_cmd :: "bytes \<Rightarrow> nat \<Rightarrow> query_request_s \<Rightarrow> (bool \<times> query_request_s) option" where
  "parse_power_cmd buf p qr = do {
    key \<leftarrow> ScanKey buf p;
    Some (case key of
      None \<Rightarrow> (False, qr)
    | Some k \<Rightarrow> (if strcaseeq (cstr k) (str ''halt'') then True else False, qr\<lparr>qr_key := k\<rparr>))
  }"

definition parse_sync_cmd :: "bytes \<Rightarrow> nat \<Rightarrow> query_request_s \<Rightarrow> (bool \<times> query_request_s) option" where
  "parse_sync_cmd buf p qr = do {
    key \<leftarrow> ScanKey buf p;
    Some (case key of
      None \<Rightarrow> (False, qr)
    | Some k \<Rightarrow>
        (if strcaseeq (cstr k) (str ''index'') then True
         else if strcaseeq (cstr k) (str ''all'') then True else False, qr\<lparr>qr_key := k\<rparr>))
  }"

definition parse_get_cmd :: "bytes \<Rightarrow> nat \<Rightarrow> query_request_s \<Rightarrow> (bool \<times> query_request_s) option" where
  "parse_get_cmd buf p qr = do {
    key \<leftarrow> ScanKey buf p;
    Some (case key of None \<Rightarrow> (False, qr) | Some k \<Rightarrow> (True, qr\<lparr>qr_key := k\<rparr>))
  }"

definition parse_delete_cmd :: "bytes \<Rightarrow> nat \<Rightarrow> query_request_s \<Rightarrow> (bool \<times> query_request_s) option" where
  "parse_delete_cmd buf p qr = do {
    key \<leftarrow> ScanKey buf p;
    Some (case key of None \<Rightarrow> (False, qr) | Some k \<Rightarrow> (True, qr\<lparr>qr_key := k\<rparr>))
  }"

datatype parse_set_state_s = SetKey | SetFlag | SetExptime | SetBytes | SetDone | SetFailed

definition set_rank :: "parse_set_state_s \<Rightarrow> nat" where
  "set_rank st = (case st of SetKey \<Rightarrow> 5 | SetFlag \<Rightarrow> 4 | SetExptime \<Rightarrow> 3 | SetBytes \<Rightarrow> 2 | SetFailed \<Rightarrow> 1 | SetDone \<Rightarrow> 0)"

text \<open>The loop of \<open>parse_set_cmd\<close> over its states.\<close>

function parse_set_loop ::
  "parse_set_state_s \<Rightarrow> bytes \<Rightarrow> nat \<Rightarrow> bool \<Rightarrow> query_request_s \<Rightarrow> bool \<times> query_request_s" where
  "parse_set_loop st buf p retval qr =
    (case st of
      SetDone \<Rightarrow> (retval, qr)
    | SetKey \<Rightarrow>
        (case strtok_r buf p of
          (None, buf, p) \<Rightarrow> parse_set_loop SetFailed buf p retval qr
        | (Some t, buf, p) \<Rightarrow>
            if length (cstr_at buf t) \<ge> MAX_KEY_SIZE then parse_set_loop SetFailed buf p retval qr
            else parse_set_loop SetFlag buf p retval (qr\<lparr>qr_key := strncpy MAX_KEY_SIZE (cstr_at buf t)\<rparr>))
    | SetFlag \<Rightarrow>
        (case strtok_r buf p of
          (None, buf, p) \<Rightarrow> parse_set_loop SetFailed buf p retval qr
        | (Some t, buf, p) \<Rightarrow> parse_set_loop SetExptime buf p retval (qr\<lparr>qr_flag := atoi (cstr_at buf t)\<rparr>))
    | SetExptime \<Rightarrow>
        (case strtok_r buf p of
          (None, buf, p) \<Rightarrow> parse_set_loop SetFailed buf p retval qr
        | (Some t, buf, p) \<Rightarrow> parse_set_loop SetBytes buf p retval (qr\<lparr>qr_exptime := atoi (cstr_at buf t)\<rparr>))
    | SetBytes \<Rightarrow>
        (case strtok_r buf p of
          (None, buf, p) \<Rightarrow> parse_set_loop SetFailed buf p retval qr
        | (Some t, buf, p) \<Rightarrow>
            parse_set_loop SetDone buf p retval (qr\<lparr>qr_data_size := word_of_int (atol (cstr_at buf t))\<rparr>))
    | SetFailed \<Rightarrow> parse_set_loop SetDone buf p False qr)"
  by pat_completeness auto

termination
  by (relation "measure (\<lambda>(st, buf, p, r, qr). set_rank st)") (auto simp: set_rank_def)

declare parse_set_loop.simps [simp del]

definition parse_set_cmd :: "bytes \<Rightarrow> nat \<Rightarrow> query_request_s \<Rightarrow> (bool \<times> query_request_s) option" where
  "parse_set_cmd buf p qr =
    (let e = int p + int (length (cstr_at buf p))
     in do {
       c \<leftarrow> byte_at buf (e - 1);
       if c \<noteq> LF then Some (False, qr)
       else do {
         c \<leftarrow> byte_at buf (e - 2);
         if c \<noteq> CR then Some (False, qr)
         else do {
           buf \<leftarrow> put_byte buf (e - 2) 0;
           Some (parse_set_loop SetKey buf p True qr)
         }
       }
     })"

text \<open>\<open>HandleCmd\<close>, with what follows it in the loop: on failure the state is \<open>s_fatal\<close>.\<close>

definition HandleCmd :: "cmd_type_e \<Rightarrow> (bool \<times> query_request_s) option \<Rightarrow> (int \<times> query_request_s) option" where
  "HandleCmd ty r = do {
    (ok, qr) \<leftarrow> r;
    Some (if ok then (RET_SUCCESS, qr\<lparr>qr_cmd_type := ty, qr_parse_status := ps_succ\<rparr>)
          else (RET_PARSE_REQ_FAILED, qr\<lparr>qr_cmd_type := ty, qr_parse_status := ps_failed\<rparr>))
  }"

text \<open>The parser; \<open>None\<close> is an access outside of the buffer.\<close>

definition parse_memcached_string_head :: "query_request_s \<Rightarrow> (int \<times> query_request_s) option" where
  "parse_memcached_string_head qr =
    (let qr = qr\<lparr>qr_cmd_type := cmd_unknown\<rparr>;
         buf = (query_head_buf qr)[MAX_QUERY_HEADER_SIZE - 1 := 0]
     in case strtok_r buf 0 of
       (None, buf, p) \<Rightarrow> Some (RET_PARSE_REQ_FAILED, qr\<lparr>qr_parse_status := ps_failed\<rparr>)
     | (Some t, buf, p) \<Rightarrow>
         let token = cstr_at buf t
         in if strcaseeq token (str ''get'') then HandleCmd cmd_get (parse_get_cmd buf p qr)
            else if strcaseeq token (str ''set'') then HandleCmd cmd_set (parse_set_cmd buf p qr)
            else if strcaseeq token (str ''delete'') then HandleCmd cmd_delete (parse_delete_cmd buf p qr)
            else if strcaseeq token (str ''sync'') then HandleCmd cmd_sync (parse_sync_cmd buf p qr)
            else if strcaseeq token (str ''power'') then HandleCmd cmd_power (parse_power_cmd buf p qr)
            else Some (RET_PARSE_REQ_FAILED, qr\<lparr>qr_parse_status := ps_failed\<rparr>))"

text \<open>\<open>try_parse_memcached_string_head\<close>: the position of the line end. A full head buffer has no
  terminator; the search then goes on into the next field of the struct.\<close>

definition try_parse_memcached_string_head :: "query_request_s \<Rightarrow> nat option" where
  "try_parse_memcached_string_head qr =
    find_crlf (cstr (query_head_buf qr @ le_bytes 8 (query_head_buf_size qr)))"

definition cmd_type_name :: "cmd_type_e \<Rightarrow> string" where
  "cmd_type_name ty =
    (case ty of cmd_unknown \<Rightarrow> ''unknow cmd_type'' | cmd_set \<Rightarrow> ''SET'' | cmd_get \<Rightarrow> ''GET''
     | cmd_delete \<Rightarrow> ''DELETE'' | cmd_sync \<Rightarrow> ''SYNC'' | cmd_power \<Rightarrow> ''POWER'')"

section \<open>Tokens in a buffer\<close>

text \<open>A word: what a client may send as a key or a number.\<close>

definition word_chars :: "bytes \<Rightarrow> bool" where
  "word_chars w \<longleftrightarrow> w \<noteq> [] \<and> (\<forall>c\<in>set w. c \<noteq> 0 \<and> c \<noteq> SP)"

lemma takeWhile_stop: "\<forall>x\<in>set xs. P x \<Longrightarrow> \<not> P y \<Longrightarrow> takeWhile P (xs @ y # zs) = xs"
  by (induction xs) auto

lemma cstr_at_append:
  "\<forall>c\<in>set w. c \<noteq> 0 \<Longrightarrow> cstr_at (pre @ w @ 0 # post) (length pre) = w"
  by (simp add: cstr_at_def takeWhile_stop)

lemma skip_none: "word_chars w \<Longrightarrow> skip_spaces (pre @ w @ post) (length pre) = length pre"
  by (cases w) (auto simp: skip_spaces_def word_chars_def)

lemma strtok_word:
  assumes w: "word_chars w"
  shows "strtok_r (pre @ w @ SP # post) (length pre) =
      (Some (length pre), pre @ w @ 0 # post, length (pre @ w @ [0]))"
    and "strtok_r (pre @ w @ 0 # post) (length pre) =
      (Some (length pre), pre @ w @ 0 # post, length (pre @ w))"
proof -
  obtain c cs where c: "w = c # cs" "c \<noteq> 0" using w by (cases w) (auto simp: word_chars_def)
  have h: "(pre @ w @ x # post) ! length pre = c" "(pre @ w @ x # post) ! (length pre + length w) = x" for x
    using c(1) by (simp_all add: nth_append)
  have u: "(pre @ w @ x # post)[length pre + length w := 0] = pre @ w @ 0 # post" for x
    by (simp add: list_update_append)
  have "takeWhile (\<lambda>c. c \<noteq> SP \<and> c \<noteq> 0) (w @ x # post) = w" if "x = SP \<or> x = 0" for x
    using w that by (intro takeWhile_stop) (auto simp: word_chars_def)
  then show "strtok_r (pre @ w @ SP # post) (length pre) =
      (Some (length pre), pre @ w @ 0 # post, length (pre @ w @ [0]))"
    and "strtok_r (pre @ w @ 0 # post) (length pre) =
      (Some (length pre), pre @ w @ 0 # post, length (pre @ w))"
    using skip_none [OF w] h c(2) u by (simp_all add: strtok_r_def Let_def SP_def)
qed

section \<open>Numbers\<close>

fun decimal :: "nat \<Rightarrow> bytes" where
  "decimal n = (if n < 10 then [word_of_nat (48 + n)] else decimal (n div 10) @ [word_of_nat (48 + n mod 10)])"

declare decimal.simps [simp del]

lemma digit_char:
  assumes "d < 10"
  shows "unat (word_of_nat (48 + d) :: u8) = 48 + d" "is_digit (word_of_nat (48 + d))"
proof -
  show *: "unat (word_of_nat (48 + d) :: u8) = 48 + d"
    using assms by (simp only: unat_of_nat) simp
  show "is_digit (word_of_nat (48 + d))"
    using assms unfolding is_digit_def word_le_nat_alt * by simp
qed

lemma decimal_digits: "\<forall>c\<in>set (decimal n). is_digit c"
proof (induction n rule: decimal.induct)
  case (1 n)
  then show ?case using digit_char(2) [of n] digit_char(2) [of "n mod 10"] by (subst decimal.simps) auto
qed

lemma decimal_value: "digits_value (decimal n) = n"
proof (induction n rule: decimal.induct)
  case (1 n)
  show ?case
  proof (cases "n < 10")
    case True
    then show ?thesis using digit_char(1) by (subst decimal.simps) (simp add: digits_value_def)
  next
    case False
    then have "digits_value (decimal (n div 10)) = n div 10" using 1 by simp
    then show ?thesis
      using False digit_char(1) [of "n mod 10"] by (subst decimal.simps) (simp add: digits_value_def)
  qed
qed

lemma decimal_nonempty: "decimal n \<noteq> []"
  by (subst decimal.simps) simp

lemma digit_not_special: "is_digit c \<Longrightarrow> c \<noteq> 0 \<and> c \<noteq> SP \<and> c \<noteq> 45 \<and> c \<noteq> 43 \<and> \<not> is_space c"
  by (auto simp: is_digit_def is_space_def SP_def word_le_nat_alt)

lemma decimal_word: "word_chars (decimal n)"
  using decimal_digits [of n] decimal_nonempty digit_not_special by (auto simp: word_chars_def)

lemma strtol_decimal: "n < 2 ^ 63 \<Longrightarrow> strtol (decimal n) = int n"
proof -
  assume n: "n < 2 ^ 63"
  obtain c cs where c: "decimal n = c # cs" using decimal_nonempty [of n] by (cases "decimal n") auto
  have "\<forall>c\<in>set (c # cs). is_digit c" using decimal_digits [of n] c by simp
  then have "dropWhile is_space (c # cs) = c # cs" "c \<noteq> 45" "c \<noteq> 43" "takeWhile is_digit (c # cs) = c # cs"
    using digit_not_special [of c] by (auto simp: takeWhile_eq_all_conv)
  then show ?thesis using decimal_value [of n] c n by (simp add: strtol_def Let_def)
qed

lemma atoi_decimal: "n < 2 ^ 31 \<Longrightarrow> atoi (decimal n) = int n"
  by (simp add: atoi_def strtol_decimal sint_uint uint_nat unat_of_nat signed_take_bit_int_eq_self)

section \<open>Request lines\<close>

text \<open>The documented format of a request line.\<close>

definition set_line :: "bytes \<Rightarrow> bytes \<Rightarrow> nat \<Rightarrow> nat \<Rightarrow> nat \<Rightarrow> bytes" where
  "set_line cmd k f e n = cmd @ SP # k @ SP # decimal f @ SP # decimal e @ SP # decimal n @ [CR, LF]"

definition key_line :: "bytes \<Rightarrow> bytes \<Rightarrow> bytes" where
  "key_line cmd k = cmd @ SP # k @ [CR, LF]"

definition head_holds :: "bytes \<Rightarrow> bytes \<Rightarrow> bool" where
  "head_holds buf line \<longleftrightarrow> length buf = MAX_QUERY_HEADER_SIZE \<and> (\<exists>rest. buf = line @ 0 # rest)"

lemma head_holds_copy:
  assumes "head_holds buf line"
  obtains rest where "buf[MAX_QUERY_HEADER_SIZE - 1 := 0] = line @ 0 # rest"
proof -
  obtain rest where r: "buf = line @ 0 # rest" "length buf = 512"
    using assms by (auto simp: head_holds_def protocol_consts)
  show ?thesis
  proof (cases rest rule: rev_cases)
    case Nil
    then have "buf[511 := 0] = line @ 0 # []" using r by (simp add: list_update_append)
    then show ?thesis using that [of "[]"] by (simp add: protocol_consts)
  next
    case (snoc rs x)
    then have "buf = (line @ 0 # rs) @ [x]" "length (line @ 0 # rs) = 511" using r by simp_all
    then have "buf[511 := 0] = (line @ 0 # rs) @ [0]" by (simp only: list_update_append) simp
    then show ?thesis using that [of "rs @ [0]"] by (simp add: protocol_consts)
  qed
qed

lemma cstr_at_word: "word_chars w \<Longrightarrow> buf = pre @ w @ 0 # post \<Longrightarrow> p = length pre \<Longrightarrow> cstr_at buf p = w"
  using cstr_at_append by (simp add: word_chars_def)

text \<open>The loop on four words.\<close>

lemma parse_set_words:
  assumes k: "word_chars k" "length k < MAX_KEY_SIZE" and f: "word_chars f" and e: "word_chars e" and n: "word_chars n"
  shows "parse_set_loop SetKey (pre @ k @ SP # f @ SP # e @ SP # n @ 0 # post) (length pre) True qr =
    (True, qr\<lparr>qr_key := strncpy MAX_KEY_SIZE k, qr_flag := atoi f, qr_exptime := atoi e,
      qr_data_size := word_of_int (atol n)\<rparr>)"
proof -
  let ?b0 = "pre @ k @ SP # f @ SP # e @ SP # n @ 0 # post"
  let ?b1 = "pre @ k @ 0 # f @ SP # e @ SP # n @ 0 # post" and ?p1 = "pre @ k @ [0]"
  let ?b2 = "?p1 @ f @ 0 # e @ SP # n @ 0 # post" and ?p2 = "?p1 @ f @ [0]"
  let ?b3 = "?p2 @ e @ 0 # n @ 0 # post" and ?p3 = "?p2 @ e @ [0]"
  have t: "strtok_r ?b0 (length pre) = (Some (length pre), ?b1, length ?p1)"
    "strtok_r ?b1 (length ?p1) = (Some (length ?p1), ?b2, length ?p2)"
    "strtok_r ?b2 (length ?p2) = (Some (length ?p2), ?b3, length ?p3)"
    "strtok_r ?b3 (length ?p3) = (Some (length ?p3), ?b3, length ?p3 + length n)"
    using strtok_word(1) [OF k(1), of pre "f @ SP # e @ SP # n @ 0 # post"]
      strtok_word(1) [OF f, of ?p1 "e @ SP # n @ 0 # post"] strtok_word(1) [OF e, of ?p2 "n @ 0 # post"]
      strtok_word(2) [OF n, of ?p3 post]
    by simp_all
  have c: "cstr_at ?b1 (length pre) = k" "cstr_at ?b2 (length ?p1) = f" "cstr_at ?b3 (length ?p2) = e"
    "cstr_at ?b3 (length ?p3) = n"
    using cstr_at_word [OF k(1), of ?b1 pre "f @ SP # e @ SP # n @ 0 # post" "length pre"]
      cstr_at_word [OF f, of ?b2 ?p1 "e @ SP # n @ 0 # post" "length ?p1"]
      cstr_at_word [OF e, of ?b3 ?p2 "n @ 0 # post" "length ?p2"] cstr_at_word [OF n, of ?b3 ?p3 post "length ?p3"]
    by simp_all
  let ?q1 = "qr\<lparr>qr_key := strncpy MAX_KEY_SIZE k\<rparr>"
  let ?q2 = "?q1\<lparr>qr_flag := atoi f\<rparr>"
  let ?q3 = "?q2\<lparr>qr_exptime := atoi e\<rparr>"
  have "parse_set_loop SetKey ?b0 (length pre) True qr = parse_set_loop SetFlag ?b1 (length ?p1) True ?q1"
    using k(2) by (subst parse_set_loop.simps) (simp only: t c prod.case option.case parse_set_state_s.case, simp)
  also have "\<dots> = parse_set_loop SetExptime ?b2 (length ?p2) True ?q2"
    by (subst parse_set_loop.simps) (simp only: t c prod.case option.case parse_set_state_s.case)
  also have "\<dots> = parse_set_loop SetBytes ?b3 (length ?p3) True ?q3"
    by (subst parse_set_loop.simps) (simp only: t c prod.case option.case parse_set_state_s.case)
  also have "\<dots> = parse_set_loop SetDone ?b3 (length ?p3 + length n) True
      (?q3\<lparr>qr_data_size := word_of_int (atol n)\<rparr>)"
    by (subst parse_set_loop.simps) (simp only: t c prod.case option.case parse_set_state_s.case)
  finally show ?thesis by (simp add: parse_set_loop.simps [of SetDone])
qed

lemma byte_at_append:
  "i = int (length pre) \<Longrightarrow> byte_at (pre @ c # post) i = Some c"
  "i = int (length pre) \<Longrightarrow> put_byte (pre @ c # post) i d = Some (pre @ d # post)"
  by (simp_all add: byte_at_def put_byte_def)

lemma line_end:
  assumes b: "\<forall>c\<in>set body. c \<noteq> 0" and e: "e = int (length pre) + int (length (cstr_at (pre @ body @ CR # LF # 0 # rest) (length pre)))"
  shows "byte_at (pre @ body @ CR # LF # 0 # rest) (e - 1) = Some LF" "byte_at (pre @ body @ CR # LF # 0 # rest) (e - 2) = Some CR"
    "put_byte (pre @ body @ CR # LF # 0 # rest) (e - 2) 0 = Some (pre @ body @ 0 # LF # 0 # rest)" "e = int (length (pre @ body) + 2)"
proof -
  have "cstr_at (pre @ (body @ [CR, LF]) @ 0 # rest) (length pre) = body @ [CR, LF]"
    using b by (intro cstr_at_append) (auto simp: char_defs)
  then show n: "e = int (length (pre @ body) + 2)" using e by simp
  show "byte_at (pre @ body @ CR # LF # 0 # rest) (e - 1) = Some LF" "byte_at (pre @ body @ CR # LF # 0 # rest) (e - 2) = Some CR"
    "put_byte (pre @ body @ CR # LF # 0 # rest) (e - 2) 0 = Some (pre @ body @ 0 # LF # 0 # rest)"
    using byte_at_append(1) [of "e - 1" "pre @ body @ [CR]" LF "0 # rest"] byte_at_append [of "e - 2" "pre @ body" CR "LF # 0 # rest"] n
    by simp_all
qed

lemma parse_set_cmd_words:
  assumes k: "word_chars k" "length k < MAX_KEY_SIZE" and w: "word_chars f" "word_chars e" "word_chars n"
  shows "parse_set_cmd (pre @ k @ SP # f @ SP # e @ SP # n @ CR # LF # 0 # rest) (length pre) qr =
    Some (True, qr\<lparr>qr_key := strncpy MAX_KEY_SIZE k, qr_flag := atoi f, qr_exptime := atoi e,
      qr_data_size := word_of_int (atol n)\<rparr>)"
proof -
  let ?body = "k @ SP # f @ SP # e @ SP # n"
  have b: "\<forall>c\<in>set ?body. c \<noteq> 0" using k w by (auto simp: word_chars_def SP_def)
  note e = line_end(1-3) [OF b refl, of pre rest, simplified append_assoc append_Cons append_Nil]
  show ?thesis
    unfolding parse_set_cmd_def Let_def using e parse_set_words [OF k w, of pre "LF # 0 # rest" qr] by simp
qed

lemma parse_key_scan:
  assumes k: "word_chars k" "length k < MAX_KEY_SIZE"
  shows "ScanKey (pre @ k @ CR # LF # 0 # rest) (length pre) = Some (Some (strncpy MAX_KEY_SIZE k))"
proof -
  have k0: "\<forall>c\<in>set k. c \<noteq> 0" using k by (auto simp: word_chars_def)
  note e = line_end [OF k0 refl, of pre rest]
  obtain k' c where c: "k = k' @ [c]" "c \<noteq> SP" using k by (cases k rule: rev_cases) (auto simp: word_chars_def)
  have "byte_at (pre @ k @ CR # LF # 0 # rest) (int (length (pre @ k) + 2) - 3) = Some c"
    using byte_at_append(1) [of _ "pre @ k'" c "CR # LF # 0 # rest"] c by simp
  moreover have "cstr_at (pre @ k @ 0 # LF # 0 # rest) (length pre) = k"
    using cstr_at_word [OF k(1) refl refl] by blast
  moreover have "(strncpy MAX_KEY_SIZE k)[MAX_KEY_SIZE - 1 := 0] = strncpy MAX_KEY_SIZE k"
    using k(2) by (intro nth_equalityI) (auto simp: strncpy_def nth_list_update nth_append)
  ultimately show ?thesis
    using skip_none [OF k(1), of pre "CR # LF # 0 # rest"] e(1-3) c(2) unfolding ScanKey_def Let_def by (simp add: e(4))
qed

text \<open>Commands are compared without regard to case.\<close>

lemma strcaseeq_trans: "strcaseeq a b \<Longrightarrow> strcaseeq a c \<Longrightarrow> strcaseeq b c"
  by (simp add: strcaseeq_def)

lemma tolower_special: "(tolower c = 0 \<longleftrightarrow> c = 0) \<and> (tolower c = SP \<longleftrightarrow> c = SP)"
proof -
  have "c + 32 \<noteq> 0 \<and> c + 32 \<noteq> 32" if "65 \<le> c" "c \<le> 90"
    using that by (auto simp: word_le_nat_alt unat_word_ariths word_unat_eq_iff)
  then show ?thesis by (auto simp: tolower_def SP_def)
qed

lemma word_chars_tolower: "word_chars (map tolower w) = word_chars w"
  using tolower_special by (auto simp: word_chars_def)

lemma strcaseeq_word: "strcaseeq a b \<Longrightarrow> word_chars b \<Longrightarrow> word_chars a"
  using word_chars_tolower [of a] word_chars_tolower [of b] by (simp add: strcaseeq_def)

lemma commands_differ:
  "\<not> strcaseeq (str ''set'') (str ''get'')" "\<not> strcaseeq (str ''delete'') (str ''get'')"
  "\<not> strcaseeq (str ''delete'') (str ''set'')" "\<not> strcaseeq (str ''sync'') (str ''get'')"
  "\<not> strcaseeq (str ''sync'') (str ''set'')" "\<not> strcaseeq (str ''sync'') (str ''delete'')"
  by (auto simp: strcaseeq_def tolower_def)

lemma command_words: "word_chars (str ''get'')" "word_chars (str ''set'')" "word_chars (str ''delete'')"
    "word_chars (str ''sync'')" "word_chars (str ''power'')"
  by (simp_all add: word_chars_def SP_def)

lemma head_first_token:
  assumes h: "head_holds (query_head_buf qr) (cmd @ SP # tail)" and w: "word_chars cmd"
  obtains rest where
    "strtok_r ((query_head_buf qr)[MAX_QUERY_HEADER_SIZE - 1 := 0]) 0 =
      (Some 0, (cmd @ [0]) @ tail @ 0 # rest, length (cmd @ [0]))"
    "cstr_at ((cmd @ [0]) @ tail @ 0 # rest) 0 = cmd"
proof -
  obtain rest where r: "(query_head_buf qr)[MAX_QUERY_HEADER_SIZE - 1 := 0] = [] @ cmd @ SP # tail @ 0 # rest"
    using head_holds_copy [OF h] by auto
  show ?thesis
    using that [of rest] strtok_word(1) [OF w, of "[]" "tail @ 0 # rest"]
      cstr_at_word [OF w, of "cmd @ 0 # tail @ 0 # rest" "[]" "tail @ 0 # rest" 0]
    unfolding r by simp
qed

lemma parse_set_head:
  assumes h: "head_holds (query_head_buf qr) (set_line cmd k f e n)" and c: "strcaseeq cmd (str ''set'')"
    and k: "word_chars k" "length k < MAX_KEY_SIZE"
  shows "parse_memcached_string_head qr = Some (RET_SUCCESS,
    qr\<lparr>qr_key := strncpy MAX_KEY_SIZE k, qr_flag := atoi (decimal f), qr_exptime := atoi (decimal e),
      qr_data_size := word_of_int (atol (decimal n)), qr_cmd_type := cmd_set, qr_parse_status := ps_succ\<rparr>)"
proof -
  let ?tail = "k @ SP # decimal f @ SP # decimal e @ SP # decimal n @ [CR, LF]"
  have w: "word_chars cmd" using strcaseeq_word [OF c command_words(2)] .
  obtain rest where r: "strtok_r ((query_head_buf qr)[MAX_QUERY_HEADER_SIZE - 1 := 0]) 0 =
        (Some 0, (cmd @ [0]) @ ?tail @ 0 # rest, length (cmd @ [0]))"
      "cstr_at ((cmd @ [0]) @ ?tail @ 0 # rest) 0 = cmd"
    using head_first_token [of qr cmd ?tail] h w by (auto simp: set_line_def)
  have "\<not> strcaseeq cmd (str ''get'')" using strcaseeq_trans [OF c] commands_differ(1) by blast
  then show ?thesis
    using r c parse_set_cmd_words [OF k decimal_word decimal_word decimal_word, of "cmd @ [0]" f e n rest "qr\<lparr>qr_cmd_type := cmd_unknown\<rparr>"]
    by (simp add: parse_memcached_string_head_def HandleCmd_def Let_def)
qed

lemma parse_get_head:
  assumes h: "head_holds (query_head_buf qr) (key_line cmd k)" and c: "strcaseeq cmd (str ''get'')"
    and k: "word_chars k" "length k < MAX_KEY_SIZE"
  shows "parse_memcached_string_head qr = Some (RET_SUCCESS,
    qr\<lparr>qr_key := strncpy MAX_KEY_SIZE k, qr_cmd_type := cmd_get, qr_parse_status := ps_succ\<rparr>)"
proof -
  have w: "word_chars cmd" using strcaseeq_word [OF c command_words(1)] .
  obtain rest where r: "strtok_r ((query_head_buf qr)[MAX_QUERY_HEADER_SIZE - 1 := 0]) 0 =
        (Some 0, (cmd @ [0]) @ (k @ [CR, LF]) @ 0 # rest, length (cmd @ [0]))"
      "cstr_at ((cmd @ [0]) @ (k @ [CR, LF]) @ 0 # rest) 0 = cmd"
    using head_first_token [of qr cmd "k @ [CR, LF]"] h w by (auto simp: key_line_def)
  then show ?thesis
    using c parse_key_scan [OF k, of "cmd @ [0]" rest]
    by (simp add: parse_memcached_string_head_def HandleCmd_def parse_get_cmd_def Let_def)
qed

lemma parse_delete_head:
  assumes h: "head_holds (query_head_buf qr) (key_line cmd k)" and c: "strcaseeq cmd (str ''delete'')"
    and k: "word_chars k" "length k < MAX_KEY_SIZE"
  shows "parse_memcached_string_head qr = Some (RET_SUCCESS,
    qr\<lparr>qr_key := strncpy MAX_KEY_SIZE k, qr_cmd_type := cmd_delete, qr_parse_status := ps_succ\<rparr>)"
proof -
  have w: "word_chars cmd" using strcaseeq_word [OF c command_words(3)] .
  obtain rest where r: "strtok_r ((query_head_buf qr)[MAX_QUERY_HEADER_SIZE - 1 := 0]) 0 =
        (Some 0, (cmd @ [0]) @ (k @ [CR, LF]) @ 0 # rest, length (cmd @ [0]))"
      "cstr_at ((cmd @ [0]) @ (k @ [CR, LF]) @ 0 # rest) 0 = cmd"
    using head_first_token [of qr cmd "k @ [CR, LF]"] h w by (auto simp: key_line_def)
  moreover have "\<not> strcaseeq cmd (str ''get'')" "\<not> strcaseeq cmd (str ''set'')"
    using strcaseeq_trans [OF c] commands_differ by blast+
  ultimately show ?thesis
    using c parse_key_scan [OF k, of "cmd @ [0]" rest]
    by (simp add: parse_memcached_string_head_def HandleCmd_def parse_delete_cmd_def Let_def)
qed

text \<open>A line whose first word, up to a space, is none of the commands. A command with nothing behind it is not followed by a
  space: its word has the line end in it.\<close>

definition commands :: "bytes list" where
  "commands = [str ''get'', str ''set'', str ''delete'', str ''sync'', str ''power'']"

definition unknown_line :: "bytes \<Rightarrow> bool" where
  "unknown_line line \<longleftrightarrow> line \<noteq> [] \<and> hd line \<noteq> SP \<and> list_all (\<lambda>c. \<not> strcaseeq (takeWhile (\<lambda>c. c \<noteq> SP) line) c) commands"

lemma parse_unknown_head:
  assumes h: "head_holds (query_head_buf qr) line" and u: "unknown_line line" and z: "\<forall>c\<in>set line. c \<noteq> 0"
  shows "parse_memcached_string_head qr = Some (RET_PARSE_REQ_FAILED, qr\<lparr>qr_cmd_type := cmd_unknown, qr_parse_status := ps_failed\<rparr>)"
proof -
  let ?w = "takeWhile (\<lambda>c. c \<noteq> SP) line" and ?buf = "(query_head_buf qr)[MAX_QUERY_HEADER_SIZE - 1 := 0]"
  have w: "word_chars ?w"
    using u z by (cases line) (auto simp: word_chars_def unknown_line_def dest: set_takeWhileD)
  obtain rest where r: "?buf = line @ 0 # rest" using head_holds_copy [OF h] by blast
  have "\<exists>buf p. strtok_r ?buf 0 = (Some 0, buf, p) \<and> cstr_at buf 0 = ?w"
  proof (cases "dropWhile (\<lambda>c. c \<noteq> SP) line")
    case Nil
    then have "?w = line" by (metis append_Nil2 takeWhile_dropWhile_id)
    then have "?buf = [] @ ?w @ 0 # rest" using r by (simp only: append_Nil)
    then have "cstr_at ?buf 0 = ?w" "strtok_r ?buf 0 = (Some 0, ?buf, length ?w)"
      using strtok_word(2) [OF w, of "[]" rest] cstr_at_word [OF w, of ?buf "[]" rest 0] by (simp_all only: append_Nil list.size(3))
    then show ?thesis by blast
  next
    case (Cons c tail)
    then have "c = SP" using dropWhile_eq_Cons_conv [of "\<lambda>c. c \<noteq> SP" line c tail] by simp
    then have "?w @ SP # tail = line" using takeWhile_dropWhile_id [of "\<lambda>c. c \<noteq> SP" line] unfolding Cons by simp
    then have "head_holds (query_head_buf qr) (?w @ SP # tail)" using h by (simp only:)
    from head_first_token [OF this w] show ?thesis by blast
  qed
  then show ?thesis using u by (auto simp: parse_memcached_string_head_def unknown_line_def commands_def Let_def)
qed

section \<open>Any input\<close>

text \<open>A buffer the string functions stay in: it ends with a terminator.\<close>

definition terminated :: "bytes \<Rightarrow> bool" where
  "terminated buf \<longleftrightarrow> buf \<noteq> [] \<and> last buf = 0"

lemma takeWhile_stops_before:
  assumes "terminated buf" and "p < length buf" and "\<not> P 0"
  shows "p + length (takeWhile P (drop p buf)) < length buf"
proof -
  have "last (drop p buf) = 0" "drop p buf \<noteq> []" using assms(1,2) by (auto simp: terminated_def)
  then have "0 \<in> set (drop p buf)" by (metis last_in_set)
  then have "takeWhile P (drop p buf) \<noteq> drop p buf" using assms(3) by (metis takeWhile_eq_all_conv)
  then have "length (takeWhile P (drop p buf)) < length (drop p buf)"
    by (metis length_takeWhile_le le_neq_implies_less takeWhile_eq_take take_all_iff le_refl)
  then show ?thesis using assms(2) by simp
qed

lemma terminated_update: "terminated buf \<Longrightarrow> terminated (buf[i := 0])"
  by (cases "i < length buf") (auto simp: terminated_def last_list_update list_update_beyond)

lemma skip_spaces_bound: "terminated buf \<Longrightarrow> p < length buf \<Longrightarrow> skip_spaces buf p < length buf"
  unfolding skip_spaces_def by (rule takeWhile_stops_before) (simp_all add: SP_def)

lemma strtok_bounds:
  assumes t: "terminated buf" and p: "p < length buf" and r: "strtok_r buf p = (tok, buf', p')"
  shows "terminated buf'" "length buf' = length buf" "p' < length buf" "\<forall>q. tok = Some q \<longrightarrow> p \<le> q \<and> q < length buf"
proof -
  let ?q = "skip_spaces buf p"
  let ?e = "?q + length (takeWhile (\<lambda>c. c \<noteq> SP \<and> c \<noteq> 0) (drop ?q buf))"
  have q: "p \<le> ?q" "?q < length buf" using skip_spaces_bound [OF t p] by (simp_all add: skip_spaces_def)
  have e: "?e < length buf" using takeWhile_stops_before [OF t q(2)] by simp
  have "buf ! (length buf - 1) = 0" using t unfolding terminated_def by (metis last_conv_nth)
  then have "?e \<noteq> length buf - 1" if "buf ! ?e \<noteq> 0" using that by metis
  then have e1: "?e + 1 < length buf" if "buf ! ?e \<noteq> 0" using that e by fastforce
  show "terminated buf'" "length buf' = length buf" "p' < length buf" "\<forall>q. tok = Some q \<longrightarrow> p \<le> q \<and> q < length buf"
    using r q e e1 t terminated_update by (auto simp: strtok_r_def Let_def split: if_splits)
qed

lemma scan_bounds:
  assumes "terminated buf" and "p < length buf"
  shows "skip_spaces buf p + length (cstr_at buf (skip_spaces buf p)) < length buf"
  unfolding cstr_at_def using assms by (intro takeWhile_stops_before skip_spaces_bound) auto

text \<open>The scanner reads backwards from the end of its argument. A byte in front of the argument that is neither \<open>CR\<close> nor \<open>LF\<close>
  stops it, and so do three bytes of any kind.\<close>

lemma scan_one_before:
  assumes t: "terminated buf" and x: "x \<noteq> CR" "x \<noteq> LF"
  shows "ScanKey (x # buf) 1 \<noteq> None" "parse_set_cmd (x # buf) 1 qr \<noteq> None"
proof -
  let ?b = "x # buf"
  have t': "terminated ?b" "1 < length ?b" using t by (auto simp: terminated_def)
  have before: "byte_at ?b (int q - 1) \<noteq> None \<and> byte_at ?b (int q - 1) \<notin> {Some CR, Some LF}" if q: "q = 1 \<or> q = skip_spaces ?b 1" for q
  proof -
    have bound: "q < length ?b" using q skip_spaces_bound [OF t'] t'(2) by blast
    have "1 \<le> q" using q by (auto simp: skip_spaces_def)
    then have "?b ! (q - 1) = x \<or> ?b ! (q - 1) = SP"
    proof (cases "q = 1")
      case False
      then have n: "q = 1 + length (takeWhile (\<lambda>c. c = SP) buf)" "1 < q" using q \<open>1 \<le> q\<close> by (simp_all add: skip_spaces_def)
      then have "buf ! (q - 2) = takeWhile (\<lambda>c. c = SP) buf ! (q - 2)" by (intro takeWhile_nth [symmetric]) simp
      moreover have "takeWhile (\<lambda>c. c = SP) buf ! (q - 2) \<in> set (takeWhile (\<lambda>c. c = SP) buf)" using n by (intro nth_mem) simp
      ultimately have "buf ! (q - 2) = SP" using set_takeWhileD by fastforce
      then show ?thesis using n(2) by (simp add: nth_Cons' numeral_2_eq_2)
    qed simp
    moreover have "byte_at ?b (int q - 1) = Some (?b ! (q - 1))"
      using bound \<open>1 \<le> q\<close> by (simp add: byte_at_def nat_diff_distrib')
    ultimately show ?thesis using x by (auto simp: char_defs)
  qed
  have safe: "byte_at ?b (e - 1) \<noteq> None \<and> (byte_at ?b (e - 1) = Some LF \<longrightarrow> byte_at ?b (e - 2) \<noteq> None \<and>
      (byte_at ?b (e - 2) = Some CR \<longrightarrow> byte_at ?b (e - 3) \<noteq> None \<and> put_byte ?b (e - 3) 0 \<noteq> None \<and> put_byte ?b (e - 2) 0 \<noteq> None))"
    if q: "q = 1 \<or> q = skip_spaces ?b 1" and e: "e = int q + int (length (cstr_at ?b q))" for q e
  proof -
    have "q + length (cstr_at ?b q) < length ?b" "1 \<le> q"
      using q skip_spaces_bound [OF t'] t'(2) takeWhile_stops_before [OF t'(1), of q "\<lambda>c. c \<noteq> 0"] unfolding cstr_at_def
      by (auto simp: skip_spaces_def)
    then have b: "e < int (length ?b)" "1 \<le> e" "int q \<le> e" using e by simp_all
    have "e - 1 \<noteq> int q - 1 \<Longrightarrow> int q + 1 \<le> e" "e - 2 \<noteq> int q - 1 \<Longrightarrow> int q + 1 \<le> e \<Longrightarrow> int q + 2 \<le> e" using b(3) by simp_all
    then show ?thesis using before [OF q] b \<open>1 \<le> q\<close> x by (auto simp: byte_at_def put_byte_def)
  qed
  show "ScanKey ?b 1 \<noteq> None"
    using safe [OF disjI2 [OF refl] refl] unfolding ScanKey_def Let_def by (auto split: bind_splits)
  show "parse_set_cmd ?b 1 qr \<noteq> None"
    using safe [OF disjI1 [OF refl] refl] unfolding parse_set_cmd_def Let_def by (auto split: bind_splits)
qed

lemma scan_three_before:
  assumes t: "terminated buf" and p: "p < length buf" "3 \<le> p"
  shows "ScanKey buf p \<noteq> None" "parse_set_cmd buf p qr \<noteq> None"
proof -
  have "skip_spaces buf p + length (cstr_at buf (skip_spaces buf p)) < length buf" "p \<le> skip_spaces buf p"
    "p + length (cstr_at buf p) < length buf"
    using scan_bounds [OF t p(1)] takeWhile_stops_before [OF t p(1), of "\<lambda>c. c \<noteq> 0"] by (simp_all add: cstr_at_def skip_spaces_def)
  then show "ScanKey buf p \<noteq> None" "parse_set_cmd buf p qr \<noteq> None"
    using p by (auto simp: ScanKey_def parse_set_cmd_def Let_def byte_at_def put_byte_def)
qed

text \<open>The token ends before the position where the next call goes on.\<close>

lemma strtok_token_end:
  assumes "strtok_r buf p = (Some t, buf', p')"
  shows "t + length (cstr_at buf' t) \<le> p'"
proof -
  let ?q = "skip_spaces buf p"
  let ?w = "takeWhile (\<lambda>c. c \<noteq> SP \<and> c \<noteq> 0) (drop ?q buf)"
  let ?e = "?q + length ?w"
  have stop: "length (cstr_at b ?q) \<le> length ?w" if "?e < length b" "b ! ?e = 0" for b
  proof (rule ccontr)
    assume "\<not> length (cstr_at b ?q) \<le> length ?w"
    then have l: "length ?w < length (takeWhile (\<lambda>c. c \<noteq> 0) (drop ?q b))" by (simp add: cstr_at_def)
    then have "takeWhile (\<lambda>c. c \<noteq> 0) (drop ?q b) ! length ?w = b ! ?e" using that by (simp add: takeWhile_nth)
    then show False using nth_mem [OF l] that(2) by (auto dest: set_takeWhileD)
  qed
  have beyond: "length (cstr_at b ?q) \<le> length ?w" if "\<not> ?e < length b" for b
    using that length_takeWhile_le [of "\<lambda>c. c \<noteq> 0" "drop ?q b"] by (simp add: cstr_at_def)
  have "t = ?q" "p' = ?e \<and> buf' = buf \<and> buf ! ?e = 0 \<or> p' = ?e + 1 \<and> buf' = buf[?e := 0]"
    using assms by (auto simp: strtok_r_def Let_def split: if_splits)
  moreover have "length (cstr_at (buf[?e := 0]) ?q) \<le> length ?w"
    using stop [of "buf[?e := 0]"] beyond [of "buf[?e := 0]"] by (cases "?e < length buf") simp_all
  ultimately show ?thesis using stop [of buf] beyond [of buf] by (cases "?e < length buf") auto
qed

lemma strcaseeq_length: "strcaseeq a b \<Longrightarrow> length a = length b"
  unfolding strcaseeq_def by (metis length_map)

lemma parse_head_safe:
  assumes "length (query_head_buf qr) = MAX_QUERY_HEADER_SIZE"
  shows "parse_memcached_string_head qr \<noteq> None"
proof -
  let ?b = "(query_head_buf qr)[MAX_QUERY_HEADER_SIZE - 1 := 0]" and ?q = "qr\<lparr>qr_cmd_type := cmd_unknown\<rparr>"
  have "?b \<noteq> []" using assms by (auto simp: protocol_consts)
  then have t: "terminated ?b" "0 < length ?b"
    using assms by (simp_all add: terminated_def protocol_consts last_conv_nth)
  obtain tok buf p where s: "strtok_r ?b 0 = (tok, buf, p)" using prod_cases3 by blast
  note b = strtok_bounds [OF t s]
  show ?thesis
  proof (cases tok)
    case None
    then show ?thesis using s by (simp add: parse_memcached_string_head_def Let_def)
  next
    case (Some q)
    have three: "3 \<le> p" if "strcaseeq (cstr_at buf q) c" "3 \<le> length c" for c
      using strtok_token_end [of ?b 0 q buf p] s Some strcaseeq_length [OF that(1)] that(2) by simp
    have scan: "ScanKey buf p \<noteq> None" "\<And>qr. parse_set_cmd buf p qr \<noteq> None" if "strcaseeq (cstr_at buf q) c" "3 \<le> length c" for c
      using scan_three_before [OF b(1) b(3) [folded b(2)] three [OF that]] by simp_all
    have fin: "HandleCmd ty r = None \<longleftrightarrow> r = None" "parse_get_cmd buf p qr = None \<longleftrightarrow> ScanKey buf p = None"
      "parse_delete_cmd buf p qr = None \<longleftrightarrow> ScanKey buf p = None" "parse_sync_cmd buf p qr = None \<longleftrightarrow> ScanKey buf p = None"
      "parse_power_cmd buf p qr = None \<longleftrightarrow> ScanKey buf p = None" for ty r qr
      by (auto simp: HandleCmd_def parse_get_cmd_def parse_delete_cmd_def parse_sync_cmd_def parse_power_cmd_def split: bind_splits)
    show ?thesis
      using s Some scan [of "str ''get''"] scan [of "str ''set''"] scan [of "str ''delete''"] scan [of "str ''sync''"]
        scan [of "str ''power''"]
      by (simp add: parse_memcached_string_head_def Let_def fin del: not_None_eq)
  qed
qed

text \<open>A key as the rest of the program may use it: \<open>strlen\<close> ends within the array.\<close>

definition key_ok :: "bytes \<Rightarrow> bool" where
  "key_ok k \<longleftrightarrow> length k = MAX_KEY_SIZE \<and> 0 \<in> set k"

lemma key_ok_strncpy: "length w < MAX_KEY_SIZE \<Longrightarrow> key_ok (strncpy MAX_KEY_SIZE w)"
  by (auto simp: key_ok_def strncpy_def MAX_KEY_SIZE_def)

lemma key_ok_scan: "ScanKey buf p = Some (Some k) \<Longrightarrow> key_ok k"
  by (auto simp: ScanKey_def Let_def key_ok_def strncpy_def protocol_consts set_update_memI split: if_splits bind_splits)

definition keeps_head :: "query_request_s \<Rightarrow> query_request_s \<Rightarrow> bool" where
  "keeps_head qr qr' \<longleftrightarrow> query_head_buf qr' = query_head_buf qr \<and>
    query_head_buf_size qr' = query_head_buf_size qr \<and> qr_data qr' = qr_data qr \<and> (key_ok (qr_key qr) \<longrightarrow> key_ok (qr_key qr'))"

lemma keeps_head_refl [intro]: "keeps_head qr qr"
  by (simp add: keeps_head_def)

lemma keeps_head_trans: "keeps_head a b \<Longrightarrow> keeps_head b c \<Longrightarrow> keeps_head a c"
  by (simp add: keeps_head_def)

lemma keeps_head_updates [intro]:
  "keeps_head qr (qr\<lparr>qr_flag := x\<rparr>)" "keeps_head qr (qr\<lparr>qr_exptime := x\<rparr>)"
  "keeps_head qr (qr\<lparr>qr_data_size := z\<rparr>)" "key_ok k \<Longrightarrow> keeps_head qr (qr\<lparr>qr_key := k\<rparr>)"
  by (simp_all add: keeps_head_def)

lemma parse_set_loop_keeps: "keeps_head qr (snd (parse_set_loop SetKey buf p r qr))"
proof -
  have fin: "keeps_head qr (snd (parse_set_loop SetDone buf p r qr))" for buf p r qr
    by (simp add: parse_set_loop.simps [of SetDone] keeps_head_refl)
  have failed: "keeps_head qr (snd (parse_set_loop SetFailed buf p r qr))" for buf p r qr
    using fin by (simp add: parse_set_loop.simps [of SetFailed])
  have bytes: "keeps_head qr (snd (parse_set_loop SetBytes buf p r qr))" for buf p r qr
    by (subst parse_set_loop.simps)
      (auto split: prod.split option.split intro: failed keeps_head_trans [OF _ fin])
  have exptime: "keeps_head qr (snd (parse_set_loop SetExptime buf p r qr))" for buf p r qr
    by (subst parse_set_loop.simps)
      (auto split: prod.split option.split intro: failed keeps_head_trans [OF _ bytes])
  have flag: "keeps_head qr (snd (parse_set_loop SetFlag buf p r qr))" for buf p r qr
    by (subst parse_set_loop.simps)
      (auto split: prod.split option.split intro: failed keeps_head_trans [OF _ exptime])
  show ?thesis
    by (subst parse_set_loop.simps)
      (auto split: prod.split option.split intro!: failed keeps_head_trans [OF _ flag] key_ok_strncpy)
qed

lemma parse_cmds_keep:
  "parse_get_cmd buf p qr = Some res \<Longrightarrow> keeps_head qr (snd res)" "parse_delete_cmd buf p qr = Some res \<Longrightarrow> keeps_head qr (snd res)"
  "parse_sync_cmd buf p qr = Some res \<Longrightarrow> keeps_head qr (snd res)" "parse_power_cmd buf p qr = Some res \<Longrightarrow> keeps_head qr (snd res)"
  "parse_set_cmd buf p qr = Some res \<Longrightarrow> keeps_head qr (snd res)"
  using parse_set_loop_keeps [of qr] keeps_head_updates(4) [OF key_ok_scan]
  by (auto simp: parse_get_cmd_def parse_delete_cmd_def parse_sync_cmd_def parse_power_cmd_def
      parse_set_cmd_def Let_def split: option.splits bind_splits if_splits)

lemma HandleCmd_result:
  assumes "HandleCmd ty r = Some (ret, q)" and "\<And>res. r = Some res \<Longrightarrow> keeps_head qr (snd res)" and "ty \<noteq> cmd_unknown"
  shows "keeps_head qr q \<and> ret \<in> {RET_SUCCESS, RET_PARSE_REQ_FAILED} \<and> (ret = RET_SUCCESS \<longleftrightarrow> qr_parse_status q = ps_succ) \<and>
    qr_cmd_type q = ty"
  using assms by (auto simp: HandleCmd_def ret_code_defs keeps_head_def split: bind_splits if_splits)

lemma parse_head_keeps:
  assumes "parse_memcached_string_head qr = Some (r, qr')"
  shows "keeps_head qr qr' \<and> r \<in> {RET_SUCCESS, RET_PARSE_REQ_FAILED} \<and> (r = RET_SUCCESS \<longleftrightarrow> qr_parse_status qr' = ps_succ) \<and>
    (qr_parse_status qr' = ps_succ \<longrightarrow> qr_cmd_type qr' \<noteq> cmd_unknown)"
proof -
  let ?q = "qr\<lparr>qr_cmd_type := cmd_unknown\<rparr>"
  define good where "good = (\<lambda>(r, q). keeps_head qr q \<and> r \<in> {RET_SUCCESS, RET_PARSE_REQ_FAILED} \<and>
    (r = RET_SUCCESS \<longleftrightarrow> qr_parse_status q = ps_succ) \<and> (qr_parse_status q = ps_succ \<longrightarrow> qr_cmd_type q \<noteq> cmd_unknown))"
  have cmd: "pred_option good (HandleCmd ty r)" if "\<And>res. r = Some res \<Longrightarrow> keeps_head ?q (snd res)" "ty \<noteq> cmd_unknown" for ty r
  proof (cases "HandleCmd ty r")
    case (Some res)
    then show ?thesis
      using HandleCmd_result [of ty r "fst res" "snd res" ?q] that by (auto simp: good_def keeps_head_def split_beta)
  qed simp
  have bad: "good (RET_PARSE_REQ_FAILED, ?q\<lparr>qr_parse_status := ps_failed\<rparr>)"
    by (simp add: good_def keeps_head_def ret_code_defs)
  have "pred_option good (parse_memcached_string_head qr)"
    unfolding parse_memcached_string_head_def Let_def
    using bad by (auto intro!: cmd dest: parse_cmds_keep split: prod.split option.split)
  then have "good (r, qr')" using assms by simp
  then show ?thesis unfolding good_def prod.case by blast
qed

text \<open>A key of nothing but a space.\<close>

lemma scan_blank_key:
  "ScanKey (pre @ SP # CR # LF # 0 # rest) (length pre) = Some (Some (strncpy MAX_KEY_SIZE [CR, LF]))"
proof -
  let ?b = "pre @ SP # CR # LF # 0 # rest"
  have "skip_spaces ?b (length pre) = length pre + 1" by (simp add: skip_spaces_def char_defs)
  moreover have "cstr_at ?b (length pre + 1) = [CR, LF]" by (simp add: cstr_at_def char_defs)
  moreover have "cstr_at (?b[length pre := 0]) (length pre + 1) = [CR, LF]"
    by (simp add: cstr_at_def char_defs list_update_append)
  moreover have "(strncpy MAX_KEY_SIZE [CR, LF])[MAX_KEY_SIZE - 1 := 0] = strncpy MAX_KEY_SIZE [CR, LF]"
    by (intro nth_equalityI) (auto simp: strncpy_def nth_list_update nth_append protocol_consts nth_Cons')
  moreover have "byte_at ?b (int (length pre + 3) - 1) = Some LF" "byte_at ?b (int (length pre + 3) - 2) = Some CR"
    "byte_at ?b (int (length pre + 3) - 3) = Some SP" "put_byte ?b (int (length pre + 3) - 3) 0 = Some (?b[length pre := 0])"
    using byte_at_append(1) [of _ "pre @ [SP, CR]" LF "0 # rest"] byte_at_append(1) [of _ "pre @ [SP]" CR "LF # 0 # rest"]
      byte_at_append [of _ pre SP "CR # LF # 0 # rest"] by (simp_all add: list_update_append)
  ultimately show ?thesis unfolding ScanKey_def Let_def by (simp add: char_defs)
qed

section \<open>Properties\<close>

text \<open>An empty request, as \<open>slab_calloc\<close> leaves it, with a given head.\<close>

definition request_of :: "bytes \<Rightarrow> query_request_s" where
  "request_of line = \<lparr>query_head_buf = take MAX_QUERY_HEADER_SIZE (line @ replicate MAX_QUERY_HEADER_SIZE 0),
    query_head_buf_size = 0, qr_data = None, qr_data_size = 0, qr_cmd_type = cmd_unknown,
    qr_parse_status = ps_unknown, qr_flag = 0, qr_exptime = 0, qr_key = replicate MAX_KEY_SIZE 0\<rparr>"

lemma request_of_holds: "length line < MAX_QUERY_HEADER_SIZE \<Longrightarrow> head_holds (query_head_buf (request_of line)) line"
proof -
  assume "length line < MAX_QUERY_HEADER_SIZE"
  then obtain m where m: "MAX_QUERY_HEADER_SIZE = length line + Suc m" using less_imp_Suc_add by fastforce
  then have "take MAX_QUERY_HEADER_SIZE (line @ replicate MAX_QUERY_HEADER_SIZE 0) = line @ 0 # replicate m 0"
    unfolding m by simp
  then show ?thesis using m by (auto simp: head_holds_def request_of_def)
qed

text \<open>
  C21. A set line parses to its parts: whatever the case of the command word, for a key of at
  most 250 bytes without spaces and zero bytes and decimal numbers in range, the parser
  succeeds and the request holds the key, the flag, the expiry time and the size.
\<close>

theorem parse_set_roundtrip:
  assumes "head_holds (query_head_buf qr) (set_line cmd k f e n)" and "strcaseeq cmd (str ''set'')"
    and "word_chars k" and "length k < MAX_KEY_SIZE" and "f < 2 ^ 31" and "e < 2 ^ 31" and "n < 2 ^ 63"
  shows "parse_memcached_string_head qr = Some (RET_SUCCESS,
    qr\<lparr>qr_key := strncpy MAX_KEY_SIZE k, qr_flag := int f, qr_exptime := int e,
      qr_data_size := word_of_nat n, qr_cmd_type := cmd_set, qr_parse_status := ps_succ\<rparr>)"
  using parse_set_head [OF assms(1-4)] assms(5-7) by (simp add: atoi_decimal atol_def strtol_decimal)

theorem parse_set_roundtrip_witness:
  "map_option (\<lambda>(r, qr). (r, qr_data_size qr)) (parse_memcached_string_head (request_of (set_line (str ''SeT'') (str ''key'') 1 60 300))) =
    Some (RET_SUCCESS, 300)"
proof -
  have "length (set_line (str ''SeT'') (str ''key'') 1 60 300) < MAX_QUERY_HEADER_SIZE"
    by (simp add: set_line_def protocol_consts decimal.simps)
  from parse_set_roundtrip [OF request_of_holds [OF this]] show ?thesis
    by (simp add: strcaseeq_def tolower_def word_chars_def SP_def protocol_consts)
qed

text \<open>
  C22. Get and delete lines parse to their key, whatever the case of the command word.
\<close>

theorem parse_key_roundtrip:
  assumes "head_holds (query_head_buf qr) (key_line cmd k)" and "word_chars k" and "length k < MAX_KEY_SIZE"
    and "strcaseeq cmd (str ''get'') \<and> ty = cmd_get \<or> strcaseeq cmd (str ''delete'') \<and> ty = cmd_delete"
  shows "parse_memcached_string_head qr = Some (RET_SUCCESS,
    qr\<lparr>qr_key := strncpy MAX_KEY_SIZE k, qr_cmd_type := ty, qr_parse_status := ps_succ\<rparr>)"
  using parse_get_head [OF assms(1) _ assms(2,3)] parse_delete_head [OF assms(1) _ assms(2,3)] assms(4) by auto

theorem parse_key_roundtrip_witness:
  "map_option (\<lambda>(r, qr). qr_cmd_type qr) (parse_memcached_string_head (request_of (key_line (str ''DELETE'') (str ''key'')))) =
    Some cmd_delete"
proof -
  have "length (key_line (str ''DELETE'') (str ''key'')) < MAX_QUERY_HEADER_SIZE"
    by (simp add: key_line_def protocol_consts)
  from parse_key_roundtrip [OF request_of_holds [OF this], of cmd_delete] show ?thesis
    by (simp add: strcaseeq_def tolower_def word_chars_def SP_def protocol_consts)
qed

text \<open>
  C32. Whatever the head holds, the parser ends with success or \<open>RET_PARSE_REQ_FAILED\<close>, reports
  success exactly when it sets \<open>ps_succ\<close> and then names a command, and it leaves the head and
  the data alone and the key terminated within its array.
\<close>

theorem parse_any_input:
  assumes "parse_memcached_string_head qr = Some (r, qr')"
  shows "r \<in> {RET_SUCCESS, RET_PARSE_REQ_FAILED} \<and> (r = RET_SUCCESS \<longleftrightarrow> qr_parse_status qr' = ps_succ) \<and>
    (qr_parse_status qr' = ps_succ \<longrightarrow> qr_cmd_type qr' \<noteq> cmd_unknown) \<and>
    query_head_buf qr' = query_head_buf qr \<and> qr_data qr' = qr_data qr \<and>
    (key_ok (qr_key qr) \<longrightarrow> key_ok (qr_key qr'))"
  using parse_head_keeps [OF assms] unfolding keeps_head_def by blast

theorem parse_any_input_witness:
  "\<exists>r qr'. parse_memcached_string_head (request_of (str ''get'')) = Some (r, qr') \<and> key_ok (qr_key qr')"
proof -
  have "length (query_head_buf (request_of (str ''get''))) = MAX_QUERY_HEADER_SIZE" "key_ok (qr_key (request_of (str ''get'')))"
    by (simp_all add: key_ok_def request_of_def protocol_consts)
  then obtain r qr' where "parse_memcached_string_head (request_of (str ''get'')) = Some (r, qr')" "key_ok (qr_key (request_of (str ''get'')))"
    using parse_head_safe by fastforce
  then show ?thesis using parse_any_input by blast
qed

text \<open>
  C33. The parser stays within the head buffer, whatever the 512 bytes of it are: none of the accesses by which the key
  scanner and the set parser read backwards from the end of the line, at \<open>len - 1\<close> to \<open>len - 3\<close>, is outside of
  it. They rely on what is in front of their argument and on no more than one byte of it: with a byte there that is neither
  \<open>CR\<close> nor \<open>LF\<close> they are safe on every terminated rest. The tokenizer stays in a terminated buffer too: tokens and
  positions are inside it, and the cut buffer is terminated again and as long.
\<close>

theorem parser_in_bounds:
  assumes "length (query_head_buf qr) = MAX_QUERY_HEADER_SIZE" and "terminated buf" and "x \<noteq> CR" and "x \<noteq> LF"
    and "p < length buf" and "strtok_r buf p = (tok, buf', p')"
  shows "parse_memcached_string_head qr \<noteq> None \<and>
    ScanKey (x # buf) 1 \<noteq> None \<and> parse_set_cmd (x # buf) 1 qr \<noteq> None \<and>
    terminated buf' \<and> length buf' = length buf \<and> p' < length buf' \<and> (\<forall>q. tok = Some q \<longrightarrow> p \<le> q \<and> q < length buf')"
  using parse_head_safe [OF assms(1)] scan_one_before [OF assms(2-4)] strtok_bounds [OF assms(2,5,6)] by simp

text \<open>The witness also shows that the byte in front matters: behind a line feed the scanner of keys reads before the array.\<close>

theorem parser_in_bounds_witness:
  "parse_memcached_string_head (request_of (str ''get'' @ [SP, CR, LF])) \<noteq> None \<and> ScanKey [0, CR, LF, 0] 1 \<noteq> None \<and>
    ScanKey [LF, 0] 1 = None"
proof -
  obtain tok buf' p' where t: "strtok_r [CR, LF, 0] 0 = (tok, buf', p')" using prod_cases3 by blast
  have l: "length (query_head_buf (request_of (str ''get'' @ [SP, CR, LF]))) = MAX_QUERY_HEADER_SIZE"
    by (simp add: request_of_def protocol_consts)
  have z: "terminated [CR, LF, 0]" by (simp add: terminated_def)
  have x: "0 \<noteq> CR" "0 \<noteq> LF" "0 < length [CR, LF, 0]" by (simp_all add: char_defs)
  have "ScanKey [LF, 0] 1 = None"
    by (simp add: ScanKey_def skip_spaces_def cstr_at_def byte_at_def char_defs)
  then show ?thesis using parser_in_bounds [OF l z x t] by blast
qed

text \<open>
  A get line whose key is only a space is accepted, and the key is the line end itself: the
  scanner tests the byte before its argument, and cuts there.
\<close>

theorem parse_blank_key:
  assumes "head_holds (query_head_buf qr) (key_line cmd [SP])" and "strcaseeq cmd (str ''get'')"
  shows "parse_memcached_string_head qr = Some (RET_SUCCESS,
    qr\<lparr>qr_key := strncpy MAX_KEY_SIZE [CR, LF], qr_cmd_type := cmd_get, qr_parse_status := ps_succ\<rparr>)"
proof -
  have w: "word_chars cmd" using strcaseeq_word [OF assms(2) command_words(1)] .
  obtain rest where "strtok_r ((query_head_buf qr)[MAX_QUERY_HEADER_SIZE - 1 := 0]) 0 =
        (Some 0, (cmd @ [0]) @ [SP, CR, LF] @ 0 # rest, length (cmd @ [0]))"
      "cstr_at ((cmd @ [0]) @ [SP, CR, LF] @ 0 # rest) 0 = cmd"
    using head_first_token [of qr cmd "[SP, CR, LF]"] assms(1) w by (auto simp: key_line_def)
  then show ?thesis
    using assms(2) scan_blank_key [of "cmd @ [0]" rest]
    by (simp add: parse_memcached_string_head_def HandleCmd_def parse_get_cmd_def Let_def)
qed

theorem parse_blank_key_witness:
  "map_option (\<lambda>(r, qr). qr_key qr) (parse_memcached_string_head (request_of (key_line (str ''get'') [SP]))) =
    Some (strncpy MAX_KEY_SIZE [CR, LF])"
proof -
  have "length (key_line (str ''get'') [SP]) < MAX_QUERY_HEADER_SIZE"
    by (simp add: key_line_def protocol_consts)
  from parse_blank_key [OF request_of_holds [OF this]] show ?thesis by (simp add: strcaseeq_def)
qed

end
