(* ===== verification/Replay_Journal.thy ===== *)
theory Replay_Journal
  imports Storage_Lifecycle Memcached_Protocol
begin

text \<open>
  \<^verbatim>\<open>src/tools/replay_journal.c\<close>, and what the journal of \<open>Indexlog\<close> is good for. The tool prints a
  journal; its rebuilding of the index is announced but not written. Here the journal is shown
  to suffice for it: the records the store of \<open>Storage\<close> appends, replayed over the index the
  process began with, give the index it ended with, and a store opened on an index rebuilt in
  this way has the same contents.
\<close>

section \<open>The tool\<close>

definition indexlog_op_type_mappings :: "bytes list" where
  "indexlog_op_type_mappings = [str ''index_unknown_op'', str ''index_append'', str ''index_modify'', str ''index_del'']"

text \<open>One line of output. The name is looked up without a check: \<open>None\<close> for a type outside the
  table. At most 16 bytes of the key are printed, up to its first zero.\<close>

definition item_line :: "nat \<Rightarrow> index_log_item_s \<Rightarrow> bytes option" where
  "item_line cnt ili =
    (if \<not> unat (ili_type ili) < length indexlog_op_type_mappings then None
     else Some
       (str ''['' @ decimal cnt @ str ''] Type: '' @ indexlog_op_type_mappings ! unat (ili_type ili) @
        str ''('' @ decimal (unat (ili_type ili)) @ str ''),'' @ [9] @
        str ''Key: '' @ takeWhile (\<lambda>c. c \<noteq> 0) (take KEY_LEN (ili_key ili)) @ str '','' @ [9] @
        str ''{ Value: crc32='' @ decimal (unat (iv_crc32 (ili_value ili))) @ str '','' @ [9] @
        str ''block_id='' @ decimal (unat (iv_block_id (ili_value ili))) @ str '','' @ [9] @
        str ''data_size='' @ decimal (unat (iv_data_size (ili_value ili))) @ str '','' @ [9] @
        str ''offset='' @ decimal (unat (iv_offset (ili_value ili))) @ str '' }'' @ [LF]))"

text \<open>The loop of \<open>print_indexlog\<close>: what it prints, and the reader at the end.\<close>

function print_loop :: "nat \<Rightarrow> index_logger_s \<Rightarrow> (bytes list \<times> index_logger_s) option" where
  "print_loop cnt il =
    (case index_logger_fetch True il of
      (None, il) \<Rightarrow> Some ([], il)
    | (Some ili, il) \<Rightarrow>
        (case item_line (cnt + 1) ili of
          None \<Rightarrow> None
        | Some l \<Rightarrow> map_option (\<lambda>(ls, il). (l # ls, il)) (print_loop (cnt + 1) il)))"
  by pat_completeness auto

termination
  by (relation "measure (\<lambda>(cnt, il). length (log_file il) - read_pos il)")
    (auto dest!: sym [of "(Some _, _)"] fetch_progress)

declare print_loop.simps [simp del]

text \<open>How the tool ends: with a message, or after the lines it printed, with the file as it then is.
  The first line, with the path, is left out.\<close>

datatype tool_end = Died bytes | Finished "bytes list" "bytes option"

definition print_indexlog :: "bool \<Rightarrow> (nat \<Rightarrow> nat) \<Rightarrow> bytes option \<Rightarrow> tool_end option" where
  "print_indexlog mem_ok nwrite content =
    (case index_logger_open mem_ok content of
      None \<Rightarrow> None
    | Some None \<Rightarrow> Some (Died (str ''Cannot open''))
    | Some (Some il) \<Rightarrow>
        (case print_loop 0 il of
          None \<Rightarrow> None
        | Some (ls, il) \<Rightarrow>
            let (_, file) = index_logger_close nwrite il
            in Some (Finished (ls @ [str ''[done]'' @ [LF]]) (Some file))))"

text \<open>\<open>main\<close> on the arguments after the program's name; \<open>access_ok\<close> is the answer of \<open>access\<close>.\<close>

definition replay_main :: "bytes list \<Rightarrow> bool \<Rightarrow> bool \<Rightarrow> (nat \<Rightarrow> nat) \<Rightarrow> bytes option \<Rightarrow> tool_end option" where
  "replay_main args access_ok mem_ok nwrite content =
    (case args of
      [a] \<Rightarrow> Some (Died (str ''not available now''))
    | [a, b] \<Rightarrow>
        if a = str ''-d'' then
          if access_ok then print_indexlog mem_ok nwrite content
          else Some (Died (b @ str '' is not readable''))
        else Some (Finished [] content)
    | _ \<Rightarrow> Some (Died (str ''arg error'')))"

section \<open>What the tool prints\<close>

abbreviation same_file :: "index_logger_s \<Rightarrow> index_logger_s \<Rightarrow> bool" where
  "same_file il' il \<equiv> log_file il' = log_file il \<and> curr_working_buf il' = curr_working_buf il"

lemma read_log_keeps: "read_log n il = (bs, il') \<Longrightarrow> same_file il' il"
  by (auto simp: read_log_def)

lemma fetch_parts_keep:
  "fetch_magic il = Inl il' \<or> fetch_magic il = Inr il' \<Longrightarrow> same_file il' il"
  "fetch_block il = Inl il' \<or> fetch_block il = Inr il' \<Longrightarrow> same_file il' il"
  "fetch_item il = (x, il') \<Longrightarrow> same_file il' il"
  by (auto simp: fetch_magic_def fetch_block_def fetch_item_def Let_def split: if_splits prod.splits dest!: read_log_keeps)

lemma fetch_keeps: "index_logger_fetch m il = (x, il') \<Longrightarrow> same_file il' il"
  by (auto simp: index_logger_fetch_def fetch_done_def split: if_splits prod.splits sum.splits
      dest!: fetch_parts_keep(1,2) [OF disjI1] fetch_parts_keep(1,2) [OF disjI2] fetch_parts_keep(3))

abbreviation known_type :: "index_log_item_s \<Rightarrow> bool" where
  "known_type i \<equiv> unat (ili_type i) < 4"

lemma print_loop_lines:
  "list_all known_type (fetch_all il) \<Longrightarrow>
    \<exists>ls il'. print_loop cnt il = Some (ls, il') \<and> length ls = length (fetch_all il) \<and>
      (\<forall>j<length ls. item_line (cnt + j + 1) (fetch_all il ! j) = Some (ls ! j)) \<and>
      log_file il' = log_file il \<and> curr_working_buf il' = curr_working_buf il"
proof (induction cnt il rule: print_loop.induct)
  case (1 cnt il)
  show ?case
  proof (cases "index_logger_fetch True il")
    case (Pair x il1)
    note keep = fetch_keeps [OF Pair]
    show ?thesis
    proof (cases x)
      case None
      then show ?thesis using Pair keep by (simp add: print_loop.simps [of cnt] fetch_all.simps [of il])
    next
      case (Some ili)
      then have all: "fetch_all il = ili # fetch_all il1" using Pair by (simp add: fetch_all.simps [of il])
      obtain l where l: "item_line (cnt + 1) ili = Some l"
        using 1(2) all by (auto simp: item_line_def indexlog_op_type_mappings_def)
      then obtain ls il' where ls: "print_loop (cnt + 1) il1 = Some (ls, il')" "length ls = length (fetch_all il1)"
          "\<forall>j<length ls. item_line (cnt + 1 + j + 1) (fetch_all il1 ! j) = Some (ls ! j)"
          "log_file il' = log_file il1" "curr_working_buf il' = curr_working_buf il1"
        using 1(1) [OF Pair [symmetric] Some l] 1(2) all by auto
      have "\<forall>j<length (l # ls). item_line (cnt + j + 1) (fetch_all il ! j) = Some ((l # ls) ! j)"
      proof (intro allI impI)
        fix j assume "j < length (l # ls)"
        then show "item_line (cnt + j + 1) (fetch_all il ! j) = Some ((l # ls) ! j)"
          using l ls(3) all by (cases j) auto
      qed
      moreover have "print_loop cnt il = Some (l # ls, il')"
        using Pair Some l ls(1) by (simp add: print_loop.simps [of cnt])
      ultimately show ?thesis using ls(2,4,5) all keep by (intro exI [where x = "l # ls"] exI [where x = il']) simp
    qed
  qed
qed

lemma print_indexlog_lines:
  assumes "list_all known_type (replay file)"
  shows "\<exists>ls. print_indexlog True nwrite (Some file) = Some (Finished (ls @ [str ''[done]'' @ [LF]]) (Some file)) \<and>
    length ls = length (replay file) \<and> (\<forall>j<length ls. item_line (j + 1) (replay file ! j) = Some (ls ! j))"
proof -
  obtain il where il: "index_logger_open True (Some file) = Some (Some il)" "log_file il = file" "curr_working_buf il = 0"
    by (simp add: index_logger_open_def)
  then have r: "replay file = fetch_all il" by (simp add: replay_def)
  obtain ls il' where "print_loop 0 il = Some (ls, il')" "length ls = length (fetch_all il)"
      "\<forall>j<length ls. item_line (0 + j + 1) (fetch_all il ! j) = Some (ls ! j)"
      "log_file il' = log_file il" "curr_working_buf il' = curr_working_buf il"
    using print_loop_lines [of il 0] assms r by auto
  then show ?thesis using il r by (simp add: print_indexlog_def index_logger_close_def)
qed

section \<open>Replaying over an index\<close>

fun apply_item :: "index_log_item_s \<Rightarrow> (bytes \<Rightarrow> bytes option) \<Rightarrow> bytes \<Rightarrow> bytes option" where
  "apply_item i m =
    (if ili_type i = op_code index_del then m(ili_key i := None)
     else if ili_type i = op_code index_append \<or> ili_type i = op_code index_modify
     then m(ili_key i \<mapsto> value_bytes (ili_value i)) else m)"

declare apply_item.simps [simp del]

definition rebuild :: "index_log_item_s list \<Rightarrow> (bytes \<Rightarrow> bytes option) \<Rightarrow> bytes \<Rightarrow> bytes option" where
  "rebuild is m = fold apply_item is m"

lemma rebuild_append [simp]: "rebuild (is @ js) m = rebuild js (rebuild is m)"
  by (simp add: rebuild_def)

lemma append_all_append: "append_all nw (is @ js) il = append_all nw js (append_all nw is il)"
  by (induction "is" arbitrary: il) auto

text \<open>The records the code writes: a key of 16 bytes and one of the four types.\<close>

definition journal_item :: "index_log_item_s \<Rightarrow> bool" where
  "journal_item i \<longleftrightarrow> item_ok i \<and> known_type i"

text \<open>From one state to another, the journal got records that account for the change of the index.\<close>

definition journals :: "sys_env \<Rightarrow> ('db \<Rightarrow> bytes \<Rightarrow> bytes option) \<Rightarrow> 'db storage \<Rightarrow> 'db storage \<Rightarrow> bool" where
  "journals env view s s' \<longleftrightarrow> (\<exists>is. list_all journal_item is \<and>
    index_logger s' = append_all (e_write env) is (index_logger s) \<and>
    view (dbp (indexdb s')) = rebuild is (view (dbp (indexdb s))))"

lemma journals_refl: "index_logger s' = index_logger s \<Longrightarrow> dbp (indexdb s') = dbp (indexdb s) \<Longrightarrow> journals env view s s'"
  unfolding journals_def by (rule exI [where x = "[]"]) (simp add: rebuild_def)

lemma journals_trans: "journals env view s t \<Longrightarrow> journals env view t u \<Longrightarrow> journals env view s u"
  unfolding journals_def by (metis append_all_append list_all_append rebuild_append)

lemma journals_item:
  assumes "journal_item i" and "index_logger s' = snd (index_logger_append (e_write env) i (index_logger s))"
    and "view (dbp (indexdb s')) = apply_item i (view (dbp (indexdb s)))"
  shows "journals env view s s'"
  unfolding journals_def using assms by (intro exI [where x = "[i]"]) (simp add: rebuild_def)

lemma op_codes:
  "unat (op_code index_append) < 4" "unat (op_code index_modify) < 4" "unat (op_code index_del) < 4"
  "op_code index_append \<noteq> op_code index_del" "op_code index_modify \<noteq> op_code index_del"
  by (simp_all add: op_code_def)

lemma data_file_frame:
  "sync_data_file env i bs off s = Some (r, s') \<Longrightarrow> indexdb s' = indexdb s \<and> index_logger s' = index_logger s"
  "sync_data_file_header env i s = Some (r, s') \<Longrightarrow> indexdb s' = indexdb s \<and> index_logger s' = index_logger s"
  by (auto simp: sync_data_file_def sync_data_file_header_def Let_def split: if_splits prod.splits option.splits)

lemma place_block_frame:
  "place_block env i data s = Some (off, s') \<Longrightarrow> indexdb s' = indexdb s \<and> index_logger s' = index_logger s"
  by (auto simp: place_block_def Let_def split: if_splits option.splits dest!: data_file_frame)

context berkeley_db
begin

lemma append_block_journals:
  assumes "append_block api env i k data s = Some (r, s')" and "good (dbp (indexdb s))"
  shows "journals env view s s' \<and> good (dbp (indexdb s'))"
proof (cases "i \<ge> block_type_count s")
  case True
  then show ?thesis using assms by (auto simp: append_block_def intro: journals_refl)
next
  case False
  then obtain off t where t: "place_block env i data s = Some (off, t)"
    using assms(1) by (auto simp: append_block_def Let_def split: if_splits option.splits)
  let ?v = "new_value i data off" and ?k = "fixed_key k"
  obtain b where b: "insert_record api (indexdb s) ?k (value_bytes ?v) = (0, b)" "good (dbp b)"
      "view (dbp b) = (view (dbp (indexdb s)))(?k \<mapsto> value_bytes ?v)"
    using insert_record_ok [OF assms(2)] by blast
  have "s' = (log_index env index_append ?k ?v t)\<lparr>indexdb := b\<rparr>"
    using assms(1) False t b(1) place_block_frame [OF t]
    by (auto simp: append_block_def new_value_def Let_def split: if_splits)
  then show ?thesis using place_block_frame [OF t] b(2,3) op_codes
    by (intro conjI journals_item [where i = "\<lparr>ili_type = op_code index_append, ili_key = ?k, ili_value = ?v\<rparr>"])
      (simp_all add: log_index_def journal_item_def apply_item.simps)
qed

lemma modify_block_journals:
  assumes "modify_block api env iv (fixed_key k) data s = Some (r, s')" and "good (dbp (indexdb s))"
  shows "journals env view s s' \<and> good (dbp (indexdb s'))"
proof (cases "unat (iv_block_id iv) \<ge> block_type_count s")
  case True
  then show ?thesis using assms by (auto simp: modify_block_def intro: journals_refl)
next
  case False
  then obtain t where t: "sync_data_file env (unat (iv_block_id iv)) data (unat (iv_offset iv)) s = Some (0, t)"
    using assms(1) by (auto simp: modify_block_def Let_def split: if_splits option.splits)
  let ?v = "iv\<lparr>iv_crc32 := crc32_calc data, iv_data_size := word_of_nat (length data)\<rparr>" and ?k = "fixed_key k"
  have kk: "fixed_key ?k = ?k" by (simp add: fixed_key_def)
  obtain b where b: "insert_record api (indexdb s) ?k (value_bytes ?v) = (0, b)" "good (dbp b)"
      "view (dbp b) = (view (dbp (indexdb s)))(?k \<mapsto> value_bytes ?v)"
    using insert_record_ok [OF assms(2)] by blast
  have "s' = (log_index env index_modify ?k ?v t)\<lparr>indexdb := b\<rparr>"
    using assms(1) False t b(1) kk data_file_frame(1) [OF t]
    by (auto simp: modify_block_def Let_def split: if_splits)
  then show ?thesis using data_file_frame(1) [OF t] b(2,3) op_codes
    by (intro conjI journals_item [where i = "\<lparr>ili_type = op_code index_modify, ili_key = ?k, ili_value = ?v\<rparr>"])
      (simp_all add: log_index_def journal_item_def apply_item.simps)
qed

lemma do_delete_block_journals:
  assumes "do_delete_block api env iv (fixed_key k) s = Some (r, s')" and "good (dbp (indexdb s))"
  shows "journals env view s s' \<and> good (dbp (indexdb s'))"
proof -
  let ?k = "fixed_key k"
  have kk: "fixed_key ?k = ?k" by (simp add: fixed_key_def)
  obtain x b where b: "del_record api (indexdb s) ?k = (x, b)" "good (dbp b)" "view (dbp b) = (view (dbp (indexdb s)))(?k := None)"
    using del_law [OF assms(2), of ?k] assms(2)
    by (cases "view (dbp (indexdb s)) ?k") (auto simp: del_record_def fun_upd_idem)
  have "index_logger s' = index_logger (log_index env index_del ?k iv s)" "indexdb s' = b"
    using assms(1) b(1) kk
    by (auto simp: do_delete_block_def Let_def split: if_splits option.splits dest!: data_file_frame)
  then show ?thesis using b(2,3) op_codes
    by (intro conjI journals_item [where i = "\<lparr>ili_type = op_code index_del, ili_key = ?k, ili_value = iv\<rparr>"])
      (simp_all add: log_index_def journal_item_def apply_item.simps)
qed

lemma find_record_frame: "find_record api m b k n = (r, v, b') \<Longrightarrow> dbp b' = dbp b"
  by (auto simp: find_record_def split: if_splits prod.splits)

text \<open>The calls of the store, whatever they return.\<close>

lemma update_block_journals:
  assumes "update_block api env k data s = Some (r, s')" and "good (dbp (indexdb s))"
  shows "journals env view s s' \<and> good (dbp (indexdb s'))"
proof -
  let ?k = "fixed_key k"
  obtain x val db where f: "find_record api (e_mem env) (indexdb s) ?k sizeof_value = (x, val, db)" by (metis surj_pair)
  let ?s = "s\<lparr>indexdb := db\<rparr>"
  have db: "dbp db = dbp (indexdb s)" by (rule find_record_frame [OF f])
  have j: "journals env view s ?s" "good (dbp (indexdb ?s))" using db assms(2) by (simp_all add: journals_refl)
  note step = append_block_journals modify_block_journals do_delete_block_journals
  consider (same) "s' = ?s"
    | (modify) iv y where "modify_block api env iv ?k data ?s = Some (y, s')"
    | (delete) iv y where "do_delete_block api env iv ?k ?s = Some (y, s')"
    | (replace) iv y t i z where "do_delete_block api env iv ?k ?s = Some (y, t)" "append_block api env i ?k data t = Some (z, s')"
    | (append) i z where "append_block api env i ?k data ?s = Some (z, s')"
    using assms(1) f by (auto simp: update_block_def Let_def split: if_splits option.splits)
  then show ?thesis
  proof cases
    case same
    then show ?thesis using j by simp
  next
    case modify
    then show ?thesis using step(2) [OF modify j(2)] journals_trans [OF j(1)] by blast
  next
    case delete
    then show ?thesis using step(3) [OF delete j(2)] journals_trans [OF j(1)] by blast
  next
    case replace
    then show ?thesis using step(3) [OF replace(1) j(2)] step(1) [OF replace(2)] journals_trans [OF j(1)] journals_trans by blast
  next
    case append
    then show ?thesis using step(1) [OF append j(2)] journals_trans [OF j(1)] by blast
  qed
qed

lemma delete_block_journals:
  assumes "delete_block api env k s = Some (r, s')" and "good (dbp (indexdb s))"
  shows "journals env view s s' \<and> good (dbp (indexdb s'))"
proof -
  let ?k = "fixed_key k"
  obtain x val db where f: "find_record api (e_mem env) (indexdb s) ?k sizeof_value = (x, val, db)" by (metis surj_pair)
  let ?s = "s\<lparr>indexdb := db\<rparr>"
  have db: "dbp db = dbp (indexdb s)" by (rule find_record_frame [OF f])
  have j: "journals env view s ?s" "good (dbp (indexdb ?s))" using db assms(2) by (simp_all add: journals_refl)
  consider (same) "s' = ?s" | (delete) iv y where "do_delete_block api env iv ?k ?s = Some (y, s')"
    using assms(1) f by (auto simp: delete_block_def Let_def split: if_splits option.splits)
  then show ?thesis
  proof cases
    case same
    then show ?thesis using j by simp
  next
    case delete
    then show ?thesis using do_delete_block_journals [OF delete j(2)] journals_trans [OF j(1)] by blast
  qed
qed

lemma find_block_journals:
  assumes "find_block api env k s = (r, d, n, s')" and "good (dbp (indexdb s))"
  shows "journals env view s s' \<and> good (dbp (indexdb s'))"
proof -
  obtain x val db where f: "find_record api (e_mem env) (indexdb s) (fixed_key k) sizeof_value = (x, val, db)" by (metis surj_pair)
  have "s' = s\<lparr>indexdb := db\<rparr>" using assms(1) f by (auto simp: find_block_def Let_def split: if_splits)
  then show ?thesis using find_record_frame [OF f] assms(2) by (simp add: journals_refl)
qed

lemma run_journals:
  assumes "store_run (update_block api env, find_block api env, delete_block api env) ops s = Some (rs, s')"
    and "good (dbp (indexdb s))"
  shows "journals env view s s'"
  using assms
proof (induction ops arbitrary: s rs)
  case (Cons op ops)
  have "\<exists>t rs'. journals env view s t \<and> good (dbp (indexdb t)) \<and>
      store_run (update_block api env, find_block api env, delete_block api env) ops t = Some (rs', s')"
  proof (cases op)
    case (SetOp k d)
    then show ?thesis using Cons.prems update_block_journals [of env k d s]
      by (auto split: option.splits)
  next
    case (GetOp k)
    then show ?thesis using Cons.prems find_block_journals [of env k s]
      by (auto split: prod.splits)
  next
    case (DelOp k)
    then show ?thesis using Cons.prems delete_block_journals [of env k s]
      by (auto split: option.splits)
  qed
  then show ?case using Cons.IH journals_trans by blast
qed (auto intro: journals_refl)

end

section \<open>The journal file\<close>

text \<open>A journal as the process created it.\<close>

definition new_journal :: "sys_env \<Rightarrow> 'db storage \<Rightarrow> bool" where
  "new_journal env s \<longleftrightarrow> index_logger_create True True True (e_write env) = Some (Some (index_logger s))"

lemma journal_state:
  assumes "journals env view s s'" and "full_write (e_write env)" and "new_journal env s"
  obtains bss ws where "log_inv (index_logger s') bss ws" "list_all journal_item (concat bss @ ws)"
    "view (dbp (indexdb s')) = rebuild (concat bss @ ws) (view (dbp (indexdb s)))"
proof -
  obtain items where i: "list_all journal_item items" "index_logger s' = append_all (e_write env) items (index_logger s)"
      "view (dbp (indexdb s')) = rebuild items (view (dbp (indexdb s)))"
    using assms(1) by (auto simp: journals_def)
  have "log_inv (index_logger s) [] []" using create_inv [OF assms(2)] assms(3) by (auto simp: new_journal_def)
  moreover have "list_all item_ok items" using i(1) by (auto simp: list_all_iff journal_item_def)
  ultimately obtain bss ws where "log_inv (index_logger s') bss ws" "concat bss @ ws = items"
    using append_all_inv [of "index_logger s" "[]" "[]" items "e_write env"] assms(2) i(2) by auto
  then show ?thesis using that i by metis
qed

lemma close_files_logger:
  "close_files env is c s = Some (r, c', s') \<Longrightarrow> index_logger s' = index_logger s \<and> indexdb s' = indexdb s"
  by (induction "is" arbitrary: c s) (auto split: if_splits option.splits dest!: data_file_frame)

lemma closed_journal:
  assumes "close_storage api env s = Some (0, file, s')"
  shows "index_logger_close (e_write env) (index_logger s) = (RET_SUCCESS, file)"
  using assms
  by (auto simp: close_storage_def ret_code_defs Let_def split: if_splits option.splits prod.splits dest!: close_files_logger)

lemma closed_journal_items:
  assumes "journals env view s s'" and "full_write (e_write env)" and "new_journal env s"
    and "close_storage api env s' = Some (0, file, s1)"
  shows "view (dbp (indexdb s')) = rebuild (replay file) (view (dbp (indexdb s)))" "list_all journal_item (replay file)"
proof -
  obtain bss ws where j: "log_inv (index_logger s') bss ws" "list_all journal_item (concat bss @ ws)"
      "view (dbp (indexdb s')) = rebuild (concat bss @ ws) (view (dbp (indexdb s)))"
    by (rule journal_state [OF assms(1-3)])
  obtain bss' where "file = log_bytes bss'" "list_all block_ok bss'" "concat bss' = concat bss @ ws"
    using close_inv [OF j(1) assms(2)] closed_journal [OF assms(4)] by auto
  then have "replay file = concat bss @ ws" using replay_log_bytes [of bss'] by simp
  then show "view (dbp (indexdb s')) = rebuild (replay file) (view (dbp (indexdb s)))" "list_all journal_item (replay file)"
    using j(2,3) by simp_all
qed

lemma flush_inv:
  assumes "log_inv il bss ws" and "full_write nwrite"
  shows "\<exists>bss'. log_inv (snd (index_logger_flush nwrite il)) bss' [] \<and> concat bss' = concat bss @ ws"
proof (cases "ws = []")
  case True
  then show ?thesis using assms(1) by (intro exI [where x = bss]) (auto simp: index_logger_flush_def log_inv_def)
next
  case False
  then show ?thesis
    using store_block [OF assms(1) False assms(2)] assms(1)
    by (intro exI [where x = "bss @ [ws]"]) (auto simp: index_logger_flush_def log_inv_def)
qed

lemma log_inv_replay: "log_inv il bss ws \<Longrightarrow> replay (log_file il) = concat bss \<and> length ws \<le> 186"
  using replay_log_bytes [of bss] by (simp add: log_inv_def BLOCK_ITEMS_def log_consts)

lemma close_returns_zero:
  assumes "storage_inv view good s" and "full_env env" and "close_bdb api (indexdb s) = 0"
  shows "\<exists>file s'. close_storage api env s = Some (0, file, s')"
proof -
  have st: "tables_ok s" "files_ok s" using assms(1) by (auto simp: storage_inv_def)
  obtain t where t: "close_files env [0..<block_type_count s] 0 s = Some (0, 0 + length [0..<block_type_count s], t)"
    using close_files_ok [OF assms(2) st(1), of "[0..<block_type_count s]" 0] file_okD [OF st(2)]
    by (auto simp: atLeast0LessThan)
  then have "indexdb t = indexdb s" using close_files_logger by blast
  then show ?thesis
    using t assms(3) by (cases "inited_global_vars s") (auto simp: close_storage_def index_logger_close_def ret_code_defs Let_def)
qed

section \<open>A concrete process\<close>

abbreviation "store_calls api env \<equiv> (update_block api env, find_block api env, delete_block api env)"

abbreviation "sample_ops \<equiv> [SetOp [1] [7, 8], SetOp [2] (replicate 300 9), SetOp [1] (replicate 200 5), DelOp [2]]"

text \<open>A store in an empty directory with a new journal, a run of calls, and its end.\<close>

lemma sample_process:
  obtains s rs s' journal s1 where "storage_inv map_of (\<lambda>d. True) s" "new_journal good_env s" "room 1000 s"
    "largest_block s = 1024" "stored map_of s = (\<lambda>_. None)"
    "store_run (store_calls mem_db good_env) sample_ops s = Some (rs, s')" "storage_inv map_of (\<lambda>d. True) s'"
    "block_type_count s' = 4" "close_storage mem_db good_env s' = Some (0, journal, s1)"
proof -
  obtain il where il: "index_logger_create True True True (e_write good_env) = Some (Some il)"
    using create_inv [of "e_write good_env"] by (auto simp: full_write_def good_env_def)
  obtain s0 where s0: "storage_inv map_of (\<lambda>d. True) s0" "stored map_of s0 = (\<lambda>_. None)" "largest_block s0 = 1024" "room 1000 s0"
    using fresh_store by blast
  let ?s = "s0\<lparr>index_logger := il\<rparr>"
  have s: "storage_inv map_of (\<lambda>d. True) ?s" "stored map_of ?s = (\<lambda>_. None)" "largest_block ?s = 1024" "room 1000 ?s"
    using s0 by (simp_all add: storage_inv_def stored_def largest_block_def)
  have "room (length sample_ops) ?s" using room_mono [of 996 "length sample_ops" ?s] s(4) by simp
  then obtain rs s' where s': "store_run (store_calls mem_db good_env) sample_ops ?s = Some (rs, s')"
      "storage_inv map_of (\<lambda>d. True) s'" "largest_block s' = 1024"
    using mem_store.run_ok [where os = sample_ops and s = ?s and top = 1024] s(1,3) by (auto simp del: store_run.simps)
  have c: "block_type_count s' = 4"
  proof -
    have t: "0 < block_type_count s'" "BEGINNING_SIZE * 2 ^ (block_type_count s' - 1) = 1024"
      using s'(2,3) by (simp_all add: storage_inv_def tables_ok_def largest_block_def)
    then have "(2 :: nat) ^ (block_type_count s' - 1) = 2 ^ 3" by (simp add: BEGINNING_SIZE_def)
    then have "block_type_count s' - 1 = 3" by (simp only: power_inject_exp)
    then show ?thesis using t(1) by simp
  qed
  obtain journal s1 where "close_storage mem_db good_env s' = Some (0, journal, s1)"
    using close_returns_zero [OF s'(2) full_good_env, of mem_db] by (auto simp: close_bdb_def mem_db_def)
  then show ?thesis using that [of ?s rs s' journal s1] s s' c il by (simp add: new_journal_def del: store_run.simps)
qed

section \<open>Properties\<close>

text \<open>
  C13. The journal can replace the index. A process starts with a new journal, serves any sequence of
  calls whose values fit the largest block, and closes the store. The records read back from the journal, applied in
  order to the index at the start, give exactly the index at the end; and \<open>open_storage\<close> on the data files, with a
  database that was rebuilt in this way, gives a store that holds what the map of all calls holds.
\<close>

theorem journal_recovers_store:
  assumes "berkeley_db api view good" and "full_env env" and "storage_inv view good s" and "new_journal env s"
    and "room (length ops) s" and "list_all (op_fits (largest_block s)) ops"
    and "store_run (store_calls api env) ops s = Some (rs, s')" and "close_storage api env s' = Some (0, journal, s1)"
    and "classes_for l (block_type_count s')" and "\<forall>i. 0 < newfd i" and "error_no b = 0" and "good (dbp b)"
    and "view (dbp b) = rebuild (replay journal) (view (dbp (indexdb s)))"
  shows "rebuild (replay journal) (view (dbp (indexdb s))) = view (dbp (indexdb s')) \<and>
    (\<exists>s2. open_storage env True newfd True (directory s1) (Inr b) (Some (Some il)) l s1 = Some (0, s2, True) \<and>
      storage_inv view good s2 \<and> stored view s2 = snd (map_run (DB_NOTFOUND api) fixed_key ops (stored view s)))"
proof -
  have bs: "block_setup api view good env" using assms(1,2) by (simp add: block_setup_def block_setup_axioms_def)
  have s': "stored view s' = snd (map_run (DB_NOTFOUND api) fixed_key ops (stored view s))" "storage_inv view good s'"
    using block_setup.run_ok [OF bs, where os = ops and s = s and top = "largest_block s"] assms(3,5,6,7) by auto
  have "good (dbp (indexdb s))" using assms(3) by (simp add: storage_inv_def)
  then have "journals env view s s'" by (rule berkeley_db.run_journals [OF assms(1,7)])
  then have v: "view (dbp (indexdb s')) = rebuild (replay journal) (view (dbp (indexdb s)))"
    using closed_journal_items(1) assms(2,4,8) by (auto simp: full_env_def full_write_def)
  then have "view (dbp b) = view (dbp (indexdb s'))" using assms(13) by simp
  from close_then_reopen [OF assms(2) s'(2) assms(9-12) this, of api il] show ?thesis
    using v s'(1) assms(8) by auto
qed

theorem journal_recovers_store_witness:
  "\<exists>s rs s' journal s1 b s2. store_run (store_calls mem_db good_env) sample_ops s = Some (rs, s') \<and>
    close_storage mem_db good_env s' = Some (0, journal, s1) \<and> map_of (dbp b) = rebuild (replay journal) (map_of (dbp (indexdb s))) \<and>
    open_small (\<lambda>i. 3) True (directory s1) b s1 = Some (0, s2, True) \<and> stored map_of s2 = [fixed_key [1] \<mapsto> replicate 200 5]"
proof (rule sample_process)
  fix s s' s1 :: "(bytes \<times> bytes) list storage" and rs journal
  assume p: "storage_inv map_of (\<lambda>d. True) s" "new_journal good_env s" "room 1000 s" "largest_block s = 1024"
    "stored map_of s = (\<lambda>_. None)" "store_run (store_calls mem_db good_env) sample_ops s = Some (rs, s')"
    "storage_inv map_of (\<lambda>d. True) s'" "block_type_count s' = 4" "close_storage mem_db good_env s' = Some (0, journal, s1)"
  let ?b = "(indexdb s')\<lparr>error_no := 0\<rparr>"
  have "journals good_env map_of s s'" by (rule mem.run_journals [OF p(6)]) simp
  then have v: "map_of (dbp ?b) = rebuild (replay journal) (map_of (dbp (indexdb s)))"
    using closed_journal_items(1) [OF _ _ p(2,9)] by (simp add: full_write_def good_env_def)
  have r: "room (length sample_ops) s" using room_mono [of 996 "length sample_ops" s] p(3) by simp
  have f: "list_all (op_fits (largest_block s)) sample_ops" using p(4) by simp
  have c: "classes_for 1024 (block_type_count s')" using p(8) classes_1024 by simp
  have d: "fixed_key [1] \<noteq> fixed_key [2]" by (simp add: fixed_key_def KEY_LEN_def)
  have m: "snd (map_run (DB_NOTFOUND mem_db) fixed_key sample_ops (stored map_of s)) = [fixed_key [1] \<mapsto> replicate 200 5]"
    using d p(5) by (auto simp: fun_eq_iff)
  have e: "\<forall>i :: nat. (0 :: int) < 3" "error_no ?b = 0" by simp_all
  from journal_recovers_store [OF mem.berkeley_db_axioms full_good_env p(1,2) r f p(6,9) c e TrueI v, of empty_logger]
  obtain s2 where "open_small (\<lambda>i. 3) True (directory s1) ?b s1 = Some (0, s2, True)" "stored map_of s2 = [fixed_key [1] \<mapsto> replicate 200 5]"
    unfolding m by blast
  then show ?thesis using p(6,9) v by blast
qed

text \<open>
  C25. A crash costs the journal at most 186 records: at any moment, without the store being closed, the records in
  the journal file and at most 186 more, those in the working buffer, account for the whole index. The
  calls may be any, also ones that fail. After \<open>sync_storage\<close> of the index nothing is missing.
\<close>

theorem journal_crash_bound:
  assumes "berkeley_db api view good" and "full_env env" and "good (dbp (indexdb s))" and "new_journal env s"
    and "store_run (store_calls api env) ops s = Some (rs, s')"
  shows "(\<exists>lost. length lost \<le> 186 \<and>
      rebuild (replay (log_file (index_logger s')) @ lost) (view (dbp (indexdb s))) = view (dbp (indexdb s'))) \<and>
    (\<exists>s''. sync_storage env sync_index s' = Some (0, s'') \<and> indexdb s'' = indexdb s' \<and>
      rebuild (replay (log_file (index_logger s''))) (view (dbp (indexdb s))) = view (dbp (indexdb s')))"
proof -
  have j: "journals env view s s'" by (rule berkeley_db.run_journals [OF assms(1,5,3)])
  have w: "full_write (e_write env)" using assms(2) by (simp add: full_env_def full_write_def)
  obtain bss ws where b: "log_inv (index_logger s') bss ws"
      "view (dbp (indexdb s')) = rebuild (concat bss @ ws) (view (dbp (indexdb s)))"
    using journal_state [OF j w assms(4)] by blast
  obtain bss' where b': "log_inv (snd (index_logger_flush (e_write env) (index_logger s'))) bss' []" "concat bss' = concat bss @ ws"
    using flush_inv [OF b(1) w] by blast
  have r: "replay (log_file (index_logger s')) = concat bss" "length ws \<le> 186" using log_inv_replay [OF b(1)] by simp_all
  have r': "replay (log_file (snd (index_logger_flush (e_write env) (index_logger s')))) = concat bss @ ws"
    using log_inv_replay [OF b'(1)] b'(2) by simp
  show ?thesis using r r' b(2) by (intro conjI exI [where x = ws]) (simp_all add: sync_storage_def)
qed

theorem journal_crash_bound_witness:
  "\<exists>s rs s' lost. store_run (store_calls mem_db good_env) sample_ops s = Some (rs, s') \<and> length lost \<le> 186 \<and>
    rebuild (replay (log_file (index_logger s')) @ lost) (map_of (dbp (indexdb s))) = map_of (dbp (indexdb s'))"
proof (rule sample_process)
  fix s s' s1 :: "(bytes \<times> bytes) list storage" and rs journal
  assume p: "new_journal good_env s" "store_run (store_calls mem_db good_env) sample_ops s = Some (rs, s')"
  from journal_crash_bound [where good = "\<lambda>d. True", OF mem.berkeley_db_axioms full_good_env TrueI p] p(2)
  show ?thesis by blast
qed

text \<open>
  The tool prints what the store did: \<open>replay_journal -d\<close> on the journal of a process that closed its store prints one line for
  each record, numbered from 1, in order, and then \<open>[done]\<close>; it never looks a name up outside its table, and it leaves the file as it was.
\<close>

theorem tool_prints_journal:
  assumes "berkeley_db api view good" and "full_env env" and "good (dbp (indexdb s))" and "new_journal env s"
    and "store_run (store_calls api env) ops s = Some (rs, s')" and "close_storage api env s' = Some (0, journal, s1)"
  shows "\<exists>ls. replay_main [str ''-d'', path] True True nwrite (Some journal) =
      Some (Finished (ls @ [str ''[done]'' @ [LF]]) (Some journal)) \<and>
    length ls = length (replay journal) \<and> (\<forall>j<length ls. item_line (j + 1) (replay journal ! j) = Some (ls ! j))"
proof -
  have j: "journals env view s s'" by (rule berkeley_db.run_journals [OF assms(1,5,3)])
  have "list_all journal_item (replay journal)"
    using closed_journal_items(2) [OF j _ assms(4,6)] assms(2) by (simp add: full_env_def full_write_def)
  then have "list_all known_type (replay journal)" by (auto simp: list_all_iff journal_item_def)
  from print_indexlog_lines [OF this, of nwrite] show ?thesis by (simp add: replay_main_def)
qed

theorem tool_prints_journal_witness:
  "\<exists>journal ls. replay_main [str ''-d'', str ''x''] True True (\<lambda>n. n) (Some journal) =
      Some (Finished (ls @ [str ''[done]'' @ [LF]]) (Some journal)) \<and> length ls = length (replay journal)"
proof (rule sample_process)
  fix s s' s1 :: "(bytes \<times> bytes) list storage" and rs journal
  assume p: "new_journal good_env s" "store_run (store_calls mem_db good_env) sample_ops s = Some (rs, s')"
    "close_storage mem_db good_env s' = Some (0, journal, s1)"
  from tool_prints_journal [where good = "\<lambda>d. True", OF mem.berkeley_db_axioms full_good_env TrueI p]
  show ?thesis by blast
qed

end
