(* ===== verification/Locked_Programs.thy ===== *)
theory Locked_Programs
  imports Prelude
begin

text \<open>
  Threads that share an object and take read-write locks. A program is a sequence of atomic
  pieces between lock operations; workers take their operations one after the other and are
  interleaved by \<open>wstep\<close>, in which a worker that cannot get a lock does not move. The locks are those of
  \<open>Rwlock\<close> seen from outside: any number of readers or one writer.

  The locale \<open>locked_object\<close> is the discipline of the block store: every operation that touches the object begins with the one big
  lock; an updater keeps it, exclusively, to its end and changes what another lock protects only
  while it holds that lock exclusively; a reader may give the big lock up early and then only
  look at what its other locks protect. Under this discipline every interleaving is linearizable:
  the results and the object are those of the operations executed one after the other in
  some order that keeps the order of each worker; there is no deadlock, and all operations end.
\<close>

section \<open>Programs\<close>

datatype lock_mode = Sh | Ex

datatype ('s, 'l, 'r) prog =
  Return 'r
| Fail
| Acquire 'l lock_mode "('s, 'l, 'r) prog"
| Release 'l "('s, 'l, 'r) prog"
| Exec "'s \<Rightarrow> 's" "'s \<Rightarrow> ('s, 'l, 'r) prog"

text \<open>A program executed alone.\<close>

primrec seq_run :: "('s, 'l, 'r) prog \<Rightarrow> 's \<Rightarrow> ('r \<times> 's) option" where
  "seq_run (Return r) s = Some (r, s)"
| "seq_run Fail s = None"
| "seq_run (Acquire l m p) s = seq_run p s"
| "seq_run (Release l p) s = seq_run p s"
| "seq_run (Exec u k) s = seq_run (k s) (u s)"

text \<open>A piece that may fail and yields a value for the rest.\<close>

definition act :: "('s \<Rightarrow> ('a \<times> 's) option) \<Rightarrow> ('a \<Rightarrow> ('s, 'l, 'r) prog) \<Rightarrow> ('s, 'l, 'r) prog" where
  "act f k = Exec (\<lambda>s. case f s of None \<Rightarrow> s | Some (a, s') \<Rightarrow> s') (\<lambda>s. case f s of None \<Rightarrow> Fail | Some (a, s') \<Rightarrow> k a)"

lemma seq_run_act [simp]:
  "seq_run (act f k) s = (case f s of None \<Rightarrow> None | Some (a, s') \<Rightarrow> seq_run (k a) s')"
  by (auto simp: act_def split: option.splits)

text \<open>At most \<open>n\<close> steps.\<close>

primrec steps_le :: "('s, 'l, 'r) prog \<Rightarrow> nat \<Rightarrow> bool" where
  "steps_le (Return r) n \<longleftrightarrow> True"
| "steps_le Fail n \<longleftrightarrow> True"
| "steps_le (Acquire l m p) n \<longleftrightarrow> 0 < n \<and> steps_le p (n - 1)"
| "steps_le (Release l p) n \<longleftrightarrow> 0 < n \<and> steps_le p (n - 1)"
| "steps_le (Exec u k) n \<longleftrightarrow> 0 < n \<and> (\<forall>s. steps_le (k s) (n - 1))"

lemma steps_le_act [simp]: "steps_le (act f k) n \<longleftrightarrow> 0 < n \<and> (\<forall>s. case f s of None \<Rightarrow> True | Some (a, s') \<Rightarrow> steps_le (k a) (n - 1))"
proof -
  have "steps_le (case f s of None \<Rightarrow> Fail | Some (a, s') \<Rightarrow> k a) m = (case f s of None \<Rightarrow> True | Some (a, s') \<Rightarrow> steps_le (k a) m)" for s m
    by (auto split: option.split)
  then show ?thesis by (simp only: act_def steps_le.simps)
qed

lemma steps_le_mono: "steps_le p n \<Longrightarrow> n \<le> m \<Longrightarrow> steps_le p m"
proof (induction p arbitrary: n m)
  case (Acquire l md p)
  then show ?case using Acquire.IH [of "n - 1" "m - 1"] by simp
next
  case (Release l p)
  then show ?case using Release.IH [of "n - 1" "m - 1"] by simp
next
  case (Exec u k)
  have "steps_le (k s) (m - 1)" for s
    by (rule Exec.IH [OF rangeI, of s "n - 1"]) (use Exec.prems in auto)
  then show ?case using Exec.prems by simp
qed simp_all

section \<open>Workers\<close>

record ('s, 'l, 'o, 'r) worker =
  w_cur :: "('o \<times> ('s, 'l, 'r) prog) option"
  w_todo :: "'o list"
  w_done :: "'r list"
  w_sh :: "'l set"
  w_ex :: "'l set"

record ('s, 'l, 'o, 'r) cstate =
  shared :: 's
  workers :: "('s, 'l, 'o, 'r) worker list"

definition can_lock :: "'l \<Rightarrow> lock_mode \<Rightarrow> ('s, 'l, 'o, 'r) worker list \<Rightarrow> bool" where
  "can_lock l m ws \<longleftrightarrow> (\<forall>w\<in>set ws. l \<notin> w_ex w \<and> (m = Ex \<longrightarrow> l \<notin> w_sh w))"

definition hold :: "'l \<Rightarrow> lock_mode \<Rightarrow> ('s, 'l, 'o, 'r) worker \<Rightarrow> ('s, 'l, 'o, 'r) worker" where
  "hold l m w = (case m of Sh \<Rightarrow> w\<lparr>w_sh := insert l (w_sh w)\<rparr> | Ex \<Rightarrow> w\<lparr>w_ex := insert l (w_ex w)\<rparr>)"

definition unhold :: "'l \<Rightarrow> ('s, 'l, 'o, 'r) worker \<Rightarrow> ('s, 'l, 'o, 'r) worker" where
  "unhold l w = w\<lparr>w_sh := w_sh w - {l}, w_ex := w_ex w - {l}\<rparr>"

text \<open>One step of worker \<open>i\<close>: \<open>None\<close> when it waits for a lock, has nothing to do, or the program
  has failed.\<close>

definition move :: "('o \<Rightarrow> ('s, 'l, 'r) prog) \<Rightarrow> ('s, 'l, 'o, 'r) worker list \<Rightarrow> 's \<Rightarrow> ('s, 'l, 'o, 'r) worker \<Rightarrow>
  ('s \<times> ('s, 'l, 'o, 'r) worker) option" where
  "move prog_of ws s w =
    (case w_cur w of
      None \<Rightarrow> (case w_todo w of [] \<Rightarrow> None | op # ops \<Rightarrow> Some (s, w\<lparr>w_cur := Some (op, prog_of op), w_todo := ops\<rparr>))
    | Some (op, p) \<Rightarrow>
        (case p of
          Return r \<Rightarrow> Some (s, w\<lparr>w_cur := None, w_done := w_done w @ [r]\<rparr>)
        | Fail \<Rightarrow> None
        | Acquire l m p \<Rightarrow> if can_lock l m ws then Some (s, hold l m (w\<lparr>w_cur := Some (op, p)\<rparr>)) else None
        | Release l p \<Rightarrow> Some (s, unhold l (w\<lparr>w_cur := Some (op, p)\<rparr>))
        | Exec u k \<Rightarrow> Some (u s, w\<lparr>w_cur := Some (op, k s)\<rparr>)))"

definition wstep :: "('o \<Rightarrow> ('s, 'l, 'r) prog) \<Rightarrow> nat \<Rightarrow> ('s, 'l, 'o, 'r) cstate \<Rightarrow> ('s, 'l, 'o, 'r) cstate option" where
  "wstep prog_of i c =
    (if \<not> i < length (workers c) then None
     else map_option (\<lambda>(s, w). \<lparr>shared = s, workers = (workers c)[i := w]\<rparr>)
       (move prog_of (workers c) (shared c) (workers c ! i)))"

inductive cstep :: "('o \<Rightarrow> ('s, 'l, 'r) prog) \<Rightarrow> ('s, 'l, 'o, 'r) cstate \<Rightarrow> ('s, 'l, 'o, 'r) cstate \<Rightarrow> bool" for prog_of where
  by_worker: "wstep prog_of i c = Some c' \<Longrightarrow> cstep prog_of c c'"

inductive_cases cstepE: "cstep prog_of c c'"

definition new_worker :: "'o list \<Rightarrow> ('s, 'l, 'o, 'r) worker" where
  "new_worker ops = \<lparr>w_cur = None, w_todo = ops, w_done = [], w_sh = {}, w_ex = {}\<rparr>"

definition cstart :: "'s \<Rightarrow> 'o list list \<Rightarrow> ('s, 'l, 'o, 'r) cstate" where
  "cstart s opss = \<lparr>shared = s, workers = map new_worker opss\<rparr>"

definition finished :: "('s, 'l, 'o, 'r) cstate \<Rightarrow> bool" where
  "finished c \<longleftrightarrow> (\<forall>w\<in>set (workers c). w_cur w = None \<and> w_todo w = [])"

text \<open>A schedule, to execute the model.\<close>

fun run_schedule :: "('o \<Rightarrow> ('s, 'l, 'r) prog) \<Rightarrow> nat list \<Rightarrow> ('s, 'l, 'o, 'r) cstate \<Rightarrow> ('s, 'l, 'o, 'r) cstate option" where
  "run_schedule prog_of [] c = Some c"
| "run_schedule prog_of (i # is) c = (case wstep prog_of i c of None \<Rightarrow> None | Some c' \<Rightarrow> run_schedule prog_of is c')"

lemma run_schedule_append:
  "run_schedule prog_of (is @ js) c = (case run_schedule prog_of is c of None \<Rightarrow> None | Some c' \<Rightarrow> run_schedule prog_of js c')"
  by (induction "is" arbitrary: c) (auto split: option.split)

lemma run_schedule_steps: "run_schedule prog_of is c = Some c' \<Longrightarrow> (cstep prog_of ^^ length is) c c'"
proof (induction "is" arbitrary: c)
  case (Cons i "is")
  then obtain c1 where "wstep prog_of i c = Some c1" "(cstep prog_of ^^ length is) c1 c'"
    by (auto split: option.splits)
  then show ?case using relpowp_Suc_I2 [of "cstep prog_of" c c1] by_worker [of prog_of i c c1] by (simp del: relpowp.simps(2))
qed simp

text \<open>The operations one after the other.\<close>

fun seq_calls :: "('o \<Rightarrow> 's \<Rightarrow> ('r \<times> 's) option) \<Rightarrow> 'o list \<Rightarrow> 's \<Rightarrow> ('r list \<times> 's) option" where
  "seq_calls call [] s = Some ([], s)"
| "seq_calls call (op # ops) s =
    (case call op s of None \<Rightarrow> None | Some (r, s) \<Rightarrow> map_option (\<lambda>(rs, s). (r # rs, s)) (seq_calls call ops s))"

lemma seq_calls_snoc:
  "seq_calls call ops s = Some (rs, t) \<Longrightarrow> call op t = Some (r, u) \<Longrightarrow> seq_calls call (ops @ [op]) s = Some (rs @ [r], u)"
  by (induction ops arbitrary: s rs) (auto split: option.splits)

section \<open>The discipline\<close>

text \<open>An updater that holds the big lock and the locks \<open>F\<close>, exclusively; \<open>same l\<close> says that what \<open>l\<close> protects
  did not change.\<close>

primrec upd_safe :: "'l \<Rightarrow> ('l \<Rightarrow> 's \<Rightarrow> 's \<Rightarrow> bool) \<Rightarrow> ('s, 'l, 'r) prog \<Rightarrow> 'l set \<Rightarrow> bool" where
  "upd_safe big same (Return r) F \<longleftrightarrow> False"
| "upd_safe big same Fail F \<longleftrightarrow> True"
| "upd_safe big same (Acquire l m p) F \<longleftrightarrow> m = Ex \<and> l \<noteq> big \<and> l \<notin> F \<and> upd_safe big same p (insert l F)"
| "upd_safe big same (Release l p) F \<longleftrightarrow>
    (if l = big then F = {} \<and> (\<exists>r. p = Return r) else l \<in> F \<and> upd_safe big same p (F - {l}))"
| "upd_safe big same (Exec u k) F \<longleftrightarrow>
    (\<forall>s. (\<forall>l. l \<notin> F \<and> l \<noteq> big \<longrightarrow> same l s (u s)) \<and> upd_safe big same (k s) F)"

text \<open>A reader that has given up the big lock and holds the locks \<open>H\<close>, shared, in state \<open>s\<close>.\<close>

primrec rd_tail :: "('l \<Rightarrow> 's \<Rightarrow> 's \<Rightarrow> bool) \<Rightarrow> ('s, 'l, 'r) prog \<Rightarrow> 'l set \<Rightarrow> 's \<Rightarrow> bool" where
  "rd_tail same (Return r) H s \<longleftrightarrow> H = {}"
| "rd_tail same Fail H s \<longleftrightarrow> False"
| "rd_tail same (Acquire l m p) H s \<longleftrightarrow> False"
| "rd_tail same (Release l p) H s \<longleftrightarrow> l \<in> H \<and> rd_tail same p (H - {l}) s"
| "rd_tail same (Exec u k) H s \<longleftrightarrow>
    (\<forall>t. (\<forall>l\<in>H. same l s t) \<longrightarrow> u t = t \<and> k t = k s) \<and> rd_tail same (k s) H s"

text \<open>A reader that holds the big lock.\<close>

primrec rd_before :: "'l \<Rightarrow> ('l \<Rightarrow> 's \<Rightarrow> 's \<Rightarrow> bool) \<Rightarrow> ('s, 'l, 'r) prog \<Rightarrow> 'l set \<Rightarrow> 's \<Rightarrow> bool" where
  "rd_before big same (Return r) H s \<longleftrightarrow> False"
| "rd_before big same Fail H s \<longleftrightarrow> False"
| "rd_before big same (Acquire l m p) H s \<longleftrightarrow> m = Sh \<and> l \<noteq> big \<and> rd_before big same p (insert l H) s"
| "rd_before big same (Release l p) H s \<longleftrightarrow> l = big \<and> big \<notin> H \<and> rd_tail same p H s"
| "rd_before big same (Exec u k) H s \<longleftrightarrow> u s = s \<and> rd_before big same (k s) H s"

lemma rd_tail_stable:
  assumes trans: "\<And>l s t u. same l s t \<Longrightarrow> same l t u \<Longrightarrow> same l s u"
  shows "rd_tail same p H s \<Longrightarrow> \<forall>l\<in>H. same l s t \<Longrightarrow> rd_tail same p H t"
proof (induction p arbitrary: H)
  case (Exec u k)
  have a: "\<forall>x. (\<forall>l\<in>H. same l s x) \<longrightarrow> u x = x \<and> k x = k s" "rd_tail same (k s) H s" using Exec.prems(1) by simp_all
  have kt: "k t = k s" using a(1) Exec.prems(2) by blast
  have "\<forall>l\<in>H. same l s x" if "\<forall>l\<in>H. same l t x" for x using that Exec.prems(2) trans by blast
  then have "\<forall>x. (\<forall>l\<in>H. same l t x) \<longrightarrow> u x = x \<and> k x = k t" using a(1) kt by metis
  moreover have "rd_tail same (k s) H t" by (rule Exec.IH [OF rangeI a(2) Exec.prems(2)])
  ultimately show ?case using kt by simp
qed auto

lemma rd_tail_run:
  assumes refl: "\<And>l s. same l s s"
  shows "rd_tail same p H s \<Longrightarrow> \<exists>r. seq_run p s = Some (r, s)"
proof (induction p arbitrary: H)
  case (Exec u k)
  then have a: "\<forall>x. (\<forall>l\<in>H. same l s x) \<longrightarrow> u x = x \<and> k x = k s" "rd_tail same (k s) H s" by simp_all
  then have "u s = s" using refl by blast
  then show ?case using Exec.IH [OF rangeI a(2)] by simp
qed auto

lemma rd_tail_same:
  "rd_tail same p H s \<Longrightarrow> \<forall>l\<in>H. same l s s \<and> same l s t \<Longrightarrow> seq_run p s = Some (r, s) \<Longrightarrow> seq_run p t = Some (r, t)"
proof (induction p arbitrary: H)
  case (Exec u k)
  have a: "\<forall>x. (\<forall>l\<in>H. same l s x) \<longrightarrow> u x = x \<and> k x = k s" "rd_tail same (k s) H s" using Exec.prems(1) by simp_all
  then have "u t = t" "k t = k s" "u s = s" using Exec.prems(2) by blast+
  then show ?case using Exec.IH [OF rangeI a(2) Exec.prems(2)] Exec.prems(3) by simp
qed auto

text \<open>A program whose result is computed further, outside the locks: the map function of the datatype.\<close>

abbreviation "with_result f \<equiv> map_prog (\<lambda>l. l) f"

lemma seq_run_map: "seq_run (with_result f p) s = map_option (\<lambda>(r, s). (f r, s)) (seq_run p s)"
  by (induction p arbitrary: s) simp_all

lemma steps_le_map: "steps_le (with_result f p) n = steps_le p n"
  by (induction p arbitrary: n) simp_all

lemma upd_safe_map: "upd_safe big same p F \<Longrightarrow> upd_safe big same (with_result f p) F"
  by (induction p arbitrary: F) (auto split: if_splits)

lemma rd_tail_map: "rd_tail same p H s \<Longrightarrow> rd_tail same (with_result f p) H s"
  by (induction p arbitrary: H) (auto simp: comp_def)

lemma rd_before_map: "rd_before big same p H s \<Longrightarrow> rd_before big same (with_result f p) H s"
  by (induction p arbitrary: H) (auto simp: rd_tail_map)

text \<open>No lock is held exclusively and by another worker.\<close>

definition apart :: "('s, 'l, 'o, 'r) worker list \<Rightarrow> bool" where
  "apart ws \<longleftrightarrow> (\<forall>i<length ws. \<forall>j<length ws. i \<noteq> j \<longrightarrow> w_ex (ws ! i) \<inter> (w_ex (ws ! j) \<union> w_sh (ws ! j)) = {})"

lemma apart_less:
  assumes "apart ws" and "i < length ws" and "w_sh w \<subseteq> w_sh (ws ! i)" and "w_ex w \<subseteq> w_ex (ws ! i)"
  shows "apart (ws[i := w])"
  using assms unfolding apart_def by (simp add: nth_list_update) blast

lemma apart_hold:
  assumes "apart ws" and "i < length ws" and "can_lock l m ws" and "w_sh w = w_sh (ws ! i)" and "w_ex w = w_ex (ws ! i)"
  shows "apart (ws[i := hold l m w])"
proof -
  have "l \<notin> w_ex (ws ! j)" "m = Ex \<Longrightarrow> l \<notin> w_sh (ws ! j)" if "j < length ws" for j
    using assms(3) that by (auto simp: can_lock_def)
  then show ?thesis
    using assms(1,2,4,5) unfolding apart_def hold_def by (cases m) (simp add: nth_list_update; blast)+
qed

lemma apart_shared:
  assumes "apart ws" and "i < length ws" and "j < length ws" and "j \<noteq> i"
  shows "w_ex (ws ! i) \<inter> w_sh (ws ! j) = {}"
proof -
  have "w_ex (ws ! i) \<inter> (w_ex (ws ! j) \<union> w_sh (ws ! j)) = {}" using assms by (simp add: apart_def)
  then show ?thesis by blast
qed

text \<open>The history: the operations in the order in which they took effect, with worker and result.\<close>

definition own :: "nat \<Rightarrow> (nat \<times> 'o \<times> 'r) list \<Rightarrow> ('o \<times> 'r) list" where
  "own i hist = map snd (filter (\<lambda>e. fst e = i) hist)"

lemma own_snoc: "own i (hist @ [(j, op, r)]) = own i hist @ (if j = i then [(op, r)] else [])"
  by (simp add: own_def)

text \<open>The operations of a history at some moment: those that have returned are among them, those that have not
  begun are not.\<close>

definition timely :: "'a list list \<Rightarrow> ('s, 'l, 'o, 'r) cstate \<Rightarrow> (nat \<times> 'b \<times> 'c) list \<Rightarrow> bool" where
  "timely opss c h \<longleftrightarrow> (\<forall>i<length opss. length (w_done (workers c ! i)) \<le> length (own i h) \<and>
    length (own i h) + length (w_todo (workers c ! i)) \<le> length (opss ! i))"

lemma length_own:
  "\<forall>e\<in>set hist. fst e < n \<Longrightarrow> sum_list (map (\<lambda>i. length (own i hist)) [0..<n]) = length hist"
proof (induction hist)
  case (Cons e hist)
  have "length (own i (e # hist)) = (if i = fst e then 1 else 0) + length (own i hist)" for i by (simp add: own_def)
  moreover have "sum_list (map (\<lambda>i. if i = fst e then 1 else 0) [0..<n]) = (1 :: nat)"
    using Cons.prems by (simp add: sum_list_map_eq_sum_count2 [where X = "{0..<n}"] interv_sum_list_conv_sum_set_nat sum.delta)
  ultimately show ?case using Cons by (simp add: sum_list_addf)
qed (simp add: own_def)

lemma sum_list_replace:
  fixes f :: "'a \<Rightarrow> nat"
  shows "i < length xs \<Longrightarrow> f x + sum_list (map f xs) = f (xs ! i) + sum_list (map f (xs[i := x]))"
proof (induction xs arbitrary: i)
  case (Cons a xs)
  then show ?case by (cases i) (auto simp: algebra_simps)
qed simp

locale locked_object =
  fixes prog_of :: "'o \<Rightarrow> ('s, 'l, 'r) prog" and call :: "'o \<Rightarrow> 's \<Rightarrow> ('r \<times> 's) option"
    and big :: 'l and inv :: "nat \<Rightarrow> 's \<Rightarrow> bool" and same :: "'l \<Rightarrow> 's \<Rightarrow> 's \<Rightarrow> bool"
    and reads :: "'o \<Rightarrow> bool" and ok_op :: "'o \<Rightarrow> bool" and cost :: nat
  assumes same_refl: "same l s s" and same_trans: "same l s t \<Longrightarrow> same l t u \<Longrightarrow> same l s u"
    and seq_law: "seq_run (prog_of op) s = call op s"
    and call_law: "inv (Suc n) s \<Longrightarrow> ok_op op \<Longrightarrow>
      \<exists>r s'. call op s = Some (r, s') \<and> inv n s' \<and> (reads op \<longrightarrow> s' = s)"
    and upd_law: "ok_op op \<Longrightarrow> \<not> reads op \<Longrightarrow> \<exists>p. prog_of op = Acquire big Ex p \<and> upd_safe big same p {}"
    and rd_law: "ok_op op \<Longrightarrow> reads op \<Longrightarrow> (\<exists>r. prog_of op = Return r) \<or>
      (\<exists>p. prog_of op = Acquire big Sh p \<and> (\<forall>n s. inv n s \<longrightarrow> rd_before big same p {} s))"
    and cost_law: "steps_le (prog_of op) cost"
begin

lemma tail_stable: "rd_tail same p H s \<Longrightarrow> \<forall>l\<in>H. same l s t \<Longrightarrow> rd_tail same p H t"
  by (rule rd_tail_stable) (use same_trans in blast)+

text \<open>The operations of a worker that have not taken effect: an operation takes effect when it gives
  up the big lock, or when it begins, if it does not touch the object.\<close>

definition pending :: "('s, 'l, 'o, 'r) worker \<Rightarrow> 'o list" where
  "pending w = (case w_cur w of None \<Rightarrow> []
    | Some (op, p) \<Rightarrow> if big \<in> w_sh w \<union> w_ex w \<or> (\<exists>l m q. p = Acquire l m q) then [op] else []) @ w_todo w"

text \<open>A worker in state \<open>s\<close>, when the operations that took effect lead to \<open>s1\<close>; \<open>rs\<close> are the results of those
  of this worker.\<close>

inductive worker_ok :: "'s \<Rightarrow> 's \<Rightarrow> 'r list \<Rightarrow> ('s, 'l, 'o, 'r) worker \<Rightarrow> bool" where
  idle: "w_cur w = None \<Longrightarrow> w_sh w = {} \<Longrightarrow> w_ex w = {} \<Longrightarrow> worker_ok s s1 (w_done w) w"
| waiting: "w_cur w = Some (op, prog_of op) \<Longrightarrow> ok_op op \<Longrightarrow> prog_of op = Acquire big m p \<Longrightarrow> w_sh w = {} \<Longrightarrow> w_ex w = {} \<Longrightarrow> worker_ok s s1 (w_done w) w"
| updating: "w_cur w = Some (op, p) \<Longrightarrow> w_ex w = insert big F \<Longrightarrow> big \<notin> F \<Longrightarrow> w_sh w = {} \<Longrightarrow>
    upd_safe big same p F \<Longrightarrow> seq_run p s = call op s1 \<Longrightarrow> worker_ok s s1 (w_done w) w"
| reading: "w_cur w = Some (op, p) \<Longrightarrow> w_sh w = insert big H \<Longrightarrow> big \<notin> H \<Longrightarrow> w_ex w = {} \<Longrightarrow> reads op \<Longrightarrow>
    rd_before big same p H s1 \<Longrightarrow> seq_run p s1 = call op s1 \<Longrightarrow> worker_ok s s1 (w_done w) w"
| leaving: "w_cur w = Some (op, p) \<Longrightarrow> big \<notin> w_sh w \<Longrightarrow> w_ex w = {} \<Longrightarrow> rd_tail same p (w_sh w) s \<Longrightarrow>
    seq_run p s = Some (r, s) \<Longrightarrow> worker_ok s s1 (w_done w @ [r]) w"

definition consistent :: "'s \<Rightarrow> 'o list list \<Rightarrow> (nat \<times> 'o \<times> 'r) list \<Rightarrow> 's \<Rightarrow> ('s, 'l, 'o, 'r) cstate \<Rightarrow> bool" where
  "consistent s0 opss hist s1 c \<longleftrightarrow>
    seq_calls call (map (\<lambda>e. fst (snd e)) hist) s0 = Some (map (\<lambda>e. snd (snd e)) hist, s1) \<and>
    inv (sum_list (map (\<lambda>w. length (pending w)) (workers c))) s1 \<and> length (workers c) = length opss \<and>
    (\<forall>e\<in>set hist. fst e < length opss) \<and>
    (\<forall>i<length opss. worker_ok (shared c) s1 (map snd (own i hist)) (workers c ! i) \<and>
      map fst (own i hist) @ pending (workers c ! i) = opss ! i) \<and>
    apart (workers c) \<and> ((\<forall>w\<in>set (workers c). big \<notin> w_ex w) \<longrightarrow> shared c = s1)"

lemma prog_shape:
  assumes "ok_op op"
  obtains (locks) m p where "prog_of op = Acquire big m p" | (free) r where "prog_of op = Return r" "reads op"
  using upd_law rd_law assms by (cases "reads op") blast+

text \<open>A step of worker \<open>i\<close> at which nothing takes effect.\<close>

lemma consistent_keep:
  assumes c: "consistent s0 opss hist s1 c" and i: "i < length opss" and p: "pending w = pending (workers c ! i)"
    and w: "worker_ok s' s1 (map snd (own i hist)) w"
    and others: "\<And>j. j < length opss \<Longrightarrow> j \<noteq> i \<Longrightarrow> worker_ok s' s1 (map snd (own j hist)) (workers c ! j)"
    and ap: "apart ((workers c)[i := w])" and q: "(\<forall>w\<in>set ((workers c)[i := w]). big \<notin> w_ex w) \<longrightarrow> s' = s1"
  shows "consistent s0 opss hist s1 \<lparr>shared = s', workers = (workers c)[i := w]\<rparr>"
proof -
  let ?ws = "workers c"
  have n: "length ?ws = length opss" using c by (simp add: consistent_def)
  have "map (\<lambda>w. length (pending w)) (?ws[i := w]) = map (\<lambda>w. length (pending w)) ?ws"
    using p i n by (simp add: map_update list_update_same_conv)
  then show ?thesis
    using c n i w others ap q p unfolding consistent_def by (auto simp: nth_list_update)
qed

lemma consistent_effect:
  assumes c: "consistent s0 opss hist s1 c" and i: "i < length opss" and p: "pending (workers c ! i) = op # pending w"
    and ok: "ok_op op" and call: "call op s1 = Some (r, s')" and w: "worker_ok t s' (map snd (own i hist) @ [r]) w"
    and others: "\<And>j. j < length opss \<Longrightarrow> j \<noteq> i \<Longrightarrow> worker_ok t s' (map snd (own j hist)) (workers c ! j)"
    and ap: "apart ((workers c)[i := w])" and q: "(\<forall>w\<in>set ((workers c)[i := w]). big \<notin> w_ex w) \<longrightarrow> t = s'"
  shows "consistent s0 opss (hist @ [(i, op, r)]) s' \<lparr>shared = t, workers = (workers c)[i := w]\<rparr>"
proof -
  let ?ws = "workers c" and ?f = "\<lambda>w. length (pending w)"
  have n: "length ?ws = length opss" using c by (simp add: consistent_def)
  have "sum_list (map ?f ?ws) = Suc (sum_list (map ?f (?ws[i := w])))"
    using sum_list_replace [of i ?ws ?f w] i n p by simp
  then have "inv (sum_list (map ?f (?ws[i := w]))) s'" using call_law [OF _ ok, of _ s1] c call by (auto simp: consistent_def)
  moreover have "seq_calls call (map (\<lambda>e. fst (snd e)) (hist @ [(i, op, r)])) s0 = Some (map (\<lambda>e. snd (snd e)) (hist @ [(i, op, r)]), s')"
    using seq_calls_snoc [where call = call, OF _ call] c by (simp add: consistent_def)
  ultimately show ?thesis
    using c n i w others ap p q unfolding consistent_def by (auto simp: nth_list_update own_snoc)
qed

text \<open>What another worker's state depends on.\<close>

lemma other_stable:
  assumes "worker_ok s s1 rs w" and "big \<notin> w_sh w" and "big \<notin> w_ex w" and "\<forall>l\<in>w_sh w. same l s s'"
  shows "worker_ok s' t1 rs w"
  using assms(1)
proof cases
  case (leaving op p r)
  have "rd_tail same p (w_sh w) s'" using tail_stable leaving(5) assms(4) by blast
  moreover have "seq_run p s' = Some (r, s')" using rd_tail_same [OF leaving(5) _ leaving(6)] assms(4) same_refl by blast
  ultimately show ?thesis using leaving worker_ok.leaving by blast
next
  case (waiting op m p)
  then show ?thesis using worker_ok.waiting [OF waiting(2-6)] by simp
qed (use assms in \<open>auto intro: worker_ok.idle\<close>)

lemma consistent_facts:
  assumes "consistent s0 opss hist s1 c" and "i < length opss"
  shows "length (workers c) = length opss" "apart (workers c)" "worker_ok (shared c) s1 (map snd (own i hist)) (workers c ! i)"
    "map fst (own i hist) @ pending (workers c ! i) = opss ! i" "(\<forall>w\<in>set (workers c). big \<notin> w_ex w) \<longrightarrow> shared c = s1"
    "inv (sum_list (map (\<lambda>w. length (pending w)) (workers c))) s1"
  using assms by (auto simp: consistent_def)

lemma consistent_timely:
  assumes "consistent s0 opss hist s1 c"
  shows "timely opss c hist"
  unfolding timely_def
proof (intro allI impI)
  fix i assume i: "i < length opss"
  note f = consistent_facts [OF assms i]
  have "length (w_todo (workers c ! i)) \<le> length (pending (workers c ! i))" by (simp add: pending_def split: option.split prod.split)
  moreover have "length (own i hist) + length (pending (workers c ! i)) = length (opss ! i)"
    using arg_cong [OF f(4), of length] by simp
  moreover have "length (w_done (workers c ! i)) \<le> length (own i hist)"
    using f(3) by cases (metis length_map length_append_singleton le_Suc_eq order_refl)+
  ultimately show "length (w_done (workers c ! i)) \<le> length (own i hist) \<and>
      length (own i hist) + length (w_todo (workers c ! i)) \<le> length (opss ! i)" by simp
qed

text \<open>Who holds the big lock excludes others.\<close>

lemma big_excludes:
  assumes "apart ws" and "i < length ws" and "j < length ws" and "j \<noteq> i"
  shows "big \<in> w_ex (ws ! i) \<Longrightarrow> big \<notin> w_sh (ws ! j) \<and> big \<notin> w_ex (ws ! j)"
    "big \<in> w_sh (ws ! i) \<Longrightarrow> big \<notin> w_ex (ws ! j)"
  using assms unfolding apart_def by blast+

lemma reader_sees_s1:
  assumes "consistent s0 opss hist s1 c" and "i < length opss" and "big \<in> w_sh (workers c ! i)" and "w_ex (workers c ! i) = {}"
  shows "shared c = s1"
proof -
  have n: "length (workers c) = length opss" "apart (workers c)" using consistent_facts [OF assms(1,2)] by blast+
  have "big \<notin> w_ex (workers c ! j)" if "j < length opss" for j
    using big_excludes(2) [OF n(2), of i j] assms(2-4) n(1) that by (cases "j = i") auto
  then show ?thesis using consistent_facts(5) [OF assms(1,2)] n(1) by (metis in_set_conv_nth)
qed

lemma object_settled:
  assumes c: "consistent s0 opss hist s1 c" and i: "i < length opss" and big: "big \<in> w_ex (workers c ! i) \<Longrightarrow> big \<in> w_ex w"
  shows "(\<forall>v\<in>set ((workers c)[i := w]). big \<notin> w_ex v) \<longrightarrow> shared c = s1"
proof
  note f = consistent_facts [OF c i]
  assume a: "\<forall>v\<in>set ((workers c)[i := w]). big \<notin> w_ex v"
  have "big \<notin> w_ex (workers c ! j)" if j: "j < length opss" for j
  proof -
    have "(workers c)[i := w] ! j \<in> set ((workers c)[i := w])" using j f(1) by (intro nth_mem) simp
    then have "big \<notin> w_ex ((workers c)[i := w] ! j)" using a by blast
    then show ?thesis using j big f(1) i by (cases "j = i") auto
  qed
  then show "shared c = s1" using f(1,5) by (metis in_set_conv_nth)
qed

text \<open>A step at which nothing takes effect and the object stays.\<close>

lemma step_quiet:
  assumes c: "consistent s0 opss hist s1 c" and i: "i < length opss" and p: "pending w = pending (workers c ! i)"
    and w: "worker_ok (shared c) s1 (map snd (own i hist)) w" and ap: "apart ((workers c)[i := w])"
    and big: "big \<in> w_ex (workers c ! i) \<Longrightarrow> big \<in> w_ex w"
  shows "consistent s0 opss hist s1 \<lparr>shared = shared c, workers = (workers c)[i := w]\<rparr>"
proof (rule consistent_keep [OF c i p w _ ap])
  note f = consistent_facts [OF c i]
  show "worker_ok (shared c) s1 (map snd (own j hist)) (workers c ! j)" if "j < length opss" for j
    using consistent_facts(3) [OF c that] .
  show "(\<forall>w\<in>set ((workers c)[i := w]). big \<notin> w_ex w) \<longrightarrow> shared c = s1" by (rule object_settled [OF c i big])
qed

lemma step_start:
  assumes c: "consistent s0 opss hist s1 c" and i: "i < length opss"
    and w: "w_cur (workers c ! i) = None" "w_todo (workers c ! i) = op # ops" "w_sh (workers c ! i) = {}" "w_ex (workers c ! i) = {}"
    and rs: "map snd (own i hist) = w_done (workers c ! i)" and ok: "ok_op op" and p: "prog_of op = Acquire big m p"
  shows "consistent s0 opss hist s1 \<lparr>shared = shared c,
    workers = (workers c)[i := (workers c ! i)\<lparr>w_cur := Some (op, prog_of op), w_todo := ops\<rparr>]\<rparr>"
proof (rule step_quiet [OF c i])
  let ?w = "(workers c ! i)\<lparr>w_cur := Some (op, prog_of op), w_todo := ops\<rparr>"
  note f = consistent_facts [OF c i]
  show "pending ?w = pending (workers c ! i)" using w p by (simp add: pending_def)
  show "worker_ok (shared c) s1 (map snd (own i hist)) ?w" using worker_ok.waiting [OF _ ok p, of ?w] w rs by simp
  show "apart ((workers c)[i := ?w])" using f(1,2) i by (intro apart_less) auto
qed simp

lemma step_free:
  assumes c: "consistent s0 opss hist s1 c" and i: "i < length opss"
    and w: "w_cur (workers c ! i) = None" "w_todo (workers c ! i) = op # ops" "w_sh (workers c ! i) = {}" "w_ex (workers c ! i) = {}"
    and rs: "map snd (own i hist) = w_done (workers c ! i)" and ok: "ok_op op" and p: "prog_of op = Return r"
  shows "consistent s0 opss (hist @ [(i, op, r)]) s1 \<lparr>shared = shared c,
    workers = (workers c)[i := (workers c ! i)\<lparr>w_cur := Some (op, prog_of op), w_todo := ops\<rparr>]\<rparr>"
proof (rule consistent_effect [OF c i _ ok])
  let ?w = "(workers c ! i)\<lparr>w_cur := Some (op, prog_of op), w_todo := ops\<rparr>"
  note f = consistent_facts [OF c i]
  show "pending (workers c ! i) = op # pending ?w" using w p by (simp add: pending_def)
  show "call op s1 = Some (r, s1)" using seq_law [of op s1] p by simp
  show "worker_ok (shared c) s1 (map snd (own i hist) @ [r]) ?w"
    using worker_ok.leaving [of ?w op "prog_of op" "shared c" r s1] w p rs by simp
  show "worker_ok (shared c) s1 (map snd (own j hist)) (workers c ! j)" if "j < length opss" for j
    using consistent_facts(3) [OF c that] .
  show "apart ((workers c)[i := ?w])" using f(1,2) i by (intro apart_less) auto
  show "(\<forall>w\<in>set ((workers c)[i := ?w]). big \<notin> w_ex w) \<longrightarrow> shared c = s1" by (rule object_settled [OF c i]) (use w in simp)
qed

lemma step_lock_big:
  assumes c: "consistent s0 opss hist s1 c" and i: "i < length opss"
    and w: "w_cur (workers c ! i) = Some (op, prog_of op)" "prog_of op = Acquire big m p"
      "w_sh (workers c ! i) = {}" "w_ex (workers c ! i) = {}"
    and rs: "map snd (own i hist) = w_done (workers c ! i)" and l: "can_lock big m (workers c)" and ok: "ok_op op"
  shows "consistent s0 opss hist s1 \<lparr>shared = shared c,
    workers = (workers c)[i := hold big m ((workers c ! i)\<lparr>w_cur := Some (op, p)\<rparr>)]\<rparr>"
proof (rule step_quiet [OF c i])
  let ?w = "hold big m ((workers c ! i)\<lparr>w_cur := Some (op, p)\<rparr>)"
  note f = consistent_facts [OF c i]
  have s1: "shared c = s1" using f(5) l by (auto simp: can_lock_def)
  show "pending ?w = pending (workers c ! i)" using w by (cases m) (simp_all add: pending_def hold_def)
  have run: "seq_run p s1 = call op s1" using seq_law [of op s1] w(2) by simp
  show "worker_ok (shared c) s1 (map snd (own i hist)) ?w"
  proof (cases "reads op")
    case True
    then have "m = Sh" "rd_before big same p {} s1" using rd_law [OF ok True] w(2) f(6) by auto
    then show ?thesis using worker_ok.reading [of ?w op p "{}" s1 "shared c"] True w rs run by (simp add: hold_def)
  next
    case False
    then have "m = Ex" "upd_safe big same p {}" using upd_law [OF ok False] w(2) by auto
    then show ?thesis using worker_ok.updating [of ?w op p "{}" "shared c" s1] w rs run s1 by (simp add: hold_def)
  qed
  show "apart ((workers c)[i := ?w])" using f(1,2) i l by (intro apart_hold) auto
qed (use w in simp)

text \<open>The steps of an updater.\<close>

lemma step_update_lock:
  assumes c: "consistent s0 opss hist s1 c" and i: "i < length opss"
    and w: "w_cur (workers c ! i) = Some (op, Acquire l m p)" "w_ex (workers c ! i) = insert big F" "big \<notin> F"
      "w_sh (workers c ! i) = {}" "upd_safe big same (Acquire l m p) F" "seq_run (Acquire l m p) (shared c) = call op s1"
    and rs: "map snd (own i hist) = w_done (workers c ! i)" and l: "can_lock l m (workers c)"
  shows "consistent s0 opss hist s1 \<lparr>shared = shared c,
    workers = (workers c)[i := hold l m ((workers c ! i)\<lparr>w_cur := Some (op, p)\<rparr>)]\<rparr>"
proof (rule step_quiet [OF c i])
  let ?w = "hold l m ((workers c ! i)\<lparr>w_cur := Some (op, p)\<rparr>)"
  note f = consistent_facts [OF c i]
  have m: "m = Ex" "l \<noteq> big" using w(5) by simp_all
  show "pending ?w = pending (workers c ! i)" using w m by (simp add: pending_def hold_def)
  show "worker_ok (shared c) s1 (map snd (own i hist)) ?w"
    using worker_ok.updating [of ?w op p "insert l F" "shared c" s1] w rs m by (simp add: hold_def insert_commute)
  show "apart ((workers c)[i := ?w])" using f(1,2) i l by (intro apart_hold) auto
  show "big \<in> w_ex ?w" using w(2) m by (simp add: hold_def)
qed

lemma step_update_unlock:
  assumes c: "consistent s0 opss hist s1 c" and i: "i < length opss"
    and w: "w_cur (workers c ! i) = Some (op, Release l p)" "w_ex (workers c ! i) = insert big F" "big \<notin> F"
      "w_sh (workers c ! i) = {}" "upd_safe big same (Release l p) F" "seq_run (Release l p) (shared c) = call op s1"
    and rs: "map snd (own i hist) = w_done (workers c ! i)" and l: "l \<noteq> big"
  shows "consistent s0 opss hist s1 \<lparr>shared = shared c,
    workers = (workers c)[i := unhold l ((workers c ! i)\<lparr>w_cur := Some (op, p)\<rparr>)]\<rparr>"
proof (rule step_quiet [OF c i])
  let ?w = "unhold l ((workers c ! i)\<lparr>w_cur := Some (op, p)\<rparr>)"
  note f = consistent_facts [OF c i]
  show "pending ?w = pending (workers c ! i)" using w l by (simp add: pending_def unhold_def)
  show "worker_ok (shared c) s1 (map snd (own i hist)) ?w"
    using worker_ok.updating [of ?w op p "F - {l}" "shared c" s1] w rs l by (simp add: unhold_def insert_Diff_if)
  show "apart ((workers c)[i := ?w])" using f(1,2) i by (intro apart_less) (auto simp: unhold_def)
  show "big \<in> w_ex ?w" using w(2) l by (simp add: unhold_def)
qed

lemma step_update_exec:
  assumes c: "consistent s0 opss hist s1 c" and i: "i < length opss"
    and w: "w_cur (workers c ! i) = Some (op, Exec u k)" "w_ex (workers c ! i) = insert big F" "big \<notin> F"
      "w_sh (workers c ! i) = {}" "upd_safe big same (Exec u k) F" "seq_run (Exec u k) (shared c) = call op s1"
    and rs: "map snd (own i hist) = w_done (workers c ! i)"
  shows "consistent s0 opss hist s1 \<lparr>shared = u (shared c),
    workers = (workers c)[i := (workers c ! i)\<lparr>w_cur := Some (op, k (shared c))\<rparr>]\<rparr>"
proof (rule consistent_keep [OF c i])
  let ?w = "(workers c ! i)\<lparr>w_cur := Some (op, k (shared c))\<rparr>"
  note f = consistent_facts [OF c i]
  have u: "\<forall>l. l \<notin> F \<and> l \<noteq> big \<longrightarrow> same l (shared c) (u (shared c))" "upd_safe big same (k (shared c)) F" using w(5) by simp_all
  show "pending ?w = pending (workers c ! i)" using w by (simp add: pending_def)
  show "worker_ok (u (shared c)) s1 (map snd (own i hist)) ?w"
    using worker_ok.updating [of ?w op "k (shared c)" F "u (shared c)" s1] w rs u by simp
  show "apart ((workers c)[i := ?w])" using f(1,2) i by (intro apart_less) auto
  show "(\<forall>w\<in>set ((workers c)[i := ?w]). big \<notin> w_ex w) \<longrightarrow> u (shared c) = s1"
    using w(2) f(1) i set_update_memI [of i "workers c" ?w] by auto
  show "worker_ok (u (shared c)) s1 (map snd (own j hist)) (workers c ! j)" if j: "j < length opss" "j \<noteq> i" for j
  proof (rule other_stable [OF consistent_facts(3) [OF c j(1)]])
    show b: "big \<notin> w_sh (workers c ! j)" "big \<notin> w_ex (workers c ! j)"
      using big_excludes(1) [OF f(2), of i j] w(2) f(1) i j by auto
    have "w_ex (workers c ! i) \<inter> w_sh (workers c ! j) = {}" using f(1,2) i j by (intro apart_shared) auto
    then show "\<forall>l\<in>w_sh (workers c ! j). same l (shared c) (u (shared c))" using u(1) w(2) b by auto
  qed
qed

lemma pending_ok:
  assumes "consistent s0 opss hist s1 c" and "i < length opss" and "list_all (list_all ok_op) opss" and "op \<in> set (pending (workers c ! i))"
  shows "ok_op op"
  using consistent_facts(4) [OF assms(1,2)] assms(2-4) by (metis Un_iff list_all_length list_all_iff set_append)

lemma step_update_done:
  assumes c: "consistent s0 opss hist s1 c" and i: "i < length opss" and ok: "list_all (list_all ok_op) opss"
    and w: "w_cur (workers c ! i) = Some (op, Release big p)" "w_ex (workers c ! i) = insert big F" "big \<notin> F"
      "w_sh (workers c ! i) = {}" "upd_safe big same (Release big p) F" "seq_run (Release big p) (shared c) = call op s1"
    and rs: "map snd (own i hist) = w_done (workers c ! i)"
  shows "\<exists>ext s1'. consistent s0 opss (hist @ ext) s1' \<lparr>shared = shared c,
    workers = (workers c)[i := unhold big ((workers c ! i)\<lparr>w_cur := Some (op, p)\<rparr>)]\<rparr>"
proof -
  let ?w = "unhold big ((workers c ! i)\<lparr>w_cur := Some (op, p)\<rparr>)"
  note f = consistent_facts [OF c i]
  obtain r where r: "p = Return r" "F = {}" using w(5) by auto
  have p: "pending (workers c ! i) = op # pending ?w" using w r by (simp add: pending_def unhold_def)
  have o: "ok_op op" by (rule pending_ok [OF c i ok]) (simp add: p)
  have call: "call op s1 = Some (r, shared c)" using w(6) r by simp
  have "consistent s0 opss (hist @ [(i, op, r)]) (shared c) \<lparr>shared = shared c, workers = (workers c)[i := ?w]\<rparr>"
  proof (rule consistent_effect [OF c i p o call])
    show "worker_ok (shared c) (shared c) (map snd (own i hist) @ [r]) ?w"
      using worker_ok.leaving [of ?w op p "shared c" r "shared c"] w r rs by (simp add: unhold_def)
    show "apart ((workers c)[i := ?w])" using f(1,2) i by (intro apart_less) (auto simp: unhold_def)
    show "worker_ok (shared c) (shared c) (map snd (own j hist)) (workers c ! j)" if j: "j < length opss" "j \<noteq> i" for j
      by (rule other_stable [OF consistent_facts(3) [OF c j(1)]])
        (use big_excludes(1) [OF f(2), of i j] w(2) f(1) i j same_refl in auto)
  qed simp
  then show ?thesis by blast
qed

text \<open>The steps of a reader.\<close>

lemma step_read_quiet:
  assumes c: "consistent s0 opss hist s1 c" and i: "i < length opss"
    and w: "w_cur (workers c ! i) = Some (op, p)" "w_sh (workers c ! i) = insert big H" "big \<notin> H" "w_ex (workers c ! i) = {}"
      "reads op" "seq_run p s1 = call op s1"
    and rs: "map snd (own i hist) = w_done (workers c ! i)"
    and w': "w_cur w = Some (op, q)" "w_sh w = insert big H'" "big \<notin> H'" "w_ex w = {}" "w_done w = w_done (workers c ! i)"
      "w_todo w = w_todo (workers c ! i)"
    and q: "rd_before big same q H' s1" "seq_run q s1 = seq_run p s1" and ap: "apart ((workers c)[i := w])"
  shows "consistent s0 opss hist s1 \<lparr>shared = shared c, workers = (workers c)[i := w]\<rparr>"
proof (rule step_quiet [OF c i _ _ ap])
  show "pending w = pending (workers c ! i)" using w w' by (simp add: pending_def)
  show "worker_ok (shared c) s1 (map snd (own i hist)) w"
    using worker_ok.reading [OF w'(1-4) w(5) q(1)] w(6) q(2) rs w'(5) by simp
qed (use w in simp)

lemma step_read_done:
  assumes c: "consistent s0 opss hist s1 c" and i: "i < length opss" and ok: "list_all (list_all ok_op) opss"
    and w: "w_cur (workers c ! i) = Some (op, Release big p)" "w_sh (workers c ! i) = insert big H" "big \<notin> H" "w_ex (workers c ! i) = {}"
      "reads op" "rd_tail same p H s1" "seq_run p s1 = call op s1"
    and rs: "map snd (own i hist) = w_done (workers c ! i)"
  shows "\<exists>ext s1'. consistent s0 opss (hist @ ext) s1' \<lparr>shared = shared c,
    workers = (workers c)[i := unhold big ((workers c ! i)\<lparr>w_cur := Some (op, p)\<rparr>)]\<rparr>"
proof -
  let ?w = "unhold big ((workers c ! i)\<lparr>w_cur := Some (op, p)\<rparr>)"
  note f = consistent_facts [OF c i]
  have s1: "shared c = s1" using reader_sees_s1 [OF c i] w(2,4) by simp
  obtain r where r: "seq_run p s1 = Some (r, s1)" using rd_tail_run [OF same_refl w(6)] by blast
  have "\<not> (\<exists>l m q. p = Acquire l m q)" using w(6) by auto
  then have p: "pending (workers c ! i) = op # pending ?w" using w by (auto simp: pending_def unhold_def)
  have o: "ok_op op" by (rule pending_ok [OF c i ok]) (simp add: p)
  have call: "call op s1 = Some (r, s1)" using w(7) r by simp
  have "consistent s0 opss (hist @ [(i, op, r)]) s1 \<lparr>shared = s1, workers = (workers c)[i := ?w]\<rparr>"
  proof (rule consistent_effect [OF c i p o call])
    show "worker_ok s1 s1 (map snd (own i hist) @ [r]) ?w"
      using worker_ok.leaving [of ?w op p s1 r s1] w r rs by (simp add: unhold_def)
    show "apart ((workers c)[i := ?w])" using f(1,2) i by (intro apart_less) (auto simp: unhold_def)
    show "worker_ok s1 s1 (map snd (own j hist)) (workers c ! j)" if j: "j < length opss" for j
      using consistent_facts(3) [OF c j] s1 by simp
  qed simp
  then show ?thesis using s1 by blast
qed

lemma step_leave:
  assumes c: "consistent s0 opss hist s1 c" and i: "i < length opss"
    and w: "w_cur (workers c ! i) = Some (op, p)" "big \<notin> w_sh (workers c ! i)" "w_ex (workers c ! i) = {}" "\<not> (\<exists>l m q. p = Acquire l m q)"
    and w': "worker_ok (shared c) s1 (map snd (own i hist)) w" "w_sh w \<subseteq> w_sh (workers c ! i)" "w_ex w = {}"
      "w_todo w = w_todo (workers c ! i)" "w_cur w = None \<or> w_cur w = Some (op, q) \<and> \<not> (\<exists>l m x. q = Acquire l m x)"
  shows "consistent s0 opss hist s1 \<lparr>shared = shared c, workers = (workers c)[i := w]\<rparr>"
proof (rule step_quiet [OF c i _ w'(1)])
  show "pending w = pending (workers c ! i)" using w w'(2-5) by (auto simp: pending_def)
  show "apart ((workers c)[i := w])" using consistent_facts(1,2) [OF c i] i w'(2,3) by (intro apart_less) auto
qed (use w in simp)

lemma updater_steps:
  assumes c: "consistent s0 opss hist s1 c" and i: "i < length opss" and ok: "list_all (list_all ok_op) opss"
    and m: "move prog_of (workers c) (shared c) (workers c ! i) = Some (s', w')"
      "c' = \<lparr>shared = s', workers = (workers c)[i := w']\<rparr>"
    and updating: "map snd (own i hist) = w_done (workers c ! i)" "w_cur (workers c ! i) = Some (op, p)" "w_ex (workers c ! i) = insert big F"
      "big \<notin> F" "w_sh (workers c ! i) = {}" "upd_safe big same p F" "seq_run p (shared c) = call op s1"
  shows "\<exists>ext s1'. consistent s0 opss (hist @ ext) s1' c'"
proof -
  let ?w = "workers c ! i" and ?s = "shared c"
  note f = consistent_facts [OF c i]
  have keep: ?thesis if "consistent s0 opss hist s1 c'" using that by (intro exI [where x = "[]"] exI [where x = s1]) simp
  show ?thesis
  proof (cases p)
    case (Acquire l md q)
    then have "can_lock l md (workers c)" "s' = ?s" "w' = hold l md (?w\<lparr>w_cur := Some (op, q)\<rparr>)"
      using m(1) updating by (auto simp: move_def split: if_splits)
    then show ?thesis using keep step_update_lock [OF c i updating(2) [unfolded Acquire] updating(3-5)] updating Acquire m(2) by simp
  next
    case (Release l q)
    then have w': "s' = ?s" "w' = unhold l (?w\<lparr>w_cur := Some (op, q)\<rparr>)" using m(1) updating by (auto simp: move_def)
    show ?thesis
    proof (cases "l = big")
      case True
      then show ?thesis using step_update_done [OF c i ok updating(2) [unfolded Release True] updating(3-5)] updating Release m(2) w' by simp
    next
      case False
      then show ?thesis using keep step_update_unlock [OF c i updating(2) [unfolded Release] updating(3-5)] updating Release m(2) w' by simp
    qed
  next
    case (Exec u k)
    then have "s' = u ?s" "w' = ?w\<lparr>w_cur := Some (op, k ?s)\<rparr>" using m(1) updating by (auto simp: move_def)
    then show ?thesis
      using keep step_update_exec [OF c i updating(2) [unfolded Exec] updating(3-5) updating(6) [unfolded Exec] updating(7) [unfolded Exec] updating(1)] m(2)
      by simp
  qed (use updating m(1) in \<open>auto simp: move_def\<close>)
qed

lemma reader_steps:
  assumes c: "consistent s0 opss hist s1 c" and i: "i < length opss" and ok: "list_all (list_all ok_op) opss"
    and m: "move prog_of (workers c) (shared c) (workers c ! i) = Some (s', w')"
      "c' = \<lparr>shared = s', workers = (workers c)[i := w']\<rparr>"
    and reading: "map snd (own i hist) = w_done (workers c ! i)" "w_cur (workers c ! i) = Some (op, p)" "w_sh (workers c ! i) = insert big H"
      "big \<notin> H" "w_ex (workers c ! i) = {}" "reads op" "rd_before big same p H s1" "seq_run p s1 = call op s1"
  shows "\<exists>ext s1'. consistent s0 opss (hist @ ext) s1' c'"
proof -
  let ?w = "workers c ! i" and ?s = "shared c"
  note f = consistent_facts [OF c i]
  have keep: ?thesis if "consistent s0 opss hist s1 c'" using that by (intro exI [where x = "[]"] exI [where x = s1]) simp
  have s1: "?s = s1" using reader_sees_s1 [OF c i] reading by simp
  note q = step_read_quiet [OF c i reading(2-6) reading(8) reading(1)]
  show ?thesis
  proof (cases p)
    case (Acquire l md x)
    then have w': "can_lock l md (workers c)" "s' = ?s" "w' = hold l md (?w\<lparr>w_cur := Some (op, x)\<rparr>)" "md = Sh" "l \<noteq> big"
      using m(1) reading by (auto simp: move_def split: if_splits)
    then have "apart ((workers c)[i := w'])" using f(1,2) i by (auto intro: apart_hold)
    then have "consistent s0 opss hist s1 \<lparr>shared = ?s, workers = (workers c)[i := w']\<rparr>"
      using reading w' Acquire by (intro q [of w' x "insert l H"]) (auto simp: hold_def)
    then show ?thesis using keep m(2) w'(2) by simp
  next
    case (Release l x)
    then have w': "l = big" "s' = ?s" "w' = unhold l (?w\<lparr>w_cur := Some (op, x)\<rparr>)" using m(1) reading by (auto simp: move_def)
    then show ?thesis
      using step_read_done [OF c i ok reading(2) [unfolded Release w'(1)] reading(3-6)] reading Release m(2) by simp
  next
    case (Exec u k)
    then have w': "s' = u ?s" "w' = ?w\<lparr>w_cur := Some (op, k ?s)\<rparr>" "u s1 = s1" using m(1) reading by (auto simp: move_def)
    then have "apart ((workers c)[i := w'])" using f(1,2) i by (intro apart_less) auto
    then have "consistent s0 opss hist s1 \<lparr>shared = ?s, workers = (workers c)[i := w']\<rparr>"
      using reading w' Exec s1 by (intro q [of w' "k ?s" H]) auto
    then show ?thesis using keep m(2) w' s1 by simp
  qed (use reading in auto)
qed

lemma leaver_steps:
  assumes c: "consistent s0 opss hist s1 c" and i: "i < length opss" and ok: "list_all (list_all ok_op) opss"
    and m: "move prog_of (workers c) (shared c) (workers c ! i) = Some (s', w')"
      "c' = \<lparr>shared = s', workers = (workers c)[i := w']\<rparr>"
    and leaving: "map snd (own i hist) = w_done (workers c ! i) @ [r]" "w_cur (workers c ! i) = Some (op, p)" "big \<notin> w_sh (workers c ! i)"
      "w_ex (workers c ! i) = {}" "rd_tail same p (w_sh (workers c ! i)) (shared c)" "seq_run p (shared c) = Some (r, shared c)"
  shows "\<exists>ext s1'. consistent s0 opss (hist @ ext) s1' c'"
proof -
  let ?w = "workers c ! i" and ?s = "shared c"
  note f = consistent_facts [OF c i]
  have keep: ?thesis if "consistent s0 opss hist s1 c'" using that by (intro exI [where x = "[]"] exI [where x = s1]) simp
  have na: "\<not> (\<exists>l m q. p = Acquire l m q)" using leaving by auto
  note q = step_leave [OF c i leaving(2-4) na]
  show ?thesis
  proof (cases p)
    case (Return x)
    then have w': "s' = ?s" "w' = ?w\<lparr>w_cur := None, w_done := w_done ?w @ [x]\<rparr>" "x = r" "w_sh ?w = {}"
      using m(1) leaving by (auto simp: move_def)
    then have "worker_ok ?s s1 (map snd (own i hist)) w'" using worker_ok.idle [of w' ?s s1] leaving by simp
    then have "consistent s0 opss hist s1 \<lparr>shared = ?s, workers = (workers c)[i := w']\<rparr>" by (rule q) (use w' leaving in auto)
    then show ?thesis using keep m(2) w'(1) by simp
  next
    case (Release l x)
    then have w': "s' = ?s" "w' = unhold l (?w\<lparr>w_cur := Some (op, x)\<rparr>)" "rd_tail same x (w_sh ?w - {l}) ?s" "seq_run x ?s = Some (r, ?s)"
      using m(1) leaving by (auto simp: move_def)
    then have "worker_ok ?s s1 (map snd (own i hist)) w'"
      using worker_ok.leaving [of w' op x ?s r s1] leaving by (simp add: unhold_def)
    then have "consistent s0 opss hist s1 \<lparr>shared = ?s, workers = (workers c)[i := w']\<rparr>"
      by (rule q [where q = x]) (use w' leaving in \<open>auto simp: unhold_def\<close>)
    then show ?thesis using keep m(2) w'(1) by simp
  next
    case (Exec u k)
    have t: "\<forall>x. (\<forall>l\<in>w_sh ?w. same l ?s x) \<longrightarrow> u x = x \<and> k x = k ?s" "rd_tail same (k ?s) (w_sh ?w) ?s" using leaving(5) Exec by simp_all
    then have u: "u ?s = ?s" using same_refl by blast
    have w': "s' = ?s" "w' = ?w\<lparr>w_cur := Some (op, k ?s)\<rparr>" using m(1) leaving Exec u by (auto simp: move_def)
    then have "worker_ok ?s s1 (map snd (own i hist)) w'"
      using worker_ok.leaving [of w' op "k ?s" ?s r s1] leaving t(2) u Exec by simp
    then have "consistent s0 opss hist s1 \<lparr>shared = ?s, workers = (workers c)[i := w']\<rparr>"
      by (rule q [where q = "k ?s"]) (use w' leaving t(2) in auto)
    then show ?thesis using keep m(2) w'(1) by simp
  qed (use leaving in auto)
qed

lemma step_consistent:
  assumes c: "consistent s0 opss hist s1 c" and ok: "list_all (list_all ok_op) opss" and st: "wstep prog_of i c = Some c'"
  shows "\<exists>ext s1'. consistent s0 opss (hist @ ext) s1' c'"
proof -
  have n: "length (workers c) = length opss" using c by (simp add: consistent_def)
  have i: "i < length opss" using st n by (auto simp: wstep_def split: if_splits)
  note f = consistent_facts [OF c i]
  let ?w = "workers c ! i" and ?s = "shared c"
  obtain s' w' where m: "move prog_of (workers c) ?s ?w = Some (s', w')" "c' = \<lparr>shared = s', workers = (workers c)[i := w']\<rparr>"
    using st by (auto simp: wstep_def split: if_splits)
  have keep: ?thesis if "consistent s0 opss hist s1 c'" using that by (intro exI [where x = "[]"] exI [where x = s1]) simp
  show ?thesis
    using f(3)
  proof cases
    case idle
    then obtain op ops where "w_todo ?w = op # ops" "s' = ?s" "w' = ?w\<lparr>w_cur := Some (op, prog_of op), w_todo := ops\<rparr>"
      using m(1) by (auto simp: move_def split: list.splits)
    moreover from this idle(2) have o: "ok_op op" using pending_ok [OF c i ok, of op] by (simp add: pending_def)
    moreover note start = step_start [OF c i idle(2) _ idle(3,4) idle(1) o] and free = step_free [OF c i idle(2) _ idle(3,4) idle(1) o]
    ultimately show ?thesis using keep m(2) by (cases rule: prog_shape [OF o]) auto
  next
    case (waiting op md p)
    then have "can_lock big md (workers c)" "s' = ?s" "w' = hold big md (?w\<lparr>w_cur := Some (op, p)\<rparr>)"
      using m(1) by (auto simp: move_def split: if_splits)
    then show ?thesis using keep step_lock_big [OF c i waiting(2,4) waiting(5,6,1)] waiting(3) m(2) by simp
  next
    case (updating op p F)
    show ?thesis by (rule updater_steps [OF c i ok m updating])
  next
    case (reading op p H)
    show ?thesis by (rule reader_steps [OF c i ok m reading])
  next
    case (leaving op p r)
    show ?thesis by (rule leaver_steps [OF c i ok m leaving])
  qed
qed

lemma start_consistent:
  assumes "inv (sum_list (map length opss)) s0"
  shows "consistent s0 opss [] s0 (cstart s0 opss)"
proof -
  have p: "pending (new_worker ops) = ops" for ops by (simp add: pending_def new_worker_def)
  have "worker_ok s0 s0 [] (new_worker ops)" for ops using worker_ok.idle [of "new_worker ops" s0 s0] by (simp add: new_worker_def)
  moreover have "apart (map new_worker opss)" by (simp add: apart_def new_worker_def)
  ultimately show ?thesis using assms by (simp add: consistent_def cstart_def own_def p comp_def)
qed

lemma run_consistent:
  assumes "run_schedule prog_of is (cstart s0 opss) = Some c"
    and inv: "inv (sum_list (map length opss)) s0" and ok: "list_all (list_all ok_op) opss"
  shows "\<exists>hist s1. consistent s0 opss hist s1 c \<and>
    (\<forall>is1 is2 c1. is = is1 @ is2 \<longrightarrow> run_schedule prog_of is1 (cstart s0 opss) = Some c1 \<longrightarrow> (\<exists>k\<le>length hist. timely opss c1 (take k hist)))"
  using assms(1)
proof (induction "is" arbitrary: c rule: rev_induct)
  case Nil
  then show ?case
    using start_consistent [OF inv] consistent_timely [OF start_consistent [OF inv]]
    by (intro exI [where x = "[]"] exI [where x = s0]) auto
next
  case (snoc i "is")
  then obtain b where b: "run_schedule prog_of is (cstart s0 opss) = Some b" "wstep prog_of i b = Some c"
    by (auto simp: run_schedule_append split: option.splits)
  obtain hist s1 where h: "consistent s0 opss hist s1 b" and t: "\<And>is1 is2 c1. is = is1 @ is2 \<Longrightarrow>
      run_schedule prog_of is1 (cstart s0 opss) = Some c1 \<Longrightarrow> \<exists>k\<le>length hist. timely opss c1 (take k hist)"
    using snoc.IH [OF b(1)] by blast
  obtain ext s1' where h': "consistent s0 opss (hist @ ext) s1' c" using step_consistent [OF h ok b(2)] by blast
  have "\<exists>k\<le>length (hist @ ext). timely opss c1 (take k (hist @ ext))"
    if c1: "is @ [i] = is1 @ is2" "run_schedule prog_of is1 (cstart s0 opss) = Some c1" for is1 is2 c1
  proof (cases is2 rule: rev_cases)
    case Nil
    then have "c1 = c" using c1 snoc.prems by simp
    then show ?thesis using consistent_timely [OF h'] by (intro exI [where x = "length (hist @ ext)"]) simp
  next
    case (snoc js j)
    then have "is = is1 @ js" using c1(1) by simp
    then obtain k where "k \<le> length hist" "timely opss c1 (take k hist)" using t c1(2) by blast
    then show ?thesis by (intro exI [where x = k]) simp
  qed
  then show ?case using h' by blast
qed

lemma linearizable:
  assumes run: "run_schedule prog_of is (cstart s0 opss) = Some c"
    and inv: "inv (sum_list (map length opss)) s0" and ok: "list_all (list_all ok_op) opss" and fin: "finished c"
  shows "\<exists>hist. seq_calls call (map (\<lambda>e. fst (snd e)) hist) s0 = Some (map (\<lambda>e. snd (snd e)) hist, shared c) \<and>
    inv 0 (shared c) \<and> (\<forall>e\<in>set hist. fst e < length opss) \<and>
    (\<forall>i<length opss. map fst (own i hist) = opss ! i \<and> map snd (own i hist) = w_done (workers c ! i)) \<and>
    (\<forall>is1 is2 c1. is = is1 @ is2 \<longrightarrow> run_schedule prog_of is1 (cstart s0 opss) = Some c1 \<longrightarrow> (\<exists>k\<le>length hist. timely opss c1 (take k hist)))"
proof -
  obtain hist s1 where h: "consistent s0 opss hist s1 c" and t: "\<forall>is1 is2 c1. is = is1 @ is2 \<longrightarrow>
      run_schedule prog_of is1 (cstart s0 opss) = Some c1 \<longrightarrow> (\<exists>k\<le>length hist. timely opss c1 (take k hist))"
    using run_consistent [OF run inv ok] by blast
  have n: "length (workers c) = length opss" using h by (simp add: consistent_def)
  have w: "w_ex (workers c ! i) = {} \<and> pending (workers c ! i) = [] \<and> map snd (own i hist) = w_done (workers c ! i)" if i: "i < length opss" for i
  proof -
    have "w_cur (workers c ! i) = None" "w_todo (workers c ! i) = []" using fin i n by (simp_all add: finished_def)
    then show ?thesis using consistent_facts(3) [OF h i] by (auto simp: pending_def elim: worker_ok.cases)
  qed
  then have "\<forall>w\<in>set (workers c). big \<notin> w_ex w" using n by (metis empty_iff in_set_conv_nth)
  then have s1: "shared c = s1" using h by (simp add: consistent_def)
  have "\<forall>w\<in>set (workers c). pending w = []" using w n by (metis in_set_conv_nth)
  then have "sum_list (map (\<lambda>w. length (pending w)) (workers c)) = 0" by simp
  then have "inv 0 (shared c)" using h s1 by (simp only: consistent_def)
  then show ?thesis using h w t s1 by (intro exI [where x = hist]) (auto simp: consistent_def)
qed

text \<open>No deadlock.\<close>

abbreviation "moves c i \<equiv> move prog_of (workers c) (shared c) (workers c ! i) \<noteq> None"

lemma leaver_moves:
  "w_cur (workers c ! i) = Some (op, p) \<Longrightarrow> rd_tail same p H s \<Longrightarrow> moves c i"
  by (cases p) (simp_all add: move_def)

lemma ex_holder:
  assumes "worker_ok s s1 rs w" and "l \<in> w_ex w"
  shows "big \<in> w_ex w"
  using assms by cases auto

lemma sh_holder:
  assumes "worker_ok s s1 rs w" and "l \<in> w_sh w"
  shows "big \<in> w_sh w \<or> (\<exists>op p. w_cur w = Some (op, p) \<and> rd_tail same p (w_sh w) s)"
  using assms by cases auto

lemma reader_moves:
  assumes c: "consistent s0 opss hist s1 c" and i: "i < length opss"
    and w: "w_cur (workers c ! i) = Some (op, p)" "big \<in> w_sh (workers c ! i)" "w_ex (workers c ! i) = {}" "rd_before big same p H s1"
  shows "moves c i"
proof (cases p)
  case (Acquire l m q)
  note f = consistent_facts [OF c i]
  have "l \<notin> w_ex (workers c ! j)" if j: "j < length opss" for j
    using ex_holder [OF consistent_facts(3) [OF c j], of l] big_excludes(2) [OF f(2), of i j] f(1) i j w(2,3) by (cases "j = i") auto
  then have "can_lock l m (workers c)" using Acquire w(4) f(1) by (auto simp: can_lock_def in_set_conv_nth)
  then show ?thesis using Acquire w(1) by (simp add: move_def)
qed (use w in \<open>auto simp: move_def\<close>)

lemma updater_moves:
  assumes c: "consistent s0 opss hist s1 c" and i: "i < length opss" and ok: "list_all (list_all ok_op) opss"
    and w: "w_cur (workers c ! i) = Some (op, p)" "w_ex (workers c ! i) = insert big F" "big \<notin> F" "w_sh (workers c ! i) = {}"
      "upd_safe big same p F" "seq_run p (shared c) = call op s1"
  shows "\<exists>j<length opss. moves c j"
proof (cases p)
  case Fail
  have "op \<in> set (pending (workers c ! i))" using w by (simp add: pending_def)
  then have o: "ok_op op" by (rule pending_ok [OF c i ok])
  let ?f = "\<lambda>w. length (pending w)"
  have "?f (workers c ! i) \<le> sum_list (map ?f (workers c))"
    using i consistent_facts(1) [OF c i] by (intro member_le_sum_list) auto
  moreover have "0 < ?f (workers c ! i)" using w by (simp add: pending_def)
  ultimately obtain n where "sum_list (map ?f (workers c)) = Suc n" by (cases "sum_list (map ?f (workers c))") auto
  then have "call op s1 \<noteq> None" using call_law [OF _ o, of n s1] consistent_facts(6) [OF c i] by auto
  then show ?thesis using w(6) Fail by simp
next
  case (Acquire l m q)
  note f = consistent_facts [OF c i]
  show ?thesis
  proof (cases "can_lock l m (workers c)")
    case True
    then have "moves c i" using Acquire w(1) by (simp add: move_def)
    then show ?thesis using i by blast
  next
    case False
    then obtain j where j: "j < length opss" "l \<in> w_ex (workers c ! j) \<or> l \<in> w_sh (workers c ! j)"
      using f(1) by (auto simp: can_lock_def in_set_conv_nth)
    have ji: "j \<noteq> i" using j(2) w Acquire by auto
    then have b: "big \<notin> w_sh (workers c ! j)" "big \<notin> w_ex (workers c ! j)"
      using big_excludes(1) [OF f(2), of i j] w(2) f(1) i j(1) by auto
    note wj = consistent_facts(3) [OF c j(1)]
    have "l \<in> w_sh (workers c ! j)" using j(2) ex_holder [OF wj] b(2) by blast
    then show ?thesis using sh_holder [OF wj] b(1) leaver_moves j(1) by blast
  qed
qed (use w i in \<open>auto simp: move_def\<close>)

lemma no_deadlock:
  assumes c: "consistent s0 opss hist s1 c" and ok: "list_all (list_all ok_op) opss" and "\<not> finished c"
  shows "\<exists>c'. cstep prog_of c c'"
proof -
  have n: "length (workers c) = length opss" using c by (simp add: consistent_def)
  obtain i where i: "i < length opss" "w_cur (workers c ! i) \<noteq> None \<or> w_todo (workers c ! i) \<noteq> []"
    using assms(3) n by (auto simp: finished_def in_set_conv_nth)
  have "\<exists>j<length opss. moves c j"
  proof (cases "\<exists>j<length opss. big \<in> w_sh (workers c ! j) \<union> w_ex (workers c ! j)")
    case True
    then obtain j where j: "j < length opss" "big \<in> w_sh (workers c ! j) \<union> w_ex (workers c ! j)" by blast
    show ?thesis
      using consistent_facts(3) [OF c j(1)]
    proof cases
      case (updating op p F)
      then show ?thesis using updater_moves [OF c j(1) ok] by blast
    next
      case (reading op p H)
      then show ?thesis using reader_moves [OF c j(1)] j(1) by blast
    qed (use j in auto)
  next
    case False
    then have free: "can_lock big m (workers c)" for m using n by (auto simp: can_lock_def in_set_conv_nth)
    have "moves c i"
      using consistent_facts(3) [OF c i(1)]
    proof cases
      case idle
      then show ?thesis using i(2) by (auto simp: move_def split: list.split)
    next
      case (waiting op m p)
      then show ?thesis using free by (auto simp: move_def)
    next
      case (leaving op p r)
      then show ?thesis using leaver_moves by blast
    qed (use False i in auto)
    then show ?thesis using i(1) by blast
  qed
  then obtain j where "j < length opss" "moves c j" by blast
  then have "\<exists>c'. wstep prog_of j c = Some c'" using n by (auto simp: wstep_def)
  then show ?thesis using by_worker by blast
qed

text \<open>Every run ends: an operation takes at most \<open>cost + 2\<close> steps.\<close>

fun worth :: "('s, 'l, 'o, 'r) worker \<Rightarrow> nat \<Rightarrow> bool" where
  "worth w n \<longleftrightarrow> (case w_cur w of None \<Rightarrow> n = (cost + 2) * length (w_todo w)
    | Some (op, p) \<Rightarrow> (\<exists>m. steps_le p m \<and> n = m + 1 + (cost + 2) * length (w_todo w)))"

declare worth.simps [simp del]

lemma move_worth:
  assumes "move prog_of ws s w = Some (s', w')" and "worth w n"
  shows "\<exists>n'<n. worth w' n'"
proof (cases "w_cur w")
  case None
  then obtain op ops where "w_todo w = op # ops" "w' = w\<lparr>w_cur := Some (op, prog_of op), w_todo := ops\<rparr>"
    using assms(1) by (auto simp: move_def split: list.splits)
  then show ?thesis using assms(2) None cost_law [of op]
    by (intro exI [where x = "cost + 1 + (cost + 2) * length ops"]) (auto simp: worth.simps)
next
  case (Some op_p)
  obtain op p where p: "op_p = (op, p)" by (cases op_p)
  obtain m where m: "steps_le p m" "n = m + 1 + (cost + 2) * length (w_todo w)" using assms(2) Some p by (auto simp: worth.simps)
  show ?thesis
  proof (cases p)
    case (Return r)
    then show ?thesis using assms(1) Some p m(2)
      by (intro exI [where x = "(cost + 2) * length (w_todo w)"]) (auto simp: move_def worth.simps)
  next
    case (Acquire l md q)
    then have "w' = hold l md (w\<lparr>w_cur := Some (op, q)\<rparr>)" using assms(1) Some p by (auto simp: move_def split: if_splits)
    then show ?thesis using m Acquire
      by (intro exI [where x = "m + (cost + 2) * length (w_todo w)"]) (cases md; auto simp: hold_def worth.simps intro!: exI [where x = "m - 1"])
  next
    case (Release l q)
    then show ?thesis using assms(1) Some p m
      by (intro exI [where x = "m + (cost + 2) * length (w_todo w)"]) (auto simp: move_def unhold_def worth.simps intro!: exI [where x = "m - 1"])
  next
    case (Exec u k)
    then show ?thesis using assms(1) Some p m
      by (intro exI [where x = "m + (cost + 2) * length (w_todo w)"]) (auto simp: move_def worth.simps intro!: exI [where x = "m - 1"])
  qed (use assms(1) Some p in \<open>simp add: move_def\<close>)
qed

lemma runs_end:
  assumes "(cstep prog_of ^^ k) (cstart s0 opss) c"
  shows "\<exists>ns. list_all2 worth (workers c) ns \<and> k + sum_list ns \<le> (cost + 2) * sum_list (map length opss)"
  using assms
proof (induction k arbitrary: c)
  case 0
  have "list_all2 worth (map new_worker opss) (map (\<lambda>ops. (cost + 2) * length ops) opss)"
    by (simp add: list_all2_map1 list_all2_map2 list_all2_same new_worker_def worth.simps)
  moreover have "sum_list (map (\<lambda>ops. (cost + 2) * length ops) opss) = (cost + 2) * sum_list (map length opss)"
    by (rule sum_list_const_mult)
  ultimately show ?case using 0 by (auto simp: cstart_def)
next
  case (Suc k)
  then obtain b where b: "(cstep prog_of ^^ k) (cstart s0 opss) b" "cstep prog_of b c" by auto
  obtain ns where ns: "list_all2 worth (workers b) ns" "k + sum_list ns \<le> (cost + 2) * sum_list (map length opss)"
    using Suc.IH [OF b(1)] by blast
  obtain i s' w' where i: "i < length (workers b)" "move prog_of (workers b) (shared b) (workers b ! i) = Some (s', w')"
      "workers c = (workers b)[i := w']"
    using b(2) by (auto simp: wstep_def elim!: cstepE split: if_splits)
  obtain n' where n': "n' < ns ! i" "worth w' n'" using move_worth [OF i(2)] list_all2_nthD [OF ns(1) i(1)] by blast
  have l: "i < length ns" using ns(1) i(1) by (simp add: list_all2_lengthD)
  have "list_all2 worth (workers c) (ns[i := n'])" using ns(1) n'(2) i(3) by (simp add: list_all2_update_cong)
  moreover have "n' + sum_list ns = ns ! i + sum_list (ns[i := n'])" using sum_list_replace [OF l, of "\<lambda>x. x" n'] by simp
  ultimately show ?case using ns(2) n'(1) by (intro exI [where x = "ns[i := n']"]) auto
qed

lemma schedule_ends:
  assumes run: "run_schedule prog_of is (cstart s0 opss) = Some c"
    and inv: "inv (sum_list (map length opss)) s0" and ok: "list_all (list_all ok_op) opss"
  shows "length is \<le> (cost + 2) * sum_list (map length opss)" "\<not> finished c \<Longrightarrow> \<exists>i. wstep prog_of i c \<noteq> None"
proof -
  show "length is \<le> (cost + 2) * sum_list (map length opss)" using runs_end [OF run_schedule_steps [OF run]] by auto
  assume "\<not> finished c"
  then show "\<exists>i. wstep prog_of i c \<noteq> None"
    using run_consistent [OF run inv ok] no_deadlock [OF _ ok] by (fastforce elim: cstepE)
qed

lemma can_finish:
  assumes "run_schedule prog_of is (cstart s0 opss) = Some c"
    and inv: "inv (sum_list (map length opss)) s0" and ok: "list_all (list_all ok_op) opss"
  shows "\<exists>js c'. run_schedule prog_of (is @ js) (cstart s0 opss) = Some c' \<and> finished c'"
  using assms(1)
proof (induction "(cost + 2) * sum_list (map length opss) - length is" arbitrary: "is" c rule: less_induct)
  case less
  show ?case
  proof (cases "finished c")
    case True
    then show ?thesis using less.prems by (intro exI [where x = "[]"]) simp
  next
    case False
    then obtain i c1 where "wstep prog_of i c = Some c1" using schedule_ends(2) [OF less.prems inv ok] by auto
    then have r: "run_schedule prog_of (is @ [i]) (cstart s0 opss) = Some c1" using less.prems by (simp add: run_schedule_append)
    let ?k = "(cost + 2) * sum_list (map length opss)"
    have "length is < ?k" using schedule_ends(1) [OF r inv ok] by simp
    then have "?k - length (is @ [i]) < ?k - length is" by (simp only: length_append_singleton diff_less_mono2 lessI)
    then obtain js c' where "run_schedule prog_of ((is @ [i]) @ js) (cstart s0 opss) = Some c'" "finished c'"
      using less.hyps [OF _ r] by blast
    then show ?thesis by (intro exI [where x = "i # js"]) auto
  qed
qed

end

end
