(* ===== verification/Store_Threads.thy ===== *)
theory Store_Threads
  imports Storage_Lifecycle Locked_Programs
begin

text \<open>
  The block store under several threads: the query threads of the server call \<open>update_block\<close>,
  \<open>find_block\<close> and \<open>delete_block\<close> of \<^verbatim>\<open>src/src/storage.c\<close> at the same time. Here the three functions are programs with the
  lock operations the source has (\<open>EX_LOCK\<close>, \<open>EX_LOCK_IDX\<close> and the others, as \<open>Acquire\<close> and \<open>Release\<close>) and, between them, atomic
  pieces; a piece is what the source does in one call of the index, the journal or the data file. Executed alone a
  program is the function of theory \<open>Storage\<close>.

  The index lock is the big lock of the locale \<open>locked_object\<close>. An updater holds it to the end, and writes blocks
  only under the lock of the data file; only \<open>do_delete_block\<close> writes outside it, and then the header and the slots,
  not the blocks. A reader lets go of the index lock before it reads the block, when it
  already holds the read lock of the file. So every interleaving is linearizable, and ends. Two defects
  show only with threads: a read whose value finds no memory keeps the index lock for ever, and the
  command \<open>power halt\<close>, which takes no lock, makes a running update lose its value.
\<close>

section \<open>The operations with their locks\<close>

datatype store_lock = IndexLock | FileLock nat

type_synonym ('db, 'r) store_prog = "('db storage, store_lock, 'r) prog"

definition lookup_index :: "'db db_api \<Rightarrow> sys_env \<Rightarrow> bytes \<Rightarrow> 'db storage \<Rightarrow> ((int \<times> bytes option) \<times> 'db storage) option" where
  "lookup_index api env key s =
    (case find_record api (e_mem env) (indexdb s) key sizeof_value of
      (retno, val, db) \<Rightarrow> Some ((retno, val), s\<lparr>indexdb := db\<rparr>))"

definition insert_index :: "'db db_api \<Rightarrow> bytes \<Rightarrow> index_value_t \<Rightarrow> 'db storage \<Rightarrow> (int \<times> 'db storage) option" where
  "insert_index api key iv s = (case insert_record api (indexdb s) key (value_bytes iv) of (ret, db) \<Rightarrow> Some (ret, s\<lparr>indexdb := db\<rparr>))"

definition delete_index :: "'db db_api \<Rightarrow> bytes \<Rightarrow> 'db storage \<Rightarrow> (int \<times> 'db storage) option" where
  "delete_index api key s = (case del_record api (indexdb s) key of (ret, db) \<Rightarrow> Some (ret, s\<lparr>indexdb := db\<rparr>))"

text \<open>The guards of \<open>append_block\<close> and \<open>modify_block\<close>: whether the file exists; the assertions.\<close>

definition check_block :: "nat \<Rightarrow> bytes \<Rightarrow> 'db storage \<Rightarrow> (bool \<times> 'db storage) option" where
  "check_block block_id data s =
    (if block_id \<ge> block_type_count s then Some (False, s)
     else if \<not> fd (handler s block_id) > 0 then None
     else if \<not> length data \<le> block_size_array s ! block_id then None
     else Some (True, s))"

definition append_prog :: "'db db_api \<Rightarrow> sys_env \<Rightarrow> nat \<Rightarrow> bytes \<Rightarrow> bytes \<Rightarrow> (int \<Rightarrow> ('db, 'r) store_prog) \<Rightarrow> ('db, 'r) store_prog" where
  "append_prog api env block_id key data k =
    act (check_block block_id data) (\<lambda>found.
    if \<not> found then k (-1)
    else
      Acquire (FileLock block_id) Ex
      (act (place_block env block_id data) (\<lambda>off.
      Release (FileLock block_id)
      (let iv = \<lparr>iv_crc32 = crc32_calc data, iv_block_id = word_of_nat block_id,
                 iv_data_size = word_of_nat (length data), iv_offset = word_of_nat off\<rparr>
       in act (\<lambda>s. Some ((), log_index env index_append (fixed_key key) iv s)) (\<lambda>_.
          act (insert_index api (fixed_key key) iv) (\<lambda>_. k 0))))))"

definition modify_prog :: "'db db_api \<Rightarrow> sys_env \<Rightarrow> index_value_t \<Rightarrow> bytes \<Rightarrow> bytes \<Rightarrow> (int \<Rightarrow> ('db, 'r) store_prog) \<Rightarrow> ('db, 'r) store_prog" where
  "modify_prog api env iv key data k =
    (let block_id = unat (iv_block_id iv)
     in act (check_block block_id data) (\<lambda>found.
        if \<not> found then k (-1)
        else
          Acquire (FileLock block_id) Ex
          (act (sync_data_file env block_id data (unat (iv_offset iv))) (\<lambda>retno.
          if retno \<noteq> 0 then Fail
          else
            Release (FileLock block_id)
            (let iv = iv\<lparr>iv_crc32 := crc32_calc data, iv_data_size := word_of_nat (length data)\<rparr>
             in act (\<lambda>s. Some ((), log_index env index_modify (fixed_key key) iv s)) (\<lambda>_.
                act (insert_index api key iv) (\<lambda>retno. k (if retno \<noteq> 0 then -1 else 0))))))))"

text \<open>The locked part of \<open>do_delete_block\<close>: the slot that is taken, \<open>None\<close> when there is none.\<close>

definition take_slot :: "nat \<Rightarrow> u64 \<Rightarrow> 'db storage \<Rightarrow> (nat option \<times> 'db storage) option" where
  "take_slot block_id off s =
    (let fh = handler s block_id
     in if free_slots_cnt fh \<ge> MAX_FREE_SLOTS then Some (None, s)
        else
          let slot_pos = free_slots_cnt fh
          in Some (Some slot_pos, set_handler block_id (fh\<lparr>block_cnt := dec_size (block_cnt fh),
               free_slots_offset := (free_slots_offset fh)(slot_pos := off), free_slots_cnt := slot_pos + 1\<rparr>) s))"

definition do_delete_prog :: "'db db_api \<Rightarrow> sys_env \<Rightarrow> index_value_t \<Rightarrow> bytes \<Rightarrow> (int \<Rightarrow> ('db, 'r) store_prog) \<Rightarrow> ('db, 'r) store_prog" where
  "do_delete_prog api env iv key k =
    (let block_id = unat (iv_block_id iv)
     in act (\<lambda>s. Some ((), log_index env index_del (fixed_key key) iv s)) (\<lambda>_.
        act (delete_index api key) (\<lambda>ret.
        if ret \<noteq> 0 then k (-1)
        else
          Acquire (FileLock block_id) Ex
          (act (take_slot block_id (iv_offset iv)) (\<lambda>slot.
          Release (FileLock block_id)
          (case slot of
             None \<Rightarrow> k 0
           | Some slot_pos \<Rightarrow>
               act (sync_data_file_header env block_id) (\<lambda>_.
               act (sync_data_file env block_id (u64_bytes (iv_offset iv)) (SLOTS_SECTION_POS + 8 * slot_pos)) (\<lambda>_.
               k 0))))))))"

text \<open>The answer of a call: the return code, and the value a lookup returns.\<close>

definition leave :: "int \<Rightarrow> ('db, int \<times> bytes option) store_prog" where
  "leave ret = Release IndexLock (Return (ret, None))"

text \<open>The file a new value goes to.\<close>

definition choose_file :: "nat \<Rightarrow> 'db storage \<Rightarrow> (int \<times> 'db storage) option" where
  "choose_file n s = Some (find_block_file (calc_block_size n) s, s)"

text \<open>Whether the data still fits the block of the record.\<close>

definition fits_block :: "nat \<Rightarrow> index_value_t \<Rightarrow> 'db storage \<Rightarrow> (bool \<times> 'db storage) option" where
  "fits_block n iv s = Some (n \<le> block_size_array s ! unat (iv_block_id iv), s)"

definition update_prog :: "'db db_api \<Rightarrow> sys_env \<Rightarrow> bytes \<Rightarrow> bytes \<Rightarrow> ('db, int \<times> bytes option) store_prog" where
  "update_prog api env key data =
    (let fixed_key_buffer = fixed_key key
     in Acquire IndexLock Ex
       (act (lookup_index api env fixed_key_buffer) (\<lambda>(retno, val).
        if retno = 0 then
          let iv = bytes_value (the val)
          in act (fits_block (length data) iv) (\<lambda>stays.
             if stays then
               modify_prog api env iv fixed_key_buffer data (\<lambda>retno. leave (if retno \<noteq> 0 then -1 else 0))
             else
               do_delete_prog api env iv fixed_key_buffer (\<lambda>retno.
               if retno \<noteq> 0 then leave (-2)
               else
                 act (choose_file (length data)) (\<lambda>new_block_id.
                 append_prog api env (size_of_int new_block_id) fixed_key_buffer data
                   (\<lambda>retno. leave (if retno \<noteq> 0 then -3 else 0)))))
        else if retno = DB_NOTFOUND api then
          act (choose_file (length data)) (\<lambda>new_block_id.
          if new_block_id < 0 then leave 0
          else
            append_prog api env (size_of_int new_block_id) fixed_key_buffer data
              (\<lambda>retno. leave (if retno \<noteq> 0 then -4 else 0)))
        else leave (-1))))"

text \<open>\<open>find_block\<close>: \<open>vmem\<close> says whether \<open>slab_alloc\<close> finds memory for the value. When it does not, \<open>goto err\<close> skips
  \<open>SH_UNLOCK_IDX\<close>.\<close>

definition read_block :: "index_value_t \<Rightarrow> 'db storage \<Rightarrow> (bytes \<times> 'db storage) option" where
  "read_block iv s = Some (pread (data_file (handler s (unat (iv_block_id iv)))) (unat (iv_data_size iv)) (unat (iv_offset iv)), s)"

definition find_prog :: "'db db_api \<Rightarrow> sys_env \<Rightarrow> bool \<Rightarrow> bytes \<Rightarrow> ('db, int \<times> bytes option) store_prog" where
  "find_prog api env vmem key =
    Acquire IndexLock Sh
    (act (lookup_index api env (fixed_key key)) (\<lambda>(retno, val).
     if retno = 0 then
       let iv = bytes_value (the val); n = unat (iv_data_size iv)
       in if \<not> vmem then Return (-1, None)
          else
            Acquire (FileLock (unat (iv_block_id iv))) Sh
            (Release IndexLock
            (act (read_block iv) (\<lambda>bs.
             Release (FileLock (unat (iv_block_id iv)))
             (Return (if length bs \<noteq> n then -1 else 0, Some (take n bs))))))
     else Release IndexLock (Return (retno, None))))"

definition delete_prog :: "'db db_api \<Rightarrow> sys_env \<Rightarrow> bytes \<Rightarrow> ('db, int \<times> bytes option) store_prog" where
  "delete_prog api env key =
    (let fixed_key_buffer = fixed_key key
     in Acquire IndexLock Ex
       (act (lookup_index api env fixed_key_buffer) (\<lambda>(retno, val).
        if retno = 0 then
          do_delete_prog api env (bytes_value (the val)) fixed_key_buffer (\<lambda>retno. leave (if retno \<noteq> 0 then -1 else 0))
        else if retno = DB_NOTFOUND api then leave (DB_NOTFOUND api)
        else leave (-1))))"

fun op_prog :: "'db db_api \<Rightarrow> sys_env \<Rightarrow> store_op \<Rightarrow> ('db, int \<times> bytes option) store_prog" where
  "op_prog api env (SetOp k d) = update_prog api env k d"
| "op_prog api env (GetOp k) = find_prog api env (e_vmem env) k"
| "op_prog api env (DelOp k) = delete_prog api env k"

text \<open>A call with whether its value finds memory.\<close>

fun call_prog :: "'db db_api \<Rightarrow> sys_env \<Rightarrow> bool \<times> store_op \<Rightarrow> ('db, int \<times> bytes option) store_prog" where
  "call_prog api env (vmem, GetOp k) = find_prog api env vmem k"
| "call_prog api env (vmem, op) = op_prog api env op"

text \<open>The command \<open>power halt\<close>, which the assign thread executes (\<open>s_do_power\<close> of \<open>query_event_handler\<close>): \<open>sync_storage\<close> and \<open>close_storage\<close>
  take no lock. The pieces of \<open>close_storage\<close>: the data files, then the index and the journal.\<close>

definition close_tables :: "sys_env \<Rightarrow> 'db storage \<Rightarrow> (int \<times> 'db storage) option" where
  "close_tables env s =
    (if inited_global_vars s then
       (case close_files env [0..<block_type_count s] 0 s of
         None \<Rightarrow> None
       | Some (ret, closed, s) \<Rightarrow>
           if ret \<noteq> 0 then Some (ret, s)
           else Some (0, s\<lparr>block_type_count := block_type_count s - closed, inited_global_vars := False\<rparr>))
     else Some (0, s))"

definition close_index :: "'db db_api \<Rightarrow> sys_env \<Rightarrow> 'db storage \<Rightarrow> (int \<times> 'db storage) option" where
  "close_index api env s =
    (if close_bdb api (indexdb s) \<noteq> 0 then Some (-1, s)
     else Some (if fst (index_logger_close (e_write env) (index_logger s)) \<noteq> 0 then -1 else 0, s))"

definition halt_prog :: "'db db_api \<Rightarrow> sys_env \<Rightarrow> ('db, int \<times> bytes option) store_prog" where
  "halt_prog api env =
    act (sync_storage env sync_all) (\<lambda>_.
    act (close_tables env) (\<lambda>ret.
    if ret \<noteq> 0 then Return (ret, None)
    else act (close_index api env) (\<lambda>ret. Return (ret, None))))"

datatype node_op = Request store_op | Halt

fun node_prog :: "'db db_api \<Rightarrow> sys_env \<Rightarrow> node_op \<Rightarrow> ('db, int \<times> bytes option) store_prog" where
  "node_prog api env (Request op) = op_prog api env op"
| "node_prog api env Halt = halt_prog api env"

section \<open>Executed alone\<close>

text \<open>One call of the sequential store.\<close>

fun store_call :: "'db db_api \<Rightarrow> sys_env \<Rightarrow> store_op \<Rightarrow> 'db storage \<Rightarrow> ((int \<times> bytes option) \<times> 'db storage) option" where
  "store_call api env (SetOp k d) s = map_option (\<lambda>(r, s). ((r, None), s)) (update_block api env k d s)"
| "store_call api env (GetOp k) s = (case find_block api env k s of (r, d, n, s) \<Rightarrow> Some ((r, map_option (take n) d), s))"
| "store_call api env (DelOp k) s = map_option (\<lambda>(r, s). ((r, None), s)) (delete_block api env k s)"

lemma seq_calls_store:
  "seq_calls (store_call api env) ops s = store_run (update_block api env, find_block api env, delete_block api env) ops s"
proof (induction ops arbitrary: s)
  case (Cons op ops)
  then show ?case by (cases op) (auto split: option.split prod.split)
qed simp

lemmas piece_defs = lookup_index_def insert_index_def delete_index_def check_block_def take_slot_def choose_file_def
  fits_block_def read_block_def

lemma append_alone:
  "seq_run (append_prog api env block_id key data k) s =
    (case append_block api env block_id key data s of None \<Rightarrow> None | Some (r, s') \<Rightarrow> seq_run (k r) s')"
  by (auto simp: append_prog_def append_block_def piece_defs Let_def split: option.split prod.split)

lemma modify_alone:
  "seq_run (modify_prog api env iv key data k) s =
    (case modify_block api env iv key data s of None \<Rightarrow> None | Some (r, s') \<Rightarrow> seq_run (k r) s')"
  by (auto simp: modify_prog_def modify_block_def piece_defs Let_def split: option.split prod.split)

lemma do_delete_alone:
  "seq_run (do_delete_prog api env iv key k) s =
    (case do_delete_block api env iv key s of None \<Rightarrow> None | Some (r, s') \<Rightarrow> seq_run (k r) s')"
  by (auto simp: do_delete_prog_def do_delete_block_def piece_defs Let_def split: option.split prod.split)

lemma update_alone: "seq_run (update_prog api env key data) s = store_call api env (SetOp key data) s"
  by (auto simp: update_prog_def update_block_def piece_defs Let_def leave_def append_alone modify_alone do_delete_alone
      split: option.split prod.split)

lemma delete_alone: "seq_run (delete_prog api env key) s = store_call api env (DelOp key) s"
  by (auto simp: delete_prog_def delete_block_def piece_defs Let_def leave_def do_delete_alone
      split: option.split prod.split)

lemma find_alone: "seq_run (find_prog api env (e_vmem env) key) s = store_call api env (GetOp key) s"
  by (auto simp: find_prog_def find_block_def piece_defs Let_def split: option.split prod.split)

lemma op_alone: "seq_run (op_prog api env op) s = store_call api env op s"
  by (cases op) (simp_all only: op_prog.simps update_alone find_alone delete_alone)

lemma halt_alone:
  "seq_run (halt_prog api env) s =
    (case sync_storage env sync_all s of
      None \<Rightarrow> None
    | Some (_, s) \<Rightarrow> (case close_storage api env s of None \<Rightarrow> None | Some (ret, _, s) \<Rightarrow> Some ((ret, None), s)))"
  by (auto simp: halt_prog_def close_storage_def close_tables_def close_index_def Let_def split: option.split prod.split)

section \<open>What the locks protect\<close>

text \<open>The lock of a data file protects the blocks in it. Header and slots are protected by the index lock, which
  protects everything from other updaters.\<close>

definition same_under :: "store_lock \<Rightarrow> 'db storage \<Rightarrow> 'db storage \<Rightarrow> bool" where
  "same_under l s s' \<longleftrightarrow> (case l of IndexLock \<Rightarrow> True
    | FileLock j \<Rightarrow> \<forall>n off. DATA_SECTION_POS \<le> off \<longrightarrow>
        pread (data_file (handler s' j)) n off = pread (data_file (handler s j)) n off)"

lemma same_under_refl [simp]: "same_under l s s"
  by (simp add: same_under_def split: store_lock.split)

lemma same_under_trans: "same_under l s t \<Longrightarrow> same_under l t u \<Longrightarrow> same_under l s u"
  by (auto simp: same_under_def split: store_lock.splits)

text \<open>Pieces that change no data file, and pieces that change one.\<close>

definition only_file :: "nat \<Rightarrow> 'db storage \<Rightarrow> 'db storage \<Rightarrow> bool" where
  "only_file i s s' \<longleftrightarrow> (\<forall>j. j \<noteq> i \<longrightarrow> handler s' j = handler s j)"

lemma only_file_same: "only_file i s s' \<Longrightarrow> l \<noteq> FileLock i \<Longrightarrow> same_under l s s'"
  by (auto simp: only_file_def same_under_def split: store_lock.splits)

lemma no_file_same: "block_filehandler_array s' = block_filehandler_array s \<Longrightarrow> same_under l s s'"
  by (auto simp: same_under_def handler_def split: store_lock.splits)

lemma only_file_set [simp]: "only_file i s (set_handler i fh s)"
  by (simp add: only_file_def handler_def set_handler_def)

lemma only_file_trans: "only_file i s t \<Longrightarrow> only_file i t u \<Longrightarrow> only_file i s u"
  by (simp add: only_file_def)

lemma sync_only_file: "sync_data_file env i bs off s = Some (r, s') \<Longrightarrow> only_file i s s'"
  by (auto simp: sync_data_file_def Let_def split: if_splits prod.splits)

lemma header_only_file: "sync_data_file_header env i s = Some (r, s') \<Longrightarrow> only_file i s s'"
  by (auto simp: sync_data_file_header_def dest: sync_only_file split: option.splits)

lemma place_only_file: "place_block env i data s = Some (off, s') \<Longrightarrow> only_file i s s'"
  by (auto simp: place_block_def Let_def split: if_splits option.splits
      dest!: header_only_file sync_only_file elim!: only_file_trans [rotated] intro: only_file_trans [OF only_file_set])

text \<open>A write before the data section changes no block.\<close>

lemma pread_write_before:
  assumes "w + length bs \<le> DATA_SECTION_POS" and "DATA_SECTION_POS \<le> off"
  shows "pread (snd (pwrite np bs w f)) n off = pread f n off"
proof -
  let ?k = "min (np (length bs)) (length bs)"
  have k: "w + ?k \<le> off" using assms by simp
  then have "max (f_size f) (w + ?k) - off = f_size f - off" by simp
  moreover have "write_bytes w (take ?k bs) g (off + i) = g (off + i)" for g i using k by (simp add: write_bytes_def)
  ultimately show ?thesis by (simp add: pread_def pwrite_def Let_def)
qed

lemma sync_before_same:
  assumes "sync_data_file env i bs w s = Some (r, s')" and "w + length bs \<le> DATA_SECTION_POS"
  shows "same_under l s s'"
proof (cases "l = FileLock i")
  case True
  let ?fh = "handler s i"
  have s': "s' = set_handler i (?fh\<lparr>data_file := snd (pwrite (e_pwrite env) bs w (data_file ?fh))\<rparr>) s"
    using assms(1) by (auto simp: sync_data_file_def Let_def split: if_splits prod.splits)
  show ?thesis
  proof (cases "i < length (block_filehandler_array s)")
    case True
    then show ?thesis using s' assms(2) \<open>l = FileLock i\<close> by (simp add: same_under_def pread_write_before)
  next
    case False
    then show ?thesis using s' by (intro no_file_same) (simp add: set_handler_def list_update_beyond not_less)
  qed
qed (use sync_only_file [OF assms(1)] only_file_same in blast)

lemma header_same: "sync_data_file_header env i s = Some (r, s') \<Longrightarrow> same_under l s s'"
  by (auto simp: sync_data_file_header_def SLOTS_SECTION_POS_def DATA_SECTION_POS_def
      dest!: sync_before_same [where l = l] split: option.splits)

lemma slot_same:
  "sync_data_file env i (u64_bytes v) (SLOTS_SECTION_POS + 8 * pos) s = Some (r, s') \<Longrightarrow> pos < MAX_FREE_SLOTS \<Longrightarrow> same_under l s s'"
  by (erule sync_before_same) (simp add: DATA_SECTION_POS_def)

text \<open>The updaters keep the discipline.\<close>

lemma upd_safe_act:
  assumes "\<And>s a s'. f s = Some (a, s') \<Longrightarrow> (\<forall>l. l \<notin> F \<longrightarrow> same_under l s s') \<and> upd_safe IndexLock same_under (k a) F"
  shows "upd_safe IndexLock same_under (act f k) F"
  using assms by (auto simp: act_def split: option.split)

lemma lookup_index_safe: "lookup_index api env key s = Some (a, s') \<Longrightarrow> same_under l s s'"
  by (auto simp: lookup_index_def intro: no_file_same split: prod.splits)

lemma check_block_safe: "check_block i data s = Some (a, s') \<Longrightarrow> s' = s"
  by (auto simp: check_block_def split: if_splits)

lemma insert_index_safe: "insert_index api key iv s = Some (a, s') \<Longrightarrow> same_under l s s'"
  by (auto simp: insert_index_def intro: no_file_same split: prod.splits)

lemma delete_index_safe: "delete_index api key s = Some (a, s') \<Longrightarrow> same_under l s s'"
  by (auto simp: delete_index_def intro: no_file_same split: prod.splits)

lemma log_index_safe [simp]: "same_under l s (log_index env t key iv s)"
  by (rule no_file_same) (simp add: log_index_def)

lemmas piece_safe = lookup_index_safe insert_index_safe delete_index_safe header_same

lemma append_safe:
  assumes "\<And>r. upd_safe IndexLock same_under (k r) {}"
  shows "upd_safe IndexLock same_under (append_prog api env i key data k) {}"
  unfolding append_prog_def Let_def
  by (intro upd_safe_act) (auto simp: assms dest!: check_block_safe place_only_file intro!: upd_safe_act intro: only_file_same piece_safe)

lemma modify_safe:
  assumes "\<And>r. upd_safe IndexLock same_under (k r) {}"
  shows "upd_safe IndexLock same_under (modify_prog api env iv key data k) {}"
  unfolding modify_prog_def Let_def
  by (intro upd_safe_act) (auto simp: assms dest!: check_block_safe sync_only_file intro!: upd_safe_act intro: only_file_same piece_safe)

lemma take_slot_file: "take_slot i off s = Some (slot, s') \<Longrightarrow> only_file i s s'"
  by (auto simp: take_slot_def Let_def only_file_def handler_def set_handler_def split: if_splits)

lemma take_slot_range: "take_slot i off s = Some (Some pos, s') \<Longrightarrow> pos < MAX_FREE_SLOTS"
  by (auto simp: take_slot_def Let_def split: if_splits)

lemma do_delete_safe:
  assumes "\<And>r. upd_safe IndexLock same_under (k r) {}"
  shows "upd_safe IndexLock same_under (do_delete_prog api env iv key k) {}"
  unfolding do_delete_prog_def Let_def
  by (intro upd_safe_act)
    (auto simp: assms intro!: upd_safe_act split: option.split;
     blast intro: only_file_same [OF take_slot_file] piece_safe slot_same [OF _ take_slot_range])

lemma leave_safe [simp]: "upd_safe IndexLock same_under (leave r) {}"
  by (simp add: leave_def)

lemma update_safe: "\<exists>p. update_prog api env key data = Acquire IndexLock Ex p \<and> upd_safe IndexLock same_under p {}"
proof -
  have fits: "fits_block n iv s = Some (a, s') \<Longrightarrow> s' = s" for n iv and s s' :: "'a storage" and a by (simp add: fits_block_def)
  have choose: "choose_file n s = Some (a, s') \<Longrightarrow> s' = s" for n and s s' :: "'a storage" and a by (simp add: choose_file_def)
  show ?thesis
    unfolding update_prog_def Let_def
    by (intro exI conjI refl upd_safe_act)
      (auto dest!: fits choose intro!: upd_safe_act modify_safe do_delete_safe append_safe intro: piece_safe)
qed

lemma delete_safe: "\<exists>p. delete_prog api env key = Acquire IndexLock Ex p \<and> upd_safe IndexLock same_under p {}"
  unfolding delete_prog_def Let_def
  by (intro exI conjI refl) (auto intro!: upd_safe_act do_delete_safe intro: piece_safe)

text \<open>The reader.\<close>

lemma rd_before_act: "f s = Some (a, s) \<Longrightarrow> rd_before big same (act f k) H s = rd_before big same (k a) H s"
  by (simp add: act_def)

lemma read_tail:
  assumes "DATA_SECTION_POS \<le> unat (iv_offset iv)"
  shows "rd_tail same_under
    (act (read_block iv) (\<lambda>bs. Release (FileLock (unat (iv_block_id iv))) (Return (r bs)))) {FileLock (unat (iv_block_id iv))} s"
  using assms by (auto simp: act_def read_block_def same_under_def)

context berkeley_db
begin

lemma find_safe:
  assumes inv: "storage_inv view good s" and mem: "e_mem env" "e_vmem env"
  shows "\<exists>p. find_prog api env (e_vmem env) key = Acquire IndexLock Sh p \<and> rd_before IndexLock same_under p {} s"
proof -
  let ?V = "view (dbp (indexdb s))" and ?k = "fixed_key key"
  have st: "index_ok ?V s" "good (dbp (indexdb s))" "files_ok s" using inv by (auto simp: storage_inv_def)
  show ?thesis
  proof (cases "?V ?k")
    case None
    then have "lookup_index api env ?k s = Some ((DB_NOTFOUND api, None), s)"
      using find_record_missing [OF st(2) None] mem by (simp add: lookup_index_def)
    then show ?thesis using notfound_code
      by (simp add: find_prog_def rd_before_act)
  next
    case (Some vb)
    let ?iv = "bytes_value vb"
    have r: "length vb = 24" "rec_block vb < block_type_count s" "rec_at (handler s (rec_block vb)) ?iv"
      using st(1) Some by (auto simp: index_ok_def)
    have "lookup_index api env ?k s = Some ((0, Some vb), s)"
      using find_record_found [OF st(2) Some] r(1) mem by (simp add: lookup_index_def sizeof_value_def)
    moreover have "DATA_SECTION_POS \<le> unat (iv_offset ?iv)"
      using r(3) by (auto simp: rec_at_def slot_at_def Let_def)
    ultimately show ?thesis
      using mem(2) by (simp add: find_prog_def rd_before_act read_tail Let_def)
  qed
qed

end

text \<open>The longest path: an update that moves the value to a larger block.\<close>

lemma append_steps: "(\<And>r. steps_le (k r) n) \<Longrightarrow> steps_le (append_prog api env i key data k) (6 + n)"
  by (auto simp: append_prog_def Let_def intro: steps_le_mono [of _ n] split: option.split)

lemma modify_steps: "(\<And>r. steps_le (k r) n) \<Longrightarrow> steps_le (modify_prog api env iv key data k) (6 + n)"
  by (auto simp: modify_prog_def Let_def intro: steps_le_mono [of _ n] split: option.split)

lemma do_delete_steps: "(\<And>r. steps_le (k r) n) \<Longrightarrow> steps_le (do_delete_prog api env iv key k) (7 + n)"
  by (auto simp: do_delete_prog_def Let_def intro: steps_le_mono [of _ n] split: option.split)

lemma leave_steps: "steps_le (leave r) 1"
  by (simp add: leave_def)

lemma delete_steps: "steps_le (delete_prog api env key) 10"
proof -
  have "steps_le (do_delete_prog api env iv key (\<lambda>r. leave (f r))) 8" for iv key and f :: "int \<Rightarrow> int"
    using do_delete_steps [where n = 1 and k = "\<lambda>r. leave (f r)", OF leave_steps] by simp
  then show ?thesis
    by (auto simp: delete_prog_def Let_def intro: steps_le_mono [OF leave_steps] split: option.split)
qed

lemma update_steps: "steps_le (update_prog api env key data) 18"
proof -
  have a: "steps_le (append_prog api env i key data (\<lambda>r. leave (f r))) 7" for i key and f :: "int \<Rightarrow> int"
    using append_steps [where n = 1 and k = "\<lambda>r. leave (f r)", OF leave_steps] by simp
  have m: "steps_le (modify_prog api env iv key data (\<lambda>r. leave (f r))) 7" for iv key and f :: "int \<Rightarrow> int"
    using modify_steps [where n = 1 and k = "\<lambda>r. leave (f r)", OF leave_steps] by simp
  have d: "steps_le (do_delete_prog api env iv key k) 15" if "\<And>r. steps_le (k r) 8" for iv key and k :: "int \<Rightarrow> ('a, int \<times> bytes option) store_prog"
    using do_delete_steps [where n = 8, OF that] by simp
  note l = steps_le_mono [OF leave_steps]
  have "steps_le (do_delete_prog api env iv key (\<lambda>r. if r \<noteq> 0 then leave (-2)
      else act (choose_file (length data)) (\<lambda>b. append_prog api env (size_of_int b) key data (\<lambda>r. leave (if r \<noteq> 0 then -3 else 0))))) 15" for iv key
    by (rule d) (auto intro: l a split: option.split)
  then show ?thesis
    by (auto simp: update_prog_def Let_def intro: l steps_le_mono [OF a] steps_le_mono [OF m] split: option.split)
qed

lemma find_steps: "steps_le (find_prog api env vmem key) 6"
  by (auto simp: find_prog_def Let_def split: option.split)

lemma op_steps: "steps_le (op_prog api env op) 18"
  by (cases op) (auto intro: update_steps steps_le_mono [OF delete_steps] steps_le_mono [OF find_steps])

section \<open>The store keeps the discipline\<close>

sublocale block_setup \<subseteq> threads: locked_object
  "op_prog api env" "store_call api env" IndexLock "\<lambda>n s. storage_inv view good s \<and> room n s \<and> largest_block s = top"
  same_under "\<lambda>op. \<exists>k. op = GetOp k" "op_fits top" 18
proof
  have mem: "e_mem env" "e_vmem env" using healthy by (simp_all add: full_env_def)
  fix op n and s :: "'a storage"
  show "\<exists>r s'. store_call api env op s = Some (r, s') \<and> (storage_inv view good s' \<and> room n s' \<and> largest_block s' = top) \<and>
      ((\<exists>k. op = GetOp k) \<longrightarrow> s' = s)"
    if a: "storage_inv view good s \<and> room (Suc n) s \<and> largest_block s = top" "op_fits top op"
  proof (cases op)
    case (SetOp k d)
    then show ?thesis using store.update_law [OF a(1), of d k] a(2) by auto
  next
    case (GetOp k)
    then show ?thesis using store.lookup_law [OF a(1), of k] store.inv_less [OF a(1)] by (auto split: option.split)
  next
    case (DelOp k)
    then show ?thesis using store.delete_law [OF store.inv_less [OF a(1)], of k] by auto
  qed
  show "\<exists>p. op_prog api env op = Acquire IndexLock Ex p \<and> upd_safe IndexLock same_under p {}" if "\<nexists>k. op = GetOp k"
    using that update_safe delete_safe by (cases op) auto
  show "(\<exists>r. op_prog api env op = Return r) \<or> (\<exists>p. op_prog api env op = Acquire IndexLock Sh p \<and>
      (\<forall>n s. storage_inv view good s \<and> room n s \<and> largest_block s = top \<longrightarrow> rd_before IndexLock same_under p {} s))" if g: "\<exists>k. op = GetOp k"
  proof -
    obtain k where "op = GetOp k" using g by blast
    moreover have "\<exists>p. find_prog api env (e_vmem env) k = Acquire IndexLock Sh p" by (simp add: find_prog_def)
    ultimately show ?thesis using find_safe [OF _ mem, of _ k] by auto
  qed
qed (use same_under_trans op_alone op_steps in auto)

context block_setup
begin

lemmas interleavings = threads.linearizable threads.schedule_ends threads.can_finish

end

lemma interleaved_ops_fit:
  assumes "\<forall>e\<in>set hist. fst e < length opss" and "\<forall>i<length opss. map fst (own i hist) = opss ! i"
    and "list_all (list_all P) opss"
  shows "length hist = sum_list (map length opss)" "list_all P (map (\<lambda>e. fst (snd e)) hist)"
proof -
  have "sum_list (map length opss) = sum_list (map (\<lambda>i. length (opss ! i)) [0..<length opss])"
    by (rule arg_cong [where f = sum_list]) (rule nth_equalityI, simp_all)
  also have "\<dots> = sum_list (map (\<lambda>i. length (own i hist)) [0..<length opss])"
    using assms(2) by (intro arg_cong [where f = sum_list] map_cong refl) (metis atLeastLessThan_iff length_map set_upt)
  finally show "length hist = sum_list (map length opss)" using length_own [OF assms(1)] by simp
  have "P (fst (snd e))" if e: "e \<in> set hist" for e
  proof -
    have "fst (snd e) \<in> set (map fst (own (fst e) hist))" using e by (force simp: own_def)
    then have "fst (snd e) \<in> set (opss ! fst e)" using assms(1,2) e by simp
    moreover have "list_all P (opss ! fst e)" using assms(1,3) e by (simp add: list_all_length)
    ultimately show ?thesis by (simp add: list_all_iff)
  qed
  then show "list_all P (map (\<lambda>e. fst (snd e)) hist)" by (simp add: list_all_iff)
qed

section \<open>A lock that is not given back\<close>

fun is_get :: "bool \<times> store_op \<Rightarrow> bool" where
  "is_get (vmem, GetOp k) = True"
| "is_get (vmem, op) = False"

lemma not_get_prog: "\<not> is_get op \<Longrightarrow> \<exists>p. call_prog api env op = Acquire IndexLock Ex p"
  by (cases op rule: is_get.cases) (simp_all add: update_prog_def delete_prog_def Let_def)

abbreviation "running w \<equiv> (case w_cur w of None \<Rightarrow> [] | Some (op, p) \<Rightarrow> [op])"

text \<open>A thread that does not hold the index lock for writing and has completed lookups only.\<close>

definition lookups_only :: "'db db_api \<Rightarrow> sys_env \<Rightarrow> (bool \<times> store_op) list \<Rightarrow>
  ('db storage, store_lock, bool \<times> store_op, int \<times> bytes option) worker \<Rightarrow> bool" where
  "lookups_only api env ops w \<longleftrightarrow>
    (\<exists>ds. list_all is_get ds \<and> length ds = length (w_done w) \<and> ops = ds @ running w @ w_todo w) \<and>
    (\<forall>op p. w_cur w = Some (op, p) \<longrightarrow> is_get op \<or> p = call_prog api env op)"

definition index_locked :: "'db db_api \<Rightarrow> sys_env \<Rightarrow> (bool \<times> store_op) list list \<Rightarrow>
  ('db storage, store_lock, bool \<times> store_op, int \<times> bytes option) cstate \<Rightarrow> bool" where
  "index_locked api env opss c \<longleftrightarrow>
    length (workers c) = Suc (length opss) \<and> IndexLock \<in> w_sh (workers c ! 0) \<and> w_cur (workers c ! 0) = None \<and>
    w_todo (workers c ! 0) = [] \<and> (\<forall>i<length opss. lookups_only api env (opss ! i) (workers c ! Suc i))"

lemma lookups_only_move:
  assumes w: "lookups_only api env ops w" and m: "move (call_prog api env) ws s w = Some (s', w')"
    and l: "\<not> can_lock IndexLock Ex ws"
  shows "lookups_only api env ops w'"
proof -
  obtain ds where ds: "list_all is_get ds" "length ds = length (w_done w)" "ops = ds @ running w @ w_todo w"
    using w by (auto simp: lookups_only_def)
  show ?thesis
  proof (cases "w_cur w")
    case None
    then show ?thesis using m ds by (auto simp: move_def lookups_only_def split: list.splits)
  next
    case (Some op_p)
    obtain op p where p: "op_p = (op, p)" by (cases op_p)
    have g: "is_get op"
    proof (rule ccontr)
      assume n: "\<not> is_get op"
      then have "p = call_prog api env op" using w Some p by (auto simp: lookups_only_def)
      then show False using not_get_prog [OF n, of api env] m Some p l by (auto simp: move_def)
    qed
    show ?thesis
    proof (cases p)
      case (Return r)
      then have "w' = w\<lparr>w_cur := None, w_done := w_done w @ [r]\<rparr>" using m Some p by (simp add: move_def)
      then show ?thesis using ds g Some p by (auto simp: lookups_only_def intro!: exI [where x = "ds @ [op]"])
    next
      case (Acquire l md q)
      then show ?thesis using m ds g Some p by (cases md) (auto simp: move_def hold_def lookups_only_def split: if_splits)
    qed (use m ds g Some p in \<open>auto simp: move_def unhold_def lookups_only_def\<close>)
  qed
qed

lemma index_locked_step:
  assumes c: "index_locked api env opss c" and st: "wstep (call_prog api env) i c = Some c'"
  shows "index_locked api env opss c'"
proof -
  have n: "length (workers c) = Suc (length opss)" "IndexLock \<in> w_sh (workers c ! 0)" using c by (simp_all add: index_locked_def)
  then have l: "\<not> can_lock IndexLock Ex (workers c)" by (auto simp: can_lock_def intro!: bexI [where x = "workers c ! 0"])
  obtain s' w' where m: "i < length (workers c)" "move (call_prog api env) (workers c) (shared c) (workers c ! i) = Some (s', w')"
      "c' = \<lparr>shared = s', workers = (workers c)[i := w']\<rparr>"
    using st by (auto simp: wstep_def split: if_splits)
  have "i \<noteq> 0" using m(2) c by (cases i) (auto simp: move_def index_locked_def)
  then obtain j where j: "i = Suc j" "j < length opss" using m(1) n(1) by (cases i) auto
  then have "lookups_only api env (opss ! j) w'" using lookups_only_move [OF _ m(2) l] c by (simp add: index_locked_def)
  then show ?thesis using c m(3) j by (auto simp: index_locked_def nth_list_update)
qed

lemma index_locked_run:
  "run_schedule (call_prog api env) js c = Some c' \<Longrightarrow> index_locked api env opss c \<Longrightarrow> index_locked api env opss c'"
  by (induction js arbitrary: c) (auto dest: index_locked_step split: option.splits)

context berkeley_db
begin

lemma find_keeps_lock:
  assumes inv: "storage_inv view good s" and mem: "e_mem env" and k: "stored view s (fixed_key k) \<noteq> None"
  shows "\<exists>c. run_schedule (call_prog api env) [0, 0, 0, 0] (cstart s ([(False, GetOp k)] # opss)) = Some c \<and> shared c = s \<and>
    w_done (workers c ! 0) = [(-1, None)] \<and> index_locked api env opss c"
proof -
  obtain vb where V: "view (dbp (indexdb s)) (fixed_key k) = Some vb" using k by (auto simp: stored_def contents_def)
  have st: "length vb = 24" "good (dbp (indexdb s))" using inv V by (auto simp: storage_inv_def index_ok_def)
  have l: "lookup_index api env (fixed_key k) s = Some ((0, Some vb), s)"
    using find_record_found [OF st(2) V] st(1) mem by (simp add: lookup_index_def sizeof_value_def)
  have free: "can_lock IndexLock Sh (new_worker ops # map new_worker opss)" for ops :: "(bool \<times> store_op) list"
    by (simp add: can_lock_def new_worker_def)
  show ?thesis
    using l
    by (auto simp: cstart_def wstep_def move_def find_prog_def act_def can_lock_def hold_def Let_def index_locked_def lookups_only_def new_worker_def)
qed

end

section \<open>Halting beside a running update\<close>

lemma halt_pieces:
  assumes inv: "storage_inv view good s" and env: "full_env env"
  shows "\<exists>s1 s2. sync_storage env sync_all s = Some (0, s1) \<and> close_tables env s1 = Some (0, s2) \<and> indexdb s2 = indexdb s \<and>
    block_type_count s2 = 0 \<and> (\<forall>j. data_file (handler s2 j) = data_file (handler s j))"
proof -
  let ?s1 = "s\<lparr>index_logger := snd (index_logger_flush (e_write env) (index_logger s))\<rparr>" and ?n = "block_type_count s"
  have st: "tables_ok ?s1" "files_ok ?s1" using inv by (simp_all add: storage_inv_def)
  have sync: "sync_storage env sync_all s = Some (0, ?s1)"
    using sync_headers_idle [OF env st, of "[0..<?n]"] by (simp add: sync_storage_def Let_def atLeast0LessThan)
  have f: "\<forall>i\<in>set [0..<?n]. file_ok (block_size_array ?s1 ! i) (handler ?s1 i)" using file_okD [OF st(2)] by auto
  obtain t where t: "close_files env [0..<?n] 0 ?s1 = Some (0, ?n, t)" "same_tables ?s1 t" "\<forall>j. data_file (handler t j) = data_file (handler ?s1 j)"
    using close_files_ok [OF env st(1) _ _ f, of 0] by (auto simp: atLeast0LessThan)
  have "close_tables env ?s1 = Some (0, t\<lparr>block_type_count := 0, inited_global_vars := False\<rparr>)"
    using t(1,2) st(1) by (simp add: close_tables_def tables_ok_def same_tables_def)
  then show ?thesis using sync t(2,3) by (auto simp: same_tables_def handler_def)
qed

lemma find_block_file_closed: "block_type_count s = 0 \<Longrightarrow> find_block_file bs s = -1"
  by (cases "block_size_array s") (simp_all add: find_block_file_def)

section \<open>Properties\<close>

text \<open>
  C5. The block store under concurrency is linearizable. Take any number of threads, each with any list of
  \<open>update_block\<close>, \<open>find_block\<close> and \<open>delete_block\<close> calls whose values fit, on a healthy index and system, and
  any interleaving of their lock operations and pieces in which all of them return. Then there is one order of all
  the calls, in which each thread's calls keep their order, such that the results every thread got and the final state are those of
  the calls made one after the other in that order; they are the answers of a map from keys to
  values, and the store's invariant holds at the end. The order is a linearization: at every moment of the run, the
  calls that have returned are in a prefix of it, and those that have not begun are not.
\<close>

theorem concurrent_store_linearizable:
  assumes "berkeley_db api view good" and "full_env env" and "storage_inv view good s"
    and "room (sum_list (map length opss)) s" and "list_all (list_all (op_fits (largest_block s))) opss"
    and "run_schedule (op_prog api env) is (cstart s opss) = Some c" and "finished c"
  shows "\<exists>hist. (let ops = map (\<lambda>e. fst (snd e)) hist; rs = map (\<lambda>e. snd (snd e)) hist
    in store_run (update_block api env, find_block api env, delete_block api env) ops s = Some (rs, shared c) \<and>
       map_run (DB_NOTFOUND api) fixed_key ops (stored view s) = (rs, stored view (shared c)) \<and>
       storage_inv view good (shared c) \<and> (\<forall>e\<in>set hist. fst e < length opss) \<and>
       (\<forall>i<length opss. map fst (own i hist) = opss ! i \<and> map snd (own i hist) = w_done (workers c ! i)) \<and>
       (\<forall>is1 is2 c1. is = is1 @ is2 \<longrightarrow> run_schedule (op_prog api env) is1 (cstart s opss) = Some c1 \<longrightarrow>
         (\<exists>k\<le>length hist. timely opss c1 (take k hist))))"
proof -
  have blocks: "block_setup api view good env"
    using assms(1,2) by (simp add: block_setup_def block_setup_axioms_def)
  obtain hist where h: "seq_calls (store_call api env) (map (\<lambda>e. fst (snd e)) hist) s = Some (map (\<lambda>e. snd (snd e)) hist, shared c)"
      "storage_inv view good (shared c)" "\<forall>e\<in>set hist. fst e < length opss"
      "\<forall>i<length opss. map fst (own i hist) = opss ! i \<and> map snd (own i hist) = w_done (workers c ! i)"
      "\<forall>is1 is2 c1. is = is1 @ is2 \<longrightarrow> run_schedule (op_prog api env) is1 (cstart s opss) = Some c1 \<longrightarrow>
         (\<exists>k\<le>length hist. timely opss c1 (take k hist))"
    using block_setup.interleavings(1) [OF blocks, where top = "largest_block s", OF assms(6) _ assms(5,7)] assms(3,4) by blast
  let ?ops = "map (\<lambda>e. fst (snd e)) hist"
  have fit: "length hist = sum_list (map length opss)" "list_all (op_fits (largest_block s)) ?ops"
    using interleaved_ops_fit [OF h(3) _ assms(5)] h(4) by simp_all
  from block_setup.run_ok [OF blocks, where os = ?ops and s = s and top = "largest_block s"]
  obtain s' where s': "store_run (update_block api env, find_block api env, delete_block api env) ?ops s =
      Some (fst (map_run (DB_NOTFOUND api) fixed_key ?ops (stored view s)), s')"
      "stored view s' = snd (map_run (DB_NOTFOUND api) fixed_key ?ops (stored view s))"
    using assms(3,4) fit by auto
  then have m: "map_run (DB_NOTFOUND api) fixed_key ?ops (stored view s) = (map (\<lambda>e. snd (snd e)) hist, stored view (shared c))"
    using h(1) by (simp add: seq_calls_store prod_eq_iff)
  have "store_run (update_block api env, find_block api env, delete_block api env) ?ops s = Some (map (\<lambda>e. snd (snd e)) hist, shared c)"
    using h(1) by (simp only: seq_calls_store)
  then show ?thesis unfolding Let_def using h(2-5) m by (intro exI [where x = hist] conjI)
qed

theorem concurrent_store_linearizable_witness:
  "\<exists>s is c. open_small (\<lambda>i. 3) True (\<lambda>_. None) fresh_index start_storage = Some (0, s, True) \<and>
    run_schedule (op_prog mem_db good_env) is (cstart s [[SetOp [1] [7, 8]], [GetOp [1]]]) = Some c \<and> finished c \<and>
    w_done (workers c ! 0) = [(0, None)] \<and> w_done (workers c ! 1) \<in> {[(-30988, None)], [(0, Some [7, 8])]}"
proof -
  let ?ops = "[[SetOp [1] [7, 8]], [GetOp [1]]]"
  obtain s where s: "open_small (\<lambda>i. 3) True (\<lambda>_. None) fresh_index start_storage = Some (0, s, True)"
      "storage_inv map_of (\<lambda>d. True) s" "stored map_of s = (\<lambda>_. None)" "largest_block s = 1024" "room 1000 s"
    using fresh_store by blast
  have r: "room (sum_list (map length ?ops)) s" using room_mono [of 998 2 s] s(5) by (simp add: numeral_2_eq_2)
  have f: "list_all (list_all (op_fits (largest_block s))) ?ops" using s(4) by simp
  have start: "run_schedule (op_prog mem_db good_env) [] (cstart s ?ops) = Some (cstart s ?ops)" by simp
  obtain "is" c where c: "run_schedule (op_prog mem_db good_env) is (cstart s ?ops) = Some c" "finished c"
    using mem_store.interleavings(4) [where top = 1024, OF start] s(2,4) r f by auto
  obtain hist where h: "map_run (DB_NOTFOUND mem_db) fixed_key (map (\<lambda>e. fst (snd e)) hist) (stored map_of s) =
        (map (\<lambda>e. snd (snd e)) hist, stored map_of (shared c))" "\<forall>e\<in>set hist. fst e < 2"
      "\<forall>i<2. map fst (own i hist) = ?ops ! i \<and> map snd (own i hist) = w_done (workers c ! i)"
    using concurrent_store_linearizable [OF mem.berkeley_db_axioms full_good_env s(2) r f c] unfolding Let_def by (auto simp: numeral_2_eq_2)
  have "length hist = 2" using interleaved_ops_fit(1) [of hist ?ops "\<lambda>x. True"] h(2,3) by (simp add: numeral_2_eq_2)
  then obtain i a x j b y where e: "hist = [(i, a, x), (j, b, y)]" by (auto simp: numeral_2_eq_2 length_Suc_conv)
  have own0: "map fst (own 0 hist) = ?ops ! 0 \<and> map snd (own 0 hist) = w_done (workers c ! 0)"
    and own1: "map fst (own 1 hist) = ?ops ! 1 \<and> map snd (own 1 hist) = w_done (workers c ! 1)" using h(3) by auto
  have "w_done (workers c ! 0) = [(0, None)] \<and> w_done (workers c ! 1) \<in> {[(-30988, None)], [(0, Some [7, 8])]}"
    using own0 own1 h(1,2) s(3) by (auto simp: e own_def mem_db_def split: if_splits)
  then show ?thesis using s(1) c by blast
qed

text \<open>
  C7. The concurrent store does not deadlock and every call ends. Under the same conditions, every run of the
  threads takes at most 20 steps per call, and from every state it reaches, the threads can go on until all of
  them have returned from all their calls.
\<close>

theorem concurrent_store_ends:
  assumes "berkeley_db api view good" and "full_env env" and "storage_inv view good s"
    and "room (sum_list (map length opss)) s" and "list_all (list_all (op_fits (largest_block s))) opss"
    and "run_schedule (op_prog api env) is (cstart s opss) = Some c"
  shows "length is \<le> 20 * sum_list (map length opss) \<and>
    (\<exists>js c'. run_schedule (op_prog api env) (is @ js) (cstart s opss) = Some c' \<and> finished c')"
proof -
  have blocks: "block_setup api view good env"
    using assms(1,2) by (simp add: block_setup_def block_setup_axioms_def)
  note laws = block_setup.interleavings [OF blocks, where top = "largest_block s", OF assms(6) _ assms(5)]
  show ?thesis using laws(2,4) assms(3,4) by simp
qed

theorem concurrent_store_ends_witness:
  "\<exists>s c js c'. open_small (\<lambda>i. 3) True (\<lambda>_. None) fresh_index start_storage = Some (0, s, True) \<and>
    run_schedule (op_prog mem_db good_env) [0, 1, 0] (cstart s [[SetOp [1] [7, 8], DelOp [1]], [GetOp [1]]]) = Some c \<and>
    run_schedule (op_prog mem_db good_env) ([0, 1, 0] @ js) (cstart s [[SetOp [1] [7, 8], DelOp [1]], [GetOp [1]]]) = Some c' \<and> finished c'"
proof -
  let ?ops = "[[SetOp [1] [7, 8], DelOp [1]], [GetOp [1]]]"
  obtain s where s: "open_small (\<lambda>i. 3) True (\<lambda>_. None) fresh_index start_storage = Some (0, s, True)"
      "storage_inv map_of (\<lambda>d. True) s" "largest_block s = 1024" "room 1000 s"
    using fresh_store by blast
  have r: "room (sum_list (map length ?ops)) s" using room_mono [of 997 3 s] s(4) by (simp add: numeral_3_eq_3)
  have f: "list_all (list_all (op_fits (largest_block s))) ?ops" using s(3) by simp
  obtain c where c: "run_schedule (op_prog mem_db good_env) [0, 1, 0] (cstart s ?ops) = Some c"
    by (simp add: cstart_def new_worker_def wstep_def move_def update_prog_def can_lock_def Let_def)
  show ?thesis using s(1) c concurrent_store_ends [OF mem.berkeley_db_axioms full_good_env s(2) r f c] by blast
qed

text \<open>
  C16. A lookup without memory blocks the store. When \<open>slab_alloc\<close> has no memory for the value of a key that is
  stored, \<open>find_block\<close> returns -1 and keeps the read lock of the index: if that was the last call of its thread, then whatever
  the other threads do, no \<open>update_block\<close> and no \<open>delete_block\<close> ever returns; only lookups do.
\<close>

theorem find_without_memory_blocks:
  assumes "berkeley_db api view good" and "full_env env" and "storage_inv view good s" and "stored view s (fixed_key k) \<noteq> None"
  shows "\<exists>c. run_schedule (call_prog api env) [0, 0, 0, 0] (cstart s ([(False, GetOp k)] # opss)) = Some c \<and>
    w_done (workers c ! 0) = [(-1, None)] \<and>
    (\<forall>js c'. run_schedule (call_prog api env) js c = Some c' \<longrightarrow>
      (\<forall>i<length opss. list_all is_get (take (length (w_done (workers c' ! Suc i))) (opss ! i))))"
proof -
  have mem: "e_mem env" using assms(2) by (simp add: full_env_def)
  obtain c where c: "run_schedule (call_prog api env) [0, 0, 0, 0] (cstart s ([(False, GetOp k)] # opss)) = Some c"
      "w_done (workers c ! 0) = [(-1, None)]" "index_locked api env opss c"
    using berkeley_db.find_keeps_lock [OF assms(1,3) mem assms(4)] by blast
  have "list_all is_get (take (length (w_done (workers c' ! Suc i))) (opss ! i))"
    if "run_schedule (call_prog api env) js c = Some c'" "i < length opss" for js c' i
    using index_locked_run [OF that(1) c(3)] that(2) by (auto simp: index_locked_def lookups_only_def)
  then show ?thesis using c(1,2) by blast
qed

theorem find_without_memory_blocks_witness:
  "\<exists>s c. run_schedule (call_prog mem_db good_env) [0, 0, 0, 0]
      (cstart s [[(False, GetOp [1])], [(True, SetOp [2] [9])], [(True, GetOp [1]), (True, DelOp [1])]]) = Some c \<and>
    (\<forall>js c'. run_schedule (call_prog mem_db good_env) js c = Some c' \<longrightarrow>
      w_done (workers c' ! 1) = [] \<and> length (w_done (workers c' ! 2)) \<le> 1)"
proof -
  let ?opss = "[[(True, SetOp [2] [9])], [(True, GetOp [1]), (True, DelOp [1])]]"
  obtain s where s: "storage_inv map_of (\<lambda>d. True) s" "stored map_of s = [fixed_key [1] \<mapsto> [7, 8]]"
    using one_value_store by blast
  have k: "stored map_of s (fixed_key [1]) \<noteq> None" using s(2) by simp
  have one: "list_all is_get (take n [(True, SetOp [2] [9])]) \<Longrightarrow> n = 0" for n by (cases n) simp_all
  have two: "list_all is_get (take n [(True, GetOp [1]), (True, DelOp [1])]) \<Longrightarrow> n \<le> 1" for n
    by (cases n; cases "n - 1") simp_all
  obtain c where c: "run_schedule (call_prog mem_db good_env) [0, 0, 0, 0] (cstart s ([(False, GetOp [1])] # ?opss)) = Some c"
      "\<And>js c' i. run_schedule (call_prog mem_db good_env) js c = Some c' \<Longrightarrow> i < 2 \<Longrightarrow>
        list_all is_get (take (length (w_done (workers c' ! Suc i))) (?opss ! i))"
    using find_without_memory_blocks [OF mem.berkeley_db_axioms full_good_env s(1) k, of ?opss] by (auto simp: numeral_2_eq_2)
  have "w_done (workers c' ! 1) = [] \<and> length (w_done (workers c' ! 2)) \<le> 1"
    if "run_schedule (call_prog mem_db good_env) js c = Some c'" for js c'
    using one [of "length (w_done (workers c' ! 1))"] two [of "length (w_done (workers c' ! 2))"] c(2) [OF that, of 0] c(2) [OF that, of 1]
    by (simp add: numeral_2_eq_2)
  then show ?thesis using c(1) by blast
qed

text \<open>
  C17. The command \<open>power halt\<close> loses a write that was acknowledged. The assign thread closes the store without its locks. When it
  does so after a query thread that sets a new key has looked the key up in the index, the thread finds no data file for the
  value, and \<open>update_block\<close> returns 0, for which the client is told that the value is stored; but neither the index nor any data file has changed.
\<close>

theorem halt_loses_acknowledged_write:
  assumes "berkeley_db api view good" and "full_env env" and "storage_inv view good s" and "stored view s (fixed_key k) = None"
  shows "\<exists>c. run_schedule (node_prog api env) [0, 0, 0, 1, 1, 1, 0, 0, 0] (cstart s [[Request (SetOp k d)], [Halt]]) = Some c \<and>
    w_done (workers c ! 0) = [(0, None)] \<and> indexdb (shared c) = indexdb s \<and>
    (\<forall>j. data_file (handler (shared c) j) = data_file (handler s j))"
proof -
  have V: "view (dbp (indexdb s)) (fixed_key k) = None" "good (dbp (indexdb s))" "e_mem env"
    using assms(2-4) by (simp_all add: stored_def contents_def storage_inv_def full_env_def)
  have l: "lookup_index api env (fixed_key k) s = Some ((DB_NOTFOUND api, None), s)"
    using berkeley_db.find_record_missing [OF assms(1) V(2,1)] V(3) by (simp add: lookup_index_def)
  have nf: "DB_NOTFOUND api \<noteq> 0" using berkeley_db.notfound_code [OF assms(1)] by simp
  obtain s1 s2 where h: "sync_storage env sync_all s = Some (0, s1)" "close_tables env s1 = Some (0, s2)" "indexdb s2 = indexdb s"
      "block_type_count s2 = 0" "\<forall>j. data_file (handler s2 j) = data_file (handler s j)"
    using halt_pieces [OF assms(3,2)] by blast
  have ch: "choose_file (length d) s2 = Some (-1, s2)" by (simp add: choose_file_def find_block_file_closed [OF h(4)])
  show ?thesis
    using l nf h ch
    by (simp add: cstart_def new_worker_def wstep_def move_def update_prog_def halt_prog_def act_def can_lock_def hold_def unhold_def leave_def Let_def)
qed

theorem halt_loses_acknowledged_write_witness:
  "\<exists>s c. open_small (\<lambda>i. 3) True (\<lambda>_. None) fresh_index start_storage = Some (0, s, True) \<and>
    run_schedule (node_prog mem_db good_env) [0, 0, 0, 1, 1, 1, 0, 0, 0] (cstart s [[Request (SetOp [1] [7, 8])], [Halt]]) = Some c \<and>
    w_done (workers c ! 0) = [(0, None)] \<and> indexdb (shared c) = indexdb s"
proof -
  obtain s where s: "open_small (\<lambda>i. 3) True (\<lambda>_. None) fresh_index start_storage = Some (0, s, True)"
      "storage_inv map_of (\<lambda>d. True) s" "stored map_of s (fixed_key [1]) = None"
    using fresh_store by force
  then show ?thesis using halt_loses_acknowledged_write [OF mem.berkeley_db_axioms full_good_env s(2,3), of "[7, 8]"] by blast
qed

end
