(* ===== verification/Iolayer.thy ===== *)
theory Iolayer
  imports Prelude "HOL-Library.Multiset"
begin

text \<open>
  \<^verbatim>\<open>src/src/iolayer.c\<close> and \<^verbatim>\<open>src/src/utils.c\<close> with the counters of \<^verbatim>\<open>src/include/utils.h\<close>: the
  wrappers of the system calls on files and sockets. What a system call returns is an argument.
  The state is the table of open descriptors with their status flags, and the byte counters of
  \<open>g_runtime_vars.io_stats\<close>, which are 64-bit and wrap.

  The lemmas show that the counters are the sums of what was transferred, that blocking mode
  is switched without touching the other flags, and which descriptors a connect leaves open.
\<close>

section \<open>Counters\<close>

text \<open>The macros \<open>atomic_uint_*\<close> of \<^verbatim>\<open>utils.h\<close>: values of a 64-bit counter.\<close>

definition atomic_uint_lte :: "u64 \<Rightarrow> u64 \<Rightarrow> bool" where "atomic_uint_lte p v \<longleftrightarrow> p \<ge> v"
definition atomic_uint_add :: "u64 \<Rightarrow> u64 \<Rightarrow> u64" where "atomic_uint_add p i = p + i"
definition atomic_uint_sub :: "u64 \<Rightarrow> u64 \<Rightarrow> u64" where "atomic_uint_sub p i = p - i"
definition atomic_uint_inc :: "u64 \<Rightarrow> u64" where "atomic_uint_inc p = atomic_uint_add p 1"
definition atomic_uint_dec :: "u64 \<Rightarrow> u64" where "atomic_uint_dec p = atomic_uint_sub p 1"
definition atomic_uint_set :: "u64 \<Rightarrow> u64 \<Rightarrow> u64" where "atomic_uint_set p i = i"
definition atomic_uint_get :: "u64 \<Rightarrow> u64" where "atomic_uint_get p = p"
definition atomic_uint_equal :: "u64 \<Rightarrow> u64 \<Rightarrow> bool" where "atomic_uint_equal p v \<longleftrightarrow> p = v"

text \<open>\<open>__sync_bool_compare_and_swap\<close>: whether the counter was \<open>i\<close>, and the counter.\<close>

definition atomic_uint_cas :: "u64 \<Rightarrow> u64 \<Rightarrow> u64 \<Rightarrow> bool \<times> u64" where
  "atomic_uint_cas p i newvalue = (if p = i then (True, newvalue) else (False, p))"

lemmas atomic_defs = atomic_uint_lte_def atomic_uint_add_def atomic_uint_sub_def atomic_uint_inc_def atomic_uint_dec_def
  atomic_uint_set_def atomic_uint_get_def atomic_uint_equal_def atomic_uint_cas_def

text \<open>Threads that add to a counter: in whatever order their additions take effect, the counter is the sum,
  modulo \<open>2^64\<close>.\<close>

lemma atomic_adds_sum: "foldl atomic_uint_add c xs = c + sum_list xs"
  by (induction xs arbitrary: c) (simp_all add: atomic_uint_add_def add.assoc)

lemma atomic_adds_commute: "mset xs = mset ys \<Longrightarrow> foldl atomic_uint_add c xs = foldl atomic_uint_add c ys"
  by (metis atomic_adds_sum sum_mset_sum_list)

record io_stat_s =
  disk_read_bytes :: u64
  disk_write_bytes :: u64
  net_read_bytes :: u64
  net_write_bytes :: u64

section \<open>Reading and writing\<close>

text \<open>Each wrapper on the value \<open>n\<close> that \<open>read\<close>, \<open>write\<close> or \<open>writev\<close> returned: what it returns,
  and the counters.\<close>

definition disk_read :: "int \<Rightarrow> io_stat_s \<Rightarrow> int \<times> io_stat_s" where
  "disk_read n st =
    (n, if n > 0 then st\<lparr>disk_read_bytes := atomic_uint_add (disk_read_bytes st) (word_of_int n)\<rparr> else st)"

definition disk_write :: "int \<Rightarrow> io_stat_s \<Rightarrow> int \<times> io_stat_s" where
  "disk_write n st =
    (n, if n > 0 then st\<lparr>disk_write_bytes := atomic_uint_add (disk_write_bytes st) (word_of_int n)\<rparr> else st)"

definition net_read :: "int \<Rightarrow> io_stat_s \<Rightarrow> int \<times> io_stat_s" where
  "net_read n st =
    (n, if n > 0 then st\<lparr>net_read_bytes := atomic_uint_add (net_read_bytes st) (word_of_int n)\<rparr> else st)"

definition net_write :: "int \<Rightarrow> io_stat_s \<Rightarrow> int \<times> io_stat_s" where
  "net_write n st =
    (n, if n > 0 then st\<lparr>net_write_bytes := atomic_uint_add (net_write_bytes st) (word_of_int n)\<rparr> else st)"

definition net_writev :: "int \<Rightarrow> io_stat_s \<Rightarrow> int \<times> io_stat_s" where
  "net_writev n st =
    (n, if n > 0 then st\<lparr>net_write_bytes := atomic_uint_add (net_write_bytes st) (word_of_int n)\<rparr> else st)"

section \<open>Blocking mode\<close>

text \<open>The open descriptors with their flags; \<open>O_NONBLOCK\<close> on Linux.\<close>

type_synonym fds = "int \<Rightarrow> u32 option"

definition O_NONBLOCK :: u32 where "O_NONBLOCK = 0x800"
definition EBADF :: int where "EBADF = 9"

text \<open>\<open>fcntl\<close> fails with \<open>EBADF\<close> on a descriptor that is not open.\<close>

definition set_nonblock :: "int \<Rightarrow> fds \<Rightarrow> int \<times> fds" where
  "set_nonblock fd t =
    (case t fd of None \<Rightarrow> (EBADF, t) | Some flag \<Rightarrow> (0, t(fd \<mapsto> flag OR O_NONBLOCK)))"

definition set_block :: "int \<Rightarrow> fds \<Rightarrow> int \<times> fds" where
  "set_block fd t =
    (case t fd of None \<Rightarrow> (EBADF, t) | Some flag \<Rightarrow> (0, t(fd \<mapsto> flag AND NOT O_NONBLOCK)))"

section \<open>Connecting\<close>

text \<open>What the system calls of a connect return.\<close>

record connect_env =
  c_socket :: int
  c_connect :: int
  c_inprogress :: bool
  c_select :: int
  c_wset :: bool
  c_rset :: bool
  c_getsockopt :: int
  c_so_error :: int

text \<open>\<open>socket\<close> opens a new descriptor, in blocking mode.\<close>

definition sys_socket :: "connect_env \<Rightarrow> fds \<Rightarrow> fds" where
  "sys_socket env t = (if c_socket env < 0 then t else t(c_socket env \<mapsto> 2))"

definition sys_close :: "int \<Rightarrow> fds \<Rightarrow> fds" where
  "sys_close fd t = t(fd := None)"

definition blocked_connect :: "connect_env \<Rightarrow> fds \<Rightarrow> int \<times> fds" where
  "blocked_connect env t =
    (let t = sys_socket env t; sockfd = c_socket env
     in if sockfd < 0 then (RET_FAILED, t)
        else if c_connect env = 0 then (sockfd, t)
        else (RET_FAILED, t))"

definition timed_connect :: "connect_env \<Rightarrow> fds \<Rightarrow> int \<times> fds" where
  "timed_connect env t =
    (let t = sys_socket env t; sockfd = c_socket env
     in if sockfd < 0 then (RET_FAILED, t)
        else
          let t = snd (set_nonblock sockfd t)
          in if c_connect env < 0 \<and> \<not> c_inprogress env then (RET_FAILED, sys_close sockfd t)
             else if \<not> c_connect env < 0 \<and> c_connect env = 0 then (sockfd, snd (set_block sockfd t))
             else if c_select env \<le> 0 then (RET_FAILED, sys_close sockfd t)
             else if (c_wset env \<or> c_rset env) \<and> c_getsockopt env < 0 then (RET_FAILED, sys_close sockfd t)
             else if (c_wset env \<or> c_rset env) \<and> c_so_error env \<noteq> 0 then (RET_FAILED, sys_close sockfd t)
             else (sockfd, snd (set_block sockfd t)))"

section \<open>Lemmas\<close>

text \<open>A sequence of transfers.\<close>

fun net_reads :: "int list \<Rightarrow> io_stat_s \<Rightarrow> io_stat_s" where
  "net_reads [] st = st"
| "net_reads (n # ns) st = net_reads ns (snd (net_read n st))"

lemma net_reads_total:
  "net_read_bytes (net_reads ns st) = net_read_bytes st + word_of_int (sum_list (map (max 0) ns)) \<and>
    net_write_bytes (net_reads ns st) = net_write_bytes st"
  by (induction ns arbitrary: st) (auto simp: net_read_def atomic_uint_add_def max_def)

lemma nonblock_bits:
  "(w OR O_NONBLOCK) AND O_NONBLOCK = O_NONBLOCK" "(w AND NOT O_NONBLOCK) AND O_NONBLOCK = 0"
  "(w OR O_NONBLOCK) AND NOT O_NONBLOCK = w AND NOT O_NONBLOCK"
  by (auto simp: bit_eq_iff bit_simps)

section \<open>Properties\<close>

text \<open>
  The network counter is the number of bytes read, modulo \<open>2 ^ 64\<close>: failed and empty reads do
  not count, and the other direction is untouched.
\<close>

theorem net_read_counts:
  "unat (net_read_bytes (net_reads ns st)) =
      (unat (net_read_bytes st) + nat (sum_list (map (max 0) ns))) mod 2 ^ 64 \<and>
    net_write_bytes (net_reads ns st) = net_write_bytes st"
proof -
  have "0 \<le> sum_list (map (max 0) ns)" by (rule sum_list_nonneg) auto
  then have "(word_of_int (sum_list (map (max 0) ns)) :: u64) = word_of_nat (nat (sum_list (map (max 0) ns)))"
    by (simp add: of_nat_nat)
  then show ?thesis using net_reads_total [of ns st] by (simp add: unat_word_ariths unat_of_nat mod_simps)
qed

text \<open>
  \<open>set_nonblock\<close> and \<open>set_block\<close> switch exactly the one flag of an open descriptor: after
  either, the flag is as asked, no other flag and no other descriptor changed, and switching
  back restores the flags of a descriptor that was in the other mode.
\<close>

theorem blocking_mode:
  assumes "t fd = Some w"
  shows "\<exists>w1 w2. set_nonblock fd t = (0, t(fd \<mapsto> w1)) \<and> w1 AND O_NONBLOCK = O_NONBLOCK \<and>
    w1 AND NOT O_NONBLOCK = w AND NOT O_NONBLOCK \<and>
    set_block fd (t(fd \<mapsto> w1)) = (0, t(fd \<mapsto> w2)) \<and> w2 AND O_NONBLOCK = 0 \<and>
    w2 AND NOT O_NONBLOCK = w AND NOT O_NONBLOCK \<and> (w AND O_NONBLOCK = 0 \<longrightarrow> w2 = w)"
proof -
  have "w AND NOT O_NONBLOCK = w" if "w AND O_NONBLOCK = 0"
    using that by (auto simp: bit_eq_iff bit_simps)
  then show ?thesis
    using assms nonblock_bits [of w]
    by (intro exI [where x = "w OR O_NONBLOCK"] exI [where x = "w AND NOT O_NONBLOCK"])
      (auto simp: set_nonblock_def set_block_def and.assoc)
qed

theorem blocking_mode_witness:
  "\<exists>w2. snd (set_block 3 (snd (set_nonblock 3 [3 \<mapsto> 2]))) = [3 \<mapsto> w2] \<and> w2 = 2"
  using blocking_mode [of "[3 \<mapsto> 2]" 3 2] by (auto simp: O_NONBLOCK_def)

text \<open>
  \<open>timed_connect\<close> leaks nothing: when it fails, the descriptors are those there were; when it
  succeeds, it returns a new one in blocking mode. \<open>blocked_connect\<close> does not close its socket
  when the connection is refused.
\<close>

theorem connect_descriptors:
  assumes "0 \<le> c_socket env" and "t (c_socket env) = None"
  shows "(fst (timed_connect env t) = RET_FAILED \<longrightarrow> snd (timed_connect env t) = t) \<and>
    (fst (timed_connect env t) \<noteq> RET_FAILED \<longrightarrow>
      timed_connect env t = (c_socket env, t(c_socket env \<mapsto> 2))) \<and>
    (c_connect env \<noteq> 0 \<longrightarrow> blocked_connect env t = (RET_FAILED, t(c_socket env \<mapsto> 2)))"
proof -
  have "t(c_socket env := None) = t" using assms(2) by auto
  then show ?thesis
    using assms(1)
    by (auto simp: timed_connect_def blocked_connect_def sys_socket_def sys_close_def set_nonblock_def
        set_block_def Let_def O_NONBLOCK_def RET_FAILED_def)
qed

theorem connect_descriptors_witness:
  "snd (timed_connect \<lparr>c_socket = 5, c_connect = -1, c_inprogress = True, c_select = 0, c_wset = False,
      c_rset = False, c_getsockopt = 0, c_so_error = 0\<rparr> Map.empty) = Map.empty"
  using connect_descriptors [of "\<lparr>c_socket = 5, c_connect = -1, c_inprogress = True, c_select = 0, c_wset = False,
      c_rset = False, c_getsockopt = 0, c_so_error = 0\<rparr>" Map.empty]
  by (auto simp: timed_connect_def sys_socket_def)

end
