(* ===== verification/Query_Thread.thy ===== *)
theory Query_Thread
  imports Storage_Lifecycle Memcached_Protocol Iolayer
begin

text \<open>
  \<^verbatim>\<open>src/src/query_thread.c\<close> and \<^verbatim>\<open>src/include/query_thread.h\<close>: a worker takes a parsed request
  from its pipe, calls the block store, builds the response and sends it. A task is the record
  \<open>query_task_s\<close> without its timers, addresses and unused fields. \<open>error_log\<close> is the message
  buffer; the macro \<open>Log\<close> asserts that it is not set yet, and \<open>None\<close> is the aborted process.
  What the client receives is the list of bytes that the writes got out.

  The lemmas show that a worker answers like a map from keys to values over the text
  protocol, and where a request of a client ends the process.
\<close>

section \<open>Tasks\<close>

datatype query_state_e = s_recv_req_head | s_parse_req_head | s_recv_req_data | s_dispatch_query_task
  | s_destroy_recv | s_do_sync | s_do_power | s_set_success | s_get_success | s_delete_success
  | s_set_failed | s_get_failed | s_delete_failed | s_return_resp_head | s_return_resp_data | s_return_failed

definition MAX_RESP_HEADER_SIZE :: nat where "MAX_RESP_HEADER_SIZE = 512"

record query_response_s =
  resp_head_buf :: bytes
  resp_head_buf_size :: nat
  resp_data_buf :: "bytes option"
  resp_data_size :: nat
  resp_tailor_buf :: "bytes option"
  resp_tailor_size :: nat

record query_task_s =
  sock_fd :: int
  thread_id :: int
  error_log :: "string option"
  q_state :: query_state_e
  have_read :: int
  need_read :: int
  query_request :: query_request_s
  query_response :: query_response_s

text \<open>\<open>Log\<close>, with memory at hand.\<close>

definition Log :: "string \<Rightarrow> query_task_s \<Rightarrow> query_task_s option" where
  "Log msg task = (if error_log task \<noteq> None then None else Some (task\<lparr>error_log := Some msg\<rparr>))"

section \<open>Responses\<close>

definition MC_TERM_STR :: bytes where "MC_TERM_STR = [CR, LF]"
definition MC_ERR_STR :: bytes where "MC_ERR_STR = str ''ERROR'' @ MC_TERM_STR"
definition MC_SET_DONE_STR :: bytes where "MC_SET_DONE_STR = str ''STORED'' @ MC_TERM_STR"
definition MC_GET_DONE_STR :: bytes where "MC_GET_DONE_STR = str ''END'' @ MC_TERM_STR"
definition MC_DEL_DONE_STR :: bytes where "MC_DEL_DONE_STR = str ''DELETED'' @ MC_TERM_STR"

lemmas mc_strings = MC_TERM_STR_def MC_ERR_STR_def MC_SET_DONE_STR_def MC_GET_DONE_STR_def MC_DEL_DONE_STR_def

text \<open>\<open>snprintf\<close> of \<open>MC_GET_HEADER_PATTERN\<close>; the flag it prints is the constant 0.\<close>

definition get_header :: "bytes \<Rightarrow> nat \<Rightarrow> bytes" where
  "get_header key sz = take (MAX_RESP_HEADER_SIZE - 1)
    (str ''VALUE '' @ key @ str '' '' @ decimal 0 @ str '' '' @ decimal sz @ MC_TERM_STR)"

text \<open>A response without data: the assertions that none was set.\<close>

definition short_response :: "bytes \<Rightarrow> query_task_s \<Rightarrow> query_task_s option" where
  "short_response s qtask =
    (let r = (query_response qtask)\<lparr>resp_head_buf := s, resp_head_buf_size := length s\<rparr>
     in if resp_data_size r \<noteq> 0 \<or> resp_data_buf r \<noteq> None then None
        else Some (qtask\<lparr>query_response := r\<lparr>resp_data_size := 0, resp_data_buf := None\<rparr>\<rparr>))"

definition build_response :: "query_task_s \<Rightarrow> query_task_s option" where
  "build_response qtask =
    (case q_state qtask of
      s_set_success \<Rightarrow> short_response MC_SET_DONE_STR qtask
    | s_set_failed \<Rightarrow> Option.bind (Log ''set cmd failed'' qtask) (short_response MC_ERR_STR)
    | s_get_success \<Rightarrow>
        let r = query_response qtask;
            h = get_header (cstr (qr_key (query_request qtask))) (resp_data_size r)
        in Some (qtask\<lparr>query_response := r\<lparr>resp_head_buf := h, resp_head_buf_size := length h,
             resp_tailor_buf := Some MC_TERM_STR, resp_tailor_size := length MC_TERM_STR\<rparr>\<rparr>)
    | s_get_failed \<Rightarrow> Option.bind (Log ''get cmd failed'' qtask) (short_response MC_GET_DONE_STR)
    | s_delete_success \<Rightarrow> short_response MC_DEL_DONE_STR qtask
    | s_delete_failed \<Rightarrow> Option.bind (Log ''delete cmd failed'' qtask) (short_response MC_ERR_STR)
    | s_return_failed \<Rightarrow> short_response MC_ERR_STR qtask
    | _ \<Rightarrow> Some qtask)"

section \<open>Requests\<close>

text \<open>The answer of the store, turned into a state.\<close>

definition handle_request ::
  "'db db_api \<Rightarrow> sys_env \<Rightarrow> query_task_s \<Rightarrow> 'db storage \<Rightarrow> (int \<times> query_task_s \<times> 'db storage) option" where
  "handle_request api env qtask s =
    (let qrequest = query_request qtask; key = cstr (qr_key qrequest)
     in if qr_parse_status qrequest \<noteq> ps_succ then
          (if q_state qtask \<noteq> s_return_failed then None
           else map_option (\<lambda>t. (RET_SUCCESS, t, s)) (build_response (qtask\<lparr>q_state := s_return_failed\<rparr>)))
        else
          case qr_cmd_type qrequest of
            cmd_set \<Rightarrow>
              (case update_block api env key (take (unat (qr_data_size qrequest)) (the (qr_data qrequest))) s of
                None \<Rightarrow> None
              | Some (ret, s) \<Rightarrow>
                  if ret = 0 then map_option (\<lambda>t. (RET_SUCCESS, t, s)) (build_response (qtask\<lparr>q_state := s_set_success\<rparr>))
                  else map_option (\<lambda>t. (RET_FAILED, t, s)) (build_response (qtask\<lparr>q_state := s_set_failed\<rparr>)))
          | cmd_get \<Rightarrow>
              if resp_data_buf (query_response qtask) \<noteq> None then None
              else
                (case find_block api env key s of
                  (ret, buf, sz, s) \<Rightarrow>
                    let qtask = qtask\<lparr>query_response := (query_response qtask)\<lparr>resp_data_buf := buf, resp_data_size := sz\<rparr>\<rparr>
                    in if ret = 0 then map_option (\<lambda>t. (RET_SUCCESS, t, s)) (build_response (qtask\<lparr>q_state := s_get_success\<rparr>))
                       else map_option (\<lambda>t. (RET_FAILED, t, s)) (build_response (qtask\<lparr>q_state := s_get_failed\<rparr>)))
          | cmd_delete \<Rightarrow>
              (case delete_block api env key s of
                None \<Rightarrow> None
              | Some (ret, s) \<Rightarrow>
                  if ret = 0 then map_option (\<lambda>t. (RET_SUCCESS, t, s)) (build_response (qtask\<lparr>q_state := s_delete_success\<rparr>))
                  else map_option (\<lambda>t. (RET_FAILED, t, s)) (build_response (qtask\<lparr>q_state := s_delete_failed\<rparr>)))
          | _ \<Rightarrow> Some (RET_FAILED, qtask, s))"

section \<open>Sending\<close>

text \<open>The socket: whether it can be set to blocking, and what a write of so many bytes returns.\<close>

record sock_env =
  o_block :: bool
  o_head :: "nat \<Rightarrow> int"
  o_data :: "nat \<Rightarrow> int"

text \<open>\<open>net_write\<close> and \<open>net_writev\<close> on the socket: what was sent before, and the counters of the node.\<close>

type_synonym sent_state = "bytes \<times> io_stat_s"

definition sock_write :: "(nat \<Rightarrow> int) \<Rightarrow> bytes \<Rightarrow> sent_state \<Rightarrow> int \<times> sent_state" where
  "sock_write wr bs sent =
    (let (n, cs) = net_write (wr (length bs)) (snd sent) in (n, fst sent @ take (nat n) bs, cs))"

definition sock_writev :: "(nat \<Rightarrow> int) \<Rightarrow> bytes \<Rightarrow> sent_state \<Rightarrow> int \<times> sent_state" where
  "sock_writev wr bs sent =
    (let (n, cs) = net_writev (wr (length bs)) (snd sent) in (n, fst sent @ take (nat n) bs, cs))"

definition send_response :: "sock_env \<Rightarrow> query_task_s \<Rightarrow> sent_state \<Rightarrow> (int \<times> query_task_s \<times> sent_state) option" where
  "send_response io qtask sent =
    (let r = query_response qtask;
         failed = (\<lambda>msg sent. map_option (\<lambda>t. (RET_FAILED, t, sent)) (Log msg qtask))
     in if \<not> o_block io then None
        else
          case sock_write (o_head io) (take (resp_head_buf_size r) (resp_head_buf r)) sent of
            (n, sent) \<Rightarrow>
              if n \<noteq> int (resp_head_buf_size r) then failed ''send header failed'' sent
              else case resp_data_buf r of
                None \<Rightarrow> Some (RET_SUCCESS, qtask, sent)
              | Some d \<Rightarrow>
                  (case resp_tailor_buf r of
                    None \<Rightarrow>
                      if resp_tailor_size r \<noteq> 0 then None
                      else (case sock_write (o_data io) (take (resp_data_size r) d) sent of
                        (n, sent) \<Rightarrow>
                          if n \<noteq> int (resp_data_size r) then failed ''send data failed'' sent
                          else Some (RET_SUCCESS, qtask, sent))
                  | Some tail \<Rightarrow>
                      if resp_tailor_size r = 0 then None
                      else (case sock_writev (o_data io) (take (resp_data_size r) d @ take (resp_tailor_size r) tail) sent of
                        (n, sent) \<Rightarrow>
                          if n \<noteq> int (resp_data_size r) + int (resp_tailor_size r) then failed ''send data failed'' sent
                          else Some (RET_SUCCESS, qtask, sent))))"

text \<open>The events of the event loop that the handlers distinguish; they compare for equality.\<close>

datatype ev_event = EV_READ | EV_WRITE | EV_TIMEOUT | EV_UNDEF | EV_other int

text \<open>\<open>pipe_event_handler\<close>: read a task from the pipe (\<open>got\<close> says whether the read got a pointer), handle it, send, destroy.
  Any other event and a failed read are logged.\<close>

definition pipe_event_handler ::
  "ev_event \<Rightarrow> bool \<Rightarrow> 'db db_api \<Rightarrow> sys_env \<Rightarrow> sock_env \<Rightarrow> int \<Rightarrow> query_task_s \<Rightarrow> io_stat_s \<Rightarrow> 'db storage \<Rightarrow>
    (bytes \<times> io_stat_s \<times> 'db storage) option" where
  "pipe_event_handler event got api env io tid qtask cs s =
    (if event = EV_READ then
       (if \<not> got then Some ([], cs, s)
        else
          (case handle_request api env (qtask\<lparr>thread_id := tid\<rparr>) s of
            None \<Rightarrow> None
          | Some (_, qtask, s) \<Rightarrow>
              (case send_response io qtask ([], cs) of None \<Rightarrow> None | Some (_, _, sent, cs) \<Rightarrow> Some (sent, cs, s))))
     else Some ([], cs, s))"

section \<open>The text protocol over a map\<close>

text \<open>\<open>CBad\<close> is a request line that the parser refuses.\<close>

datatype client_req = CSet bytes bytes | CGet bytes | CDel bytes | CBad

definition value_line :: "bytes \<Rightarrow> nat \<Rightarrow> bytes" where
  "value_line k n = str ''VALUE '' @ k @ str '' 0 '' @ decimal n @ [CR, LF]"

text \<open>What a client is answered, and the map afterwards.\<close>

fun answer :: "client_req \<Rightarrow> (bytes \<Rightarrow> bytes option) \<Rightarrow> bytes \<times> (bytes \<Rightarrow> bytes option)" where
  "answer (CSet k d) m = (str ''STORED'' @ [CR, LF], m(fixed_key k \<mapsto> d))"
| "answer (CGet k) m =
    ((case m (fixed_key k) of None \<Rightarrow> str ''END'' @ [CR, LF] | Some d \<Rightarrow> value_line k (length d) @ d @ [CR, LF]), m)"
| "answer (CDel k) m =
    ((case m (fixed_key k) of None \<Rightarrow> str ''ERROR'' | Some _ \<Rightarrow> str ''DELETED'') @ [CR, LF], m(fixed_key k := None))"
| "answer CBad m = (str ''ERROR'' @ [CR, LF], m)"

fun answers :: "client_req list \<Rightarrow> (bytes \<Rightarrow> bytes option) \<Rightarrow> bytes list \<times> (bytes \<Rightarrow> bytes option)" where
  "answers [] m = ([], m)"
| "answers (r # rs) m =
    (case answer r m of (a, m) \<Rightarrow> (case answers rs m of (as, m) \<Rightarrow> (a # as, m)))"

text \<open>A task as the assign thread hands it over.\<close>

definition fresh_task :: "query_task_s \<Rightarrow> bool" where
  "fresh_task t \<longleftrightarrow> error_log t = None \<and> resp_data_buf (query_response t) = None \<and>
    resp_data_size (query_response t) = 0 \<and> resp_tailor_buf (query_response t) = None \<and>
    qr_parse_status (query_request t) = ps_succ \<and> length (cstr (qr_key (query_request t))) < MAX_KEY_SIZE"

fun asks :: "client_req \<Rightarrow> query_task_s \<Rightarrow> bool" where
  "asks (CSet k d) t \<longleftrightarrow> fresh_task t \<and> qr_cmd_type (query_request t) = cmd_set \<and> cstr (qr_key (query_request t)) = k \<and>
    unat (qr_data_size (query_request t)) = length d \<and> (\<exists>rest. qr_data (query_request t) = Some (d @ rest))"
| "asks (CGet k) t \<longleftrightarrow> fresh_task t \<and> qr_cmd_type (query_request t) = cmd_get \<and> cstr (qr_key (query_request t)) = k"
| "asks (CDel k) t \<longleftrightarrow> fresh_task t \<and> qr_cmd_type (query_request t) = cmd_delete \<and> cstr (qr_key (query_request t)) = k"
| "asks CBad t \<longleftrightarrow> qr_parse_status (query_request t) \<noteq> ps_succ \<and> q_state t = s_return_failed \<and>
    resp_data_buf (query_response t) = None \<and> resp_data_size (query_response t) = 0"

fun req_fits :: "nat \<Rightarrow> client_req \<Rightarrow> bool" where
  "req_fits limit (CSet k d) = (length d \<le> limit)"
| "req_fits limit _ = True"

text \<open>The tasks of one worker, in the order it takes them from its pipe.\<close>

fun serve_all :: "'db db_api \<Rightarrow> sys_env \<Rightarrow> sock_env \<Rightarrow> int \<Rightarrow> query_task_s list \<Rightarrow> io_stat_s \<Rightarrow> 'db storage \<Rightarrow>
  (bytes list \<times> io_stat_s \<times> 'db storage) option" where
  "serve_all api env io tid [] cs s = Some ([], cs, s)"
| "serve_all api env io tid (t # ts) cs s =
    (case pipe_event_handler EV_READ True api env io tid t cs s of
      None \<Rightarrow> None
    | Some (out, cs, s) \<Rightarrow> map_option (\<lambda>(outs, cs, s). (out # outs, cs, s)) (serve_all api env io tid ts cs s))"

definition good_io :: "sock_env \<Rightarrow> bool" where
  "good_io io \<longleftrightarrow> o_block io \<and> (\<forall>n. o_head io n = int n) \<and> (\<forall>n. o_data io n = int n)"

section \<open>Lemmas\<close>

lemma length_decimal: "0 < k \<Longrightarrow> n < 10 ^ k \<Longrightarrow> length (decimal n) \<le> k"
proof (induction k arbitrary: n)
  case (Suc k)
  show ?case
  proof (cases "n < 10")
    case True
    then show ?thesis by (subst decimal.simps) simp
  next
    case False
    then have "n div 10 < 10 ^ k" "0 < k" using Suc.prems by (auto simp: less_mult_imp_div_less mult.commute intro!: Nat.gr0I)
    then have "length (decimal (n div 10)) \<le> k" by (rule Suc.IH [rotated])
    then show ?thesis using False by (subst decimal.simps) simp
  qed
qed simp

lemma get_header_fits:
  assumes "length k < MAX_KEY_SIZE" and "n < 10 ^ 20"
  shows "get_header k n = value_line k n"
proof -
  have "decimal 0 = [48]" by (simp add: decimal.simps)
  moreover have "length (decimal n) \<le> 20" using length_decimal [of 20 n] assms(2) by simp
  ultimately show ?thesis
    using assms(1) by (simp add: get_header_def value_line_def MC_TERM_STR_def protocol_consts MAX_RESP_HEADER_SIZE_def)
qed

text \<open>The counters after so many bytes were written.\<close>

definition wrote :: "nat \<Rightarrow> io_stat_s \<Rightarrow> io_stat_s" where
  "wrote n cs = cs\<lparr>net_write_bytes := net_write_bytes cs + word_of_nat n\<rparr>"

lemma wrote_add [simp]: "wrote m (wrote n cs) = wrote (n + m) cs"
  by (simp add: wrote_def add.assoc)

lemma wrote_zero [simp]: "wrote 0 cs = cs"
  by (simp add: wrote_def)

lemma sock_write_full:
  "wr (length bs) = int (length bs) \<Longrightarrow> sock_write wr bs sent = (int (length bs), fst sent @ bs, wrote (length bs) (snd sent))"
  "wr (length bs) = int (length bs) \<Longrightarrow> sock_writev wr bs sent = (int (length bs), fst sent @ bs, wrote (length bs) (snd sent))"
  by (auto simp: sock_write_def sock_writev_def net_write_def net_writev_def atomic_uint_add_def wrote_def)

lemma send_short:
  assumes "good_io io" and "resp_head_buf_size (query_response t) = length (resp_head_buf (query_response t))"
    and "resp_data_buf (query_response t) = None"
  shows "send_response io t ([], cs) =
    Some (RET_SUCCESS, t, resp_head_buf (query_response t), wrote (length (resp_head_buf (query_response t))) cs)"
  using assms by (simp add: send_response_def good_io_def sock_write_full Let_def)

lemma send_value:
  assumes "good_io io" and "resp_head_buf_size (query_response t) = length (resp_head_buf (query_response t))"
    and "resp_data_buf (query_response t) = Some d" and "resp_data_size (query_response t) = length d"
    and "resp_tailor_buf (query_response t) = Some MC_TERM_STR" and "resp_tailor_size (query_response t) = length MC_TERM_STR"
  shows "send_response io t ([], cs) = Some (RET_SUCCESS, t, resp_head_buf (query_response t) @ d @ MC_TERM_STR,
    wrote (length (resp_head_buf (query_response t) @ d @ MC_TERM_STR)) cs)"
  using assms by (simp add: send_response_def good_io_def sock_write_full Let_def MC_TERM_STR_def)

lemma short_response_fresh:
  "resp_data_buf (query_response t) = None \<Longrightarrow> resp_data_size (query_response t) = 0 \<Longrightarrow>
    \<exists>t'. short_response s t = Some t' \<and> resp_head_buf (query_response t') = s \<and>
      resp_head_buf_size (query_response t') = length s \<and> resp_data_buf (query_response t') = None"
  by (simp add: short_response_def Let_def)

text \<open>A handler that ends in a short response.\<close>

lemma serve_short:
  assumes "handle_request api env (t\<lparr>thread_id := tid\<rparr>) s = Some (ret, t', s')" and "good_io io"
    and "resp_head_buf (query_response t') = out" and "resp_head_buf_size (query_response t') = length out"
    and "resp_data_buf (query_response t') = None"
  shows "pipe_event_handler EV_READ True api env io tid t cs s = Some (out, wrote (length out) cs, s')"
  using assms send_short [OF assms(2), of t' cs] by (simp add: pipe_event_handler_def)

context block_setup
begin

abbreviation "store_ok n s \<equiv> storage_inv view good s \<and> room n s \<and> largest_block s = top"

lemma serve_set:
  assumes inv: "store_ok (Suc n) s" and t: "asks (CSet k d) t" and len: "length d \<le> top" and io: "good_io io"
  shows "\<exists>s'. pipe_event_handler EV_READ True api env io tid t cs s =
      Some (fst (answer (CSet k d) (stored view s)), wrote (length (fst (answer (CSet k d) (stored view s)))) cs, s') \<and>
    store_ok n s' \<and> stored view s' = snd (answer (CSet k d) (stored view s))"
proof -
  obtain s' where s': "update_block api env k d s = Some (0, s')" "store_ok n s'"
      "stored view s' = (stored view s)(fixed_key k \<mapsto> d)"
    using store.update_law [OF inv len, of k] by blast
  let ?t = "t\<lparr>thread_id := tid, q_state := s_set_success\<rparr>"
  have f: "resp_data_buf (query_response ?t) = None" "resp_data_size (query_response ?t) = 0"
    using t by (auto simp: fresh_task_def)
  obtain t' where t': "short_response MC_SET_DONE_STR ?t = Some t'"
      "resp_head_buf (query_response t') = MC_SET_DONE_STR"
      "resp_head_buf_size (query_response t') = length MC_SET_DONE_STR" "resp_data_buf (query_response t') = None"
    using short_response_fresh [OF f] by blast
  have "handle_request api env (t\<lparr>thread_id := tid\<rparr>) s = Some (RET_SUCCESS, t', s')"
    using t s'(1) t'(1) by (auto simp: handle_request_def fresh_task_def build_response_def Let_def)
  from serve_short [OF this io t'(2-4)] show ?thesis using s' by (simp add: mc_strings)
qed

lemma serve_get:
  assumes inv: "store_ok n s" and t: "asks (CGet k) t" and io: "good_io io"
    and small: "\<forall>d. stored view s (fixed_key k) = Some d \<longrightarrow> length d < 10 ^ 20"
  shows "pipe_event_handler EV_READ True api env io tid t cs s =
    Some (fst (answer (CGet k) (stored view s)), wrote (length (fst (answer (CGet k) (stored view s)))) cs, s)"
proof (cases "stored view s (fixed_key k)")
  case None
  let ?t = "t\<lparr>thread_id := tid, query_response := (query_response t)\<lparr>resp_data_buf := None, resp_data_size := 0\<rparr>,
    q_state := s_get_failed, error_log := Some ''get cmd failed''\<rparr>"
  have fb: "find_block api env k s = (DB_NOTFOUND api, None, 0, s)"
    using store.lookup_law [OF inv, of k] None by simp
  obtain t' where t': "short_response MC_GET_DONE_STR ?t = Some t'"
      "resp_head_buf (query_response t') = MC_GET_DONE_STR"
      "resp_head_buf_size (query_response t') = length MC_GET_DONE_STR" "resp_data_buf (query_response t') = None"
    using short_response_fresh [of ?t] by auto
  have "handle_request api env (t\<lparr>thread_id := tid\<rparr>) s = Some (RET_FAILED, t', s)"
    using t fb t'(1) notfound_code by (auto simp: handle_request_def fresh_task_def build_response_def Log_def Let_def)
  from serve_short [OF this io t'(2-4)] show ?thesis using None by (simp add: mc_strings)
next
  case (Some d)
  let ?h = "get_header k (length d)"
  let ?t = "t\<lparr>thread_id := tid, q_state := s_get_success,
    query_response := (query_response t)\<lparr>resp_data_buf := Some d, resp_data_size := length d, resp_head_buf := ?h,
      resp_head_buf_size := length ?h, resp_tailor_buf := Some MC_TERM_STR, resp_tailor_size := length MC_TERM_STR\<rparr>\<rparr>"
  have fb: "find_block api env k s = (0, Some d, length d, s)"
    using store.lookup_law [OF inv, of k] Some by simp
  have "handle_request api env (t\<lparr>thread_id := tid\<rparr>) s = Some (RET_SUCCESS, ?t, s)"
    using t fb by (auto simp: handle_request_def fresh_task_def build_response_def Let_def)
  moreover have "send_response io ?t ([], cs) = Some (RET_SUCCESS, ?t, ?h @ d @ MC_TERM_STR, wrote (length (?h @ d @ MC_TERM_STR)) cs)"
    using send_value [OF io, of ?t d cs] by simp
  moreover have "?h = value_line k (length d)" using get_header_fits t small Some by (auto simp: fresh_task_def)
  ultimately show ?thesis using Some by (simp add: pipe_event_handler_def MC_TERM_STR_def)
qed

lemma serve_delete:
  assumes inv: "store_ok n s" and t: "asks (CDel k) t" and io: "good_io io"
  shows "\<exists>s'. pipe_event_handler EV_READ True api env io tid t cs s =
      Some (fst (answer (CDel k) (stored view s)), wrote (length (fst (answer (CDel k) (stored view s)))) cs, s') \<and>
    store_ok n s' \<and> stored view s' = snd (answer (CDel k) (stored view s))"
proof -
  let ?found = "stored view s (fixed_key k) \<noteq> None"
  obtain s' where s': "delete_block api env k s = Some (if stored view s (fixed_key k) = None then DB_NOTFOUND api else 0, s')"
      "store_ok n s'" "stored view s' = (stored view s)(fixed_key k := None)"
    using store.delete_law [OF inv, of k] by blast
  let ?t = "if ?found then t\<lparr>thread_id := tid, q_state := s_delete_success\<rparr>
    else t\<lparr>thread_id := tid, q_state := s_delete_failed, error_log := Some ''delete cmd failed''\<rparr>"
  let ?out = "if ?found then MC_DEL_DONE_STR else MC_ERR_STR"
  have f: "resp_data_buf (query_response ?t) = None" "resp_data_size (query_response ?t) = 0"
    using t by (auto simp: fresh_task_def)
  obtain t' where t': "short_response ?out ?t = Some t'" "resp_head_buf (query_response t') = ?out"
      "resp_head_buf_size (query_response t') = length ?out" "resp_data_buf (query_response t') = None"
    using short_response_fresh [OF f] by blast
  have "\<exists>ret. handle_request api env (t\<lparr>thread_id := tid\<rparr>) s = Some (ret, t', s')"
    using t s'(1) t'(1) notfound_code
    by (auto simp: handle_request_def fresh_task_def build_response_def Log_def Let_def)
  then obtain ret where "handle_request api env (t\<lparr>thread_id := tid\<rparr>) s = Some (ret, t', s')" by blast
  from serve_short [OF this io t'(2-4)] show ?thesis
    using s' by (auto simp: mc_strings split: option.split)
qed

lemma serve_bad:
  assumes t: "asks CBad t" and io: "good_io io"
  shows "pipe_event_handler EV_READ True api env io tid t cs s = Some (fst (answer CBad m), wrote (length (fst (answer CBad m))) cs, s)"
proof -
  let ?t = "t\<lparr>thread_id := tid, q_state := s_return_failed\<rparr>"
  have f: "resp_data_buf (query_response ?t) = None" "resp_data_size (query_response ?t) = 0" using t by simp_all
  obtain t' where t': "short_response MC_ERR_STR ?t = Some t'" "resp_head_buf (query_response t') = MC_ERR_STR"
      "resp_head_buf_size (query_response t') = length MC_ERR_STR" "resp_data_buf (query_response t') = None"
    using short_response_fresh [OF f] by blast
  have "handle_request api env (t\<lparr>thread_id := tid\<rparr>) s = Some (RET_SUCCESS, t', s)"
    using t t'(1) by (simp add: handle_request_def build_response_def Let_def)
  from serve_short [OF this io t'(2-4)] show ?thesis by (simp add: mc_strings)
qed

lemma stored_small:
  assumes "storage_inv view good s" and "stored view s k = Some d"
  shows "length d < 10 ^ 20"
proof -
  obtain vb where vb: "view (dbp (indexdb s)) k = Some vb" "d = rec_data s vb"
    using assms(2) by (auto simp: stored_def contents_def)
  have "length d \<le> block_size_array s ! rec_block vb" "rec_block vb < block_type_count s"
    using record_facts [OF assms(1) vb(1)] vb(2) by auto
  moreover have "tables_ok s" using assms(1) by (simp add: storage_inv_def)
  ultimately have "length d \<le> 2 ^ 26" using block_size_bound [of s "rec_block vb"] by simp
  then show ?thesis by (rule le_less_trans) simp
qed

lemma serve_one:
  assumes inv: "store_ok (Suc n) s" and t: "asks r t" and fits: "req_fits top r" and io: "good_io io"
  shows "\<exists>s'. pipe_event_handler EV_READ True api env io tid t cs s =
      Some (fst (answer r (stored view s)), wrote (length (fst (answer r (stored view s)))) cs, s') \<and>
    store_ok n s' \<and> stored view s' = snd (answer r (stored view s))"
proof (cases r)
  case (CSet k d)
  then have "asks (CSet k d) t" "length d \<le> top" using t fits by simp_all
  then show ?thesis unfolding CSet by (rule serve_set [OF inv _ _ io])
next
  case (CGet k)
  have "store_ok n s" by (rule store.inv_less [OF inv])
  then show ?thesis using serve_get [where n = n and s = s and k = k and t = t and io = io and tid = tid and cs = cs] stored_small [of s "fixed_key k"] t io CGet by auto
next
  case (CDel k)
  have "store_ok n s" by (rule store.inv_less [OF inv])
  then show ?thesis using serve_delete [where n = n and s = s and k = k and t = t and io = io and tid = tid and cs = cs] t io CDel by simp
next
  case CBad
  have "store_ok n s" by (rule store.inv_less [OF inv])
  then show ?thesis using serve_bad [where m = "stored view s" and t = t and io = io and tid = tid and cs = cs and s = s] t io CBad by simp
qed

lemma serve_run:
  assumes "list_all2 asks rs ts" and "store_ok (length rs) s" and "list_all (req_fits top) rs" and io: "good_io io"
  shows "\<exists>s'. serve_all api env io tid ts cs s =
      Some (fst (answers rs (stored view s)), wrote (length (concat (fst (answers rs (stored view s))))) cs, s') \<and>
    store_ok 0 s' \<and> stored view s' = snd (answers rs (stored view s))"
  using assms(1-3)
proof (induction rs ts arbitrary: s cs rule: list_all2_induct)
  case (Cons r rs t ts)
  let ?a = "fst (answer r (stored view s))"
  obtain s1 where s1: "pipe_event_handler EV_READ True api env io tid t cs s = Some (?a, wrote (length ?a) cs, s1)"
      "store_ok (length rs) s1" "stored view s1 = snd (answer r (stored view s))"
    using serve_one [where n = "length rs" and s = s and r = r and t = t and io = io and tid = tid and cs = cs]
      Cons.prems Cons.hyps io by auto
  let ?as = "answers rs (stored view s1)"
  have "list_all (req_fits top) rs" using Cons.prems by simp
  from Cons.IH [OF s1(2) this, of "wrote (length ?a) cs"]
  obtain s2 where "serve_all api env io tid ts (wrote (length ?a) cs) s1 =
        Some (fst ?as, wrote (length (concat (fst ?as))) (wrote (length ?a) cs), s2)"
      "store_ok 0 s2" "stored view s2 = snd ?as" by blast
  then show ?case using s1 by (simp add: split_beta)
qed simp

end

section \<open>Properties\<close>

text \<open>A task for a request line, as the assign thread leaves it.\<close>

definition empty_response :: query_response_s where
  "empty_response = \<lparr>resp_head_buf = [], resp_head_buf_size = 0, resp_data_buf = None, resp_data_size = 0,
    resp_tailor_buf = None, resp_tailor_size = 0\<rparr>"

definition task_of :: "cmd_type_e \<Rightarrow> bytes \<Rightarrow> bytes \<Rightarrow> query_task_s" where
  "task_of ty k d = \<lparr>sock_fd = 7, thread_id = 0, error_log = None, q_state = s_dispatch_query_task,
    have_read = 0, need_read = 0,
    query_request = (request_of [])\<lparr>qr_key := strncpy MAX_KEY_SIZE k, qr_cmd_type := ty, qr_parse_status := ps_succ,
      qr_data := Some (d @ [CR, LF]), qr_data_size := word_of_nat (length d)\<rparr>,
    query_response = empty_response\<rparr>"

abbreviation "no_io \<equiv> \<lparr>disk_read_bytes = 0, disk_write_bytes = 0, net_read_bytes = 0, net_write_bytes = 0\<rparr>"

definition good_sock :: sock_env where
  "good_sock = \<lparr>o_block = True, o_head = int, o_data = int\<rparr>"

lemma good_sock [simp]: "good_io good_sock"
  by (simp add: good_io_def good_sock_def)

lemma cstr_strncpy:
  assumes "\<forall>c\<in>set k. c \<noteq> 0" and "length k < MAX_KEY_SIZE"
  shows "cstr (strncpy MAX_KEY_SIZE k) = k"
proof -
  obtain m where m: "MAX_KEY_SIZE = length k + Suc m" using less_imp_Suc_add [OF assms(2)] by auto
  then have "strncpy MAX_KEY_SIZE k = [] @ k @ 0 # replicate m 0" unfolding m by (simp add: strncpy_def)
  then show ?thesis using cstr_at_append [OF assms(1), of "[]" "replicate m 0"] by simp
qed

text \<open>
  C6. A worker serves a map over the text protocol. On a healthy index, system and socket, for
  every sequence of refused request lines and of parsed set, get and delete requests whose values fit the largest block, no
  request aborts the process, and the bytes each client receives are those a map from 16-byte
  keys to values gives: \<open>STORED\<close>; the \<open>VALUE\<close> line with the length, the value and a line end, or
  \<open>END\<close>; \<open>DELETED\<close> or \<open>ERROR\<close>. The contents of the store afterwards are the map's, and the counter of
  bytes written to the network has grown by the length of the answers.
\<close>

theorem worker_refines_map:
  assumes "berkeley_db api view good" and "full_env env" and "good_io io" and "storage_inv view good s"
    and "room (length rs) s" and "list_all (req_fits (largest_block s)) rs" and "list_all2 asks rs ts"
  shows "\<exists>s'. serve_all api env io tid ts cs s =
      Some (fst (answers rs (stored view s)), wrote (length (concat (fst (answers rs (stored view s))))) cs, s') \<and>
    storage_inv view good s' \<and> stored view s' = snd (answers rs (stored view s))"
proof -
  have "block_setup api view good env"
    using assms(1,2) by (simp add: block_setup_def block_setup_axioms_def)
  from block_setup.serve_run [OF this assms(7), where s = s and top = "largest_block s" and cs = cs]
  show ?thesis using assms(3-6) by blast
qed

theorem worker_refines_map_witness:
  "\<exists>s s'. serve_all mem_db good_env good_sock 0
      [task_of cmd_set (str ''k'') [7, 8], task_of cmd_get (str ''k'') [], task_of cmd_delete (str ''x'') []] no_io s =
    Some ([str ''STORED'' @ [CR, LF], str ''VALUE k 0 2'' @ [CR, LF, 7, 8, CR, LF], str ''ERROR'' @ [CR, LF]], wrote 32 no_io, s')"
proof (rule one_value_store)
  let ?ts = "[task_of cmd_set (str ''k'') [7, 8], task_of cmd_get (str ''k'') [], task_of cmd_delete (str ''x'') []]"
  let ?rs = "[CSet (str ''k'') [7, 8], CGet (str ''k''), CDel (str ''x'')]"
  fix s :: "(bytes \<times> bytes) list storage"
  assume s: "storage_inv map_of (\<lambda>d. True) s" "largest_block s = 1024"
    "stored map_of s = [fixed_key [1] \<mapsto> [7, 8]]" "room 999 s"
  have k: "cstr (strncpy MAX_KEY_SIZE (str ''k'')) = str ''k''" "cstr (strncpy MAX_KEY_SIZE (str ''x'')) = str ''x''"
    by (rule cstr_strncpy; simp add: protocol_consts)+
  then have a: "list_all2 asks ?rs ?ts"
    by (simp add: task_of_def fresh_task_def empty_response_def request_of_def protocol_consts)
  have r: "room (length ?rs) s" using room_mono [of 996 "length ?rs" s] s(4) by simp
  have d: "fixed_key (str ''x'') \<noteq> fixed_key (str ''k'')" "fixed_key (str ''x'') \<noteq> fixed_key [1]"
    by (simp_all add: fixed_key_def KEY_LEN_def)
  have o: "fst (answers ?rs (stored map_of s)) =
      [str ''STORED'' @ [CR, LF], str ''VALUE k 0 2'' @ [CR, LF, 7, 8, CR, LF], str ''ERROR'' @ [CR, LF]]"
    using s(3) d by (simp add: value_line_def decimal.simps)
  then have n: "length (concat (fst (answers ?rs (stored map_of s)))) = 32" by (simp add: eval_nat_numeral)
  have f: "list_all (req_fits (largest_block s)) ?rs" using s(2) by simp
  from worker_refines_map [OF mem.berkeley_db_axioms full_good_env good_sock s(1) r f a, of 0 no_io]
  show ?thesis unfolding n unfolding o by blast
qed

text \<open>
  C37. Only the first 16 bytes of a key count: a value set under a longer key is returned for any
  other key with the same first 16 bytes.
\<close>

theorem long_keys_collide:
  assumes "berkeley_db api view good" and "full_env env" and "good_io io" and "storage_inv view good s" and "room 2 s"
    and "length d \<le> largest_block s" and "KEY_LEN \<le> length k" and "KEY_LEN \<le> length k'" and "take KEY_LEN k = take KEY_LEN k'"
    and "asks (CSet k d) t1" and "asks (CGet k') t2"
  shows "\<exists>cs' s'. serve_all api env io tid [t1, t2] cs s =
    Some ([str ''STORED'' @ [CR, LF], value_line k' (length d) @ d @ [CR, LF]], cs', s')"
proof -
  have "block_setup api view good env"
    using assms(1,2) by (simp add: block_setup_def block_setup_axioms_def)
  from block_setup.serve_run [OF this, of "[CSet k d, CGet k']" "[t1, t2]" s "largest_block s" io tid cs]
  obtain cs' s' where "serve_all api env io tid [t1, t2] cs s = Some (fst (answers [CSet k d, CGet k'] (stored view s)), cs', s')"
    using assms(3-6,10,11) by (auto simp: numeral_2_eq_2)
  moreover have "fixed_key k' = fixed_key k" using assms(7-9) by (simp add: fixed_key_def)
  ultimately show ?thesis by simp
qed

theorem long_keys_collide_witness:
  "\<exists>s cs' s'. serve_all mem_db good_env good_sock 0
      [task_of cmd_set (str ''image-0000000001-a'') [7], task_of cmd_get (str ''image-0000000001-b'') []] no_io s =
    Some ([str ''STORED'' @ [CR, LF], str ''VALUE image-0000000001-b 0 1'' @ [CR, LF, 7, CR, LF]], cs', s')"
proof (rule one_value_store)
  let ?a = "str ''image-0000000001-a''" and ?b = "str ''image-0000000001-b''"
  fix s :: "(bytes \<times> bytes) list storage"
  assume s: "storage_inv map_of (\<lambda>d. True) s" "largest_block s = 1024" "room 999 s"
  have k: "cstr (strncpy MAX_KEY_SIZE ?a) = ?a" "cstr (strncpy MAX_KEY_SIZE ?b) = ?b"
    by (rule cstr_strncpy; simp add: protocol_consts)+
  have a: "asks (CSet ?a [7]) (task_of cmd_set ?a [7])" "asks (CGet ?b) (task_of cmd_get ?b [])"
    using k by (simp_all only: asks.simps fresh_task_def task_of_def)
      (simp_all add: empty_response_def request_of_def protocol_consts)
  have r: "room 2 s" using room_mono [of 997 2 s] s(3) by simp
  from long_keys_collide [OF mem.berkeley_db_axioms full_good_env good_sock s(1) r _ _ _ _ a, of 0 no_io]
  show ?thesis using s(2) by (auto simp: value_line_def decimal.simps KEY_LEN_def)
qed

text \<open>The return code of the call of the store that a request makes; a refused line has none but the parser's.\<close>

fun call_code :: "'db db_api \<Rightarrow> sys_env \<Rightarrow> client_req \<Rightarrow> 'db storage \<Rightarrow> int option" where
  "call_code api env (CSet k d) s = map_option fst (update_block api env k d s)"
| "call_code api env (CGet k) s = Some (fst (find_block api env k s))"
| "call_code api env (CDel k) s = map_option fst (delete_block api env k s)"
| "call_code api env CBad s = Some RET_PARSE_REQ_FAILED"

text \<open>Sending to a socket that takes nothing: only a message that is already there is fatal.\<close>

lemma send_fails:
  assumes "o_block io" and "\<forall>n. o_head io n \<noteq> int n" and "resp_head_buf_size (query_response t) = length (resp_head_buf (query_response t))"
  shows "send_response io t sent = None \<longleftrightarrow> error_log t \<noteq> None"
  using assms by (simp add: send_response_def sock_write_def net_write_def Log_def Let_def split_beta)

text \<open>A request that was handled: its response is in the head buffer, and there is a message exactly when it failed.\<close>

lemma handled:
  assumes "asks r t" and "r = CBad \<Longrightarrow> error_log t \<noteq> None"
  shows "case handle_request api env (t\<lparr>thread_id := tid\<rparr>) s of
      None \<Rightarrow> call_code api env r s \<noteq> Some 0
    | Some (_, t', _) \<Rightarrow> resp_head_buf_size (query_response t') = length (resp_head_buf (query_response t')) \<and>
        (error_log t' = None \<longleftrightarrow> call_code api env r s = Some 0)"
proof -
  note defs = handle_request_def fresh_task_def build_response_def short_response_def Log_def Let_def
  show ?thesis
  proof (cases r)
    case (CGet k)
    obtain ret buf sz s' where f: "find_block api env k s = (ret, buf, sz, s')" by (metis prod_cases4)
    then show ?thesis using assms(1) CGet by (auto simp: defs)
  qed (use assms in \<open>auto simp: defs ret_code_defs split: option.split prod.split\<close>)
qed

text \<open>
  A lookup whose value finds no memory ends the process: \<open>find_block\<close> returns -1, but has set the length of the value
  already, and \<open>build_response\<close> asserts that a failed get has none.
\<close>

theorem lookup_without_memory_aborts:
  assumes "berkeley_db api view good" and "storage_inv view good s" and "e_mem env" and "\<not> e_vmem env"
    and "asks (CGet k) t" and "stored view s (fixed_key k) = Some d" and "d \<noteq> []"
  shows "pipe_event_handler EV_READ True api env io tid t cs s = None"
proof -
  obtain vb where V: "view (dbp (indexdb s)) (fixed_key k) = Some vb" "d = rec_data s vb"
    using assms(6) by (auto simp: stored_def contents_def)
  have r: "length vb = 24" "rec_at (handler s (rec_block vb)) (bytes_value vb)" "good (dbp (indexdb s))"
    using assms(2) V(1) by (auto simp: storage_inv_def index_ok_def)
  have "length d = unat (iv_data_size (bytes_value vb))"
    using r(2) length_pread V(2) by (simp add: rec_data_def rec_at_def rec_offset_def Let_def)
  moreover have "find_record api True (indexdb s) (fixed_key k) sizeof_value = (0, Some vb, indexdb s)"
    using berkeley_db.find_record_found [OF assms(1) r(3) V(1)] r(1) by (simp add: sizeof_value_def)
  ultimately have "find_block api env k s = (-1, None, length d, s)" using assms(3,4) by (simp add: find_block_def)
  then show ?thesis
    using assms(5,7) by (auto simp: pipe_event_handler_def handle_request_def fresh_task_def build_response_def short_response_def Log_def Let_def)
qed

text \<open>
  C38. A response that cannot be sent after a failed command aborts the process, and one that cannot be sent after a command
  that succeeded does not. This holds for every request: set, get and delete fail when their call of the store returns a code
  other than 0 (a get of a missing key among them), and a refused line has failed already. The failure has set the
  message buffer, and \<open>send_response\<close> asserts that it is empty when it logs the failed write.
\<close>

theorem send_failure_aborts:
  assumes "asks r t" and "r = CBad \<Longrightarrow> error_log t \<noteq> None" and "o_block io" and "\<forall>n. o_head io n \<noteq> int n"
  shows "pipe_event_handler EV_READ True api env io tid t cs s = None \<longleftrightarrow> call_code api env r s \<noteq> Some 0"
proof (cases "handle_request api env (t\<lparr>thread_id := tid\<rparr>) s")
  case None
  then show ?thesis
    using handled [OF assms(1,2), where api = api and env = env and tid = tid and s = s] by (simp add: pipe_event_handler_def)
next
  case (Some x)
  obtain ret t' s' where x: "x = (ret, t', s')" by (cases x)
  have h: "resp_head_buf_size (query_response t') = length (resp_head_buf (query_response t'))"
      "error_log t' = None \<longleftrightarrow> call_code api env r s = Some 0"
    using handled [OF assms(1,2), where api = api and env = env and tid = tid and s = s] Some x by simp_all
  show ?thesis
    using send_fails [OF assms(3,4) h(1), of "([], cs)"] h(2) Some x
    by (auto simp: pipe_event_handler_def split: option.split)
qed

theorem send_failure_aborts_witness:
  "\<exists>s. pipe_event_handler EV_READ True mem_db good_env \<lparr>o_block = True, o_head = (\<lambda>n. -1), o_data = int\<rparr> 0
      (task_of cmd_get (str ''k'') []) no_io s = None \<and>
    pipe_event_handler EV_READ True mem_db good_env \<lparr>o_block = True, o_head = (\<lambda>n. -1), o_data = int\<rparr> 0
      (task_of cmd_set (str ''k'') [7]) no_io s \<noteq> None"
proof (rule one_value_store)
  fix s :: "(bytes \<times> bytes) list storage"
  assume s: "storage_inv map_of (\<lambda>d. True) s" "stored map_of s = [fixed_key [1] \<mapsto> [7, 8]]" "largest_block s = 1024" "room 999 s"
  let ?io = "\<lparr>o_block = True, o_head = (\<lambda>n. -1), o_data = int\<rparr>"
  have "cstr (strncpy MAX_KEY_SIZE (str ''k'')) = str ''k''" by (rule cstr_strncpy) (simp_all add: protocol_consts)
  then have a: "asks (CGet (str ''k'')) (task_of cmd_get (str ''k'') [])" "asks (CSet (str ''k'') [7]) (task_of cmd_set (str ''k'') [7])"
    by (simp_all add: task_of_def fresh_task_def empty_response_def request_of_def protocol_consts)
  have "stored map_of s (fixed_key (str ''k'')) = None" using s(2) by (simp add: fixed_key_def KEY_LEN_def)
  then have "call_code mem_db good_env (CGet (str ''k'')) s \<noteq> Some 0"
    using mem.find_block_ok [OF s(1), of good_env "str ''k''"] full_good_env mem.notfound_code by (simp add: full_env_def)
  moreover have "call_code mem_db good_env (CSet (str ''k'') [7]) s = Some 0"
    using mem.update_block_ok [OF s(1) full_good_env, of "[7]" 998 "str ''k''"] s(3,4) by auto
  ultimately show ?thesis
    using send_failure_aborts [OF a(1), of ?io mem_db good_env 0 no_io s] send_failure_aborts [OF a(2), of ?io mem_db good_env 0 no_io s]
    by (intro exI [where x = s]) simp
qed

end
