(* ===== verification/Worker_Threads.thy ===== *)
theory Worker_Threads
  imports Query_Thread Store_Threads
begin

text \<open>
  The query threads of \<^verbatim>\<open>src/src/query_thread.c\<close> side by side. A thread takes its tasks from its pipe one after the
  other; for each it calls the block store, with the lock operations of theory \<open>Store_Threads\<close>, and then builds and
  sends the response, which concerns only the task and its socket. \<open>pipe_event_handler\<close> of theory
  \<open>Query_Thread\<close> is the same thing executed alone. The counters of \<open>io_stats\<close>, to which every thread adds
  atomically, are left out here.

  The result: whatever the interleaving, every client gets the answer of one map, to which the
  requests of all clients are applied in some order.
\<close>

section \<open>A task\<close>

text \<open>The call of the store in \<open>handle_request\<close>, if there is one.\<close>

definition task_op :: "query_task_s \<Rightarrow> store_op option" where
  "task_op qtask =
    (let qrequest = query_request qtask; key = cstr (qr_key qrequest)
     in if qr_parse_status qrequest \<noteq> ps_succ then None
        else case qr_cmd_type qrequest of
          cmd_set \<Rightarrow> Some (SetOp key (take (unat (qr_data_size qrequest)) (the (qr_data qrequest))))
        | cmd_delete \<Rightarrow> Some (DelOp key)
        | cmd_get \<Rightarrow> Some (GetOp key)
        | _ \<Rightarrow> None)"

text \<open>\<open>handle_request\<close> without a call: a refused request line, or a command that is not the workers'.\<close>

definition without_call :: "query_task_s \<Rightarrow> query_task_s option" where
  "without_call qtask =
    (if qr_parse_status (query_request qtask) \<noteq> ps_succ then
       (if q_state qtask \<noteq> s_return_failed then None else build_response (qtask\<lparr>q_state := s_return_failed\<rparr>))
     else Some qtask)"

text \<open>What follows the call: the state, the response, sending it. \<open>None\<close> is the aborted process.\<close>

definition after_call :: "query_task_s \<Rightarrow> int \<times> bytes option \<Rightarrow> query_task_s option" where
  "after_call qtask res =
    (case res of (ret, val) \<Rightarrow>
      (case qr_cmd_type (query_request qtask) of
        cmd_set \<Rightarrow> build_response (qtask\<lparr>q_state := (if ret = 0 then s_set_success else s_set_failed)\<rparr>)
      | cmd_delete \<Rightarrow> build_response (qtask\<lparr>q_state := (if ret = 0 then s_delete_success else s_delete_failed)\<rparr>)
      | _ \<Rightarrow>
          let r = (query_response qtask)\<lparr>resp_data_buf := val, resp_data_size := (case val of None \<Rightarrow> 0 | Some d \<Rightarrow> length d)\<rparr>
          in build_response (qtask\<lparr>query_response := r, q_state := (if ret = 0 then s_get_success else s_get_failed)\<rparr>)))"

definition reply :: "sock_env \<Rightarrow> int \<Rightarrow> query_task_s \<Rightarrow> io_stat_s \<Rightarrow> (int \<times> bytes option) option \<Rightarrow> (bytes \<times> io_stat_s) option" where
  "reply io tid qtask cs res =
    (let qtask = qtask\<lparr>thread_id := tid\<rparr>
     in case (case res of None \<Rightarrow> without_call qtask | Some res \<Rightarrow> after_call qtask res) of
          None \<Rightarrow> None
        | Some qtask \<Rightarrow> (case send_response io qtask ([], cs) of None \<Rightarrow> None | Some (_, _, sent, cs) \<Rightarrow> Some (sent, cs)))"

text \<open>The request a task carries.\<close>

definition req_of :: "query_task_s \<Rightarrow> client_req" where
  "req_of t = (case task_op t of None \<Rightarrow> CBad | Some (SetOp k d) \<Rightarrow> CSet k d | Some (GetOp k) \<Rightarrow> CGet k | Some (DelOp k) \<Rightarrow> CDel k)"

definition task_fits :: "nat \<Rightarrow> query_task_s \<Rightarrow> bool" where
  "task_fits n t = (case task_op t of None \<Rightarrow> True | Some op \<Rightarrow> op_fits n op)"

lemma asks_req_of: "asks r t \<Longrightarrow> req_of t = r"
  by (cases r) (auto simp: req_of_def task_op_def fresh_task_def Let_def)

lemma asks_fits: "asks r t \<Longrightarrow> task_fits n t = req_fits n r"
  by (cases r) (auto simp: task_fits_def task_op_def fresh_task_def Let_def)

text \<open>The handler is the call and what follows.\<close>

lemma find_block_shape:
  "find_block api env k s = (ret, buf, sz, s') \<Longrightarrow>
    ret = -1 \<and> buf = None \<and> \<not> e_vmem env \<or> ret \<noteq> 0 \<and> buf = None \<and> sz = 0 \<or> ret = -1 \<and> (\<exists>bs. buf = Some bs) \<or> ret = 0 \<and> (\<exists>bs. buf = Some bs \<and> sz = length bs)"
  by (auto simp: find_block_def Let_def split: prod.splits if_splits)

lemma handler_is_call_and_reply:
  assumes "asks r t" and vmem: "e_vmem env"
  shows "pipe_event_handler EV_READ True api env io tid t cs s =
    (case task_op t of
      None \<Rightarrow> map_option (\<lambda>(out, cs). (out, cs, s)) (reply io tid t cs None)
    | Some op \<Rightarrow>
        (case store_call api env op s of
          None \<Rightarrow> None
        | Some (res, s') \<Rightarrow> map_option (\<lambda>(out, cs). (out, cs, s')) (reply io tid t cs (Some res))))"
proof (cases r)
  case (CSet k d)
  then show ?thesis using assms
    by (auto simp: pipe_event_handler_def handle_request_def task_op_def reply_def after_call_def fresh_task_def Let_def split: option.split prod.split)
next
  case (CDel k)
  then show ?thesis using assms
    by (auto simp: pipe_event_handler_def handle_request_def task_op_def reply_def after_call_def fresh_task_def Let_def split: option.split prod.split)
next
  case (CGet k)
  obtain ret buf sz s' where f: "find_block api env k s = (ret, buf, sz, s')" by (metis prod_cases4)
  from find_block_shape [OF f] vmem show ?thesis
    using assms(1) CGet f
    by (elim disjE) (auto simp: pipe_event_handler_def handle_request_def task_op_def reply_def after_call_def fresh_task_def Let_def
        build_response_def short_response_def Log_def split: option.split prod.split)
next
  case CBad
  then show ?thesis using assms
    by (auto simp: pipe_event_handler_def handle_request_def task_op_def reply_def without_call_def Let_def split: option.split prod.split)
qed

section \<open>Tasks side by side\<close>

text \<open>A thread's program for a task: its id and the task; the result is what the client receives.\<close>

definition task_prog :: "'db db_api \<Rightarrow> sys_env \<Rightarrow> sock_env \<Rightarrow> int \<times> query_task_s \<Rightarrow> ('db, bytes option) store_prog" where
  "task_prog api env io op =
    (let out = \<lambda>res. map_option fst (reply io (fst op) (snd op) no_io res)
     in case task_op (snd op) of None \<Rightarrow> Return (out None) | Some call \<Rightarrow> with_result (\<lambda>res. out (Some res)) (op_prog api env call))"

definition task_call :: "'db db_api \<Rightarrow> sys_env \<Rightarrow> sock_env \<Rightarrow> int \<times> query_task_s \<Rightarrow> 'db storage \<Rightarrow> (bytes option \<times> 'db storage) option" where
  "task_call api env io op s =
    (let out = \<lambda>res. map_option fst (reply io (fst op) (snd op) no_io res)
     in case task_op (snd op) of
          None \<Rightarrow> Some (out None, s)
        | Some call \<Rightarrow> map_option (\<lambda>(res, s'). (out (Some res), s')) (store_call api env call s))"

lemma handler_task_call:
  assumes "asks r t" and "pipe_event_handler EV_READ True api env io tid t no_io s = Some (out, cs, s')" and "e_vmem env"
  shows "task_call api env io (tid, t) s = Some (Some out, s')"
  using assms(2) unfolding handler_is_call_and_reply [OF assms(1,3)] task_call_def Let_def
  by (auto split: option.splits)

sublocale block_setup \<subseteq> pool: locked_object
  "task_prog api env io" "task_call api env io" IndexLock "\<lambda>n s. storage_inv view good s \<and> room n s \<and> largest_block s = top"
  same_under "\<lambda>op. task_op (snd op) = None \<or> (\<exists>k. task_op (snd op) = Some (GetOp k))" "\<lambda>op. task_fits top (snd op)" 18
  for io
proof
  fix op :: "int \<times> query_task_s" and n and s :: "'a storage"
  let ?t = "task_op (snd op)"
  note defs = task_prog_def task_call_def task_fits_def Let_def
  show "seq_run (task_prog api env io op) s = task_call api env io op s"
    by (simp add: defs seq_run_map op_alone split: option.split)
  show "\<exists>r s'. task_call api env io op s = Some (r, s') \<and> store_ok n s' \<and> (?t = None \<or> (\<exists>k. ?t = Some (GetOp k)) \<longrightarrow> s' = s)"
    if a: "store_ok (Suc n) s" "task_fits top (snd op)"
  proof (cases ?t)
    case None
    then show ?thesis using store.inv_less [OF a(1)] by (simp add: defs)
  next
    case (Some call)
    then show ?thesis using threads.call_law [OF a(1), where op = call] a(2) by (auto simp: defs)
  qed
  show "\<exists>p. task_prog api env io op = Acquire IndexLock Ex p \<and> upd_safe IndexLock same_under p {}"
    if a: "task_fits top (snd op)" "\<not> (?t = None \<or> (\<exists>k. ?t = Some (GetOp k)))"
  proof -
    obtain call where c: "?t = Some call" "op_fits top call" "\<nexists>k. call = GetOp k" using a by (auto simp: defs split: option.splits)
    then show ?thesis using threads.upd_law [OF c(2,3)] by (auto simp: defs intro: upd_safe_map)
  qed
  show "(\<exists>r. task_prog api env io op = Return r) \<or>
      (\<exists>p. task_prog api env io op = Acquire IndexLock Sh p \<and> (\<forall>n s. store_ok n s \<longrightarrow> rd_before IndexLock same_under p {} s))"
    if "?t = None \<or> (\<exists>k. ?t = Some (GetOp k))"
    using that
  proof (elim disjE exE)
    fix k assume k: "?t = Some (GetOp k)"
    obtain p where p: "op_prog api env (GetOp k) = Acquire IndexLock Sh p" by (simp add: find_prog_def)
    then have "\<forall>n s. store_ok n s \<longrightarrow> rd_before IndexLock same_under p {} s" using threads.rd_law [where op = "GetOp k"] by auto
    then have "rd_before IndexLock same_under (with_result f p) {} s" if "store_ok n s" for n s and f :: "int \<times> bytes option \<Rightarrow> bytes option"
      using that by (intro rd_before_map) blast
    then show ?thesis using p k by (auto simp: defs simp del: op_prog.simps)
  qed (simp add: defs)
  show "steps_le (task_prog api env io op) 18" by (simp add: defs steps_le_map op_steps split: option.split)
qed (auto intro: same_under_trans)

context block_setup
begin

lemmas pool_runs = pool.linearizable pool.schedule_ends pool.can_finish

lemma pool_answers:
  assumes "list_all (\<lambda>op. asks (req_of (snd op)) (snd op) \<and> req_fits top (req_of (snd op))) ops"
    and "store_ok (length ops) s" and io: "good_io io"
  shows "\<exists>s'. seq_calls (task_call api env io) ops s = Some (map Some (fst (answers (map (\<lambda>op. req_of (snd op)) ops) (stored view s))), s') \<and>
    stored view s' = snd (answers (map (\<lambda>op. req_of (snd op)) ops) (stored view s))"
  using assms(1,2)
proof (induction ops arbitrary: s)
  case (Cons op ops)
  let ?r = "req_of (snd op)"
  have vmem: "e_vmem env" using healthy by (simp add: full_env_def)
  have r: "asks ?r (snd op)" "req_fits top ?r" "store_ok (Suc (length ops)) s" using Cons.prems by simp_all
  obtain s1 where s1: "pipe_event_handler EV_READ True api env io (fst op) (snd op) no_io s = Some (fst (answer ?r (stored view s)), wrote (length (fst (answer ?r (stored view s)))) no_io, s1)"
      "store_ok (length ops) s1" "stored view s1 = snd (answer ?r (stored view s))"
    using serve_one [OF r(3,1,2) io] by blast
  have "list_all (\<lambda>op. asks (req_of (snd op)) (snd op) \<and> req_fits top (req_of (snd op))) ops" using Cons.prems by simp
  from Cons.IH [OF this s1(2)] show ?case
    using handler_task_call [OF r(1) s1(1) vmem] s1(3) by (auto split: prod.split)
qed simp

lemma pool_history:
  assumes run: "run_schedule (task_prog api env io) is (cstart s opss) = Some c" and fin: "finished c"
    and P: "list_all (list_all (\<lambda>op. asks (req_of (snd op)) (snd op) \<and> req_fits top (req_of (snd op)))) opss"
    and inv: "store_ok (sum_list (map length opss)) s" and io: "good_io io"
  shows "\<exists>h. map (\<lambda>e. snd (snd e)) h = map Some (fst (answers (map (\<lambda>e. req_of (snd (fst (snd e)))) h) (stored view s))) \<and>
    stored view (shared c) = snd (answers (map (\<lambda>e. req_of (snd (fst (snd e)))) h) (stored view s)) \<and>
    storage_inv view good (shared c) \<and> (\<forall>e\<in>set h. fst e < length opss) \<and>
    (\<forall>i<length opss. map fst (own i h) = opss ! i \<and> map snd (own i h) = w_done (workers c ! i)) \<and>
    (\<forall>is1 is2 c1. is = is1 @ is2 \<longrightarrow> run_schedule (task_prog api env io) is1 (cstart s opss) = Some c1 \<longrightarrow>
      (\<exists>k\<le>length h. timely opss c1 (take k h)))"
proof -
  have "task_fits top (snd op)" if "asks (req_of (snd op)) (snd op) \<and> req_fits top (req_of (snd op))" for op :: "int \<times> query_task_s"
    using that asks_fits by blast
  then have fits: "list_all (list_all (\<lambda>op. task_fits top (snd op))) opss" using P by (simp add: list_all_iff)
  obtain h where h: "seq_calls (task_call api env io) (map (\<lambda>e. fst (snd e)) h) s = Some (map (\<lambda>e. snd (snd e)) h, shared c)"
      "storage_inv view good (shared c)" "\<forall>e\<in>set h. fst e < length opss"
      "\<forall>i<length opss. map fst (own i h) = opss ! i \<and> map snd (own i h) = w_done (workers c ! i)"
      "\<forall>is1 is2 c1. is = is1 @ is2 \<longrightarrow> run_schedule (task_prog api env io) is1 (cstart s opss) = Some c1 \<longrightarrow>
         (\<exists>k\<le>length h. timely opss c1 (take k h))"
    using pool_runs(1) [OF run inv fits fin] by blast
  note fit = interleaved_ops_fit [OF h(3) _ P]
  have "map (\<lambda>e. snd (snd e)) h = map Some (fst (answers (map (\<lambda>e. req_of (snd (fst (snd e)))) h) (stored view s)))"
      "stored view (shared c) = snd (answers (map (\<lambda>e. req_of (snd (fst (snd e)))) h) (stored view s))"
    using pool_answers [OF fit(2) _ io, of s] fit(1) inv h(1,4) by (auto simp: comp_def)
  then show ?thesis using h(2-5) by (intro exI [where x = h] conjI)
qed

end

section \<open>Properties\<close>

text \<open>A history of requests and answers, from one of tasks and results.\<close>

abbreviation "client_event \<equiv> \<lambda>e. (fst e, req_of (snd (fst (snd e))), the (snd (snd e)))"

lemma own_client: "own i (map client_event hist) = map (\<lambda>(op, out). (req_of (snd op), the out)) (own i hist)"
  by (simp add: own_def filter_map comp_def split_beta)

lemma requests_of_list:
  "list_all2 (\<lambda>r op. asks r (snd op)) rs ops \<Longrightarrow>
    rs = map (\<lambda>op. req_of (snd op)) ops \<and> list_all (\<lambda>op. asks (req_of (snd op)) (snd op)) ops"
  by (induction rule: list_all2_induct) (auto simp: asks_req_of)

lemma requests_of_tasks:
  "list_all2 (list_all2 (\<lambda>r op. asks r (snd op))) rss opss \<Longrightarrow>
    rss = map (map (\<lambda>op. req_of (snd op))) opss \<and> list_all (list_all (\<lambda>op. asks (req_of (snd op)) (snd op))) opss"
  by (induction rule: list_all2_induct) (auto dest: requests_of_list)

lemma timely_client:
  "timely opss c (take k hist) \<Longrightarrow> timely (map (map f) opss) c (take k (map client_event hist))"
  by (simp add: timely_def own_client take_map)

text \<open>
  The server under concurrency is one map. Take any number of query threads, each with any list of refused request lines and of parsed set, get and delete
  requests whose values fit, on a healthy index, system and sockets, and any interleaving of
  their lock operations and pieces in which all of them end. Then there is one order of all requests, in which
  each thread's requests keep their order, such that what every client received, byte for byte, is the answer of a map from
  16-byte keys to values to the requests in that order; the contents of the store at the end are the map's. At every moment of
  the run the requests that are answered are in a prefix of the order, and those not yet taken are not.
\<close>

theorem concurrent_workers_serve:
  assumes "berkeley_db api view good" and "full_env env" and "good_io io" and "storage_inv view good s"
    and "room (sum_list (map length rss)) s" and "list_all (list_all (req_fits (largest_block s))) rss"
    and "list_all2 (list_all2 (\<lambda>r op. asks r (snd op))) rss opss"
    and "run_schedule (task_prog api env io) is (cstart s opss) = Some c" and "finished c"
  shows "\<exists>hist. answers (map (\<lambda>e. fst (snd e)) hist) (stored view s) = (map (\<lambda>e. snd (snd e)) hist, stored view (shared c)) \<and>
    storage_inv view good (shared c) \<and> (\<forall>e\<in>set hist. fst e < length rss) \<and>
    (\<forall>i<length rss. map fst (own i hist) = rss ! i \<and> map Some (map snd (own i hist)) = w_done (workers c ! i)) \<and>
    (\<forall>is1 is2 c1. is = is1 @ is2 \<longrightarrow> run_schedule (task_prog api env io) is1 (cstart s opss) = Some c1 \<longrightarrow>
      (\<exists>k\<le>length hist. timely rss c1 (take k hist)))"
proof -
  have blocks: "block_setup api view good env"
    using assms(1,2) by (simp add: block_setup_def block_setup_axioms_def)
  have rss: "rss = map (map (\<lambda>op. req_of (snd op))) opss" and "list_all (list_all (\<lambda>op. asks (req_of (snd op)) (snd op))) opss"
    using requests_of_tasks [OF assms(7)] by simp_all
  then have P: "list_all (list_all (\<lambda>op. asks (req_of (snd op)) (snd op) \<and> req_fits (largest_block s) (req_of (snd op)))) opss"
    using assms(6) by (auto simp: list_all_iff)
  have rm: "room (sum_list (map length opss)) s" using assms(5) by (simp add: rss comp_def)
  obtain h where out: "map (\<lambda>e. snd (snd e)) h = map Some (fst (answers (map (\<lambda>e. req_of (snd (fst (snd e)))) h) (stored view s)))"
      "stored view (shared c) = snd (answers (map (\<lambda>e. req_of (snd (fst (snd e)))) h) (stored view s))"
      "storage_inv view good (shared c)" and h: "\<forall>e\<in>set h. fst e < length opss"
      "\<forall>i<length opss. map fst (own i h) = opss ! i \<and> map snd (own i h) = w_done (workers c ! i)"
      "\<forall>is1 is2 c1. is = is1 @ is2 \<longrightarrow> run_schedule (task_prog api env io) is1 (cstart s opss) = Some c1 \<longrightarrow>
         (\<exists>k\<le>length h. timely opss c1 (take k h))"
    using block_setup.pool_history [OF blocks assms(8,9) P _ assms(3)] assms(4) rm by blast
  let ?a = "answers (map (\<lambda>e. req_of (snd (fst (snd e)))) h) (stored view s)"
  have some: "\<forall>e\<in>set h. snd (snd e) \<noteq> None"
    using arg_cong [OF out(1), of set] by auto
  have "fst ?a = map (\<lambda>e. the (snd (snd e))) h" using arg_cong [OF out(1), of "map the"] by (simp add: comp_def)
  then have "answers (map (\<lambda>e. fst (snd e)) (map client_event h)) (stored view s) =
      (map (\<lambda>e. snd (snd e)) (map client_event h), stored view (shared c))"
    using out(2) by (simp add: comp_def prod_eq_iff)
  moreover have "map fst (own i (map client_event h)) = rss ! i" "map Some (map snd (own i (map client_event h))) = w_done (workers c ! i)"
    if i: "i < length rss" for i
  proof -
    have "map fst (own i (map client_event h)) = map (\<lambda>op. req_of (snd op)) (map fst (own i h))" by (simp add: own_client split_beta)
    moreover have "map Some (map snd (own i (map client_event h))) = map snd (own i h)"
      unfolding own_client using some by (auto simp: own_def split_beta)
    ultimately show "map fst (own i (map client_event h)) = rss ! i" "map Some (map snd (own i (map client_event h))) = w_done (workers c ! i)"
      using h(2) i by (simp_all add: rss del: map_map)
  qed
  moreover have "\<exists>k\<le>length (map client_event h). timely rss c1 (take k (map client_event h))"
    if moment: "is = is1 @ is2" "run_schedule (task_prog api env io) is1 (cstart s opss) = Some c1" for is1 is2 c1
  proof -
    obtain k where "k \<le> length h" "timely opss c1 (take k h)" using h(3) [rule_format, OF moment] by blast
    then show ?thesis unfolding rss by (intro exI [where x = k]) (simp add: timely_client)
  qed
  moreover have "\<forall>e\<in>set (map client_event h). fst e < length rss" using h(1) by (simp add: rss)
  ultimately show ?thesis using out(3) by (intro exI [where x = "map client_event h"] conjI allI impI)
qed

theorem concurrent_workers_serve_witness:
  "\<exists>s is c. run_schedule (task_prog mem_db good_env good_sock) is
      (cstart s [[(0, task_of cmd_set (str ''k'') [7, 8])], [(1, task_of cmd_get (str ''k'') [])]]) = Some c \<and> finished c \<and>
    w_done (workers c ! 0) = [Some (str ''STORED'' @ [CR, LF])] \<and>
    w_done (workers c ! 1) \<in> {[Some (str ''END'' @ [CR, LF])], [Some (str ''VALUE k 0 2'' @ [CR, LF, 7, 8, CR, LF])]}"
proof (rule one_value_store)
  let ?ops = "[[(0, task_of cmd_set (str ''k'') [7, 8])], [(1, task_of cmd_get (str ''k'') [])]]"
  let ?rss = "[[CSet (str ''k'') [7, 8]], [CGet (str ''k'')]]"
  fix s :: "(bytes \<times> bytes) list storage"
  assume s: "storage_inv map_of (\<lambda>d. True) s" "largest_block s = 1024" "stored map_of s = [fixed_key [1] \<mapsto> [7, 8]]" "room 999 s"
  have k: "cstr (strncpy MAX_KEY_SIZE (str ''k'')) = str ''k''" by (rule cstr_strncpy) (simp_all add: protocol_consts)
  then have a: "list_all2 (list_all2 (\<lambda>r op. asks r (snd op))) ?rss ?ops"
    by (simp add: task_of_def fresh_task_def empty_response_def request_of_def protocol_consts)
  have r: "room (sum_list (map length ?rss)) s" using room_mono [of 997 2 s] s(4) by (simp add: numeral_2_eq_2)
  have f: "list_all (list_all (req_fits (largest_block s))) ?rss" using s(2) by simp
  have start: "run_schedule (task_prog mem_db good_env good_sock) [] (cstart s ?ops) = Some (cstart s ?ops)" by simp
  have "list_all (list_all (\<lambda>op. task_fits 1024 (snd op))) ?ops" by (simp add: task_fits_def task_op_def task_of_def Let_def)
  then obtain "is" c where c: "run_schedule (task_prog mem_db good_env good_sock) is (cstart s ?ops) = Some c" "finished c"
    using mem_store.pool_runs(4) [where top = 1024, OF start] s(1,2) r by auto
  obtain hist where h: "answers (map (\<lambda>e. fst (snd e)) hist) (stored map_of s) = (map (\<lambda>e. snd (snd e)) hist, stored map_of (shared c))"
      "\<forall>e\<in>set hist. fst e < 2" "\<forall>i<2. map fst (own i hist) = ?rss ! i \<and> map Some (map snd (own i hist)) = w_done (workers c ! i)"
    using concurrent_workers_serve [OF mem.berkeley_db_axioms full_good_env good_sock s(1) r f a c] by (auto simp: numeral_2_eq_2)
  have "length hist = 2" using interleaved_ops_fit(1) [of hist ?rss "\<lambda>x. True"] h(2,3) by (simp add: numeral_2_eq_2)
  then obtain i x y j x' y' where e: "hist = [(i, x, y), (j, x', y')]" by (auto simp: numeral_2_eq_2 length_Suc_conv)
  have o: "map fst (own 0 hist) = ?rss ! 0 \<and> map Some (map snd (own 0 hist)) = w_done (workers c ! 0)"
    "map fst (own 1 hist) = ?rss ! 1 \<and> map Some (map snd (own 1 hist)) = w_done (workers c ! 1)" using h(3) by auto
  have d: "fixed_key (str ''k'') \<noteq> fixed_key [1]" by (simp add: fixed_key_def KEY_LEN_def)
  have "w_done (workers c ! 0) = [Some (str ''STORED'' @ [CR, LF])] \<and>
    w_done (workers c ! 1) \<in> {[Some (str ''END'' @ [CR, LF])], [Some (str ''VALUE k 0 2'' @ [CR, LF, 7, 8, CR, LF])]}"
    using o h(1,2) s(3) d by (auto simp: e own_def value_line_def decimal.simps split: if_splits)
  then show ?thesis using c by blast
qed

end
