(* ===== verification/Assign_Thread.thy ===== *)
theory Assign_Thread
  imports Query_Thread
begin

text \<open>
  \<^verbatim>\<open>src/src/assign_thread.c\<close>: the thread that accepts connections, reads a request from each and
  hands it to a worker. A connection is a state machine driven by the event loop: each call of
  \<open>query_io_event_handler\<close> runs it until it has to wait, is handed over or is destroyed. The
  socket is the list of what its reads find: bytes that arrived together, the end of the
  stream, \<open>EAGAIN\<close> or \<open>EINTR\<close>, another error; after the list nothing arrives any more. The event
  loop library, the sockets' creation and the clock are outside.

  A step either is done, ends the process in a failed \<open>assert\<close> (\<open>Abort\<close>), writes outside an
  allocated buffer (\<open>Overflow\<close>), or never returns because it retries a read for ever (\<open>Spin\<close>).
  The loop of the handler has fuel; \<open>handler_terminates\<close> shows how much is always enough.
\<close>

section \<open>The socket\<close>

datatype read_res = RdData bytes | RdEof | RdAgain | RdErr

text \<open>\<open>read\<close> of at most \<open>n\<close> bytes: the bytes it got, 0 at the end and -1 for an error (with
  whether it is \<open>EAGAIN\<close> or \<open>EINTR\<close>), and what the next read finds.\<close>

fun sock_read :: "nat \<Rightarrow> read_res list \<Rightarrow> int \<times> bytes \<times> bool \<times> read_res list" where
  "sock_read n [] = (-1, [], True, [])"
| "sock_read n (RdData bs # rs) =
    (int (length (take n bs)), take n bs, False, if length bs \<le> n then rs else RdData (drop n bs) # rs)"
| "sock_read n (RdEof # rs) = (0, [], False, RdEof # rs)"
| "sock_read n (RdAgain # rs) = (-1, [], True, rs)"
| "sock_read n (RdErr # rs) = (-1, [], False, rs)"

section \<open>State\<close>

datatype 'a outcome = NoFuel | Spin | Abort | Overflow | Done 'a

text \<open>What does not change: the number of workers, whether the pipes take a pointer, the memory
  that can be had, how many bytes its block has behind those that were asked for (an allocator rounds up), and what it
  holds before it is written.\<close>

record assign_env =
  worker_thread_cnt :: u64
  pipe_write_ok :: bool
  alloc_ok :: "nat \<Rightarrow> bool"
  alloc_slack :: "nat \<Rightarrow> nat"
  junk :: "nat \<Rightarrow> u8"

record 'db assign_state =
  last_fd :: u64
  pipes :: "nat \<Rightarrow> query_task_s list"
  g_storage :: "'db storage"
  a_io :: io_stat_s

text \<open>A connection after a step: still there, handed to a worker, destroyed; or the process has
  exited on the command \<open>power halt\<close>.\<close>

datatype conn = Open query_task_s | Handed query_task_s nat | Destroyed query_task_s | Exited

definition done_or :: "'b option \<Rightarrow> ('b \<Rightarrow> 'a) \<Rightarrow> 'a outcome" where
  "done_or x f = (case x of None \<Rightarrow> Abort | Some t \<Rightarrow> Done (f t))"

section \<open>Steps\<close>

definition change_query_task_state :: "query_task_s \<Rightarrow> query_state_e \<Rightarrow> query_task_s option" where
  "change_query_task_state task new_state =
    (let task = task\<lparr>q_state := new_state\<rparr>
     in case new_state of
       s_recv_req_head \<Rightarrow>
         let task = task\<lparr>need_read := int MAX_QUERY_HEADER_SIZE - have_read task\<rparr>
         in if need_read task = 0 then
              map_option (\<lambda>t. t\<lparr>q_state := s_destroy_recv\<rparr>) (Log ''Request header is longger than expected'' task)
            else Some (task\<lparr>q_state := s_recv_req_head\<rparr>)
     | s_recv_req_data \<Rightarrow> if error_log task \<noteq> None then None else Some task
     | s_dispatch_query_task \<Rightarrow>
         if error_log task \<noteq> None then None
         else Some (task\<lparr>query_request := (query_request task)
                      \<lparr>qr_data_size := qr_data_size (query_request task) - 2\<rparr>\<rparr>)
     | s_return_failed \<Rightarrow> if error_log task = None then None else Some task
     | _ \<Rightarrow> Some task)"

text \<open>A set request: memory for the data and its line end, filled with what came with the head. The copy is not limited
  to what was asked for: within the block it is only too long, which \<open>need_read < 0\<close> tells, behind the block it overflows.\<close>

definition start_set :: "assign_env \<Rightarrow> bytes \<Rightarrow> query_request_s \<Rightarrow> query_task_s \<Rightarrow> (bool \<times> query_task_s) outcome" where
  "start_set ae tmp_buf request task =
    (let data_len = length tmp_buf;
         request = request\<lparr>qr_data_size := qr_data_size request + 2\<rparr>;
         n = unat (qr_data_size request)
     in if \<not> alloc_ok ae n then Abort
        else if data_len > n + alloc_slack ae n then Overflow
        else
          let request = request\<lparr>qr_data := Some (put_at 0 tmp_buf (map (junk ae) [0..<n]))\<rparr>;
              task = task\<lparr>query_request := request, need_read := sint (qr_data_size request - word_of_nat data_len)\<rparr>
          in if need_read task = 0 then done_or (change_query_task_state task s_dispatch_query_task) (Pair True)
             else if need_read task > 0 then done_or (change_query_task_state task s_recv_req_data) (Pair False)
             else done_or (change_query_task_state task s_destroy_recv) (Pair True))"

text \<open>What follows the parser, on its result.\<close>

definition parsed_head ::
  "assign_env \<Rightarrow> bytes \<Rightarrow> int \<times> query_request_s \<Rightarrow> query_task_s \<Rightarrow> (bool \<times> query_task_s) outcome" where
  "parsed_head ae tmp_buf res task =
    (let (r, request) = res; task = task\<lparr>query_request := request\<rparr>
     in if r = RET_SUCCESS \<and> qr_parse_status request = ps_succ then
          (case qr_cmd_type request of
            cmd_set \<Rightarrow> start_set ae tmp_buf request task
          | cmd_get \<Rightarrow> done_or (change_query_task_state task s_dispatch_query_task) (Pair True)
          | cmd_delete \<Rightarrow> done_or (change_query_task_state task s_dispatch_query_task) (Pair True)
          | cmd_sync \<Rightarrow> done_or (change_query_task_state task s_do_sync) (Pair True)
          | cmd_power \<Rightarrow> done_or (change_query_task_state task s_do_power) (Pair True)
          | cmd_unknown \<Rightarrow>
              done_or (Option.bind (Log ''Oops'' task) (\<lambda>t. change_query_task_state t s_destroy_recv)) (Pair True))
        else
          let buf = query_head_buf request;
              task = task\<lparr>query_request := request\<lparr>query_head_buf := buf[length (cstr buf) - 2 := 0]\<rparr>\<rparr>
          in done_or (Option.bind (Log ''parse request failed'' task)
               (\<lambda>t. change_query_task_state t s_return_failed)) (Pair True))"

definition parse_query_request_head :: "assign_env \<Rightarrow> query_task_s \<Rightarrow> (bool \<times> query_task_s) outcome" where
  "parse_query_request_head ae task =
    (let request = query_request task
     in case try_parse_memcached_string_head request of
       None \<Rightarrow> done_or (change_query_task_state task s_recv_req_head) (Pair True)
     | Some i \<Rightarrow>
         let p = i + 2;
             request = request\<lparr>query_head_buf_size := p\<rparr>
         in if have_read task < int p then Abort
            else
              let data_len = nat (have_read task) - p;
                  tmp_buf = take data_len (drop p (query_head_buf request));
                  request = request\<lparr>query_head_buf := (query_head_buf request)[p := 0]\<rparr>
              in case parse_memcached_string_head request of
                   None \<Rightarrow> Overflow
                 | Some res \<Rightarrow> parsed_head ae tmp_buf res task)"

definition recv_req_head ::
  "read_res list \<Rightarrow> io_stat_s \<Rightarrow> query_task_s \<Rightarrow> (bool \<times> query_task_s \<times> read_res list \<times> io_stat_s) outcome" where
  "recv_req_head rs io task =
    (let request = query_request task;
         (nread, bs, again, rs) = sock_read (nat (need_read task)) rs;
         (nread, io) = net_read nread io;
         task = task\<lparr>query_request := request
           \<lparr>query_head_buf := put_at (query_head_buf_size request) bs (query_head_buf request)\<rparr>\<rparr>
     in if nread = 0 \<and> need_read task \<noteq> 0 then
          done_or (change_query_task_state task s_destroy_recv) (\<lambda>t. (False, t, rs, io))
        else if nread > 0 \<and> nread \<le> need_read task then
          done_or (change_query_task_state (task\<lparr>have_read := have_read task + nread, need_read := 0\<rparr>) s_parse_req_head)
            (\<lambda>t. (True, t, rs, io))
        else if nread < 0 then
          done_or (Option.bind (Log ''net_read'' task) (\<lambda>t. change_query_task_state t s_destroy_recv)) (\<lambda>t. (True, t, rs, io))
        else
          done_or (Option.bind (Log ''read request head failed: unknonwn'' task)
            (\<lambda>t. change_query_task_state t s_destroy_recv)) (\<lambda>t. (True, t, rs, io)))"

text \<open>What \<open>recv_req_data\<close> does with a read that is not to be retried; \<open>rs\<close> is handed on.\<close>

definition data_read ::
  "int \<Rightarrow> bytes \<Rightarrow> 'r \<Rightarrow> query_task_s \<Rightarrow> (bool \<times> query_task_s \<times> 'r) outcome" where
  "data_read nread bs rs task =
    (let request = query_request task;
         data_len = nat (have_read task - int (query_head_buf_size request));
         task = task\<lparr>query_request := request\<lparr>qr_data := map_option (put_at data_len bs) (qr_data request)\<rparr>\<rparr>
     in if nread = 0 \<and> need_read task \<noteq> 0 then
          done_or (Option.bind (Log ''Remote reset connection unexpected'' task)
            (\<lambda>t. change_query_task_state t s_destroy_recv)) (\<lambda>t. (True, t, rs))
        else if nread > 0 \<and> nread < need_read task then
          Done (False, task\<lparr>have_read := have_read task + nread, need_read := need_read task - nread\<rparr>, rs)
        else if nread = need_read task then
          done_or (change_query_task_state task s_dispatch_query_task) (\<lambda>t. (True, t, rs))
        else if nread < 0 then
          done_or (Option.bind (Log ''read request data failed'' task)
            (\<lambda>t. change_query_task_state t s_destroy_recv)) (\<lambda>t. (True, t, rs))
        else
          done_or (Option.bind (Log ''read request head failed: unknonwn'' task)
            (\<lambda>t. change_query_task_state t s_destroy_recv)) (\<lambda>t. (True, t, rs)))"

text \<open>\<open>recv_req_data\<close>; the jump to \<open>go\<close> retries at once while the socket has nothing.\<close>

fun recv_req_data ::
  "read_res list \<Rightarrow> io_stat_s \<Rightarrow> query_task_s \<Rightarrow> (bool \<times> query_task_s \<times> read_res list \<times> io_stat_s) outcome" where
  "recv_req_data [] io task =
    (if need_read task = 0 then done_or (change_query_task_state task s_dispatch_query_task) (\<lambda>t. (True, t, [], io))
     else Spin)"
| "recv_req_data (r # rs) io task =
    (if need_read task = 0 then done_or (change_query_task_state task s_dispatch_query_task) (\<lambda>t. (True, t, r # rs, io))
     else case sock_read (nat (need_read task)) (r # rs) of
       (nread, bs, again, rs') \<Rightarrow>
         let (nread, io) = net_read nread io
         in if nread < 0 \<and> again then recv_req_data rs io task else data_read nread bs (rs', io) task)"

definition dispatch_query_task :: "assign_env \<Rightarrow> query_task_s \<Rightarrow> 'db assign_state \<Rightarrow> (conn \<times> 'db assign_state) outcome" where
  "dispatch_query_task ae task st =
    (let fd = (if atomic_uint_lte (last_fd st) (worker_thread_cnt ae) then 0 else last_fd st);
         w = unat fd
     in if \<not> pipe_write_ok ae then Abort
        else Done (Handed task w, st\<lparr>pipes := (pipes st)(w := pipes st w @ [task]), last_fd := atomic_uint_inc fd\<rparr>))"

section \<open>The event handler\<close>

definition sync_object_of :: "bytes \<Rightarrow> sync_object" where
  "sync_object_of k =
    (if strcaseeq (cstr k) (str ''index'') then sync_index
     else if strcaseeq (cstr k) (str ''all'') then sync_all else sync_other)"

text \<open>One round of the loop of \<open>query_io_event_handler\<close>; \<open>nl\<close> is \<open>need_loop\<close>.\<close>

definition event_step ::
  "'db db_api \<Rightarrow> sys_env \<Rightarrow> assign_env \<Rightarrow> bool \<Rightarrow> read_res list \<Rightarrow> query_task_s \<Rightarrow> 'db assign_state \<Rightarrow>
    (bool \<times> conn \<times> read_res list \<times> 'db assign_state) outcome" where
  "event_step api env ae nl rs task st =
    (case q_state task of
      s_recv_req_head \<Rightarrow>
        (case recv_req_head rs (a_io st) task of
          Done (nl, t, rs, io) \<Rightarrow> Done (nl, Open t, rs, st\<lparr>a_io := io\<rparr>)
        | Abort \<Rightarrow> Abort | Overflow \<Rightarrow> Overflow | Spin \<Rightarrow> Spin | NoFuel \<Rightarrow> NoFuel)
    | s_parse_req_head \<Rightarrow>
        (case parse_query_request_head ae task of
          Done (nl, t) \<Rightarrow> Done (nl, Open t, rs, st)
        | Abort \<Rightarrow> Abort | Overflow \<Rightarrow> Overflow | Spin \<Rightarrow> Spin | NoFuel \<Rightarrow> NoFuel)
    | s_recv_req_data \<Rightarrow>
        (case recv_req_data rs (a_io st) task of
          Done (nl, t, rs, io) \<Rightarrow> Done (nl, Open t, rs, st\<lparr>a_io := io\<rparr>)
        | Abort \<Rightarrow> Abort | Overflow \<Rightarrow> Overflow | Spin \<Rightarrow> Spin | NoFuel \<Rightarrow> NoFuel)
    | s_dispatch_query_task \<Rightarrow>
        (case dispatch_query_task ae task st of
          Done (c, st) \<Rightarrow> Done (False, c, rs, st)
        | Abort \<Rightarrow> Abort | Overflow \<Rightarrow> Overflow | Spin \<Rightarrow> Spin | NoFuel \<Rightarrow> NoFuel)
    | s_return_failed \<Rightarrow>
        (case dispatch_query_task ae task st of
          Done (c, st) \<Rightarrow> Done (False, c, rs, st)
        | Abort \<Rightarrow> Abort | Overflow \<Rightarrow> Overflow | Spin \<Rightarrow> Spin | NoFuel \<Rightarrow> NoFuel)
    | s_destroy_recv \<Rightarrow> Done (False, Destroyed task, rs, st)
    | s_do_sync \<Rightarrow>
        (case sync_storage env (sync_object_of (qr_key (query_request task))) (g_storage st) of
          None \<Rightarrow> Abort
        | Some (_, s) \<Rightarrow>
            done_or (change_query_task_state task s_destroy_recv) (\<lambda>t. (nl, Open t, rs, st\<lparr>g_storage := s\<rparr>)))
    | s_do_power \<Rightarrow>
        (case sync_storage env sync_all (g_storage st) of
          None \<Rightarrow> Abort
        | Some (_, s) \<Rightarrow>
            (case close_storage api env s of
              None \<Rightarrow> Abort | Some (_, _, s) \<Rightarrow> Done (False, Exited, rs, st\<lparr>g_storage := s\<rparr>)))
    | _ \<Rightarrow> done_or (change_query_task_state task s_destroy_recv) (\<lambda>t. (nl, Open t, rs, st)))"

fun event_loop ::
  "nat \<Rightarrow> 'db db_api \<Rightarrow> sys_env \<Rightarrow> assign_env \<Rightarrow> bool \<Rightarrow> read_res list \<Rightarrow> query_task_s \<Rightarrow> 'db assign_state \<Rightarrow>
    (conn \<times> read_res list \<times> 'db assign_state) outcome" where
  "event_loop 0 api env ae nl rs task st = NoFuel"
| "event_loop (Suc n) api env ae nl rs task st =
    (case event_step api env ae nl rs task st of
      Done (nl, c, rs, st) \<Rightarrow>
        (case c of
          Open t \<Rightarrow> if nl then event_loop n api env ae nl rs t st else Done (c, rs, st)
        | _ \<Rightarrow> Done (c, rs, st))
    | Abort \<Rightarrow> Abort | Overflow \<Rightarrow> Overflow | Spin \<Rightarrow> Spin | NoFuel \<Rightarrow> NoFuel)"

definition handler_fuel :: nat where "handler_fuel = 2 * MAX_QUERY_HEADER_SIZE + 6"

text \<open>The handler; an event that is none of the two is only logged.\<close>

definition query_io_event_handler ::
  "ev_event \<Rightarrow> 'db db_api \<Rightarrow> sys_env \<Rightarrow> assign_env \<Rightarrow> bool \<Rightarrow> read_res list \<Rightarrow> query_task_s \<Rightarrow> 'db assign_state \<Rightarrow>
    (conn \<times> read_res list \<times> 'db assign_state) outcome" where
  "query_io_event_handler event api env ae nl rs task st =
    (if event \<noteq> EV_READ \<and> event \<noteq> EV_WRITE then Done (Open task, rs, st)
     else event_loop handler_fuel api env ae nl rs task st)"

text \<open>The timer: the request did not arrive in time. Another event is only logged.\<close>

definition query_timer_event_handler :: "ev_event \<Rightarrow> query_task_s \<Rightarrow> conn option" where
  "query_timer_event_handler event task =
    (if event = EV_TIMEOUT then map_option Destroyed (Log ''read request timeout'' task) else Some (Open task))"

text \<open>A new connection: the zeroed task in its first state.\<close>

definition do_accept_connection :: "int \<Rightarrow> bool \<Rightarrow> query_task_s option" where
  "do_accept_connection accept_fd mem =
    (if \<not> mem then None
     else change_query_task_state
       \<lparr>sock_fd = accept_fd, thread_id = 0, error_log = None, q_state = s_recv_req_head, have_read = 0, need_read = 0,
        query_request = request_of [], query_response = empty_response\<rparr> s_recv_req_head)"

section \<open>The invariant of a connection\<close>

text \<open>The head buffer while it is being filled: zero behind what was read.\<close>

definition head_ok :: "query_task_s \<Rightarrow> bool" where
  "head_ok t \<longleftrightarrow> length (query_head_buf (query_request t)) = MAX_QUERY_HEADER_SIZE \<and>
    query_head_buf_size (query_request t) = 0 \<and> 0 \<le> have_read t \<and> have_read t \<le> int MAX_QUERY_HEADER_SIZE \<and>
    (\<forall>j < MAX_QUERY_HEADER_SIZE. have_read t \<le> int j \<longrightarrow> query_head_buf (query_request t) ! j = 0)"

definition task_ok :: "query_task_s \<Rightarrow> bool" where
  "task_ok t \<longleftrightarrow>
    (case q_state t of
      s_recv_req_head \<Rightarrow> head_ok t \<and> have_read t < int MAX_QUERY_HEADER_SIZE \<and>
        need_read t = int MAX_QUERY_HEADER_SIZE - have_read t \<and> error_log t = None
    | s_parse_req_head \<Rightarrow> head_ok t \<and> error_log t = None
    | s_recv_req_data \<Rightarrow> 0 < need_read t \<and> error_log t = None
    | s_dispatch_query_task \<Rightarrow> error_log t = None
    | s_return_failed \<Rightarrow> error_log t \<noteq> None
    | s_do_sync \<Rightarrow> error_log t = None \<and> sync_object_of (qr_key (query_request t)) \<noteq> sync_other
    | s_do_power \<Rightarrow> error_log t = None
    | s_destroy_recv \<Rightarrow> True
    | _ \<Rightarrow> False)"

text \<open>A bound on the rounds the loop still makes.\<close>

definition rounds_left :: "query_task_s \<Rightarrow> nat" where
  "rounds_left t =
    (case q_state t of
      s_recv_req_head \<Rightarrow> 2 * nat (int MAX_QUERY_HEADER_SIZE - have_read t) + 5
    | s_parse_req_head \<Rightarrow> 2 * nat (int MAX_QUERY_HEADER_SIZE - have_read t) + 6
    | s_do_sync \<Rightarrow> 3
    | s_recv_req_data \<Rightarrow> 2
    | _ \<Rightarrow> 1)"

fun round_ok :: "query_task_s \<Rightarrow> (bool \<times> conn \<times> 'r) outcome \<Rightarrow> bool" where
  "round_ok t (Done (nl, Open t', x)) \<longleftrightarrow>
    task_ok t' \<and> (nl \<longrightarrow> rounds_left t' < rounds_left t) \<and> (\<not> nl \<longrightarrow> error_log t' = None)"
| "round_ok t (Done (nl, c, x)) \<longleftrightarrow> True"
| "round_ok t Spin \<longleftrightarrow> True"
| "round_ok t Overflow \<longleftrightarrow> True"
| "round_ok t Abort \<longleftrightarrow> False"
| "round_ok t NoFuel \<longleftrightarrow> False"

lemma find_crlf_Some:
  "find_crlf s = Some i \<Longrightarrow> i + 1 < length s \<and> s ! i = CR \<and> s ! (i + 1) = LF"
proof (induction s arbitrary: i rule: find_crlf.induct)
  case (1 a b s)
  then show ?case by (cases i) (auto split: if_splits)
qed auto

lemma le_bytes_zero: "le_bytes n 0 = replicate n 0"
  by (induction n) auto

lemma crlf_was_read:
  assumes ok: "head_ok t" and f: "try_parse_memcached_string_head (query_request t) = Some i"
  shows "int (i + 2) \<le> have_read t" "i + 1 < MAX_QUERY_HEADER_SIZE"
proof -
  let ?b = "query_head_buf (query_request t)"
  let ?s = "?b @ le_bytes 8 0"
  have b: "length ?b = MAX_QUERY_HEADER_SIZE" "query_head_buf_size (query_request t) = 0"
    using ok by (auto simp: head_ok_def)
  have z: "le_bytes 8 0 = replicate 8 0" by (rule le_bytes_zero)
  have "find_crlf (takeWhile (\<lambda>c. c \<noteq> 0) ?s) = Some i"
    using f b by (simp add: try_parse_memcached_string_head_def cstr_at_def)
  then have i: "i + 1 < length (takeWhile (\<lambda>c. c \<noteq> 0) ?s)" "takeWhile (\<lambda>c. c \<noteq> 0) ?s ! (i + 1) = LF"
    using find_crlf_Some by blast+
  then have "?s ! (i + 1) = LF" using takeWhile_nth [OF i(1)] by simp
  moreover have "i + 1 < length ?s" using i(1) length_takeWhile_le less_le_trans by blast
  ultimately show lt: "i + 1 < MAX_QUERY_HEADER_SIZE"
    using b(1) unfolding z by (auto simp: nth_append LF_def not_less split: if_splits)
  then have "?b ! (i + 1) = LF" using \<open>?s ! (i + 1) = LF\<close> b(1) by (simp add: nth_append)
  then have "\<not> have_read t \<le> int (i + 1)" using ok lt by (auto simp: head_ok_def LF_def)
  then show "int (i + 2) \<le> have_read t" by simp
qed

lemma parse_sync_object:
  assumes "parse_memcached_string_head qr = Some (RET_SUCCESS, qr')" and "qr_cmd_type qr' = cmd_sync"
  shows "sync_object_of (qr_key qr') \<noteq> sync_other"
  using assms
  by (auto simp: parse_memcached_string_head_def HandleCmd_def parse_sync_cmd_def sync_object_of_def Let_def ret_code_defs
      split: prod.splits option.splits if_splits bind_splits)

lemma sock_read_cases:
  assumes "sock_read n rs = (nread, bs, again, rs')"
  shows "nread \<le> int n \<and> (0 \<le> nread \<longrightarrow> nread = int (length bs)) \<and> (nread < 0 \<longrightarrow> nread = -1 \<and> bs = [])"
  using assms by (cases "(n, rs)" rule: sock_read.cases) auto

text \<open>The counters after \<open>n\<close> bytes have been read from the network.\<close>

definition received :: "nat \<Rightarrow> io_stat_s \<Rightarrow> io_stat_s" where
  "received n io = io\<lparr>net_read_bytes := net_read_bytes io + word_of_nat n\<rparr>"

lemma received_add [simp]: "received m (received n io) = received (n + m) io"
  by (simp add: received_def add.assoc)

lemma net_read_received [simp]: "net_read (int n) io = (int n, received n io)"
  by (simp add: net_read_def received_def atomic_uint_add_def)

lemma net_read_error [simp]: "n < 0 \<Longrightarrow> net_read n io = (n, io)"
  by (simp add: net_read_def)

lemma net_read_value: "net_read n io = (n, snd (net_read n io))"
  by (simp add: net_read_def)

lemma head_filled:
  assumes ok: "head_ok t" and n: "int (length bs) \<le> int MAX_QUERY_HEADER_SIZE - have_read t"
  shows "head_ok (t\<lparr>query_request := (query_request t)\<lparr>query_head_buf := put_at 0 bs (query_head_buf (query_request t))\<rparr>,
    have_read := have_read t + int (length bs), need_read := x, q_state := y\<rparr>)"
  using assms by (auto simp: head_ok_def put_at_def nth_append)

lemma recv_head_round:
  assumes st: "q_state t = s_recv_req_head" and ok: "task_ok t"
  obtains nl t' rs' io' where "recv_req_head rs io t = Done (nl, t', rs', io')" "task_ok t'"
    "nl \<longrightarrow> rounds_left t' < rounds_left t" "\<not> nl \<longrightarrow> error_log t' = None"
proof -
  have h: "head_ok t" "need_read t = int MAX_QUERY_HEADER_SIZE - have_read t" "0 < need_read t" "error_log t = None"
    using ok st by (auto simp: task_ok_def)
  obtain nread bs again rs' where r: "sock_read (nat (need_read t)) rs = (nread, bs, again, rs')" by (metis surj_pair)
  have c: "nread \<le> need_read t" "0 \<le> nread \<longrightarrow> nread = int (length bs)" using sock_read_cases [OF r] h(3) by auto
  have size0: "query_head_buf_size (query_request t) = 0" using h(1) by (simp add: head_ok_def)
  obtain io' where v: "net_read nread io = (nread, io')" using net_read_value by blast
  let ?t = "t\<lparr>query_request := (query_request t)\<lparr>query_head_buf := put_at 0 bs (query_head_buf (query_request t))\<rparr>\<rparr>"
  consider (eof) "nread = 0" | (data) "0 < nread" | (err) "nread < 0" by linarith
  then show ?thesis
  proof cases
    case eof
    then have "recv_req_head rs io t = Done (False, ?t\<lparr>q_state := s_destroy_recv\<rparr>, rs', io')"
      using r v size0 h(3) by (simp add: recv_req_head_def change_query_task_state_def done_or_def Let_def)
    then show ?thesis by (rule that) (simp_all add: task_ok_def h(4))
  next
    case data
    let ?t' = "?t\<lparr>have_read := have_read t + int (length bs), need_read := 0, q_state := s_parse_req_head\<rparr>"
    have n: "nread = int (length bs)" using data c(2) by simp
    have "recv_req_head rs io t = Done (True, ?t', rs', io')"
      using r v size0 data c(1) n by (simp add: recv_req_head_def change_query_task_state_def done_or_def Let_def)
    moreover have "task_ok ?t'"
      using head_filled [OF h(1), where bs = bs and x = 0 and y = s_parse_req_head] c(1) n h(2,4) by (simp add: task_ok_def)
    moreover have "2 * nat (int MAX_QUERY_HEADER_SIZE - (have_read t + int (length bs))) + 6 <
        2 * nat (int MAX_QUERY_HEADER_SIZE - have_read t) + 5"
      using data n h(2,3) by linarith
    then have "rounds_left ?t' < rounds_left t" using st by (simp add: rounds_left_def)
    ultimately show ?thesis using that by blast
  next
    case err
    then have "recv_req_head rs io t =
        Done (True, ?t\<lparr>error_log := Some ''net_read'', q_state := s_destroy_recv\<rparr>, rs', io')"
      using r v size0 h(4) by (simp add: recv_req_head_def change_query_task_state_def done_or_def Log_def Let_def)
    then show ?thesis using that st by (simp add: task_ok_def rounds_left_def)
  qed
qed

lemma data_read_round:
  assumes st: "q_state t = s_recv_req_data" and ok: "task_ok t" and c: "nread \<le> need_read t"
  obtains nl t' where "data_read nread bs rs t = Done (nl, t', rs)" "task_ok t'"
    "nl \<longrightarrow> rounds_left t' < rounds_left t" "\<not> nl \<longrightarrow> error_log t' = None"
proof -
  have h: "0 < need_read t" "error_log t = None" using ok st by (auto simp: task_ok_def)
  have "\<exists>nl t'. data_read nread bs rs t = Done (nl, t', rs) \<and> error_log t' = (if q_state t' = s_destroy_recv then error_log t' else None) \<and>
    (if nl then q_state t' \<in> {s_destroy_recv, s_dispatch_query_task} else q_state t' = s_recv_req_data \<and> 0 < need_read t')"
    using h c st
    by (simp add: data_read_def change_query_task_state_def done_or_def Log_def Let_def ex_bool_eq)
  then obtain nl t' where "data_read nread bs rs t = Done (nl, t', rs)"
      "error_log t' = (if q_state t' = s_destroy_recv then error_log t' else None)"
      "if nl then q_state t' \<in> {s_destroy_recv, s_dispatch_query_task} else q_state t' = s_recv_req_data \<and> 0 < need_read t'"
    by blast
  then show ?thesis using that [of nl t'] st by (auto simp: task_ok_def rounds_left_def split: if_splits)
qed

lemma recv_data_round:
  assumes st: "q_state t = s_recv_req_data" and ok: "task_ok t"
  shows "recv_req_data rs io t = Spin \<or> (\<exists>nl t' rs' io'. recv_req_data rs io t = Done (nl, t', rs', io') \<and> task_ok t' \<and>
    (nl \<longrightarrow> rounds_left t' < rounds_left t) \<and> (\<not> nl \<longrightarrow> error_log t' = None))"
proof (induction rs arbitrary: io)
  case Nil
  then show ?case using ok st by (simp add: task_ok_def)
next
  case (Cons r rs)
  have h: "0 < need_read t" using ok st by (simp add: task_ok_def)
  obtain nread bs again rs' where rd: "sock_read (nat (need_read t)) (r # rs) = (nread, bs, again, rs')" by (metis surj_pair)
  have "nread \<le> need_read t" using sock_read_cases [OF rd] h by simp
  moreover obtain io' where io': "net_read nread io = (nread, io')" using net_read_value by blast
  ultimately obtain nl t' where "data_read nread bs (rs', io') t = Done (nl, t', rs', io')" "task_ok t'"
      "nl \<longrightarrow> rounds_left t' < rounds_left t" "\<not> nl \<longrightarrow> error_log t' = None"
    using data_read_round [OF st ok, of nread bs "(rs', io')"] by blast
  then show ?case using Cons.IH [of io'] rd io' h by auto
qed

text \<open>The next states of the parsing step.\<close>

definition leads :: "query_task_s \<Rightarrow> (bool \<times> query_task_s) outcome \<Rightarrow> bool" where
  "leads t out \<longleftrightarrow> out = Overflow \<or> (\<exists>nl t'. out = Done (nl, t') \<and> task_ok t' \<and>
    (nl \<longrightarrow> rounds_left t' < rounds_left t) \<and> (\<not> nl \<longrightarrow> error_log t' = None))"

lemma start_set_round:
  assumes "q_state t = s_parse_req_head" and "error_log t = None" and "\<forall>n. alloc_ok ae n"
  shows "leads t (start_set ae tmp request t)"
  using assms
  by (simp add: start_set_def leads_def change_query_task_state_def done_or_def task_ok_def rounds_left_def Let_def ex_bool_eq)

lemma parsed_head_round:
  assumes "q_state t = s_parse_req_head" and "error_log t = None" and "\<forall>n. alloc_ok ae n"
    and p: "parse_memcached_string_head qr = Some (r, request)"
  shows "leads t (parsed_head ae tmp (r, request) t)"
proof (cases "r = RET_SUCCESS \<and> qr_parse_status request = ps_succ")
  case True
  have s: "leads (t\<lparr>query_request := request\<rparr>) (start_set ae tmp request (t\<lparr>query_request := request\<rparr>))"
    using assms(1-3) by (intro start_set_round) auto
  then have "leads t (start_set ae tmp request (t\<lparr>query_request := request\<rparr>))"
    using assms(1) by (simp add: leads_def rounds_left_def)
  moreover have "qr_cmd_type request = cmd_sync \<Longrightarrow> sync_object_of (qr_key request) \<noteq> sync_other"
    using parse_sync_object [of qr request] p True by blast
  ultimately show ?thesis
    using True assms(1,2)
    by (cases "qr_cmd_type request")
      (simp_all add: parsed_head_def leads_def change_query_task_state_def done_or_def Log_def task_ok_def rounds_left_def
        Let_def ex_bool_eq)
next
  case False
  then show ?thesis
    using assms(1,2)
    by (cases "r = RET_SUCCESS") (simp_all add: parsed_head_def leads_def change_query_task_state_def done_or_def Log_def task_ok_def rounds_left_def
        Let_def ex_bool_eq)
qed

lemma parse_round:
  assumes st: "q_state t = s_parse_req_head" and ok: "task_ok t" and mem: "\<forall>n. alloc_ok ae n"
  shows "leads t (parse_query_request_head ae t)"
proof (cases "try_parse_memcached_string_head (query_request t)")
  case None
  have "head_ok t" "error_log t = None" using ok st by (auto simp: task_ok_def)
  then show ?thesis
    using None st
    by (simp add: parse_query_request_head_def leads_def change_query_task_state_def done_or_def Log_def task_ok_def
        rounds_left_def head_ok_def Let_def ex_bool_eq)
next
  case (Some i)
  have h: "head_ok t" "error_log t = None" using ok st by (auto simp: task_ok_def)
  let ?q = "(query_request t)\<lparr>query_head_buf_size := i + 2, query_head_buf := (query_head_buf (query_request t))[i + 2 := 0]\<rparr>"
  let ?tmp = "take (nat (have_read t) - (i + 2)) (drop (i + 2) (query_head_buf (query_request t)))"
  have "length (query_head_buf ?q) = MAX_QUERY_HEADER_SIZE" using h(1) by (simp add: head_ok_def)
  then obtain r request where r: "parse_memcached_string_head ?q = Some (r, request)" using parse_head_safe [of ?q] by auto
  have "parse_query_request_head ae t = parsed_head ae ?tmp (r, request) t"
    using crlf_was_read(1) [OF h(1) Some] Some r by (simp add: parse_query_request_head_def Let_def)
  then show ?thesis using parsed_head_round [OF st h(2) mem r] by simp
qed

section \<open>The handler ends and keeps the invariant\<close>

lemma sync_all_ok:
  assumes "storage_inv view good s" and "full_env env" and "obj \<noteq> sync_other"
  shows "\<exists>s'. sync_storage env obj s = Some (0, s') \<and> storage_inv view good s'"
proof -
  let ?s = "s\<lparr>index_logger := snd (index_logger_flush (e_write env) (index_logger s))\<rparr>"
  have h: "handler ?s = handler s" by (simp add: handler_def fun_eq_iff)
  have i: "storage_inv view good ?s"
    using assms(1) by (auto simp: storage_inv_def tables_ok_def files_ok_def index_ok_def h)
  then have "sync_headers env [0..<block_type_count ?s] ?s = Some ?s"
    using sync_headers_idle [OF assms(2), of ?s "[0..<block_type_count ?s]"]
    by (simp add: storage_inv_def atLeast0LessThan)
  then show ?thesis using assms(3) i by (cases obj) (simp_all add: sync_storage_def Let_def)
qed

lemma close_ok:
  assumes "storage_inv view good s" and "full_env env"
  shows "close_storage api env s \<noteq> None"
proof -
  have st: "tables_ok s" "files_ok s" using assms(1) by (auto simp: storage_inv_def)
  have "\<exists>s'. close_files env [0..<block_type_count s] 0 s = Some (0, 0 + length [0..<block_type_count s], s') \<and>
      same_tables s s' \<and> (\<forall>j. data_file (handler s' j) = data_file (handler s j))"
    using file_okD [OF st(2)] by (intro close_files_ok [OF assms(2) st(1)]) auto
  then show ?thesis using st(1) by (auto simp: close_storage_def tables_ok_def Let_def split_beta)
qed

lemma event_round:
  assumes ok: "task_ok t" and env: "full_env env" and inv: "storage_inv view good (g_storage st)"
    and ae: "pipe_write_ok ae" "\<forall>n. alloc_ok ae n"
  shows "round_ok t (event_step api env ae nl rs t st) \<and>
    (\<forall>nl' c rs' st'. event_step api env ae nl rs t st = Done (nl', c, rs', st') \<and> c \<noteq> Exited \<longrightarrow>
      storage_inv view good (g_storage st'))"
proof (cases "q_state t")
  case s_recv_req_head
  obtain nl' t' rs' io' where "recv_req_head rs (a_io st) t = Done (nl', t', rs', io')" "task_ok t'"
      "nl' \<longrightarrow> rounds_left t' < rounds_left t" "\<not> nl' \<longrightarrow> error_log t' = None"
    by (rule recv_head_round [OF s_recv_req_head ok])
  then show ?thesis using inv s_recv_req_head by (simp add: event_step_def)
next
  case s_parse_req_head
  show ?thesis using parse_round [OF s_parse_req_head ok ae(2)] s_parse_req_head inv
    by (auto simp: event_step_def leads_def)
next
  case s_recv_req_data
  then show ?thesis using recv_data_round [OF s_recv_req_data ok, of rs "a_io st"] inv by (auto simp: event_step_def)
next
  case s_do_sync
  then obtain s' where "sync_storage env (sync_object_of (qr_key (query_request t))) (g_storage st) = Some (0, s')"
      "storage_inv view good s'" "error_log t = None"
    using sync_all_ok [OF inv env] ok by (auto simp: task_ok_def)
  then show ?thesis using s_do_sync
    by (simp add: event_step_def change_query_task_state_def done_or_def task_ok_def rounds_left_def Let_def)
next
  case s_do_power
  then obtain s' where "sync_storage env sync_all (g_storage st) = Some (0, s')" "storage_inv view good s'"
    using sync_all_ok [OF inv env, of sync_all] by auto
  then show ?thesis using s_do_power close_ok [of view good s' env api] env
    by (auto simp: event_step_def split: option.split)
qed (use ok inv ae(1) in \<open>auto simp: event_step_def task_ok_def dispatch_query_task_def Let_def\<close>)

text \<open>What the handler leaves.\<close>

fun wait_ok :: "(conn \<times> 'r) outcome \<Rightarrow> bool" where
  "wait_ok (Done (Open t, x)) \<longleftrightarrow> task_ok t \<and> error_log t = None"
| "wait_ok (Done (c, x)) \<longleftrightarrow> True"
| "wait_ok Spin \<longleftrightarrow> True"
| "wait_ok Overflow \<longleftrightarrow> True"
| "wait_ok Abort \<longleftrightarrow> False"
| "wait_ok NoFuel \<longleftrightarrow> False"

lemma event_loop_ok:
  assumes "task_ok t" and "storage_inv view good (g_storage st)" and "rounds_left t \<le> n"
    and env: "full_env env" and ae: "pipe_write_ok ae" "\<forall>n. alloc_ok ae n"
  shows "wait_ok (event_loop n api env ae nl rs t st)"
  using assms(1-3)
proof (induction n arbitrary: t rs st nl)
  case 0
  then show ?case by (simp add: rounds_left_def split: query_state_e.splits)
next
  case (Suc n)
  have r: "round_ok t (event_step api env ae nl rs t st)"
    and s: "\<And>nl' c rs' st'. event_step api env ae nl rs t st = Done (nl', c, rs', st') \<Longrightarrow> c \<noteq> Exited \<Longrightarrow>
      storage_inv view good (g_storage st')"
    using event_round [OF Suc.prems(1) env Suc.prems(2) ae, of api nl rs] by blast+
  show ?case
  proof (cases "event_step api env ae nl rs t st")
    case (Done x)
    obtain nl' c rs' st' where x: "x = (nl', c, rs', st')" by (cases x)
    show ?thesis
    proof (cases c)
      case (Open t')
      have "task_ok t'" "nl' \<longrightarrow> rounds_left t' < rounds_left t" "\<not> nl' \<longrightarrow> error_log t' = None"
        using r Done x Open by simp_all
      moreover have "storage_inv view good (g_storage st')" using s Done x Open by simp
      ultimately show ?thesis using Suc.IH [of t' st' nl' rs'] Suc.prems(3) Done x Open by auto
    qed (use Done x in simp_all)
  qed (use r in simp_all)
qed

lemma rounds_le_fuel: "task_ok t \<Longrightarrow> rounds_left t \<le> handler_fuel"
  by (auto simp: task_ok_def rounds_left_def handler_fuel_def head_ok_def protocol_consts split: query_state_e.splits)

lemma accepted_ok:
  assumes "do_accept_connection accept_fd True = Some t"
  shows "task_ok t" "q_state t = s_recv_req_head" "have_read t = 0" "need_read t = int MAX_QUERY_HEADER_SIZE"
    "query_request t = request_of []" "query_response t = empty_response" "error_log t = None"
  using assms
  by (auto simp: do_accept_connection_def change_query_task_state_def task_ok_def head_ok_def request_of_def
      protocol_consts Let_def Log_def split: if_splits)

section \<open>Delivery of a request\<close>

text \<open>The events of one connection: what has arrived at each call of the handler.\<close>

fun run_events ::
  "'db db_api \<Rightarrow> sys_env \<Rightarrow> assign_env \<Rightarrow> read_res list list \<Rightarrow> read_res list \<Rightarrow> query_task_s \<Rightarrow> 'db assign_state \<Rightarrow>
    (conn \<times> 'db assign_state) outcome" where
  "run_events api env ae [] rest t st = Done (Open t, st)"
| "run_events api env ae (ev # evs) rest t st =
    (case query_io_event_handler EV_READ api env ae False (rest @ ev) t st of
      Done (c, rest, st) \<Rightarrow> (case c of Open t \<Rightarrow> run_events api env ae evs rest t st | _ \<Rightarrow> Done (c, st))
    | Abort \<Rightarrow> Abort | Overflow \<Rightarrow> Overflow | Spin \<Rightarrow> Spin | NoFuel \<Rightarrow> NoFuel)"

lemma handler_rounds:
  "query_io_event_handler EV_READ api env ae nl rs t st =
    event_loop (Suc (Suc (Suc (handler_fuel - 3)))) api env ae nl rs t st"
  by (simp add: query_io_event_handler_def handler_fuel_def protocol_consts numeral_3_eq_3 eval_nat_numeral)

lemma find_crlf_first: "CR \<notin> set pre \<Longrightarrow> find_crlf (pre @ CR # LF # rest) = Some (length pre)"
proof (induction pre)
  case (Cons a pre)
  then show ?case by (cases pre) auto
qed simp

lemma line_found:
  assumes "\<forall>c\<in>set pre. c \<noteq> 0" and "CR \<notin> set pre" and "query_head_buf qr = pre @ CR # LF # rest"
  shows "try_parse_memcached_string_head qr = Some (length pre)"
proof -
  have "cstr (pre @ CR # LF # rest') = pre @ CR # LF # takeWhile (\<lambda>c. c \<noteq> 0) rest'" for rest'
    using assms(1) by (simp add: cstr_at_def takeWhile_append2 char_defs)
  then show ?thesis using assms(2,3) find_crlf_first by (simp add: try_parse_memcached_string_head_def)
qed

text \<open>The first read of a connection fills the head buffer.\<close>

lemma first_read:
  assumes t: "do_accept_connection accept_fd True = Some t" and "bs \<noteq> []" and "length bs \<le> MAX_QUERY_HEADER_SIZE"
  shows "recv_req_head [RdData bs] io t = Done (True, t\<lparr>query_request := (request_of [])\<lparr>query_head_buf :=
      bs @ replicate (MAX_QUERY_HEADER_SIZE - length bs) 0\<rparr>, have_read := int (length bs), need_read := 0,
      q_state := s_parse_req_head\<rparr>, [], received (length bs) io)"
  using accepted_ok [OF t] assms(2,3)
  by (simp add: recv_req_head_def change_query_task_state_def done_or_def Let_def request_of_def put_at_def)

text \<open>A connection that waits for the rest of the data: its key, flag and expiry time, what it got so far, of how many bytes.\<close>

definition waits :: "bytes \<Rightarrow> int \<times> int \<Rightarrow> bytes \<Rightarrow> nat \<Rightarrow> query_task_s \<Rightarrow> bool" where
  "waits k fx got n t \<longleftrightarrow> q_state t = s_recv_req_data \<and> error_log t = None \<and> query_response t = empty_response \<and>
    qr_parse_status (query_request t) = ps_succ \<and> qr_cmd_type (query_request t) = cmd_set \<and>
    cstr (qr_key (query_request t)) = k \<and> length k < MAX_KEY_SIZE \<and>
    (qr_flag (query_request t), qr_exptime (query_request t)) = fx \<and>
    qr_data_size (query_request t) = word_of_nat n \<and> need_read t = int n - int (length got) \<and> length got < n \<and>
    have_read t = int (query_head_buf_size (query_request t)) + int (length got) \<and>
    (\<exists>fill. length fill = n - length got \<and> qr_data (query_request t) = Some (got @ fill))"

text \<open>A set request that is complete, with its data and line end.\<close>

definition complete :: "bytes \<Rightarrow> int \<times> int \<Rightarrow> bytes \<Rightarrow> query_task_s \<Rightarrow> bool" where
  "complete k fx d t \<longleftrightarrow> q_state t = s_dispatch_query_task \<and> error_log t = None \<and> query_response t = empty_response \<and>
    qr_parse_status (query_request t) = ps_succ \<and> qr_cmd_type (query_request t) = cmd_set \<and>
    cstr (qr_key (query_request t)) = k \<and> length k < MAX_KEY_SIZE \<and>
    (qr_flag (query_request t), qr_exptime (query_request t)) = fx \<and>
    qr_data_size (query_request t) = word_of_nat (length d) \<and> qr_data (query_request t) = Some (d @ [CR, LF])"

lemma complete_asks: "complete k fx d t \<Longrightarrow> length d < 2 ^ 62 \<Longrightarrow> asks (CSet k d) t"
  by (auto simp: complete_def fresh_task_def empty_response_def unat_of_nat)

lemma data_size_minus: "n = length d + 2 \<Longrightarrow> (word_of_nat n :: u64) - 2 = word_of_nat (length d)"
  by simp

abbreviation count_in :: "nat \<Rightarrow> 'db assign_state \<Rightarrow> 'db assign_state" where
  "count_in n st \<equiv> st\<lparr>a_io := received n (a_io st)\<rparr>"

text \<open>A call of the handler that reads \<open>n\<close> bytes and leaves the connection waiting; one that hands the task over. Neither
  depends on what the other connections and the workers did meanwhile.\<close>

definition opens :: "'db db_api \<Rightarrow> sys_env \<Rightarrow> assign_env \<Rightarrow> read_res list \<Rightarrow> query_task_s \<Rightarrow> nat \<Rightarrow> query_task_s \<Rightarrow> bool" where
  "opens api env ae rs t n t' \<longleftrightarrow> sock_fd t' = sock_fd t \<and> error_log t' = None \<and>
    (\<forall>st. query_io_event_handler EV_READ api env ae False rs t st = Done (Open t', [], count_in n st))"

definition hands :: "'db db_api \<Rightarrow> sys_env \<Rightarrow> assign_env \<Rightarrow> read_res list \<Rightarrow> query_task_s \<Rightarrow> nat \<Rightarrow> query_task_s \<Rightarrow> bool" where
  "hands api env ae rs t n t' \<longleftrightarrow> sock_fd t' = sock_fd t \<and>
    (\<forall>st. \<exists>w st'. dispatch_query_task ae t' (count_in n st) = Done (Handed t' w, st') \<and>
      query_io_event_handler EV_READ api env ae False rs t st = Done (Handed t' w, [], st'))"

text \<open>The calls of the handler, with what has arrived at each, of a connection whose request is \<open>r\<close> and has \<open>n\<close> bytes.\<close>

inductive delivers :: "'db db_api \<Rightarrow> sys_env \<Rightarrow> assign_env \<Rightarrow> client_req \<Rightarrow> read_res list list \<Rightarrow> query_task_s \<Rightarrow> nat \<Rightarrow> bool"
  for api env ae r where
  last_piece: "hands api env ae rs t n t' \<Longrightarrow> asks r t' \<Longrightarrow> delivers api env ae r [rs] t n"
| piece: "opens api env ae rs t m t' \<Longrightarrow> delivers api env ae r evs t' n \<Longrightarrow> delivers api env ae r (rs # evs) t (m + n)"

lemma dispatch_ok:
  "pipe_write_ok ae \<Longrightarrow> \<exists>w st'. dispatch_query_task ae t st = Done (Handed t w, st') \<and>
    pipes st' = (pipes st)(w := pipes st w @ [t]) \<and> g_storage st' = g_storage st \<and> a_io st' = a_io st"
  by (simp add: dispatch_query_task_def Let_def)

lemma hand_over:
  assumes "q_state t = s_dispatch_query_task \<or> q_state t = s_return_failed" and "pipe_write_ok ae"
  shows "\<exists>w st'. dispatch_query_task ae t st = Done (Handed t w, st') \<and> event_loop (Suc n) api env ae nl rs t st = Done (Handed t w, rs, st')"
  using dispatch_ok [OF assms(2), of t st] assms(1) by (auto simp: event_step_def)

lemma delivers_run:
  assumes "delivers api env ae r evs t n" and ae: "pipe_write_ok ae"
  shows "\<exists>t' p st'. run_events api env ae evs [] t st = Done (Handed t' p, st') \<and>
    asks r t' \<and> pipes st' = (pipes st)(p := pipes st p @ [t']) \<and> g_storage st' = g_storage st \<and> a_io st' = received n (a_io st)"
  using assms(1)
proof (induction arbitrary: st rule: delivers.induct)
  case (last_piece rs t n t')
  obtain w st' where w: "dispatch_query_task ae t' (count_in n st) = Done (Handed t' w, st')"
      "query_io_event_handler EV_READ api env ae False rs t st = Done (Handed t' w, [], st')"
    using last_piece(1) unfolding hands_def by blast
  then show ?case using dispatch_ok [OF ae, of t' "count_in n st"] last_piece(2) by auto
next
  case (piece rs t m t' evs n)
  then show ?case using piece.IH [of "count_in m st"] by (simp add: opens_def)
qed

lemma wait_partial:
  assumes w: "waits k fx got n t" and c: "c \<noteq> []" "length got + length c < n"
  shows "\<exists>t'. opens api env ae [RdData c] t (length c) t' \<and> waits k fx (got @ c) n t'"
proof -
  obtain fill where fill: "length fill = n - length got" "qr_data (query_request t) = Some (got @ fill)"
    using w by (auto simp: waits_def)
  let ?t = "t\<lparr>query_request := (query_request t)\<lparr>qr_data := Some (got @ c @ drop (length c) fill)\<rparr>,
    have_read := have_read t + int (length c), need_read := need_read t - int (length c)\<rparr>"
  have "recv_req_data [RdData c] (a_io st) t = Done (False, ?t, [], received (length c) (a_io st))" for st :: "'a assign_state"
    using w c fill by (simp add: waits_def data_read_def Let_def put_at_def)
  then have "opens api env ae [RdData c] t (length c) ?t"
    using w by (simp add: opens_def handler_rounds event_step_def waits_def)
  moreover have "waits k fx (got @ c) n ?t"
    using w c fill(1) by (auto simp: waits_def)
  ultimately show ?thesis by blast
qed

lemma wait_last:
  assumes w: "waits k fx got (length d + 2) t" and c: "got @ c = d @ [CR, LF]" and ae: "pipe_write_ok ae"
  shows "\<exists>t'. hands api env ae [RdData c] t (length c) t' \<and> complete k fx d t'"
proof -
  obtain fill where fill: "length fill = length d + 2 - length got" "qr_data (query_request t) = Some (got @ fill)"
    using w by (auto simp: waits_def)
  have len: "length got + length c = length d + 2" using arg_cong [OF c, of length] by simp
  let ?t = "t\<lparr>query_request := (query_request t)\<lparr>qr_data := Some (d @ [CR, LF]), qr_data_size := word_of_nat (length d)\<rparr>,
    q_state := s_dispatch_query_task\<rparr>"
  have n: "need_read t = int (length c)" "c \<noteq> []" "length fill = length c" using w len fill by (auto simp: waits_def)
  have "put_at (length got) c (got @ fill) = d @ [CR, LF]" using c n(3) by (simp add: put_at_def)
  then have "data_read (int (length c)) c ([], io) t = Done (True, ?t, [], io)" for io
    using w n fill(2) by (simp add: waits_def data_read_def Let_def change_query_task_state_def done_or_def)
  then have "recv_req_data [RdData c] (a_io st) t = Done (True, ?t, [], received (length c) (a_io st))" for st :: "'a assign_state"
    using n by simp
  then have "query_io_event_handler EV_READ api env ae False [RdData c] t st =
      event_loop (Suc (Suc (handler_fuel - 3))) api env ae True [] ?t (count_in (length c) st)" for st
    using w unfolding handler_rounds event_loop.simps(2) [of "Suc (Suc (handler_fuel - 3))"]
    by (simp add: event_step_def waits_def del: event_loop.simps)
  then have "hands api env ae [RdData c] t (length c) ?t"
    using hand_over [of ?t ae _ "Suc (handler_fuel - 3)" api env True "[]"] ae unfolding hands_def by simp
  moreover have "complete k fx d ?t" using w by (simp add: waits_def complete_def)
  ultimately show ?thesis by blast
qed

text \<open>The data behind the line, in any fragments.\<close>

lemma fragments_delivered:
  assumes "waits k fx got (length d + 2) t" and "got @ concat cs = d @ [CR, LF]" and "[] \<notin> set cs" and ae: "pipe_write_ok ae"
    and d: "length d < 2 ^ 62"
  shows "delivers api env ae (CSet k d) (map (\<lambda>c. [RdData c]) cs) t (length (concat cs))"
  using assms(1-3)
proof (induction cs arbitrary: got t)
  case Nil
  then show ?case using arg_cong [OF Nil(2), of length] by (simp add: waits_def)
next
  case (Cons c cs)
  show ?case
  proof (cases cs)
    case Nil
    then show ?thesis
      using wait_last [OF Cons.prems(1) _ ae, of c api env] Cons.prems(2) complete_asks [OF _ d] last_piece by fastforce
  next
    case (Cons c' cs')
    have "length got + length c < length d + 2"
      using arg_cong [OF Cons.prems(2), of length] Cons.prems(3) Cons by (cases c') auto
    then obtain t' where t': "opens api env ae [RdData c] t (length c) t'" "waits k fx (got @ c) (length d + 2) t'"
      using wait_partial [OF Cons.prems(1), of c api env ae] Cons.prems(3) by auto
    then show ?thesis using piece [OF t'(1) Cons.IH [OF t'(2)]] Cons.prems(2,3) by simp
  qed
qed

text \<open>The same with everything the task says in the end.\<close>

lemma fragments_complete:
  assumes "waits k fx got (length d + 2) t" and "got @ concat cs = d @ [CR, LF]" and "[] \<notin> set cs" and ae: "pipe_write_ok ae"
  shows "\<exists>t' p st'. run_events api env ae (map (\<lambda>c. [RdData c]) cs) [] t st = Done (Handed t' p, st') \<and> complete k fx d t'"
  using assms(1-3)
proof (induction cs arbitrary: got t st)
  case Nil
  then show ?case using arg_cong [OF Nil(2), of length] by (simp add: waits_def)
next
  case (Cons c cs)
  show ?case
  proof (cases cs)
    case Nil
    then obtain t' where t': "hands api env ae [RdData c] t (length c) t'" "complete k fx d t'"
      using wait_last [OF Cons.prems(1) _ ae, of c api env] Cons.prems(2) by auto
    then obtain w st' where "query_io_event_handler EV_READ api env ae False [RdData c] t st = Done (Handed t' w, [], st')"
      unfolding hands_def by blast
    then show ?thesis using Nil t'(2) by auto
  next
    case (Cons c' cs')
    have "length got + length c < length d + 2"
      using arg_cong [OF Cons.prems(2), of length] Cons.prems(3) Cons by (cases c') auto
    then obtain t' where t': "opens api env ae [RdData c] t (length c) t'" "waits k fx (got @ c) (length d + 2) t'"
      using wait_partial [OF Cons.prems(1), of c api env ae] Cons.prems(3) by auto
    then show ?thesis using Cons.IH [OF t'(2), of "count_in (length c) st"] Cons.prems(2,3) by (simp add: opens_def)
  qed
qed

lemma set_line_facts:
  assumes c: "strcaseeq cmd (str ''set'')" and k: "word_chars k" "CR \<notin> set k"
  shows "\<exists>pre. set_line cmd k f e n = pre @ [CR, LF] \<and> (\<forall>c\<in>set pre. c \<noteq> 0) \<and> CR \<notin> set pre"
proof -
  let ?pre = "cmd @ SP # k @ SP # decimal f @ SP # decimal e @ SP # decimal n"
  have w: "word_chars cmd" by (rule strcaseeq_word [OF c command_words(2)])
  have "CR \<notin> set cmd"
  proof
    assume "CR \<in> set cmd"
    then have "tolower CR \<in> set (map tolower cmd)" by simp
    then have "tolower CR \<in> set (map tolower (str ''set''))" using c by (simp only: strcaseeq_def)
    then show False by (simp add: tolower_def CR_def)
  qed
  moreover have "CR \<notin> set (decimal m)" for m
    using decimal_digits [of m] by (auto simp: is_digit_def CR_def)
  moreover have "\<forall>c\<in>set (decimal m). c \<noteq> 0" for m using decimal_word [of m] by (simp add: word_chars_def)
  ultimately have "(\<forall>c\<in>set ?pre. c \<noteq> 0) \<and> CR \<notin> set ?pre"
    using w k by (auto simp: word_chars_def char_defs)
  then show ?thesis by (intro exI [where x = ?pre]) (simp add: set_line_def)
qed

text \<open>The head buffer after the first read, and after the line was cut.\<close>

definition head_with :: "bytes \<Rightarrow> query_task_s \<Rightarrow> query_task_s" where
  "head_with bs t = t\<lparr>query_request := (request_of [])\<lparr>query_head_buf :=
      bs @ replicate (MAX_QUERY_HEADER_SIZE - length bs) 0\<rparr>, have_read := int (length bs), need_read := 0,
      q_state := s_parse_req_head\<rparr>"

lemma cut_line:
  assumes "length line + length d0 \<le> MAX_QUERY_HEADER_SIZE" and "length line < MAX_QUERY_HEADER_SIZE"
  shows "head_holds (((line @ d0) @ replicate (MAX_QUERY_HEADER_SIZE - length (line @ d0)) 0)[length line := 0]) line"
proof -
  let ?z = "replicate (MAX_QUERY_HEADER_SIZE - length (line @ d0)) (0 :: u8)"
  have "length (d0 @ ?z) = MAX_QUERY_HEADER_SIZE - length line" using assms(1) by simp
  then obtain x rest where x: "d0 @ ?z = x # rest" using assms(2) by (cases "d0 @ ?z") auto
  have lr: "Suc (length rest) = MAX_QUERY_HEADER_SIZE - length line"
    using arg_cong [OF x, of length] assms(1) by simp
  have "((line @ d0) @ ?z)[length line := 0] = line @ (d0 @ ?z)[0 := 0]" by (simp add: list_update_append)
  then have "((line @ d0) @ ?z)[length line := 0] = line @ 0 # rest" unfolding x by simp
  then show ?thesis using assms(2) lr unfolding head_holds_def by auto
qed

lemma parse_first_line:
  assumes l: "line = pre @ [CR, LF]" "\<forall>c\<in>set pre. c \<noteq> 0" "CR \<notin> set pre"
    and len: "length line + length d0 \<le> MAX_QUERY_HEADER_SIZE"
  shows "parse_query_request_head ae (head_with (line @ d0) t) =
    (case parse_memcached_string_head ((request_of [])\<lparr>query_head_buf_size := length line, query_head_buf :=
        ((line @ d0) @ replicate (MAX_QUERY_HEADER_SIZE - length (line @ d0)) 0)[length line := 0]\<rparr>) of
      None \<Rightarrow> Overflow | Some res \<Rightarrow> parsed_head ae d0 res (head_with (line @ d0) t))"
proof -
  let ?t = "head_with (line @ d0) t"
  have "try_parse_memcached_string_head (query_request ?t) = Some (length pre)"
    using l by (intro line_found) (simp_all add: head_with_def)
  then show ?thesis
    using l(1) len by (simp add: parse_query_request_head_def Let_def) (simp add: head_with_def split: option.split)
qed

definition set_request :: "bytes \<Rightarrow> bytes \<Rightarrow> bytes \<Rightarrow> nat \<Rightarrow> nat \<Rightarrow> nat \<Rightarrow> query_request_s" where
  "set_request line d0 k f e n = (request_of [])\<lparr>query_head_buf_size := length line,
    query_head_buf := ((line @ d0) @ replicate (MAX_QUERY_HEADER_SIZE - length (line @ d0)) 0)[length line := 0],
    qr_key := strncpy MAX_KEY_SIZE k, qr_flag := int f, qr_exptime := int e,
    qr_data_size := word_of_nat n, qr_cmd_type := cmd_set, qr_parse_status := ps_succ\<rparr>"

lemma set_parsed:
  assumes c: "strcaseeq cmd (str ''set'')" and k: "word_chars k" "CR \<notin> set k" "length k < MAX_KEY_SIZE"
    and fe: "f < 2 ^ 31" "e < 2 ^ 31" and n: "n < 2 ^ 62"
    and line: "line = set_line cmd k f e n" "length line < MAX_QUERY_HEADER_SIZE"
    and len: "length line + length d0 \<le> MAX_QUERY_HEADER_SIZE"
  shows "parse_query_request_head ae (head_with (line @ d0) t) =
    start_set ae d0 (set_request line d0 k f e n) ((head_with (line @ d0) t)\<lparr>query_request := set_request line d0 k f e n\<rparr>)"
proof -
  let ?b = "((line @ d0) @ replicate (MAX_QUERY_HEADER_SIZE - length (line @ d0)) 0)[length line := 0]"
  let ?q = "(request_of [])\<lparr>query_head_buf_size := length line, query_head_buf := ?b\<rparr>"
  obtain pre where pre: "line = pre @ [CR, LF]" "\<forall>c\<in>set pre. c \<noteq> 0" "CR \<notin> set pre"
    using set_line_facts [OF c k(1,2)] line(1) by blast
  have "parse_memcached_string_head ?q = Some (RET_SUCCESS, set_request line d0 k f e n)"
    using parse_set_head [OF _ c k(1,3), of ?q f e n] cut_line [OF len line(2)] line(1) fe n
    by (simp add: atoi_decimal atol_def strtol_decimal set_request_def)
  then show ?thesis
    using parse_first_line [OF pre len, of ae t] by (simp add: parsed_head_def Let_def set_request_def)
qed

lemma set_started:
  assumes t: "do_accept_connection accept_fd True = Some t" and c: "strcaseeq cmd (str ''set'')"
    and k: "word_chars k" "CR \<notin> set k" "length k < MAX_KEY_SIZE" and fe: "f < 2 ^ 31" "e < 2 ^ 31" and n: "length d < 2 ^ 62"
    and line: "line = set_line cmd k f e (length d)" "length line < MAX_QUERY_HEADER_SIZE"
    and len: "length line + length d0 \<le> MAX_QUERY_HEADER_SIZE" and d0: "d0 @ rest = d @ [CR, LF]" and mem: "\<forall>n. alloc_ok ae n"
  shows "\<exists>t'. parse_query_request_head ae (head_with (line @ d0) t) = Done (rest = [], t') \<and>
    sock_fd t' = sock_fd t \<and> (if rest = [] then complete k (int f, int e) d t' else waits k (int f, int e) d0 (length d + 2) t')"
proof -
  let ?t = "head_with (line @ d0) t"
  note p = set_parsed [OF c k fe n line len, of ae t]
  have ls: "length d0 + length rest = length d + 2" using arg_cong [OF d0, of length] by simp
  have sz: "unat (word_of_nat (length d) + 2 :: u64) = length d + 2"
    using n by (simp add: unat_word_ariths unat_of_nat)
  have nr: "sint (word_of_nat (length d) + 2 - word_of_nat (length d0) :: u64) = int (length rest)"
  proof -
    have "(word_of_nat (length d) + 2 - word_of_nat (length d0) :: u64) = word_of_nat (length rest)"
      using arg_cong [OF ls, of "word_of_nat :: nat \<Rightarrow> u64"] by (simp add: algebra_simps)
    moreover have "length rest < 2 ^ 63" using ls n by simp
    ultimately show ?thesis by (simp add: sint_uint uint_nat unat_of_nat signed_take_bit_int_eq_self)
  qed
  have fill: "put_at 0 d0 (map (junk ae) [0..<length d + 2]) = d0 @ drop (length d0) (map (junk ae) [0..<length d + 2])"
    by (simp add: put_at_def)
  have key: "cstr (strncpy MAX_KEY_SIZE k) = k" using k by (intro cstr_strncpy) (auto simp: word_chars_def)
  have e: "error_log ?t = None" "query_response ?t = empty_response" "have_read ?t = int (length line + length d0)"
    "sock_fd ?t = sock_fd t"
    using accepted_ok [OF t] by (simp_all add: head_with_def)
  show ?thesis
  proof (cases "rest = []")
    case True
    then have full: "d0 = d @ [CR, LF]" using d0 by simp
    then show ?thesis
      using True p mem sz nr ls e key k(3) fill
      by (simp add: start_set_def Let_def change_query_task_state_def done_or_def complete_def set_request_def)
  next
    case False
    then have "length d0 < length d + 2" using ls by (cases rest) auto
    then show ?thesis
      using False p mem sz nr ls e key k(3) fill
      by (simp add: start_set_def Let_def change_query_task_state_def done_or_def waits_def set_request_def; arith)
  qed
qed

lemma first_event:
  assumes t: "do_accept_connection accept_fd True = Some t" and "bs \<noteq> []" and "length bs \<le> MAX_QUERY_HEADER_SIZE"
  shows "query_io_event_handler EV_READ api env ae False [RdData bs] t st =
    event_loop (Suc (Suc (handler_fuel - 3))) api env ae True [] (head_with bs t) (count_in (length bs) st)"
  using first_read [OF assms, of "a_io st"] accepted_ok(2) [OF t]
  unfolding handler_rounds event_loop.simps(2) [of "Suc (Suc (handler_fuel - 3))"]
  by (simp add: event_step_def head_with_def del: event_loop.simps)

lemma after_parse:
  assumes "parse_query_request_head ae (head_with bs t) = Done (nl, t')"
  shows "event_loop (Suc (Suc n)) api env ae True [] (head_with bs t) st =
    (if nl then event_loop (Suc n) api env ae True [] t' st else Done (Open t', [], st))"
proof -
  have "event_step api env ae True [] (head_with bs t) st = Done (nl, Open t', [], st)"
    using assms by (simp add: event_step_def head_with_def)
  then show ?thesis by (subst event_loop.simps(2)) (cases nl; simp del: event_loop.simps)
qed

lemma set_delivers:
  assumes t: "do_accept_connection accept_fd True = Some t" and c: "strcaseeq cmd (str ''set'')"
    and k: "word_chars k" "CR \<notin> set k" "length k < MAX_KEY_SIZE" and fe: "f < 2 ^ 31" "e < 2 ^ 31" and n: "length d < 2 ^ 62"
    and line: "line = set_line cmd k f e (length d)" "length line < MAX_QUERY_HEADER_SIZE"
    and len: "length line + length d0 \<le> MAX_QUERY_HEADER_SIZE" and d0: "d0 @ concat cs = d @ [CR, LF]" and cs: "[] \<notin> set cs"
    and ae: "pipe_write_ok ae" "\<forall>n. alloc_ok ae n"
  shows "delivers api env ae (CSet k d) ([RdData (line @ d0)] # map (\<lambda>c. [RdData c]) cs) t (length line + length d + 2)"
proof -
  have ne: "line @ d0 \<noteq> []" using line(1) by (simp add: set_line_def)
  have l: "length (line @ d0) \<le> MAX_QUERY_HEADER_SIZE" using len by simp
  obtain t1 where t1: "parse_query_request_head ae (head_with (line @ d0) t) = Done (concat cs = [], t1)" "sock_fd t1 = sock_fd t"
      "if concat cs = [] then complete k (int f, int e) d t1 else waits k (int f, int e) d0 (length d + 2) t1"
    using set_started [OF t c k fe n line len d0 ae(2)] by blast
  have total: "length line + length d + 2 = length (line @ d0) + length (concat cs)" using arg_cong [OF d0, of length] by simp
  note h = first_event [OF t ne l, of api env ae, unfolded after_parse [OF t1(1)]]
  show ?thesis
  proof (cases "concat cs = []")
    case True
    then have cs0: "cs = []" using cs by (cases cs) auto
    have cp: "complete k (int f, int e) d t1" using t1(3) True by simp
    then have "q_state t1 = s_dispatch_query_task" by (simp add: complete_def)
    then have "hands api env ae [RdData (line @ d0)] t (length (line @ d0)) t1"
      using h True t1(2) hand_over [of t1 ae _ "handler_fuel - 3" api env True "[]"] ae(1)
      by (simp add: hands_def del: event_loop.simps)
    from last_piece [OF this complete_asks [OF cp n]] show ?thesis unfolding total cs0 by simp
  next
    case False
    then have w: "waits k (int f, int e) d0 (length d + 2) t1" using t1(3) by presburger
    have "opens api env ae [RdData (line @ d0)] t (length (line @ d0)) t1"
      using h t1(2) w unfolding if_not_P [OF False] by (simp add: opens_def waits_def)
    from piece [OF this fragments_delivered [OF w d0 cs ae(1) n]] show ?thesis unfolding total .
  qed
qed

lemma set_run:
  assumes t: "do_accept_connection accept_fd True = Some t" and c: "strcaseeq cmd (str ''set'')"
    and k: "word_chars k" "CR \<notin> set k" "length k < MAX_KEY_SIZE" and fe: "f < 2 ^ 31" "e < 2 ^ 31" and n: "length d < 2 ^ 62"
    and line: "line = set_line cmd k f e (length d)" "length line < MAX_QUERY_HEADER_SIZE"
    and len: "length line + length d0 \<le> MAX_QUERY_HEADER_SIZE" and d0: "d0 @ concat cs = d @ [CR, LF]" and cs: "[] \<notin> set cs"
    and ae: "pipe_write_ok ae" "\<forall>n. alloc_ok ae n"
  shows "\<exists>t' p st'. run_events api env ae ([RdData (line @ d0)] # map (\<lambda>c. [RdData c]) cs) [] t st = Done (Handed t' p, st') \<and>
    complete k (int f, int e) d t'"
proof -
  have ne: "line @ d0 \<noteq> []" using line(1) by (simp add: set_line_def)
  have l: "length (line @ d0) \<le> MAX_QUERY_HEADER_SIZE" using len by simp
  obtain t1 where t1: "parse_query_request_head ae (head_with (line @ d0) t) = Done (concat cs = [], t1)" "sock_fd t1 = sock_fd t"
      "if concat cs = [] then complete k (int f, int e) d t1 else waits k (int f, int e) d0 (length d + 2) t1"
    using set_started [OF t c k fe n line len d0 ae(2)] by blast
  note h = first_event [OF t ne l, of api env ae, unfolded after_parse [OF t1(1)]]
  show ?thesis
  proof (cases "concat cs = []")
    case True
    then have cs0: "cs = []" using cs by (cases cs) auto
    have cp: "complete k (int f, int e) d t1" using t1(3) True by simp
    then have "q_state t1 = s_dispatch_query_task" by (simp add: complete_def)
    then obtain w st' where "query_io_event_handler EV_READ api env ae False [RdData (line @ d0)] t st = Done (Handed t1 w, [], st')"
      using h True hand_over [of t1 ae _ "handler_fuel - 3" api env True "[]"] ae(1) by (fastforce simp del: event_loop.simps)
    then show ?thesis using cp cs0 by auto
  next
    case False
    then have w: "waits k (int f, int e) d0 (length d + 2) t1" using t1(3) by presburger
    have "query_io_event_handler EV_READ api env ae False [RdData (line @ d0)] t st = Done (Open t1, [], count_in (length (line @ d0)) st)"
      using h unfolding if_not_P [OF False] .
    then show ?thesis using fragments_complete [OF w d0 cs ae(1), of api env "count_in (length (line @ d0)) st"] by simp
  qed
qed

lemmas set_arrives = delivers_run [OF set_delivers]

lemma key_line_facts:
  assumes c: "strcaseeq cmd lit" and w: "word_chars lit" "\<forall>c\<in>set lit. tolower c \<noteq> CR" and k: "word_chars k" "CR \<notin> set k"
  shows "\<exists>pre. key_line cmd k = pre @ [CR, LF] \<and> (\<forall>c\<in>set pre. c \<noteq> 0) \<and> CR \<notin> set pre"
proof -
  have "CR \<notin> set cmd"
  proof
    assume "CR \<in> set cmd"
    then have "tolower CR \<in> set (map tolower cmd)" by simp
    then have "tolower CR \<in> set (map tolower lit)" using c by (simp only: strcaseeq_def)
    moreover have "tolower CR = CR" by (simp add: tolower_def CR_def)
    ultimately show False using w(2) by auto
  qed
  then show ?thesis
    using strcaseeq_word [OF c w(1)] k
    by (intro exI [where x = "cmd @ SP # k"]) (auto simp: key_line_def word_chars_def char_defs)
qed

text \<open>A request without data, in one piece.\<close>

lemma key_delivers:
  assumes t: "do_accept_connection accept_fd True = Some t"
    and c: "strcaseeq cmd (str ''get'') \<and> r = CGet k \<or> strcaseeq cmd (str ''delete'') \<and> r = CDel k"
    and k: "word_chars k" "CR \<notin> set k" "length k < MAX_KEY_SIZE"
    and line: "length (key_line cmd k) < MAX_QUERY_HEADER_SIZE" and ae: "pipe_write_ok ae"
  shows "delivers api env ae r [[RdData (key_line cmd k)]] t (length (key_line cmd k))"
proof -
  let ?line = "key_line cmd k" and ?ty = "if r = CGet k then cmd_get else cmd_delete"
  let ?b = "((?line @ []) @ replicate (MAX_QUERY_HEADER_SIZE - length (?line @ [])) 0)[length ?line := 0]"
  let ?q = "(request_of [])\<lparr>query_head_buf_size := length ?line, query_head_buf := ?b\<rparr>"
  let ?r = "?q\<lparr>qr_key := strncpy MAX_KEY_SIZE k, qr_cmd_type := ?ty, qr_parse_status := ps_succ\<rparr>"
  have "\<exists>pre. ?line = pre @ [CR, LF] \<and> (\<forall>c\<in>set pre. c \<noteq> 0) \<and> CR \<notin> set pre"
    using c key_line_facts [OF _ command_words(1) _ k(1,2), of cmd] key_line_facts [OF _ command_words(3) _ k(1,2), of cmd]
    by (auto simp: tolower_def CR_def)
  then obtain pre where pre: "?line = pre @ [CR, LF]" "\<forall>c\<in>set pre. c \<noteq> 0" "CR \<notin> set pre" by blast
  have l0: "length ?line + length [] \<le> MAX_QUERY_HEADER_SIZE" using line by simp
  have "parse_memcached_string_head ?q = Some (RET_SUCCESS, ?r)"
    using parse_get_head [OF _ _ k(1,3), of ?q cmd] parse_delete_head [OF _ _ k(1,3), of ?q cmd]
      cut_line [OF l0 line] c by auto
  then have p: "parse_query_request_head ae (head_with (?line @ []) t) =
      Done (True, (head_with (?line @ []) t)\<lparr>query_request := ?r\<lparr>qr_data_size := -2\<rparr>, q_state := s_dispatch_query_task\<rparr>)"
    using parse_first_line [OF pre l0, of ae t] accepted_ok [OF t]
    by (auto simp: parsed_head_def Let_def change_query_task_state_def done_or_def head_with_def request_of_def)
  let ?t = "(head_with (?line @ []) t)\<lparr>query_request := ?r\<lparr>qr_data_size := -2\<rparr>, q_state := s_dispatch_query_task\<rparr>"
  have ne: "?line @ [] \<noteq> []" "length (?line @ []) \<le> MAX_QUERY_HEADER_SIZE" using line by (simp_all add: key_line_def)
  note h = first_event [OF t ne, of api env ae, unfolded after_parse [OF p]]
  have "hands api env ae [RdData ?line] t (length ?line) ?t"
    using h hand_over [of ?t ae _ "handler_fuel - 3" api env True "[]"] ae by (simp add: hands_def head_with_def del: event_loop.simps)
  moreover have "cstr (strncpy MAX_KEY_SIZE k) = k" using k by (intro cstr_strncpy) (auto simp: word_chars_def)
  then have "asks r ?t"
    using c k(3) accepted_ok [OF t] by (auto simp: fresh_task_def head_with_def empty_response_def)
  ultimately show ?thesis by (rule last_piece)
qed

lemmas key_arrives = delivers_run [OF key_delivers]

text \<open>A line that is not a request, with whatever comes behind it.\<close>

lemma bad_delivers:
  assumes t: "do_accept_connection accept_fd True = Some t" and u: "unknown_line line"
    and l: "line = pre @ [CR, LF]" "\<forall>c\<in>set pre. c \<noteq> 0" "CR \<notin> set pre" "length line < MAX_QUERY_HEADER_SIZE"
    and len: "length line + length d0 \<le> MAX_QUERY_HEADER_SIZE" and ae: "pipe_write_ok ae"
  shows "delivers api env ae CBad [[RdData (line @ d0)]] t (length (line @ d0))"
proof -
  let ?b = "((line @ d0) @ replicate (MAX_QUERY_HEADER_SIZE - length (line @ d0)) 0)[length line := 0]"
  let ?q = "(request_of [])\<lparr>query_head_buf_size := length line, query_head_buf := ?b\<rparr>"
  let ?r = "?q\<lparr>qr_cmd_type := cmd_unknown, qr_parse_status := ps_failed, query_head_buf := ?b[length (cstr ?b) - 2 := 0]\<rparr>"
  let ?t = "(head_with (line @ d0) t)\<lparr>query_request := ?r, error_log := Some ''parse request failed'', q_state := s_return_failed\<rparr>"
  have "\<forall>c\<in>set line. c \<noteq> 0" using l(1,2) by (auto simp: char_defs)
  then have "parse_memcached_string_head ?q = Some (RET_PARSE_REQ_FAILED, ?q\<lparr>qr_cmd_type := cmd_unknown, qr_parse_status := ps_failed\<rparr>)"
    using parse_unknown_head [of ?q line] u cut_line [OF len l(4)] by simp
  then have p: "parse_query_request_head ae (head_with (line @ d0) t) = Done (True, ?t)"
    using parse_first_line [OF l(1-3) len, of ae t] accepted_ok(7) [OF t]
    by (simp add: parsed_head_def Let_def change_query_task_state_def done_or_def head_with_def Log_def ret_code_defs)
  have ne: "line @ d0 \<noteq> []" "length (line @ d0) \<le> MAX_QUERY_HEADER_SIZE" using l(1) len by simp_all
  note h = first_event [OF t ne, of api env ae, unfolded after_parse [OF p]]
  have "hands api env ae [RdData (line @ d0)] t (length (line @ d0)) ?t"
    using h hand_over [of ?t ae _ "handler_fuel - 3" api env True "[]"] ae by (simp add: hands_def head_with_def del: event_loop.simps)
  moreover have "asks CBad ?t" using accepted_ok(6) [OF t] by (simp add: head_with_def empty_response_def)
  ultimately show ?thesis by (rule last_piece)
qed

section \<open>Requests that do harm\<close>

lemma set_overflow:
  assumes t: "do_accept_connection accept_fd True = Some t" and c: "strcaseeq cmd (str ''set'')"
    and k: "word_chars k" "CR \<notin> set k" "length k < MAX_KEY_SIZE" and fe: "f < 2 ^ 31" "e < 2 ^ 31" and n: "n < 2 ^ 62"
    and line: "line = set_line cmd k f e n" "length line < MAX_QUERY_HEADER_SIZE"
    and len: "length line + length d0 \<le> MAX_QUERY_HEADER_SIZE"
  shows "(\<not> alloc_ok ae (n + 2) \<longrightarrow> query_io_event_handler EV_READ api env ae False [RdData (line @ d0)] t st = Abort) \<and>
    (alloc_ok ae (n + 2) \<and> length d0 > n + 2 + alloc_slack ae (n + 2) \<longrightarrow>
      query_io_event_handler EV_READ api env ae False [RdData (line @ d0)] t st = Overflow) \<and>
    (alloc_ok ae (n + 2) \<and> length d0 > n + 2 \<and> length d0 \<le> n + 2 + alloc_slack ae (n + 2) \<longrightarrow>
      (\<exists>t'. query_io_event_handler EV_READ api env ae False [RdData (line @ d0)] t st =
          Done (Destroyed t', [], count_in (length (line @ d0)) st) \<and>
        qr_data (query_request t') = Some d0 \<and> unat (qr_data_size (query_request t')) = n + 2 \<and>
        need_read t' = int (n + 2) - int (length d0))) \<and>
    (length d0 \<le> n + 2 \<longrightarrow> query_io_event_handler EV_READ api env ae False [RdData (line @ d0)] t st \<noteq> Overflow)"
proof -
  have ne: "line @ d0 \<noteq> []" "length (line @ d0) \<le> MAX_QUERY_HEADER_SIZE" using line(1) len by (simp_all add: set_line_def)
  have sz: "unat (word_of_nat n + 2 :: u64) = n + 2" using n by (simp add: unat_word_ariths unat_of_nat)
  let ?h = "head_with (line @ d0) t" and ?st = "count_in (length (line @ d0)) st"
  have st: "q_state ?h = s_parse_req_head" "error_log ?h = None" using accepted_ok(7) [OF t] by (simp_all add: head_with_def)
  have dl: "length d0 \<le> 512" using len by (simp add: protocol_consts)
  have nr: "sint (word_of_nat n + 2 - word_of_nat (length d0) :: u64) = int (n + 2) - int (length d0)"
  proof -
    have w: "(word_of_nat n + 2 - word_of_nat (length d0) :: u64) = word_of_int (int (n + 2) - int (length d0))" by simp
    have "- (2 ^ 63) \<le> int (n + 2) - int (length d0)" "int (n + 2) - int (length d0) < 2 ^ 63" using n dl by simp_all
    then show ?thesis unfolding w sint_sbintrunc' by (intro signed_take_bit_int_eq_self) simp_all
  qed
  note p = set_parsed [OF c k fe n line len, of ae t]
  note first = first_event [OF t ne, of api env ae st]
  define t1 where "t1 = ?h\<lparr>query_request := (set_request line d0 k f e n)\<lparr>qr_data_size := word_of_nat n + 2,
      qr_data := Some (put_at 0 d0 (map (junk ae) [0..<n + 2]))\<rparr>, need_read := int (n + 2) - int (length d0)\<rparr>"
  have s: "parse_query_request_head ae ?h =
    (if \<not> alloc_ok ae (n + 2) then Abort else if length d0 > n + 2 + alloc_slack ae (n + 2) then Overflow
     else if length d0 = n + 2 then done_or (change_query_task_state t1 s_dispatch_query_task) (Pair True)
     else if length d0 < n + 2 then done_or (change_query_task_state t1 s_recv_req_data) (Pair False)
     else Done (True, t1\<lparr>q_state := s_destroy_recv\<rparr>))"
    unfolding p start_set_def Let_def t1_def
    using sz nr by (auto simp: set_request_def change_query_task_state_def done_or_def)
  have one: "query_io_event_handler EV_READ api env ae False [RdData (line @ d0)] t st = x" if "parse_query_request_head ae ?h = x'"
    "x' = Abort \<and> x = Abort \<or> x' = Overflow \<and> x = Overflow" for x x'
    using first that st by (auto simp: event_loop.simps(2) event_step_def)
  have destroyed: "query_io_event_handler EV_READ api env ae False [RdData (line @ d0)] t st = Done (Destroyed (t1\<lparr>q_state := s_destroy_recv\<rparr>), [], ?st)"
    if "parse_query_request_head ae ?h = Done (True, t1\<lparr>q_state := s_destroy_recv\<rparr>)"
    using first unfolding after_parse [OF that] by (simp add: event_step_def)
  have fits: "query_io_event_handler EV_READ api env ae False [RdData (line @ d0)] t st \<noteq> Overflow" if "length d0 \<le> n + 2"
  proof (cases "alloc_ok ae (n + 2)")
    case True
    note le = that
    have e: "error_log t1 = None" using st(2) by (simp add: t1_def)
    show ?thesis
    proof (cases "length d0 = n + 2")
      case True
      then obtain t2 where "parse_query_request_head ae ?h = Done (True, t2)" "q_state t2 = s_dispatch_query_task"
        using s \<open>alloc_ok ae (n + 2)\<close> e by (auto simp: change_query_task_state_def done_or_def Let_def)
      then show ?thesis
        using first after_parse [of ae "line @ d0" t True t2 "handler_fuel - 3" api env ?st]
        by (simp add: event_step_def dispatch_query_task_def Let_def)
    next
      case False
      then obtain t2 where "parse_query_request_head ae ?h = Done (False, t2)"
        using s True le e by (auto simp: change_query_task_state_def done_or_def Let_def)
      then show ?thesis using first after_parse [of ae "line @ d0" t False t2 "handler_fuel - 3" api env ?st] by simp
    qed
  qed (use one [OF s] in auto)
  show ?thesis
    using one [OF s] destroyed s fits sz by (auto simp: t1_def set_request_def put_at_def)
qed

lemma takeWhile_cut: "\<not> P y \<Longrightarrow> takeWhile P (xs @ y # ys) = takeWhile P xs"
  by (induction xs) auto

lemma split_head_dropped:
  assumes t: "do_accept_connection accept_fd True = Some t" and bs: "bs \<noteq> []" "length bs < MAX_QUERY_HEADER_SIZE"
    and no: "find_crlf (takeWhile (\<lambda>c. c \<noteq> 0) bs) = None"
  shows "\<exists>t'. query_io_event_handler EV_READ api env ae False [RdData bs] t st = Done (Destroyed t', [], count_in (length bs) st)"
proof -
  let ?t = "head_with bs t"
  have l: "length bs \<le> MAX_QUERY_HEADER_SIZE" using bs(2) by simp
  obtain m where m: "MAX_QUERY_HEADER_SIZE - length bs = Suc m" using bs(2) by (cases "MAX_QUERY_HEADER_SIZE - length bs") auto
  have "takeWhile (\<lambda>c. c \<noteq> 0) (bs @ replicate (MAX_QUERY_HEADER_SIZE - length bs) 0 @ x) = takeWhile (\<lambda>c. c \<noteq> 0) bs" for x
    unfolding m by (simp add: takeWhile_cut)
  then have "try_parse_memcached_string_head (query_request ?t) = None"
    using no by (simp add: try_parse_memcached_string_head_def head_with_def cstr_at_def)
  then have p: "parse_query_request_head ae ?t = Done (True, ?t\<lparr>q_state := s_recv_req_head,
      need_read := int MAX_QUERY_HEADER_SIZE - int (length bs)\<rparr>)"
    using bs(2) by (simp add: parse_query_request_head_def change_query_task_state_def done_or_def head_with_def Let_def)
  let ?t1 = "?t\<lparr>q_state := s_recv_req_head, need_read := int MAX_QUERY_HEADER_SIZE - int (length bs)\<rparr>"
  have r: "\<exists>t2. recv_req_head [] io ?t1 = Done (True, t2, [], io) \<and> q_state t2 = s_destroy_recv" for io
    using accepted_ok(7) [OF t]
    by (simp add: recv_req_head_def change_query_task_state_def done_or_def head_with_def Log_def Let_def)
  then obtain t2 where t2: "recv_req_head [] (received (length bs) (a_io st)) ?t1 = Done (True, t2, [], received (length bs) (a_io st))" "q_state t2 = s_destroy_recv" by blast
  let ?st = "count_in (length bs) st"
  have f: "handler_fuel - 3 = Suc (handler_fuel - 4)" by (simp add: handler_fuel_def protocol_consts)
  have "event_loop (Suc (handler_fuel - 3)) api env ae True [] ?t1 ?st = Done (Destroyed t2, [], ?st)"
    unfolding f using t2 by (simp add: event_step_def)
  then show ?thesis
    using first_event [OF t bs(1) l, of api env ae st] after_parse [OF p, of "handler_fuel - 3" api env ?st] by simp
qed

section \<open>Round robin\<close>

fun dispatch_all :: "assign_env \<Rightarrow> query_task_s list \<Rightarrow> 'db assign_state \<Rightarrow> (nat list \<times> 'db assign_state) outcome" where
  "dispatch_all ae [] st = Done ([], st)"
| "dispatch_all ae (t # ts) st =
    (case dispatch_query_task ae t st of
      Done (Handed t' w, st) \<Rightarrow> (case dispatch_all ae ts st of Done (ws, st) \<Rightarrow> Done (w # ws, st) | _ \<Rightarrow> Abort)
    | _ \<Rightarrow> Abort)"

lemma unat_succ: "unat x < unat (c :: u64) \<Longrightarrow> unat (x + 1 :: u64) = unat x + 1"
proof -
  assume "unat x < unat c"
  moreover have "unat c < 18446744073709551616" using unat_less [of c] by simp
  ultimately show ?thesis by (simp add: unat_word_ariths)
qed

lemma dispatch_one:
  assumes "pipe_write_ok ae" and "0 < worker_thread_cnt ae" and "last_fd st \<le> worker_thread_cnt ae"
  shows "\<exists>st'. dispatch_query_task ae t st = Done (Handed t (unat (last_fd st) mod unat (worker_thread_cnt ae)), st') \<and>
    last_fd st' \<le> worker_thread_cnt ae \<and>
    unat (last_fd st') mod unat (worker_thread_cnt ae) = (unat (last_fd st) + 1) mod unat (worker_thread_cnt ae)"
proof -
  let ?c = "worker_thread_cnt ae" and ?l = "last_fd st"
  let ?fd = "if ?l \<ge> ?c then 0 else ?l"
  have c: "0 < unat ?c" "unat ?l \<le> unat ?c" using assms(2,3) by (auto simp: word_less_nat_alt word_le_nat_alt)
  have fd: "unat ?fd = unat ?l mod unat ?c" "unat ?fd < unat ?c"
    using c by (auto simp: word_le_nat_alt)
  then have "unat (?fd + 1) = unat ?fd + 1" by (intro unat_succ)
  moreover have "(unat ?l mod unat ?c + 1) mod unat ?c = (unat ?l + 1) mod unat ?c" by (simp add: mod_simps)
  ultimately show ?thesis
    using assms(1) fd
    by (simp add: dispatch_query_task_def atomic_uint_lte_def atomic_uint_inc_def atomic_uint_add_def word_le_nat_alt Let_def)
qed

lemma dispatch_rotates:
  assumes ae: "pipe_write_ok ae" "0 < worker_thread_cnt ae" and "last_fd st \<le> worker_thread_cnt ae"
  shows "\<exists>st'. dispatch_all ae ts st =
    Done (map (\<lambda>j. (unat (last_fd st) + j) mod unat (worker_thread_cnt ae)) [0..<length ts], st')"
  using assms(3)
proof (induction ts arbitrary: st)
  case (Cons t ts)
  let ?c = "unat (worker_thread_cnt ae)"
  obtain st1 where s1: "dispatch_query_task ae t st = Done (Handed t (unat (last_fd st) mod ?c), st1)"
      "last_fd st1 \<le> worker_thread_cnt ae" "unat (last_fd st1) mod ?c = (unat (last_fd st) + 1) mod ?c"
    using dispatch_one [OF ae Cons.prems, of t] by blast
  obtain st2 where "dispatch_all ae ts st1 = Done (map (\<lambda>j. (unat (last_fd st1) + j) mod ?c) [0..<length ts], st2)"
    using Cons.IH [OF s1(2)] by blast
  moreover have "(unat (last_fd st1) + j) mod ?c = (unat (last_fd st) + Suc j) mod ?c" for j
    using s1(3) by (metis add.assoc mod_add_left_eq plus_1_eq_Suc)
  moreover have "[0..<Suc (length ts)] = 0 # map Suc [0..<length ts]" by (subst upt_conv_Cons) (simp_all add: map_Suc_upt)
  ultimately show ?case using s1(1) by (simp del: upt_Suc)
qed simp

section \<open>Properties\<close>

definition good_assign :: assign_env where
  "good_assign = \<lparr>worker_thread_cnt = 8, pipe_write_ok = True, alloc_ok = (\<lambda>n. True), alloc_slack = (\<lambda>n. 0), junk = (\<lambda>n. 0)\<rparr>"

abbreviation "start_assign s \<equiv> \<lparr>last_fd = 0, pipes = (\<lambda>_. []), g_storage = s, a_io = no_io\<rparr>"

text \<open>A new connection.\<close>

definition new_task :: query_task_s where
  "new_task = \<lparr>sock_fd = 9, thread_id = 0, error_log = None, q_state = s_recv_req_head, have_read = 0, need_read = 512,
    query_request = request_of [], query_response = empty_response\<rparr>"

lemma new_task_accepted: "do_accept_connection 9 True = Some new_task"
  by (simp add: do_accept_connection_def change_query_task_state_def new_task_def protocol_consts Let_def)

text \<open>
  C9. The event handler always ends its loop: whatever a client sends and however it is cut, the
  fuel of 1030 rounds is never used up, no assertion fails (with memory, pipes and storage
  healthy), and a connection that is left waiting satisfies the invariant and can be timed out
  without a failed assertion. What remains besides a regular end is the retry of
  \<open>recv_req_data\<close> on a silent socket (\<open>Spin\<close>) and the copy shown below (\<open>Overflow\<close>).
\<close>

theorem handler_terminates:
  assumes "task_ok t" and "storage_inv view good (g_storage st)" and "full_env env"
    and "pipe_write_ok ae" and "\<forall>n. alloc_ok ae n"
  shows "query_io_event_handler EV_READ api env ae nl rs t st \<notin> {NoFuel, Abort} \<and>
    (\<forall>t' rs' st'. query_io_event_handler EV_READ api env ae nl rs t st = Done (Open t', rs', st') \<longrightarrow>
      task_ok t' \<and> query_timer_event_handler EV_TIMEOUT t' \<noteq> None)"
proof -
  have "wait_ok (query_io_event_handler EV_READ api env ae nl rs t st)"
    using event_loop_ok [OF assms(1,2) rounds_le_fuel [OF assms(1)] assms(3-5)] by (simp add: query_io_event_handler_def)
  then show ?thesis by (auto simp: query_timer_event_handler_def Log_def)
qed

theorem handler_terminates_witness:
  "\<exists>s. query_io_event_handler EV_READ mem_db good_env good_assign False [RdData (str ''get ''), RdAgain, RdErr] new_task (start_assign s)
    \<notin> {NoFuel, Abort}"
proof (rule one_value_store)
  fix s :: "(bytes \<times> bytes) list storage"
  assume s: "storage_inv map_of (\<lambda>d. True) s"
  show ?thesis
    using handler_terminates [OF accepted_ok(1) [OF new_task_accepted], where st = "start_assign s" and api = mem_db
        and env = good_env and ae = good_assign and nl = False and rs = "[RdData (str ''get ''), RdAgain, RdErr]"
        and view = map_of and good = "\<lambda>d. True"] s full_good_env
    by (intro exI [where x = s]) (simp add: good_assign_def)
qed

text \<open>
  C8. A set request whose line comes in the first read arrives whole, however the data behind the line
  is cut into the first and later reads: no byte is lost or reordered, and the request is put into the pipe of
  one worker with the key, the length and exactly the data of the client. The counter of bytes
  read from the network grows by the size of the request. (A line that is cut is not put together: see C40.)
\<close>

theorem set_request_delivered:
  assumes "do_accept_connection accept_fd True = Some t" and "strcaseeq cmd (str ''set'')"
    and "word_chars k" and "CR \<notin> set k" and "length k < MAX_KEY_SIZE"
    and "f < 2 ^ 31" and "e < 2 ^ 31" and "length d < 2 ^ 62"
    and "line = set_line cmd k f e (length d)" and "length line < MAX_QUERY_HEADER_SIZE"
    and "length line + length dh \<le> MAX_QUERY_HEADER_SIZE" and "dh @ concat cs = d @ [CR, LF]" and "[] \<notin> set cs"
    and "pipe_write_ok ae" and "\<forall>n. alloc_ok ae n"
  shows "\<exists>t' p st'. run_events api env ae ([RdData (line @ dh)] # map (\<lambda>c. [RdData c]) cs) [] t st = Done (Handed t' p, st') \<and>
    asks (CSet k d) t' \<and> pipes st' = (pipes st)(p := pipes st p @ [t']) \<and> g_storage st' = g_storage st \<and>
    a_io st' = received (length line + length d + 2) (a_io st)"
  by (rule delivers_run [OF set_delivers [OF assms] assms(14)])

theorem set_request_delivered_witness:
  "\<exists>t' p st'. run_events mem_db good_env good_assign
      [[RdData (set_line (str ''set'') (str ''k'') 0 0 (length [1, 0, 3, 4, 5 :: u8]) @ [1, 0])], [RdData [3]], [RdData [4, 5, CR]], [RdData [LF]]] []
      new_task (start_assign start_storage) = Done (Handed t' p, st') \<and> asks (CSet (str ''k'') [1, 0, 3, 4, 5]) t'"
proof -
  have l: "length (set_line (str ''set'') (str ''k'') 0 0 (length [1, 0, 3, 4, 5 :: u8])) = 13"
    by (simp add: set_line_def decimal.simps)
  show ?thesis
    using set_request_delivered [OF new_task_accepted, where cmd = "str ''set''" and k = "str ''k''" and f = 0 and e = 0
        and d = "[1, 0, 3, 4, 5]" and line = "set_line (str ''set'') (str ''k'') 0 0 (length [1, 0, 3, 4, 5 :: u8])"
        and dh = "[1, 0]" and cs = "[[3], [4, 5, CR], [LF]]" and ae = good_assign and api = mem_db and env = good_env
        and st = "start_assign start_storage"] l
    by (auto simp: strcaseeq_def word_chars_def char_defs protocol_consts good_assign_def simp del: asks.simps run_events.simps)
qed

text \<open>
  C39. A set line can end the process or write outside memory. When no memory can be had for the announced size, an
  assertion fails. When more data follows in the first read than was announced, all of it is copied: past the end of the
  memory that was asked for and, when the allocator's block ends there or before the excess does, past the end of the
  block; when the block has room the connection is only destroyed, with more bytes written than were asked for. Data that
  is not longer than announced does no harm. (An excess in a later read is not copied: \<open>recv_req_data\<close> reads no more
  than is missing.)
\<close>

theorem set_request_harm:
  assumes "do_accept_connection accept_fd True = Some t" and "strcaseeq cmd (str ''set'')"
    and "word_chars k" and "CR \<notin> set k" and "length k < MAX_KEY_SIZE"
    and "f < 2 ^ 31" and "e < 2 ^ 31" and "n < 2 ^ 62"
    and "line = set_line cmd k f e n" and "length line < MAX_QUERY_HEADER_SIZE"
    and "length line + length dh \<le> MAX_QUERY_HEADER_SIZE"
  shows "(\<not> alloc_ok ae (n + 2) \<longrightarrow> query_io_event_handler EV_READ api env ae False [RdData (line @ dh)] t st = Abort) \<and>
    (alloc_ok ae (n + 2) \<and> length dh > n + 2 + alloc_slack ae (n + 2) \<longrightarrow>
      query_io_event_handler EV_READ api env ae False [RdData (line @ dh)] t st = Overflow) \<and>
    (alloc_ok ae (n + 2) \<and> length dh > n + 2 \<and> length dh \<le> n + 2 + alloc_slack ae (n + 2) \<longrightarrow>
      (\<exists>t'. query_io_event_handler EV_READ api env ae False [RdData (line @ dh)] t st =
          Done (Destroyed t', [], count_in (length (line @ dh)) st) \<and>
        qr_data (query_request t') = Some dh \<and> unat (qr_data_size (query_request t')) = n + 2 \<and>
        need_read t' = int (n + 2) - int (length dh))) \<and>
    (length dh \<le> n + 2 \<longrightarrow> query_io_event_handler EV_READ api env ae False [RdData (line @ dh)] t st \<noteq> Overflow)"
  using assms by (rule set_overflow)

theorem set_request_harm_witness:
  "query_io_event_handler EV_READ mem_db good_env good_assign False
      [RdData (set_line (str ''set'') (str ''k'') 0 0 1 @ [1, 2, 3, 4])] new_task (start_assign start_storage) = Overflow \<and>
    (\<exists>t' st'. query_io_event_handler EV_READ mem_db good_env (good_assign\<lparr>alloc_slack := (\<lambda>n. 5)\<rparr>) False
      [RdData (set_line (str ''set'') (str ''k'') 0 0 1 @ [1, 2, 3, 4])] new_task (start_assign start_storage) = Done (Destroyed t', [], st'))"
proof -
  have l: "length (set_line (str ''set'') (str ''k'') 0 0 1) = 13" by (simp add: set_line_def decimal.simps)
  note h = set_request_harm [OF new_task_accepted, where cmd = "str ''set''" and k = "str ''k''" and f = 0 and e = 0
        and n = 1 and line = "set_line (str ''set'') (str ''k'') 0 0 1" and dh = "[1, 2, 3, 4]"
        and api = mem_db and env = good_env and st = "start_assign start_storage"]
  show ?thesis
    using h [where ae = good_assign] h [where ae = "good_assign\<lparr>alloc_slack := (\<lambda>n. 5)\<rparr>"] l
    by (auto simp: strcaseeq_def word_chars_def char_defs protocol_consts good_assign_def)
qed

text \<open>
  C40. A request line that does not come in one piece is refused: after a first read without a line
  end, the handler reads again at once, and when nothing more is there it drops the connection.
\<close>

theorem split_head_refused:
  assumes "do_accept_connection accept_fd True = Some t" and "bs \<noteq> []" and "length bs < MAX_QUERY_HEADER_SIZE"
    and "find_crlf (takeWhile (\<lambda>c. c \<noteq> 0) bs) = None"
  shows "\<exists>t'. query_io_event_handler EV_READ api env ae False [RdData bs] t st = Done (Destroyed t', [], count_in (length bs) st)"
  using assms by (rule split_head_dropped)

theorem split_head_refused_witness:
  "\<exists>t'. query_io_event_handler EV_READ mem_db good_env good_assign False [RdData (str ''get ke'')] new_task (start_assign start_storage) =
    Done (Destroyed t', [], count_in 6 (start_assign start_storage))"
proof -
  let ?bs = "str ''get ke''"
  have n: "length ?bs = 6" by simp
  have "?bs \<noteq> []" "length ?bs < MAX_QUERY_HEADER_SIZE" "find_crlf (takeWhile (\<lambda>c. c \<noteq> 0) ?bs) = None"
    by (simp_all add: protocol_consts CR_def)
  from split_head_refused [OF new_task_accepted this, of mem_db good_env good_assign "start_assign start_storage"]
  show ?thesis unfolding n .
qed

text \<open>
  C34. Requests go round the workers: with any number of workers, the requests dispatched one
  after the other go to consecutive workers, beginning again with the first after the last,
  and every worker index is in range.
\<close>

theorem dispatch_round_robin:
  assumes "pipe_write_ok ae" and "0 < worker_thread_cnt ae" and "last_fd st \<le> worker_thread_cnt ae"
  shows "\<exists>ws st'. dispatch_all ae ts st = Done (ws, st') \<and> length ws = length ts \<and>
    (\<forall>j < length ts. ws ! j = (unat (last_fd st) + j) mod unat (worker_thread_cnt ae) \<and>
      ws ! j < unat (worker_thread_cnt ae))"
  using dispatch_rotates [OF assms, of ts] assms(2) by (auto simp: word_less_nat_alt)

theorem dispatch_round_robin_witness:
  "\<exists>ws st'. dispatch_all good_assign (replicate 9 new_task) (start_assign start_storage) = Done (ws, st') \<and> ws ! 8 = 0"
proof -
  obtain ws st' where "dispatch_all good_assign (replicate 9 new_task) (start_assign start_storage) = Done (ws, st')"
      "\<forall>j < length (replicate 9 new_task). ws ! j = (unat (0 :: u64) + j) mod unat (worker_thread_cnt good_assign) \<and>
        ws ! j < unat (worker_thread_cnt good_assign)"
    using dispatch_round_robin [of good_assign "start_assign start_storage" "replicate 9 new_task"]
    by (auto simp: good_assign_def)
  then show ?thesis by (auto simp: good_assign_def)
qed

end
