(* ===== verification/Task_Queues.thy ===== *)
theory Task_Queues
  imports Locked_Programs
begin

text \<open>
  Workers whose operations arrive while they work: between any two steps an operation may be appended to the
  queue of a worker, as the assign thread does with the pipes of the query threads. A worker only ever looks at the
  head of its queue, so that such a run is also a run of workers that had all their
  operations from the start (a simulation whose relation appends the future arrivals to the queues). With it
  the theorems of \<open>Locked_Programs\<close> hold for operations that arrive late.
\<close>

section \<open>Arrivals\<close>

datatype 'o task_event = Put nat 'o | Run nat

definition put_task :: "nat \<Rightarrow> 'o \<Rightarrow> ('s, 'l, 'o, 'r) cstate \<Rightarrow> ('s, 'l, 'o, 'r) cstate option" where
  "put_task i op c =
    (if \<not> i < length (workers c) then None
     else Some (c\<lparr>workers := (workers c)[i := (workers c ! i)\<lparr>w_todo := w_todo (workers c ! i) @ [op]\<rparr>]\<rparr>))"

fun run_tasks :: "('o \<Rightarrow> ('s, 'l, 'r) prog) \<Rightarrow> 'o task_event list \<Rightarrow> ('s, 'l, 'o, 'r) cstate \<Rightarrow> ('s, 'l, 'o, 'r) cstate option" where
  "run_tasks prog_of [] c = Some c"
| "run_tasks prog_of (Put i op # es) c = (case put_task i op c of None \<Rightarrow> None | Some c' \<Rightarrow> run_tasks prog_of es c')"
| "run_tasks prog_of (Run i # es) c = (case wstep prog_of i c of None \<Rightarrow> None | Some c' \<Rightarrow> run_tasks prog_of es c')"

text \<open>What arrives for a worker, and the steps of the workers.\<close>

fun arrivals :: "nat \<Rightarrow> 'o task_event list \<Rightarrow> 'o list" where
  "arrivals j [] = []"
| "arrivals j (Put i op # es) = (if i = j then [op] else []) @ arrivals j es"
| "arrivals j (Run i # es) = arrivals j es"

fun turns :: "'o task_event list \<Rightarrow> nat list" where
  "turns [] = []"
| "turns (Put i op # es) = turns es"
| "turns (Run i # es) = i # turns es"

lemma arrivals_append [simp]: "arrivals j (es @ fs) = arrivals j es @ arrivals j fs"
  by (induction es rule: turns.induct) auto

lemma turns_append [simp]: "turns (es @ fs) = turns es @ turns fs"
  by (induction es rule: turns.induct) auto

lemma run_tasks_append:
  "run_tasks prog_of (es @ fs) c = (case run_tasks prog_of es c of None \<Rightarrow> None | Some c' \<Rightarrow> run_tasks prog_of fs c')"
  by (induction es arbitrary: c rule: turns.induct) (auto split: option.split)

lemma run_tasks_turns: "run_tasks prog_of (map Run is) c = run_schedule prog_of is c"
  by (induction "is" arbitrary: c) (auto split: option.split)

lemma turns_runs [simp]: "turns (map Run is) = is" "arrivals j (map Run is) = []"
  by (induction "is") auto

section \<open>The simulation\<close>

text \<open>The queues with what will arrive.\<close>

definition with_future :: "(nat \<Rightarrow> 'o list) \<Rightarrow> ('s, 'l, 'o, 'r) cstate \<Rightarrow> ('s, 'l, 'o, 'r) cstate" where
  "with_future F c = c\<lparr>workers := map (\<lambda>(j, w). w\<lparr>w_todo := w_todo w @ F j\<rparr>) (List.enumerate 0 (workers c))\<rparr>"

lemma with_future_workers [simp]:
  "length (workers (with_future F c)) = length (workers c)" "shared (with_future F c) = shared c"
  "j < length (workers c) \<Longrightarrow> workers (with_future F c) ! j = (workers c ! j)\<lparr>w_todo := w_todo (workers c ! j) @ F j\<rparr>"
  by (simp_all add: with_future_def nth_enumerate_eq)

lemma cstate_eqI:
  fixes c d :: "('s, 'l, 'o, 'r) cstate"
  assumes "shared c = shared d" and "length (workers c) = length (workers d)"
    and "\<And>j. j < length (workers d) \<Longrightarrow> workers c ! j = workers d ! j"
  shows "c = d"
  using assms by (cases c; cases d) (auto intro: nth_equalityI)

lemma no_future [simp]: "with_future (\<lambda>j. []) c = c"
  by (rule cstate_eqI) simp_all

lemma future_start: "with_future F (cstart s (replicate n [])) = cstart s (map F [0..<n])"
  by (rule cstate_eqI) (simp_all add: cstart_def new_worker_def)

lemma can_lock_future:
  fixes c :: "('s, 'l, 'o, 'r) cstate"
  shows "can_lock l m (workers (with_future F c)) = can_lock l m (workers c)"
proof -
  have "can_lock l m ws \<longleftrightarrow> (\<forall>j<length ws. l \<notin> w_ex (ws ! j) \<and> (m = Ex \<longrightarrow> l \<notin> w_sh (ws ! j)))" for ws :: "('s, 'l, 'o, 'r) worker list"
    unfolding can_lock_def by (simp add: all_set_conv_all_nth)
  then show ?thesis by simp
qed

text \<open>A step does not depend on what is behind the head of a queue.\<close>

lemma move_future:
  assumes "move prog_of ws s w = Some (s', w')" and "\<And>l m. can_lock l m ws' = can_lock l m ws"
  shows "move prog_of ws' s (w\<lparr>w_todo := w_todo w @ f\<rparr>) = Some (s', w'\<lparr>w_todo := w_todo w' @ f\<rparr>)"
  using assms
  by (auto simp: move_def hold_def unhold_def split: option.splits list.splits prod.splits prog.splits lock_mode.splits if_splits)

lemma step_future:
  assumes "wstep prog_of i c = Some c'"
  shows "wstep prog_of i (with_future F c) = Some (with_future F c')"
proof -
  obtain s w where m: "i < length (workers c)" "move prog_of (workers c) (shared c) (workers c ! i) = Some (s, w)"
      and c': "c' = \<lparr>shared = s, workers = (workers c)[i := w]\<rparr>"
    using assms by (auto simp: wstep_def split: if_splits)
  have "\<lparr>shared = s, workers = (workers (with_future F c))[i := w\<lparr>w_todo := w_todo w @ F i\<rparr>]\<rparr> = with_future F c'"
    using m(1) by (intro cstate_eqI) (auto simp: c' nth_list_update)
  then show ?thesis using move_future [OF m(2) can_lock_future] m(1) by (simp add: wstep_def)
qed

lemma put_future:
  assumes "put_task i op c = Some c'" and "\<And>j. F j = (if j = i then [op] else []) @ G j"
  shows "with_future F c = with_future G c'"
  using assms by (intro cstate_eqI) (auto simp: put_task_def nth_list_update split: if_splits)

lemma run_future:
  "run_tasks prog_of es c = Some c' \<Longrightarrow>
    run_schedule prog_of (turns es) (with_future (\<lambda>j. arrivals j es @ G j) c) = Some (with_future G c')"
proof (induction es arbitrary: c rule: turns.induct)
  case (2 i op es)
  then obtain c1 where c1: "put_task i op c = Some c1" "run_tasks prog_of es c1 = Some c'" by (auto split: option.splits)
  have "with_future (\<lambda>j. arrivals j (Put i op # es) @ G j) c = with_future (\<lambda>j. arrivals j es @ G j) c1"
    by (rule put_future [OF c1(1)]) simp
  then show ?case using 2(1) [OF c1(2)] by simp
next
  case (3 i es)
  then obtain c1 where c1: "wstep prog_of i c = Some c1" "run_tasks prog_of es c1 = Some c'" by (auto split: option.splits)
  then show ?case using step_future [OF c1(1), of "\<lambda>j. arrivals j es @ G j"] 3(1) [OF c1(2)] by simp
qed simp

text \<open>A whole run, and its moments.\<close>

theorem late_tasks_as_early:
  assumes "run_tasks prog_of es (cstart s (replicate n [])) = Some c"
  shows "run_schedule prog_of (turns es) (cstart s (map (\<lambda>j. arrivals j es) [0..<n])) = Some c"
  using run_future [OF assms, of "\<lambda>j. []"] by (simp add: future_start)

lemma late_tasks_moment:
  assumes "run_tasks prog_of es (cstart s (replicate n [])) = Some c"
  shows "run_schedule prog_of (turns es) (cstart s (map (\<lambda>j. arrivals j (es @ fs)) [0..<n])) = Some (with_future (\<lambda>j. arrivals j fs) c)"
  using run_future [OF assms, of "\<lambda>j. arrivals j fs"] by (simp add: future_start)

end
