(* ===== verification/Node.thy ===== *)
theory Node
  imports Assign_Thread Worker_Threads Task_Queues
begin

text \<open>
  The data node as a whole: the assign thread of \<^verbatim>\<open>src/src/assign_thread.c\<close> beside the query threads of
  \<^verbatim>\<open>src/src/query_thread.c\<close>. The events are those of the two event loops: a connection is accepted, bytes arrive on one, its timer
  runs out, a query thread makes a step. A call of a handler by the assign thread is one step: it touches the connection, the
  counter \<open>last_fd\<close> and the counters of bytes, which no query thread reads, and appends to a pipe. The pipes are the queues of
  theory \<open>Task_Queues\<close>; the query threads run the programs of theory \<open>Worker_Threads\<close>, with their locks. The command \<open>sync\<close> is
  one step here; a run is not followed beyond \<open>power halt\<close>.

  The result: clients that connect, send their request line at once and its data in pieces, in any interleaving, give up before they are through, or send a line
  that is no request, are answered as by one map, and in an order that respects time.
\<close>

section \<open>Events\<close>

text \<open>\<open>n_handed\<close> is the list of what went into which pipe.\<close>

record 'db node =
  n_conns :: "int \<rightharpoonup> query_task_s \<times> read_res list"
  n_last_fd :: u64
  n_io :: io_stat_s
  n_handed :: "(nat \<times> query_task_s) list"
  n_pool :: "('db storage, store_lock, int \<times> query_task_s, bytes option) cstate"

text \<open>\<open>accept_connection\<close>: the new socket, with memory for its task or not; a call of \<open>query_io_event_handler\<close> with what has arrived;
  a call of \<open>query_timer_event_handler\<close>; a step of a query thread.\<close>

datatype node_event = NAccept int bool | NArrive int "read_res list" | NTimeout int | NWork nat

definition assign_part :: "'db node \<Rightarrow> 'db assign_state" where
  "assign_part nd = \<lparr>last_fd = n_last_fd nd, pipes = (\<lambda>_. []), g_storage = shared (n_pool nd), a_io = n_io nd\<rparr>"

definition after_handler :: "int \<Rightarrow> conn \<Rightarrow> read_res list \<Rightarrow> 'db assign_state \<Rightarrow> 'db node \<Rightarrow> 'db node option" where
  "after_handler sk c rest st nd =
    (let nd = nd\<lparr>n_last_fd := last_fd st, n_io := a_io st, n_pool := (n_pool nd)\<lparr>shared := g_storage st\<rparr>\<rparr>
     in case c of
          Open t \<Rightarrow> Some (nd\<lparr>n_conns := (n_conns nd)(sk \<mapsto> (t, rest))\<rparr>)
        | Destroyed t \<Rightarrow> Some (nd\<lparr>n_conns := (n_conns nd)(sk := None)\<rparr>)
        | Exited \<Rightarrow> None
        | Handed t w \<Rightarrow>
            map_option (\<lambda>p. nd\<lparr>n_conns := (n_conns nd)(sk := None), n_handed := n_handed nd @ [(w, t)], n_pool := p\<rparr>)
              (put_task w (int w, t) (n_pool nd)))"

fun node_step :: "'db db_api \<Rightarrow> sys_env \<Rightarrow> sock_env \<Rightarrow> assign_env \<Rightarrow> node_event \<Rightarrow> 'db node \<Rightarrow> 'db node option" where
  "node_step api env io ae (NAccept sk mem) nd =
    (if n_conns nd sk \<noteq> None then None
     else case do_accept_connection sk mem of
       None \<Rightarrow> Some nd | Some t \<Rightarrow> Some (nd\<lparr>n_conns := (n_conns nd)(sk \<mapsto> (t, []))\<rparr>))"
| "node_step api env io ae (NArrive sk rs) nd =
    (case n_conns nd sk of
      None \<Rightarrow> None
    | Some (t, rest) \<Rightarrow>
        (case query_io_event_handler EV_READ api env ae False (rest @ rs) t (assign_part nd) of
          Done (c, rest, st) \<Rightarrow> after_handler sk c rest st nd
        | _ \<Rightarrow> None))"
| "node_step api env io ae (NTimeout sk) nd =
    (case n_conns nd sk of
      None \<Rightarrow> None
    | Some (t, rest) \<Rightarrow> map_option (\<lambda>c. nd\<lparr>n_conns := (n_conns nd)(sk := None)\<rparr>) (query_timer_event_handler EV_TIMEOUT t))"
| "node_step api env io ae (NWork i) nd =
    map_option (\<lambda>p. nd\<lparr>n_pool := p\<rparr>) (wstep (task_prog api env io) i (n_pool nd))"

fun node_run :: "'db db_api \<Rightarrow> sys_env \<Rightarrow> sock_env \<Rightarrow> assign_env \<Rightarrow> node_event list \<Rightarrow> 'db node \<Rightarrow> 'db node option" where
  "node_run api env io ae [] nd = Some nd"
| "node_run api env io ae (ev # evs) nd =
    (case node_step api env io ae ev nd of None \<Rightarrow> None | Some nd' \<Rightarrow> node_run api env io ae evs nd')"

text \<open>The node after its start: no connection, the threads idle.\<close>

definition node_start :: "assign_env \<Rightarrow> 'db storage \<Rightarrow> 'db node" where
  "node_start ae s = \<lparr>n_conns = (\<lambda>_. None), n_last_fd = 0, n_io = no_io, n_handed = [],
    n_pool = cstart s (replicate (unat (worker_thread_cnt ae)) [])\<rparr>"

text \<open>What was sent on a socket: a query thread has answered its first tasks.\<close>

definition tasks_for :: "nat \<Rightarrow> 'db node \<Rightarrow> query_task_s list" where
  "tasks_for i nd = map snd (filter (\<lambda>x. fst x = i) (n_handed nd))"

definition replies :: "'db node \<Rightarrow> int \<Rightarrow> bytes option list" where
  "replies nd sk = concat (map (\<lambda>i. map snd (filter (\<lambda>x. sock_fd (fst x) = sk) (zip (tasks_for i nd) (w_done (workers (n_pool nd) ! i)))))
    [0..<length (workers (n_pool nd))])"

section \<open>Clients\<close>

text \<open>A client has a socket of its own, a request, and the pieces in which the bytes of the request arrive.\<close>

record client =
  cl_fd :: int
  cl_req :: client_req
  cl_reads :: "read_res list list"

text \<open>The pieces: the request line comes whole and with the first, the data is cut anywhere. A line that is no request may have
  anything behind it.\<close>

inductive sends :: "client_req \<Rightarrow> read_res list list \<Rightarrow> bool" where
  sends_set: "strcaseeq cmd (str ''set'') \<Longrightarrow> word_chars k \<Longrightarrow> CR \<notin> set k \<Longrightarrow> length k < MAX_KEY_SIZE \<Longrightarrow>
    f < 2 ^ 31 \<Longrightarrow> e < 2 ^ 31 \<Longrightarrow> length d < 2 ^ 62 \<Longrightarrow> line = set_line cmd k f e (length d) \<Longrightarrow>
    length line < MAX_QUERY_HEADER_SIZE \<Longrightarrow> length line + length dh \<le> MAX_QUERY_HEADER_SIZE \<Longrightarrow>
    dh @ concat cs = d @ [CR, LF] \<Longrightarrow> [] \<notin> set cs \<Longrightarrow> sends (CSet k d) ([RdData (line @ dh)] # map (\<lambda>c. [RdData c]) cs)"
| sends_get: "strcaseeq cmd (str ''get'') \<Longrightarrow> word_chars k \<Longrightarrow> CR \<notin> set k \<Longrightarrow> length k < MAX_KEY_SIZE \<Longrightarrow>
    length (key_line cmd k) < MAX_QUERY_HEADER_SIZE \<Longrightarrow> sends (CGet k) [[RdData (key_line cmd k)]]"
| sends_delete: "strcaseeq cmd (str ''delete'') \<Longrightarrow> word_chars k \<Longrightarrow> CR \<notin> set k \<Longrightarrow> length k < MAX_KEY_SIZE \<Longrightarrow>
    length (key_line cmd k) < MAX_QUERY_HEADER_SIZE \<Longrightarrow> sends (CDel k) [[RdData (key_line cmd k)]]"
| sends_bad: "unknown_line line \<Longrightarrow> line = pre @ [CR, LF] \<Longrightarrow> \<forall>c\<in>set pre. c \<noteq> 0 \<Longrightarrow> CR \<notin> set pre \<Longrightarrow>
    length line < MAX_QUERY_HEADER_SIZE \<Longrightarrow> length line + length d \<le> MAX_QUERY_HEADER_SIZE \<Longrightarrow> sends CBad [[RdData (line @ d)]]"

definition script :: "client \<Rightarrow> node_event list" where
  "script cl = NAccept (cl_fd cl) True # map (NArrive (cl_fd cl)) (cl_reads cl)"

fun fd_of :: "node_event \<Rightarrow> int option" where
  "fd_of (NAccept sk mem) = Some sk"
| "fd_of (NArrive sk rs) = Some sk"
| "fd_of (NTimeout sk) = Some sk"
| "fd_of (NWork i) = None"

definition seen :: "client \<Rightarrow> node_event list \<Rightarrow> node_event list" where
  "seen cl evs = filter (\<lambda>ev. fd_of ev = Some (cl_fd cl)) evs"

text \<open>A client follows its script, and is not through yet, is through, or is timed out on the way.\<close>

definition behaves :: "client \<Rightarrow> node_event list \<Rightarrow> bool" where
  "behaves cl es \<longleftrightarrow> (\<exists>j. es = take j (script cl)) \<or>
    (\<exists>j. 0 < j \<and> j < length (script cl) \<and> es = take j (script cl) @ [NTimeout (cl_fd cl)])"

text \<open>Events of query threads and of clients, each with its own socket.\<close>

definition traffic :: "client list \<Rightarrow> node_event list \<Rightarrow> bool" where
  "traffic cls evs \<longleftrightarrow> distinct (map cl_fd cls) \<and> (\<forall>cl\<in>set cls. sends (cl_req cl) (cl_reads cl) \<and> behaves cl (seen cl evs)) \<and>
    (\<forall>ev\<in>set evs. case fd_of ev of None \<Rightarrow> True | Some sk \<Rightarrow> sk \<in> cl_fd ` set cls)"

lemma sends_delivers:
  assumes "sends r reads" and t: "do_accept_connection sk True = Some t" and ae: "pipe_write_ok ae" "\<forall>n. alloc_ok ae n"
  shows "\<exists>n. delivers api env ae r reads t n"
  using assms(1)
proof cases
  case (sends_set cmd k f e d line dh cs)
  show ?thesis unfolding sends_set(1,2) by (rule exI, rule set_delivers [OF t sends_set(3-14) ae])
next
  case (sends_get cmd k)
  then show ?thesis using key_delivers [OF t, of cmd r k ae api env] ae(1) by auto
next
  case (sends_delete cmd k)
  then show ?thesis using key_delivers [OF t, of cmd r k ae api env] ae(1) by auto
next
  case (sends_bad line pre d)
  show ?thesis unfolding sends_bad(1,2) by (rule exI, rule bad_delivers [OF t sends_bad(3-8) ae(1)])
qed

section \<open>Where a client is\<close>

text \<open>After its events so far: the connection of its socket, and the tasks it has been turned into.\<close>

inductive client_at :: "'db db_api \<Rightarrow> sys_env \<Rightarrow> assign_env \<Rightarrow> client \<Rightarrow> node_event list \<Rightarrow> (query_task_s \<times> read_res list) option \<Rightarrow>
  query_task_s list \<Rightarrow> bool" for api env ae cl where
  silent: "client_at api env ae cl [] None []"
| talking: "delivers api env ae (cl_req cl) (drop j (cl_reads cl)) t n \<Longrightarrow> sock_fd t = cl_fd cl \<Longrightarrow> error_log t = None \<Longrightarrow>
    client_at api env ae cl (take (Suc j) (script cl)) (Some (t, [])) []"
| gone: "0 < j \<Longrightarrow> client_at api env ae cl (take j (script cl) @ [NTimeout (cl_fd cl)]) None []"
| through: "asks (cl_req cl) t \<Longrightarrow> sock_fd t = cl_fd cl \<Longrightarrow> client_at api env ae cl (script cl) None [t]"

lemma delivers_nonempty: "delivers api env ae r evs t n \<Longrightarrow> evs \<noteq> []"
  by (erule delivers.cases) auto

lemma script_nonempty: "script cl \<noteq> []"
  by (simp add: script_def)

lemma no_timeout: "NTimeout sk \<notin> set (script cl)"
  by (auto simp: script_def)

lemma behaves_snoc: "behaves cl (es @ [ev]) \<Longrightarrow> behaves cl es"
proof -
  assume "behaves cl (es @ [ev])"
  then consider j where "es @ [ev] = take j (script cl)" | j where "es = take j (script cl)"
    unfolding behaves_def by auto
  then show ?thesis
  proof cases
    case (1 j)
    then have "es = take (length es) (script cl)"
      by (metis append_eq_conv_conj length_append take_take min_def le_add1 append_take_drop_id append.assoc)
    then show ?thesis unfolding behaves_def by blast
  qed (auto simp: behaves_def)
qed

lemma behaves_prefix: "behaves cl (es @ fs) \<Longrightarrow> behaves cl es"
  by (induction fs rule: rev_induct) (auto dest: behaves_snoc simp flip: append_assoc)

text \<open>The next event of a client.\<close>

lemma next_event:
  assumes "client_at api env ae cl es c ts" and b: "behaves cl (es @ [ev])"
  shows "(es = [] \<and> c = None \<and> ts = [] \<and> ev = NAccept (cl_fd cl) True) \<or>
    (\<exists>j t n. es = take (Suc j) (script cl) \<and> j < length (cl_reads cl) \<and> c = Some (t, []) \<and> ts = [] \<and> sock_fd t = cl_fd cl \<and> error_log t = None \<and>
      delivers api env ae (cl_req cl) (drop j (cl_reads cl)) t n \<and> (ev = NArrive (cl_fd cl) (cl_reads cl ! j) \<or> ev = NTimeout (cl_fd cl)))"
proof -
  have ev: "(length es < length (script cl) \<and> ev = script cl ! length es \<and> set es \<subseteq> set (script cl)) \<or>
      (ev = NTimeout (cl_fd cl) \<and> es \<noteq> [] \<and> length es < length (script cl) \<and> set es \<subseteq> set (script cl))"
    using b unfolding behaves_def
  proof (elim disjE exE conjE)
    fix j assume j: "es @ [ev] = take j (script cl)"
    have "Suc (length es) = min (length (script cl)) j" using arg_cong [OF j, of length] by simp
    then have l: "length es < length (script cl)" "length es < j" by auto
    have "ev = (es @ [ev]) ! length es" by simp
    then have "ev = script cl ! length es" unfolding j using l by simp
    moreover have "set es \<subseteq> set (script cl)" using arg_cong [OF j, of set] set_take_subset [of j "script cl"] by auto
    ultimately show ?thesis using l by blast
  next
    fix j assume "0 < j" "j < length (script cl)" "es @ [ev] = take j (script cl) @ [NTimeout (cl_fd cl)]"
    then show ?thesis by (auto dest: in_set_takeD)
  qed
  from assms(1) show ?thesis
  proof cases
    case silent
    then show ?thesis using ev by (auto simp: script_def)
  next
    case (talking j t n)
    have j: "j < length (cl_reads cl)" using delivers_nonempty [OF talking(4)] by simp
    then have "length es = Suc j" using talking(1) by (simp add: script_def)
    then have "ev = NArrive (cl_fd cl) (cl_reads cl ! j) \<or> ev = NTimeout (cl_fd cl)" using ev j by (auto simp: script_def)
    then show ?thesis using talking j by blast
  next
    case (gone j)
    then show ?thesis using ev no_timeout [of "cl_fd cl" cl] by auto
  next
    case (through t)
    then show ?thesis using ev by auto
  qed
qed

section \<open>What every step keeps\<close>

text \<open>The pool has made the run \<open>es\<close>, in which the tasks arrived that were handed over; every client is where its
  events lead.\<close>

definition node_ok :: "'db db_api \<Rightarrow> sys_env \<Rightarrow> sock_env \<Rightarrow> assign_env \<Rightarrow> 'db storage \<Rightarrow> client list \<Rightarrow> node_event list \<Rightarrow>
  (int \<times> query_task_s) task_event list \<Rightarrow> 'db node \<Rightarrow> bool" where
  "node_ok api env io ae s cls evs es nd \<longleftrightarrow>
    run_tasks (task_prog api env io) es (cstart s (replicate (unat (worker_thread_cnt ae)) [])) = Some (n_pool nd) \<and>
    (\<forall>i. arrivals i es = map (Pair (int i)) (tasks_for i nd)) \<and> length (turns es) = length (filter (\<lambda>ev. fd_of ev = None) evs) \<and>
    (\<forall>x\<in>set (n_handed nd). fst x < length (workers (n_pool nd)) \<and> sock_fd (snd x) \<in> cl_fd ` set cls) \<and>
    (\<forall>cl\<in>set cls. client_at api env ae cl (seen cl evs) (n_conns nd (cl_fd cl))
      (filter (\<lambda>t. sock_fd t = cl_fd cl) (map snd (n_handed nd))))"

lemma wstep_length: "wstep prog_of i c = Some c' \<Longrightarrow> length (workers c') = length (workers c)"
  by (auto simp: wstep_def split: if_splits)

lemma put_task_length: "put_task i op c = Some c' \<Longrightarrow> length (workers c') = length (workers c) \<and> i < length (workers c)"
  by (auto simp: put_task_def split: if_splits)

lemma run_tasks_length: "run_tasks prog_of es c = Some c' \<Longrightarrow> length (workers c') = length (workers c)"
  by (induction es arbitrary: c rule: turns.induct) (auto split: option.splits dest: wstep_length put_task_length)

lemma pool_length:
  "node_ok api env io ae s cls evs es nd \<Longrightarrow> length (workers (n_pool nd)) = unat (worker_thread_cnt ae)"
  by (auto simp: node_ok_def cstart_def dest: run_tasks_length)

lemma node_ok_start: "node_ok api env io ae s cls [] [] (node_start ae s)"
  by (auto simp: node_ok_def node_start_def tasks_for_def seen_def intro: client_at.silent)

lemma node_ok_work:
  assumes "node_ok api env io ae s cls evs es nd" and "wstep (task_prog api env io) i (n_pool nd) = Some p"
  shows "node_ok api env io ae s cls (evs @ [NWork i]) (es @ [Run i]) (nd\<lparr>n_pool := p\<rparr>)"
  using assms wstep_length [OF assms(2)] by (simp add: node_ok_def run_tasks_append tasks_for_def seen_def)

text \<open>An event of a client changes its own connection, and hands over at most its own task.\<close>

lemma node_ok_conn:
  assumes ok: "node_ok api env io ae s cls evs es nd" and d: "distinct (map cl_fd cls)" and cl: "cl \<in> set cls"
    and ev: "fd_of ev = Some (cl_fd cl)"
    and conns: "n_conns nd' = (n_conns nd)(cl_fd cl := c)" and rest: "n_handed nd' = n_handed nd" "n_pool nd' = n_pool nd"
    and at: "client_at api env ae cl (seen cl evs @ [ev]) c (filter (\<lambda>t. sock_fd t = cl_fd cl) (map snd (n_handed nd)))"
  shows "node_ok api env io ae s cls (evs @ [ev]) es nd'"
proof -
  have "cl' = cl" if "cl' \<in> set cls" "cl_fd cl' = cl_fd cl" for cl' using d cl that by (auto simp: distinct_map inj_on_def)
  then show ?thesis using ok at ev conns rest by (auto simp: node_ok_def tasks_for_def seen_def)
qed

lemma node_ok_hand:
  assumes ok: "node_ok api env io ae s cls evs es nd" and d: "distinct (map cl_fd cls)" and cl: "cl \<in> set cls"
    and ev: "fd_of ev = Some (cl_fd cl)" and t: "sock_fd t = cl_fd cl" and p: "put_task w (int w, t) (n_pool nd) = Some p"
    and nd': "n_conns nd' = (n_conns nd)(cl_fd cl := c)" "n_handed nd' = n_handed nd @ [(w, t)]" "n_pool nd' = p"
    and at: "client_at api env ae cl (seen cl evs @ [ev]) c (filter (\<lambda>t. sock_fd t = cl_fd cl) (map snd (n_handed nd)) @ [t])"
  shows "node_ok api env io ae s cls (evs @ [ev]) (es @ [Put w (int w, t)]) nd'"
proof -
  have "cl' = cl" if "cl' \<in> set cls" "cl_fd cl' = cl_fd cl" for cl' using d cl that by (auto simp: distinct_map inj_on_def)
  then show ?thesis using ok at ev nd' t p cl put_task_length [OF p] by (auto simp: node_ok_def tasks_for_def seen_def run_tasks_append)
qed

text \<open>Bytes of a client arrive: it is left waiting for more, or its task goes into a pipe.\<close>

lemma arrive_event:
  assumes "delivers api env ae r (rs # rest) t n" and nd: "n_conns nd sk = Some (t, [])" and ae: "pipe_write_ok ae"
  obtains (more) t' m nd' where "node_step api env io ae (NArrive sk rs) nd = Some nd'" "delivers api env ae r rest t' m"
      "sock_fd t' = sock_fd t" "error_log t' = None" "n_conns nd' = (n_conns nd)(sk \<mapsto> (t', []))" "n_handed nd' = n_handed nd" "n_pool nd' = n_pool nd"
    | (whole) t' w l x where "rest = []" "asks r t'" "sock_fd t' = sock_fd t" "worker_thread_cnt ae \<noteq> 0 \<Longrightarrow> w < unat (worker_thread_cnt ae)"
      "node_step api env io ae (NArrive sk rs) nd = map_option (\<lambda>p. nd\<lparr>n_last_fd := l, n_io := x, n_conns := (n_conns nd)(sk := None),
        n_handed := n_handed nd @ [(w, t')], n_pool := p\<rparr>) (put_task w (int w, t') (n_pool nd))"
  using assms(1)
proof cases
  case (last_piece t')
  obtain w st' where w: "dispatch_query_task ae t' (count_in n (assign_part nd)) = Done (Handed t' w, st')"
      "query_io_event_handler EV_READ api env ae False rs t (assign_part nd) = Done (Handed t' w, [], st')" and sk: "sock_fd t' = sock_fd t"
    using last_piece(2) unfolding hands_def by blast
  have "g_storage st' = shared (n_pool nd)"
    using dispatch_ok [OF ae, of t' "count_in n (assign_part nd)"] w(1) by (auto simp: assign_part_def)
  then have "node_step api env io ae (NArrive sk rs) nd = map_option (\<lambda>p. nd\<lparr>n_last_fd := last_fd st', n_io := a_io st',
      n_conns := (n_conns nd)(sk := None), n_handed := n_handed nd @ [(w, t')], n_pool := p\<rparr>) (put_task w (int w, t') (n_pool nd))"
    using nd w(2) by (simp add: after_handler_def Let_def)
  moreover have "w < unat (worker_thread_cnt ae)" if "worker_thread_cnt ae \<noteq> 0"
    using w(1) that
    by (auto simp: dispatch_query_task_def Let_def atomic_uint_lte_def word_less_nat_alt not_le unat_gt_0 split: if_splits)
  ultimately show ?thesis using whole last_piece(1,3) sk by blast
next
  case (piece m t' n')
  have "query_io_event_handler EV_READ api env ae False rs t (assign_part nd) = Done (Open t', [], count_in m (assign_part nd))"
    using piece(2) by (simp add: opens_def)
  then have "node_step api env io ae (NArrive sk rs) nd =
      Some (nd\<lparr>n_conns := (n_conns nd)(sk \<mapsto> (t', [])), n_io := received m (n_io nd)\<rparr>)"
    using nd by (simp add: after_handler_def assign_part_def Let_def)
  from more [OF this piece(3)] show ?thesis using piece(2) by (simp add: opens_def)
qed

lemma accept_event:
  assumes "sends r reads" and ae: "pipe_write_ok ae" "\<forall>n. alloc_ok ae n"
  obtains t n where "do_accept_connection sk True = Some t" "sock_fd t = sk" "error_log t = None" "delivers api env ae r reads t n"
proof -
  obtain t where t: "do_accept_connection sk True = Some t" "sock_fd t = sk" "error_log t = None"
    by (simp add: do_accept_connection_def change_query_task_state_def protocol_consts Let_def)
  then show ?thesis using that sends_delivers [OF assms(1) t(1) ae] by blast
qed

text \<open>The client an event belongs to, and what it does next.\<close>

lemma client_event_cases:
  assumes ok: "node_ok api env io ae s cls evs es nd" and tr: "traffic cls (evs @ [ev])" and ev: "fd_of ev \<noteq> None"
  obtains cl where "cl \<in> set cls" "fd_of ev = Some (cl_fd cl)" "sends (cl_req cl) (cl_reads cl)"
      "filter (\<lambda>t. sock_fd t = cl_fd cl) (map snd (n_handed nd)) = []"
      "(seen cl evs = [] \<and> n_conns nd (cl_fd cl) = None \<and> ev = NAccept (cl_fd cl) True) \<or>
      (\<exists>j t n. seen cl evs = take (Suc j) (script cl) \<and> j < length (cl_reads cl) \<and> n_conns nd (cl_fd cl) = Some (t, []) \<and> sock_fd t = cl_fd cl \<and>
        error_log t = None \<and> delivers api env ae (cl_req cl) (drop j (cl_reads cl)) t n \<and> (ev = NArrive (cl_fd cl) (cl_reads cl ! j) \<or> ev = NTimeout (cl_fd cl)))"
proof -
  obtain cl where cl: "cl \<in> set cls" "fd_of ev = Some (cl_fd cl)" using tr ev by (auto simp: traffic_def)
  have beh: "behaves cl (seen cl evs @ [ev])" and snd: "sends (cl_req cl) (cl_reads cl)"
    using tr cl by (auto simp: traffic_def seen_def)
  have "client_at api env ae cl (seen cl evs) (n_conns nd (cl_fd cl)) (filter (\<lambda>t. sock_fd t = cl_fd cl) (map snd (n_handed nd)))"
    using ok cl(1) by (simp add: node_ok_def)
  from next_event [OF this beh] show ?thesis using that [OF cl snd] by (elim disjE exE conjE) blast+
qed

lemma arrive_ok:
  assumes ok: "node_ok api env io ae s cls evs es nd" and d: "distinct (map cl_fd cls)" and cl: "cl \<in> set cls"
    and ts: "filter (\<lambda>t. sock_fd t = cl_fd cl) (map snd (n_handed nd)) = []" and ae: "pipe_write_ok ae"
    and e: "seen cl evs = take (Suc j) (script cl)" "j < length (cl_reads cl)" "n_conns nd (cl_fd cl) = Some (t, [])" "sock_fd t = cl_fd cl"
    and dl: "delivers api env ae (cl_req cl) (drop j (cl_reads cl)) t n" and ev: "ev = NArrive (cl_fd cl) (cl_reads cl ! j)"
    and step: "node_step api env io ae ev nd = Some nd'"
  shows "\<exists>es'. node_ok api env io ae s cls (evs @ [ev]) (es @ es') nd'"
proof -
  have own: "fd_of ev = Some (cl_fd cl)" using ev by simp
  have dr: "drop j (cl_reads cl) = cl_reads cl ! j # drop (Suc j) (cl_reads cl)" using e(2) by (simp add: Cons_nth_drop_Suc)
  have es: "seen cl evs @ [ev] = take (Suc (Suc j)) (script cl)" using e(1,2) ev by (simp add: script_def take_Suc_conv_app_nth)
  from dl [unfolded dr] e(3) ae show ?thesis
  proof (cases rule: arrive_event [where io = io])
    case (more t' m nd1)
    have "client_at api env ae cl (seen cl evs @ [ev]) (Some (t', [])) []"
      unfolding es by (rule client_at.talking [OF more(2)]) (use more e(4) in simp_all)
    moreover have "nd' = nd1" using step more(1) unfolding ev by (simp only: option.inject)
    ultimately have "node_ok api env io ae s cls (evs @ [ev]) es nd'" using more by (intro node_ok_conn [OF ok d cl own, unfolded ts]) auto
    then show ?thesis by (intro exI [where x = "[]"]) simp
  next
    case (whole t' w l x)
    have "seen cl evs @ [ev] = script cl" using es whole(1) by (simp add: script_def)
    then have "client_at api env ae cl (seen cl evs @ [ev]) None ([] @ [t'])"
      using client_at.through [OF whole(2)] whole(3) e(4) by simp
    moreover obtain p where "put_task w (int w, t') (n_pool nd) = Some p" "nd' = nd\<lparr>n_last_fd := l, n_io := x, n_conns := (n_conns nd)(cl_fd cl := None),
        n_handed := n_handed nd @ [(w, t')], n_pool := p\<rparr>"
      using step unfolding ev whole(5) by (cases "put_task w (int w, t') (n_pool nd)") auto
    ultimately have "node_ok api env io ae s cls (evs @ [ev]) (es @ [Put w (int w, t')]) nd'"
      using whole(3) e(4) by (intro node_ok_hand [OF ok d cl own, unfolded ts]) auto
    then show ?thesis by blast
  qed
qed

lemma step_ok:
  assumes ok: "node_ok api env io ae s cls evs es nd" and tr: "traffic cls (evs @ [ev])"
    and step: "node_step api env io ae ev nd = Some nd'" and ae: "pipe_write_ok ae" "\<forall>n. alloc_ok ae n"
  shows "\<exists>es'. node_ok api env io ae s cls (evs @ [ev]) (es @ es') nd'"
proof (cases "fd_of ev = None")
  case True
  then obtain i where "ev = NWork i" by (cases ev) auto
  then show ?thesis using node_ok_work [OF ok, of i] step by auto
next
  case False
  have d: "distinct (map cl_fd cls)" using tr by (simp add: traffic_def)
  from ok tr False show ?thesis
  proof (cases rule: client_event_cases)
    case (1 cl)
    note conn = node_ok_conn [OF ok d 1(1,2), unfolded 1(4)]
    from 1(5) show ?thesis
    proof (elim disjE exE conjE)
      assume e: "seen cl evs = []" "n_conns nd (cl_fd cl) = None" "ev = NAccept (cl_fd cl) True"
      obtain t n where t: "do_accept_connection (cl_fd cl) True = Some t" "sock_fd t = cl_fd cl" "error_log t = None"
          "delivers api env ae (cl_req cl) (cl_reads cl) t n"
        using accept_event [OF 1(3) ae] by metis
      have "client_at api env ae cl (seen cl evs @ [ev]) (Some (t, [])) []"
        using client_at.talking [of api env ae cl 0 t n] e t by (simp add: script_def)
      then have "node_ok api env io ae s cls (evs @ [ev]) es nd'" using step e(2,3) t(1) by (intro conn) auto
      then show ?thesis by (intro exI [where x = "[]"]) simp
    next
      fix j t assume e: "seen cl evs = take (Suc j) (script cl)" "n_conns nd (cl_fd cl) = Some (t, [])" "ev = NTimeout (cl_fd cl)"
      have "client_at api env ae cl (seen cl evs @ [ev]) None []" using client_at.gone [of "Suc j" api env ae cl] e by simp
      then have "node_ok api env io ae s cls (evs @ [ev]) es nd'" using step e by (intro conn) auto
      then show ?thesis by (intro exI [where x = "[]"]) simp
    qed (rule arrive_ok [OF ok d 1(1,4) ae(1) _ _ _ _ _ _ step])
  qed
qed

lemma traffic_prefix: "traffic cls (evs @ fs) \<Longrightarrow> traffic cls evs"
  unfolding traffic_def seen_def filter_append using behaves_prefix by auto

text \<open>A run, and what holds at every moment of it.\<close>

lemma run_ok:
  assumes "node_ok api env io ae s cls evs es nd" and "traffic cls (evs @ fs)" and "node_run api env io ae fs nd = Some nd'"
    and ae: "pipe_write_ok ae" "\<forall>n. alloc_ok ae n"
  shows "\<exists>es'. node_ok api env io ae s cls (evs @ fs) (es @ es') nd' \<and>
    (\<forall>fs1 fs2 nd1. fs = fs1 @ fs2 \<longrightarrow> node_run api env io ae fs1 nd = Some nd1 \<longrightarrow>
      (\<exists>e1 e2. es' = e1 @ e2 \<and> node_ok api env io ae s cls (evs @ fs1) (es @ e1) nd1))"
  using assms(1-3)
proof (induction fs arbitrary: evs es nd)
  case Nil
  then show ?case by (intro exI [where x = "[]"]) auto
next
  case (Cons ev fs)
  then obtain nd1 where nd1: "node_step api env io ae ev nd = Some nd1" "node_run api env io ae fs nd1 = Some nd'"
    by (auto split: option.splits)
  have tr: "traffic cls ((evs @ [ev]) @ fs)" using Cons.prems(2) by simp
  obtain e1 where e1: "node_ok api env io ae s cls (evs @ [ev]) (es @ e1) nd1"
    using step_ok [OF Cons.prems(1) traffic_prefix [OF tr] nd1(1) ae] by blast
  obtain es' where es': "node_ok api env io ae s cls ((evs @ [ev]) @ fs) ((es @ e1) @ es') nd'"
      "\<forall>fs1 fs2 nd2. fs = fs1 @ fs2 \<longrightarrow> node_run api env io ae fs1 nd1 = Some nd2 \<longrightarrow>
        (\<exists>d1 d2. es' = d1 @ d2 \<and> node_ok api env io ae s cls ((evs @ [ev]) @ fs1) ((es @ e1) @ d1) nd2)"
    using Cons.IH [OF e1 tr nd1(2)] by blast
  have "\<exists>d1 d2. e1 @ es' = d1 @ d2 \<and> node_ok api env io ae s cls (evs @ fs1) (es @ d1) nd2"
    if m: "ev # fs = fs1 @ fs2" "node_run api env io ae fs1 nd = Some nd2" for fs1 fs2 nd2
  proof (cases fs1)
    case Nil
    then show ?thesis using m Cons.prems(1) by (intro exI [where x = "[]"] exI [where x = "e1 @ es'"]) auto
  next
    case (Cons x fs1')
    then have "fs = fs1' @ fs2" "node_run api env io ae fs1' nd1 = Some nd2" using m nd1(1) by auto
    then obtain d1 d2 where "es' = d1 @ d2" "node_ok api env io ae s cls ((evs @ [ev]) @ fs1') ((es @ e1) @ d1) nd2"
      using es'(2) by blast
    then show ?thesis using Cons m(1) by (intro exI [where x = "e1 @ d1"] exI [where x = d2]) simp
  qed
  then show ?case using es'(1) by (intro exI [where x = "e1 @ es'"]) simp
qed

section \<open>The tasks of the clients\<close>

lemma distinct_by_filter: "(\<And>c. length (filter (\<lambda>x. f x = c) xs) \<le> 1) \<Longrightarrow> distinct (map f xs)"
proof (induction xs)
  case (Cons a xs)
  have "filter (\<lambda>x. f x = f a) xs = []" using Cons.prems [of "f a"] by simp
  then have "f a \<notin> f ` set xs" by (auto simp: filter_empty_conv)
  moreover have "length (filter (\<lambda>x. f x = c) xs) \<le> 1" for c using Cons.prems [of c] by (cases "f a = c") auto
  ultimately show ?case using Cons.IH by simp
qed simp

lemma filter_one: "distinct (map f xs) \<Longrightarrow> x \<in> set xs \<Longrightarrow> filter (\<lambda>y. f y = f x) xs = [x]"
  by (induction xs) (auto simp: filter_empty_conv, metis imageI)

lemma client_tasks:
  assumes "client_at api env ae cl es c ts"
  shows "ts \<noteq> [] \<longleftrightarrow> es = script cl" "length ts \<le> 1" "\<forall>t\<in>set ts. asks (cl_req cl) t"
proof -
  show "ts \<noteq> [] \<longleftrightarrow> es = script cl"
    using assms
  proof cases
    case (talking j t n)
    have "length es < length (script cl)" using delivers_nonempty [OF talking(4)] talking(1) by (simp add: script_def)
    then show ?thesis using talking(3) by auto
  next
    case (gone j)
    then show ?thesis using no_timeout [of "cl_fd cl" cl] by (metis in_set_conv_decomp)
  qed (simp_all add: script_def)
qed (use assms in \<open>auto elim: client_at.cases\<close>)

lemma handed_tasks:
  assumes "node_ok api env io ae s cls evs es nd"
  shows "distinct (map sock_fd (map snd (n_handed nd)))"
    "t \<in> set (map snd (n_handed nd)) \<Longrightarrow> \<exists>cl\<in>set cls. sock_fd t = cl_fd cl \<and> asks (cl_req cl) t \<and> seen cl evs = script cl"
    "cl \<in> set cls \<Longrightarrow> seen cl evs = script cl \<Longrightarrow> \<exists>t\<in>set (map snd (n_handed nd)). sock_fd t = cl_fd cl"
proof -
  let ?H = "map snd (n_handed nd)"
  have at: "client_at api env ae cl (seen cl evs) (n_conns nd (cl_fd cl)) (filter (\<lambda>t. sock_fd t = cl_fd cl) ?H)" if "cl \<in> set cls" for cl
    using assms that by (simp add: node_ok_def)
  have own: "sock_fd t \<in> cl_fd ` set cls" if "t \<in> set ?H" for t using assms that by (auto simp: node_ok_def)
  show "distinct (map sock_fd ?H)"
  proof (rule distinct_by_filter)
    fix c show "length (filter (\<lambda>x. sock_fd x = c) ?H) \<le> 1"
    proof (cases "c \<in> cl_fd ` set cls")
      case True
      then show ?thesis using client_tasks(2) [OF at] by blast
    next
      case False
      then have "filter (\<lambda>x. sock_fd x = c) ?H = []" using own by (auto simp: filter_empty_conv)
      then show ?thesis by simp
    qed
  qed
  show "\<exists>cl\<in>set cls. sock_fd t = cl_fd cl \<and> asks (cl_req cl) t \<and> seen cl evs = script cl" if t: "t \<in> set ?H"
  proof -
    obtain cl where cl: "cl \<in> set cls" "sock_fd t = cl_fd cl" using own [OF t] by auto
    then have "t \<in> set (filter (\<lambda>t. sock_fd t = cl_fd cl) ?H)" using t by auto
    then show ?thesis using client_tasks(1,3) [OF at [OF cl(1)]] cl by (metis empty_iff empty_set)
  qed
  show "\<exists>t\<in>set ?H. sock_fd t = cl_fd cl" if "cl \<in> set cls" "seen cl evs = script cl"
    using client_tasks(1) [OF at [OF that(1)]] that(2) by (auto simp: filter_empty_conv)
qed

section \<open>Histories\<close>

lemma own_append: "own i (h @ g) = own i h @ own i g"
  by (simp add: own_def)

lemma in_own: "(op, out) \<in> set (own i h) \<longleftrightarrow> (i, op, out) \<in> set h"
  by (force simp: own_def)

lemma mset_sum_maps:
  "image_mset g (\<Sum>i<n. M i) = (\<Sum>i<(n :: nat). image_mset g (M i))" "filter_mset P (\<Sum>i<n. M i) = (\<Sum>i<(n :: nat). filter_mset P (M i))"
  by (induction n) simp_all

lemma mset_by_worker: "\<forall>x\<in>set xs. f x < n \<Longrightarrow> mset xs = (\<Sum>i<(n :: nat). mset (filter (\<lambda>x. f x = i) xs))"
proof (induction xs)
  case (Cons a xs)
  have "(\<Sum>i<n. mset (filter (\<lambda>x. f x = i) (a # xs))) = (\<Sum>i<n. (if i = f a then {#a#} else {#}) + mset (filter (\<lambda>x. f x = i) xs))"
    by (intro sum.cong) auto
  also have "\<dots> = (\<Sum>i<n. if i = f a then {#a#} else {#}) + mset xs" using Cons by (simp add: sum.distrib)
  also have "(\<Sum>i<n. if i = f a then {#a#} else {#}) = {#a#}" using Cons.prems by (subst sum.delta) auto
  finally show ?case by simp
qed simp

lemma mset_map_by_worker:
  "\<forall>x\<in>set xs. f x < n \<Longrightarrow> mset (map g xs) = (\<Sum>i<(n :: nat). mset (map g (filter (\<lambda>x. f x = i) xs)))"
  using arg_cong [OF mset_by_worker [of xs f n], of "image_mset g"] by (simp add: mset_sum_maps)

lemma mset_own: "\<forall>e\<in>set h. fst e < n \<Longrightarrow> mset (map snd h) = (\<Sum>i<n. mset (own i h))"
  unfolding own_def by (rule mset_map_by_worker)

text \<open>The tasks and answers of a node in a history of its pool.\<close>

definition explains :: "(nat \<times> (int \<times> query_task_s) \<times> bytes option) list \<Rightarrow> 'db node \<Rightarrow> bool" where
  "explains h nd \<longleftrightarrow> (\<forall>e\<in>set h. fst e < length (workers (n_pool nd))) \<and> (\<forall>x\<in>set (n_handed nd). fst x < length (workers (n_pool nd))) \<and>
    (\<forall>i<length (workers (n_pool nd)). map fst (own i h) = map (Pair (int i)) (tasks_for i nd) \<and>
      map snd (own i h) = w_done (workers (n_pool nd) ! i))"

abbreviation "task_in \<equiv> \<lambda>e. snd (fst (snd e))"

lemma explained_worker:
  assumes "explains h nd" and "i < length (workers (n_pool nd))"
  shows "tasks_for i nd = map (\<lambda>x. snd (fst x)) (own i h)" "w_done (workers (n_pool nd) ! i) = map snd (own i h)"
proof -
  have "map snd (map fst (own i h)) = map snd (map (Pair (int i)) (tasks_for i nd))" using assms by (simp only: explains_def)
  then show "tasks_for i nd = map (\<lambda>x. snd (fst x)) (own i h)" by (simp add: comp_def)
qed (use assms in \<open>simp add: explains_def\<close>)

lemma explained_tasks:
  assumes "explains h nd"
  shows "mset (map task_in h) = mset (map snd (n_handed nd))"
proof -
  let ?n = "length (workers (n_pool nd))"
  have "mset (map task_in h) = image_mset (\<lambda>x. snd (fst x)) (mset (map snd h))" by (simp add: multiset.map_comp comp_def)
  also have "\<dots> = (\<Sum>i<?n. image_mset (\<lambda>x. snd (fst x)) (mset (own i h)))"
    using mset_own [of h ?n] assms by (simp add: explains_def mset_sum_maps)
  also have "\<dots> = (\<Sum>i<?n. mset (tasks_for i nd))" using explained_worker(1) [OF assms] by simp
  also have "\<dots> = mset (map snd (n_handed nd))"
    unfolding tasks_for_def by (rule mset_map_by_worker [symmetric]) (use assms in \<open>simp add: explains_def\<close>)
  finally show ?thesis .
qed

lemma explained_replies:
  assumes "explains h nd"
  shows "mset (replies nd sk) = mset (map (\<lambda>e. snd (snd e)) (filter (\<lambda>e. sock_fd (task_in e) = sk) h))"
proof -
  let ?n = "length (workers (n_pool nd))" and ?P = "\<lambda>x. sock_fd (snd (fst x)) = sk"
  have "zip (tasks_for i nd) (w_done (workers (n_pool nd) ! i)) = map (\<lambda>x. (snd (fst x), snd x)) (own i h)" if "i < ?n" for i
    using explained_worker [OF assms that] by (simp add: zip_map1 zip_map2 zip_same_conv_map)
  then have "replies nd sk = concat (map (\<lambda>i. map snd (filter ?P (own i h))) [0..<?n])"
    unfolding replies_def by (intro arg_cong [where f = concat] map_cong) (simp_all add: filter_map comp_def)
  then have "mset (replies nd sk) = (\<Sum>i<?n. image_mset snd (filter_mset ?P (mset (own i h))))"
    by (simp add: mset_concat comp_def interv_sum_list_conv_sum_set_nat atLeast0LessThan)
  also have "\<dots> = image_mset snd (filter_mset ?P (mset (map snd h)))"
    using mset_own [of h ?n] assms by (simp add: explains_def mset_sum_maps)
  also have "\<dots> = mset (map (\<lambda>e. snd (snd e)) (filter (\<lambda>e. ?P (snd e)) h))"
    by (simp add: filter_mset_image_mset multiset.map_comp comp_def)
  finally show ?thesis .
qed

text \<open>A moment of the run: what is answered then is in the prefix of the history, and the prefix has only what was handed over.\<close>

lemma moment_tasks:
  assumes h: "explains h nd" and n: "length (workers (n_pool nd1)) = length (workers (n_pool nd))"
    and fut: "\<And>i. map (Pair (int i)) (tasks_for i nd) = map (Pair (int i)) (tasks_for i nd1) @ arrivals i es"
    and tm: "timely (map (\<lambda>i. map (Pair (int i)) (tasks_for i nd)) [0..<length (workers (n_pool nd))])
      (with_future (\<lambda>j. arrivals j es) (n_pool nd1)) (take k h)"
  shows "\<forall>e\<in>set (take k h). task_in e \<in> set (map snd (n_handed nd1))"
    "replies nd1 sk \<noteq> [] \<Longrightarrow> \<exists>e\<in>set (take k h). sock_fd (task_in e) = sk"
proof -
  let ?n = "length (workers (n_pool nd))" and ?own = "\<lambda>i. own i (take k h)"
  have len: "length (w_done (workers (n_pool nd1) ! i)) \<le> length (?own i)" "length (?own i) \<le> length (tasks_for i nd1)" if "i < ?n" for i
    using tm that n arg_cong [OF fut [of i], of length] by (auto simp: timely_def)
  have pre: "map fst (?own i) = take (length (?own i)) (map (Pair (int i)) (tasks_for i nd1))" if i: "i < ?n" for i
  proof -
    have "map fst (?own i) @ map fst (own i (drop k h)) = map fst (own i (take k h @ drop k h))" by (simp only: own_append map_append)
    also have "\<dots> = map (Pair (int i)) (tasks_for i nd1) @ arrivals i es" using h i fut by (simp add: explains_def)
    finally have "take (length (?own i)) (map (Pair (int i)) (tasks_for i nd1) @ arrivals i es) = map fst (?own i)"
      by (metis append_eq_conv_conj length_map)
    then show ?thesis using len(2) [OF i] by simp
  qed
  show "\<forall>e\<in>set (take k h). task_in e \<in> set (map snd (n_handed nd1))"
  proof
    fix e assume e: "e \<in> set (take k h)"
    obtain i op out where x: "e = (i, op, out)" by (cases e)
    have i: "i < ?n" using h in_set_takeD [OF e] x by (auto simp: explains_def)
    have "op \<in> set (map fst (?own i))" using e x in_own by force
    then have "op \<in> set (map (Pair (int i)) (tasks_for i nd1))" unfolding pre [OF i] by (rule in_set_takeD)
    then show "task_in e \<in> set (map snd (n_handed nd1))" using x by (force simp: tasks_for_def)
  qed
  assume "replies nd1 sk \<noteq> []"
  then obtain i t r where i: "i < ?n" and x: "(t, r) \<in> set (zip (tasks_for i nd1) (w_done (workers (n_pool nd1) ! i)))" "sock_fd t = sk"
    using n by (auto simp: replies_def filter_empty_conv)
  obtain m where m: "m < length (tasks_for i nd1)" "m < length (w_done (workers (n_pool nd1) ! i))" "tasks_for i nd1 ! m = t"
    using x(1) by (auto simp: set_zip)
  have "map fst (?own i) ! m = (int i, t)" unfolding pre [OF i] using m len [OF i] by simp
  moreover have "m < length (map fst (?own i))" using m(2) len(1) [OF i] by simp
  ultimately have "(int i, t) \<in> set (map fst (?own i))" by (metis nth_mem)
  then obtain x where x': "x \<in> set (?own i)" "fst x = (int i, t)" by auto
  then have "(i, (int i, t), snd x) \<in> set (take k h)" using in_own [of "(int i, t)" "snd x" i "take k h"] by (metis prod.collapse)
  then show "\<exists>e\<in>set (take k h). sock_fd (task_in e) = sk" using x(2) by force
qed

text \<open>The history of clients.\<close>

definition client_with :: "client list \<Rightarrow> int \<Rightarrow> client" where
  "client_with cls sk = the (find (\<lambda>cl. cl_fd cl = sk) cls)"

lemma client_with: "distinct (map cl_fd cls) \<Longrightarrow> cl \<in> set cls \<Longrightarrow> client_with cls (cl_fd cl) = cl"
proof -
  assume d: "distinct (map cl_fd cls)" and cl: "cl \<in> set cls"
  have "find (\<lambda>x. cl_fd x = cl_fd cl) cls \<noteq> None" using cl by (auto simp: find_None_iff)
  then obtain x where "find (\<lambda>x. cl_fd x = cl_fd cl) cls = Some x" by blast
  moreover from this have "x \<in> set cls" "cl_fd x = cl_fd cl" by (auto simp: find_Some_iff)
  ultimately show ?thesis using d cl by (auto simp: client_with_def distinct_map inj_on_def)
qed

abbreviation "served cls \<equiv> \<lambda>e. (client_with cls (sock_fd (task_in e)), the (snd (snd e)))"

section \<open>The node\<close>

lemma handed_count:
  assumes "node_ok api env io ae s cls evs es nd"
  shows "sum_list (map (\<lambda>i. length (tasks_for i nd)) [0..<length (workers (n_pool nd))]) \<le> length cls"
proof -
  let ?H = "map sock_fd (map snd (n_handed nd))" and ?n = "length (workers (n_pool nd))"
  have "sum_list (map (\<lambda>i. length (tasks_for i nd)) [0..<?n]) = (\<Sum>i<?n. size (mset (tasks_for i nd)))"
    by (simp add: interv_sum_list_conv_sum_set_nat atLeast0LessThan)
  also have "\<dots> = size (mset (map snd (n_handed nd)))"
    unfolding tasks_for_def using assms by (subst mset_map_by_worker [where f = fst and n = ?n]) (auto simp: node_ok_def)
  also have "\<dots> = card (set ?H)" using distinct_card [OF handed_tasks(1) [OF assms]] by simp
  also have "\<dots> \<le> card (cl_fd ` set cls)" using assms by (intro card_mono) (auto simp: node_ok_def)
  also have "\<dots> \<le> length cls" using card_image_le [of "set cls" cl_fd] card_length [of cls] by simp
  finally show ?thesis .
qed

abbreviation "early_tasks ae nd \<equiv> map (\<lambda>i. map (Pair (int i)) (tasks_for i nd)) [0..<unat (worker_thread_cnt ae)]"

lemma node_early:
  assumes ok: "node_ok api env io ae s cls evs es nd" and rm: "room (length cls) s"
    and fits: "\<forall>cl\<in>set cls. req_fits (largest_block s) (cl_req cl)"
  shows "run_schedule (task_prog api env io) (turns es) (cstart s (early_tasks ae nd)) = Some (n_pool nd)"
    "list_all (list_all (\<lambda>op. asks (req_of (snd op)) (snd op) \<and> req_fits (largest_block s) (req_of (snd op)))) (early_tasks ae nd)"
    "sum_list (map length (early_tasks ae nd)) \<le> length cls" "room (sum_list (map length (early_tasks ae nd))) s"
proof -
  let ?n = "unat (worker_thread_cnt ae)"
  have n: "length (workers (n_pool nd)) = ?n" by (rule pool_length [OF ok])
  have arr: "\<And>i. arrivals i es = map (Pair (int i)) (tasks_for i nd)" and run: "run_tasks (task_prog api env io) es (cstart s (replicate ?n [])) = Some (n_pool nd)"
    using ok by (simp_all add: node_ok_def)
  show "run_schedule (task_prog api env io) (turns es) (cstart s (early_tasks ae nd)) = Some (n_pool nd)"
    using late_tasks_as_early [OF run] by (simp add: arr)
  have "asks (req_of t) t \<and> req_fits (largest_block s) (req_of t)" if "t \<in> set (map snd (n_handed nd))" for t
    using handed_tasks(2) [OF ok that] fits asks_req_of by metis
  then show "list_all (list_all (\<lambda>op. asks (req_of (snd op)) (snd op) \<and> req_fits (largest_block s) (req_of (snd op)))) (early_tasks ae nd)"
    by (auto simp: list_all_iff tasks_for_def)
  show le: "sum_list (map length (early_tasks ae nd)) \<le> length cls" using handed_count [OF ok] n by (simp add: comp_def)
  then show "room (sum_list (map length (early_tasks ae nd))) s"
    using room_mono [of "length cls - sum_list (map length (early_tasks ae nd))" "sum_list (map length (early_tasks ae nd))" s] rm by simp
qed

lemma node_history:
  assumes db: "berkeley_db api view good" and env: "full_env env" and io: "good_io io" and inv: "storage_inv view good s"
    and rm: "room (length cls) s" and fits: "\<forall>cl\<in>set cls. req_fits (largest_block s) (cl_req cl)"
    and ok: "node_ok api env io ae s cls evs es nd" and fin: "finished (n_pool nd)"
  shows "\<exists>h. explains h nd \<and>
    map (\<lambda>e. snd (snd e)) h = map Some (fst (answers (map (\<lambda>e. req_of (task_in e)) h) (stored view s))) \<and>
    stored view (shared (n_pool nd)) = snd (answers (map (\<lambda>e. req_of (task_in e)) h) (stored view s)) \<and>
    storage_inv view good (shared (n_pool nd)) \<and>
    (\<forall>evs1 nd1 e1 e2. es = e1 @ e2 \<longrightarrow> node_ok api env io ae s cls evs1 e1 nd1 \<longrightarrow>
      (\<exists>k\<le>length h. timely (early_tasks ae nd) (with_future (\<lambda>j. arrivals j e2) (n_pool nd1)) (take k h)))"
proof -
  let ?n = "unat (worker_thread_cnt ae)" and ?P = "task_prog api env io"
  have blocks: "block_setup api view good env" using db env by (simp add: block_setup_def block_setup_axioms_def)
  note early = node_early [OF ok rm fits]
  obtain h where out: "map (\<lambda>e. snd (snd e)) h = map Some (fst (answers (map (\<lambda>e. req_of (task_in e)) h) (stored view s)))"
      "stored view (shared (n_pool nd)) = snd (answers (map (\<lambda>e. req_of (task_in e)) h) (stored view s))"
      "storage_inv view good (shared (n_pool nd))" and h: "\<forall>e\<in>set h. fst e < ?n"
      "\<forall>i<?n. map fst (own i h) = early_tasks ae nd ! i \<and> map snd (own i h) = w_done (workers (n_pool nd) ! i)"
      "\<forall>is1 is2 c1. turns es = is1 @ is2 \<longrightarrow> run_schedule ?P is1 (cstart s (early_tasks ae nd)) = Some c1 \<longrightarrow>
        (\<exists>k\<le>length h. timely (early_tasks ae nd) c1 (take k h))"
    using block_setup.pool_history [OF blocks early(1) fin early(2) _ io] inv early(4) by auto
  have "explains h nd" using h(1,2) ok by (simp add: explains_def pool_length [OF ok] node_ok_def)
  moreover have "\<exists>k\<le>length h. timely (early_tasks ae nd) (with_future (\<lambda>j. arrivals j e2) (n_pool nd1)) (take k h)"
    if m: "es = e1 @ e2" "node_ok api env io ae s cls evs1 e1 nd1" for evs1 nd1 e1 e2
  proof -
    have "run_tasks ?P e1 (cstart s (replicate ?n [])) = Some (n_pool nd1)" using m(2) by (simp add: node_ok_def)
    moreover have "\<And>i. arrivals i es = map (Pair (int i)) (tasks_for i nd)" using ok by (simp add: node_ok_def)
    ultimately have "run_schedule ?P (turns e1) (cstart s (early_tasks ae nd)) = Some (with_future (\<lambda>j. arrivals j e2) (n_pool nd1))"
      using late_tasks_moment [where es = e1 and fs = e2] unfolding m(1) [symmetric] by simp
    moreover have "turns es = turns e1 @ turns e2" using m(1) by simp
    ultimately show ?thesis using h(3) by blast
  qed
  ultimately show ?thesis using out by (intro exI [where x = h] conjI) auto
qed

lemma client_event_possible:
  assumes ok: "node_ok api env io ae s cls evs es nd" and tr: "traffic cls (evs @ [ev])" and ev: "fd_of ev \<noteq> None"
    and ae: "pipe_write_ok ae" "\<forall>n. alloc_ok ae n" "worker_thread_cnt ae \<noteq> 0"
  shows "node_step api env io ae ev nd \<noteq> None"
  using ok tr ev
proof (cases rule: client_event_cases)
  case (1 cl)
  from 1(5) show ?thesis
  proof (elim disjE exE conjE)
    fix j t n assume e: "j < length (cl_reads cl)" "n_conns nd (cl_fd cl) = Some (t, [])"
      "delivers api env ae (cl_req cl) (drop j (cl_reads cl)) t n" and nev: "ev = NArrive (cl_fd cl) (cl_reads cl ! j)"
    have "drop j (cl_reads cl) = cl_reads cl ! j # drop (Suc j) (cl_reads cl)" using e(1) by (simp add: Cons_nth_drop_Suc)
    from e(3) [unfolded this] e(2) ae(1) show ?thesis
    proof (cases rule: arrive_event [where io = io])
      case (whole t' w l x)
      then show ?thesis using ae(3) pool_length [OF ok] unfolding nev whole(5) by (simp add: put_task_def)
    qed (simp add: nev del: node_step.simps)
  qed (auto simp: query_timer_event_handler_def Log_def split: option.split)
qed

lemma client_history:
  assumes ok: "node_ok api env io ae s cls evs es nd" and d: "distinct (map cl_fd cls)" and h: "explains h nd"
    and some: "\<forall>e\<in>set h. snd (snd e) \<noteq> None"
  shows "map (\<lambda>e. cl_req (fst e)) (map (served cls) h) = map (\<lambda>e. req_of (task_in e)) h"
    "distinct (map fst (map (served cls) h))"
    "set (map fst (map (served cls) h)) = {cl \<in> set cls. seen cl evs = script cl}"
    "\<forall>e\<in>set (map (served cls) h). replies nd (cl_fd (fst e)) = [Some (snd e)]"
proof -
  let ?c = "\<lambda>e. client_with cls (sock_fd (task_in e))"
  have tasks: "set (map task_in h) = set (map snd (n_handed nd))" using explained_tasks [OF h] by (metis set_mset_mset)
  have task: "?c e \<in> set cls" "sock_fd (task_in e) = cl_fd (?c e)" "req_of (task_in e) = cl_req (?c e)" "seen (?c e) evs = script (?c e)"
    if "e \<in> set h" for e
  proof -
    have "task_in e \<in> set (map snd (n_handed nd))" using that tasks by auto
    then obtain cl where "cl \<in> set cls" "sock_fd (task_in e) = cl_fd cl" "asks (cl_req cl) (task_in e)" "seen cl evs = script cl"
      using handed_tasks(2) [OF ok] by blast
    then show "?c e \<in> set cls" "sock_fd (task_in e) = cl_fd (?c e)" "req_of (task_in e) = cl_req (?c e)" "seen (?c e) evs = script (?c e)"
      using client_with [OF d] asks_req_of by auto
  qed
  show "map (\<lambda>e. cl_req (fst e)) (map (served cls) h) = map (\<lambda>e. req_of (task_in e)) h" using task(3) by simp
  have "mset (map (\<lambda>e. sock_fd (task_in e)) h) = mset (map sock_fd (map snd (n_handed nd)))"
    using arg_cong [OF explained_tasks [OF h], of "image_mset sock_fd"] by (simp add: multiset.map_comp comp_def)
  then have dist: "distinct (map (\<lambda>e. sock_fd (task_in e)) h)" using handed_tasks(1) [OF ok] mset_eq_imp_distinct_iff by blast
  moreover have "map (\<lambda>e. sock_fd (task_in e)) h = map cl_fd (map fst (map (served cls) h))" using task(2) by simp
  ultimately show "distinct (map fst (map (served cls) h))" by (simp only: distinct_map)
  show "set (map fst (map (served cls) h)) = {cl \<in> set cls. seen cl evs = script cl}"
  proof (intro equalityI subsetI)
    fix cl assume "cl \<in> {cl \<in> set cls. seen cl evs = script cl}"
    then obtain t where "t \<in> set (map snd (n_handed nd))" "sock_fd t = cl_fd cl" "cl \<in> set cls" using handed_tasks(3) [OF ok] by blast
    then obtain e where "e \<in> set h" "?c e = cl" using tasks client_with [OF d] by (metis (no_types, lifting) imageE list.set_map)
    then show "cl \<in> set (map fst (map (served cls) h))" by auto
  qed (use task(1,4) in auto)
  show "\<forall>e\<in>set (map (served cls) h). replies nd (cl_fd (fst e)) = [Some (snd e)]"
  proof
    fix x assume "x \<in> set (map (served cls) h)"
    then obtain e where e: "e \<in> set h" "x = served cls e" by auto
    have "filter (\<lambda>e'. sock_fd (task_in e') = sock_fd (task_in e)) h = [e]" using dist e(1) by (rule filter_one)
    then have "mset (replies nd (cl_fd (fst x))) = {#snd (snd e)#}"
      using explained_replies [OF h, of "sock_fd (task_in e)"] task(2) [OF e(1)] e(2) by simp
    then show "replies nd (cl_fd (fst x)) = [Some (snd x)]" using some e by auto
  qed
qed

lemma client_moment:
  assumes ok: "node_ok api env io ae s cls evs1 es nd1" and d: "distinct (map cl_fd cls)"
    and "\<forall>e\<in>set h. task_in e \<in> set (map snd (n_handed nd1))"
    and "\<And>sk. replies nd1 sk \<noteq> [] \<Longrightarrow> \<exists>e\<in>set h. sock_fd (task_in e) = sk"
  shows "cl \<in> set cls \<Longrightarrow> replies nd1 (cl_fd cl) \<noteq> [] \<Longrightarrow> cl \<in> fst ` set (map (served cls) h)"
    "cl \<in> fst ` set (map (served cls) h) \<Longrightarrow> seen cl evs1 = script cl"
proof -
  show "cl \<in> fst ` set (map (served cls) h)" if cl: "cl \<in> set cls" "replies nd1 (cl_fd cl) \<noteq> []"
  proof -
    obtain e where "e \<in> set h" "sock_fd (task_in e) = cl_fd cl" using assms(4) [OF cl(2)] by blast
    then show ?thesis using client_with [OF d cl(1)] by force
  qed
  assume "cl \<in> fst ` set (map (served cls) h)"
  then obtain e where e: "e \<in> set h" "cl = client_with cls (sock_fd (task_in e))" by auto
  then obtain cl' where "cl' \<in> set cls" "sock_fd (task_in e) = cl_fd cl'" "seen cl' evs1 = script cl'"
    using handed_tasks(2) [OF ok] assms(3) by blast
  then show "seen cl evs1 = script cl" using client_with [OF d] e(2) by simp
qed

lemma node_run_append:
  "node_run api env io ae (evs @ fs) nd = (case node_run api env io ae evs nd of None \<Rightarrow> None | Some nd' \<Rightarrow> node_run api env io ae fs nd')"
  by (induction evs arbitrary: nd) (auto split: option.split)

lemma traffic_work: "traffic cls (evs @ map NWork is @ fs) = traffic cls (evs @ fs)"
proof -
  have "seen cl (map NWork is) = []" for cl by (induction "is") (simp_all add: seen_def)
  then show ?thesis by (auto simp: traffic_def seen_def)
qed

lemma run_work:
  "run_schedule (task_prog api env io) is (n_pool nd) = Some p \<Longrightarrow> node_run api env io ae (map NWork is) nd = Some (nd\<lparr>n_pool := p\<rparr>)"
  by (induction "is" arbitrary: nd) (auto split: option.splits)

text \<open>More events of clients can follow any run, and then the query threads can finish.\<close>

lemma run_continues:
  assumes db: "berkeley_db api view good" and env: "full_env env" and ae: "pipe_write_ok ae" "\<forall>n. alloc_ok ae n" "worker_thread_cnt ae \<noteq> 0"
    and inv: "storage_inv view good s" and rm: "room (length cls) s" and fits: "\<forall>cl\<in>set cls. req_fits (largest_block s) (cl_req cl)"
    and tr: "traffic cls (evs @ fs)" and ev: "\<forall>ev\<in>set fs. fd_of ev \<noteq> None" and run: "node_run api env io ae evs (node_start ae s) = Some nd"
  shows "\<exists>is nd'. node_run api env io ae (evs @ fs @ map NWork is) (node_start ae s) = Some nd' \<and> finished (n_pool nd')"
proof -
  have "\<exists>nd'. node_run api env io ae (evs @ fs) (node_start ae s) = Some nd'"
    using tr ev
  proof (induction fs rule: rev_induct)
    case (snoc ev fs)
    then obtain nd1 where nd1: "node_run api env io ae (evs @ fs) (node_start ae s) = Some nd1"
      using traffic_prefix [of cls "evs @ fs" "[ev]"] by auto
    have tr: "traffic cls ((evs @ fs) @ [ev])" using snoc.prems by simp
    obtain es where "node_ok api env io ae s cls (evs @ fs) es nd1"
      using run_ok [OF node_ok_start _ nd1 ae(1,2), of cls] traffic_prefix [OF tr] by auto
    then obtain nd2 where "node_step api env io ae ev nd1 = Some nd2"
      using client_event_possible [OF _ tr _ ae, where io = io] snoc.prems(2) by force
    then show ?case using nd1 by (auto simp: node_run_append simp flip: append_assoc)
  qed (use run in simp)
  then obtain nd1 where nd1: "node_run api env io ae (evs @ fs) (node_start ae s) = Some nd1" by blast
  obtain es where ok: "node_ok api env io ae s cls (evs @ fs) es nd1"
    using run_ok [OF node_ok_start _ nd1 ae(1,2), of cls] tr by auto
  have blocks: "block_setup api view good env" using db env by (simp add: block_setup_def block_setup_axioms_def)
  note early = node_early [OF ok rm fits]
  have op: "list_all (list_all (\<lambda>op. task_fits (largest_block s) (snd op))) (early_tasks ae nd1)"
    using early(2) asks_fits unfolding list_all_iff by blast
  have "storage_inv view good s \<and> room (sum_list (map length (early_tasks ae nd1))) s \<and> largest_block s = largest_block s"
    using inv early(4) by simp
  from block_setup.pool_runs(4) [OF blocks early(1) this op] obtain js c where "run_schedule (task_prog api env io) js (n_pool nd1) = Some c" "finished c"
    using early(1) by (auto simp: run_schedule_append)
  then show ?thesis
    using run_work [of api env io js nd1 c ae] nd1
    by (intro exI [where x = js] exI [where x = "nd1\<lparr>n_pool := c\<rparr>"]) (auto simp: node_run_append split: option.splits)
qed

text \<open>Clients for the examples: one sets a value, in three pieces, one asks for it, one sends a command that the node does not have.\<close>

definition setter :: client where
  "setter = \<lparr>cl_fd = 5, cl_req = CSet (str ''k'') [7, 8],
    cl_reads = [RdData (set_line (str ''set'') (str ''k'') 0 0 (length [7, 8 :: u8]) @ [7])] # map (\<lambda>c. [RdData c]) [[8, CR], [LF]]\<rparr>"

definition getter :: client where
  "getter = \<lparr>cl_fd = 6, cl_req = CGet (str ''k''), cl_reads = [[RdData (key_line (str ''get'') (str ''k''))]]\<rparr>"

definition stranger :: client where
  "stranger = \<lparr>cl_fd = 7, cl_req = CBad, cl_reads = [[RdData ((str ''stats'' @ [CR, LF]) @ [])]]\<rparr>"

lemma seen_append [simp]: "seen cl (evs @ fs) = seen cl evs @ seen cl fs"
  by (simp add: seen_def)

lemma seen_work [simp]: "seen cl (map NWork is) = []"
  by (induction "is") (simp_all add: seen_def)

lemma example_clients:
  "sends (cl_req setter) (cl_reads setter)" "sends (cl_req getter) (cl_reads getter)" "cl_fd setter = 5" "cl_fd getter = 6"
  "seen setter (script setter) = script setter" "seen getter (script getter) = script getter"
  "seen setter (script getter) = []" "seen getter (script setter) = []" "sends (cl_req stranger) (cl_reads stranger)"
proof -
  have l: "length (set_line (str ''set'') (str ''k'') 0 0 (length [7, 8 :: u8])) = 13" by (simp add: set_line_def decimal.simps)
  show "sends (cl_req setter) (cl_reads setter)"
    unfolding setter_def client.simps
    by (rule sends.sends_set [where f = 0 and e = 0 and cmd = "str ''set''"])
      (use l in \<open>auto simp: strcaseeq_def word_chars_def char_defs protocol_consts\<close>)
  show "sends (cl_req getter) (cl_reads getter)"
    unfolding getter_def client.simps
    by (rule sends.sends_get) (auto simp: strcaseeq_def word_chars_def char_defs protocol_consts key_line_def)
  show "sends (cl_req stranger) (cl_reads stranger)"
    unfolding stranger_def client.simps
    by (rule sends.sends_bad) (auto simp: unknown_line_def commands_def strcaseeq_def tolower_def char_defs protocol_consts)
qed (simp_all add: setter_def getter_def seen_def script_def)

lemma example_traffic: "traffic [setter, getter] (script setter @ script getter)"
proof -
  have "behaves cl (script cl)" for cl unfolding behaves_def by (rule disjI1) (rule exI [where x = "length (script cl)"], simp)
  then show ?thesis using example_clients by (auto simp: traffic_def) (auto simp: script_def)
qed

lemma example_timeout: "traffic [setter, stranger, getter] ((script setter @ script stranger @ [NAccept 6 True]) @ [NTimeout 6])"
proof -
  have "behaves cl (script cl)" for cl unfolding behaves_def by (rule disjI1) (rule exI [where x = "length (script cl)"], simp)
  moreover have "behaves getter [NAccept 6 True, NTimeout 6]"
    unfolding behaves_def by (rule disjI2) (rule exI [where x = 1], simp add: script_def getter_def)
  moreover have "seen setter [NAccept 6 True, NTimeout 6] = []" "seen getter [NAccept 6 True, NTimeout 6] = [NAccept 6 True, NTimeout 6]"
      "seen stranger [NAccept 6 True, NTimeout 6] = []" "seen stranger (script stranger) = script stranger" "seen stranger (script setter) = []"
      "seen getter (script stranger) = []" "seen setter (script stranger) = []" "cl_fd stranger = 7"
    by (simp_all add: seen_def script_def setter_def getter_def stranger_def)
  ultimately show ?thesis using example_clients by (auto simp: traffic_def) (auto simp: script_def)
qed

text \<open>
  C1. The data node is one map, from the accepted connection to the answer. Take any number of clients, each with a socket of its own and
  one set, get or delete request whose value fits, whose line comes in one piece and whose data is cut anywhere, or a line that is no request; some are not through yet and some are timed out on the way. Take any
  interleaving of the accepts, the arrivals and timeouts with the steps of the query threads, in which the threads end with empty pipes.
  Then there is one order of exactly the clients whose request arrived whole, such that each of them was sent one answer, byte for
  byte that of a map from 16-byte keys to values to the requests in this order; the store has the contents of the map. The order
  respects time: at any moment of the run it has a prefix with all the clients that are answered, and with none whose request has not arrived whole.
\<close>

theorem node_serves_clients:
  assumes "berkeley_db api view good" and "full_env env" and "good_io io" and "pipe_write_ok ae" and "\<forall>n. alloc_ok ae n"
    and "storage_inv view good s" and "room (length cls) s" and "\<forall>cl\<in>set cls. req_fits (largest_block s) (cl_req cl)"
    and "traffic cls evs" and "node_run api env io ae evs (node_start ae s) = Some nd" and "finished (n_pool nd)"
  shows "\<exists>hist. answers (map (\<lambda>e. cl_req (fst e)) hist) (stored view s) = (map snd hist, stored view (shared (n_pool nd))) \<and>
    storage_inv view good (shared (n_pool nd)) \<and> distinct (map fst hist) \<and>
    set (map fst hist) = {cl \<in> set cls. seen cl evs = script cl} \<and>
    (\<forall>e\<in>set hist. replies nd (cl_fd (fst e)) = [Some (snd e)]) \<and>
    (\<forall>evs1 evs2 nd1. evs = evs1 @ evs2 \<longrightarrow> node_run api env io ae evs1 (node_start ae s) = Some nd1 \<longrightarrow> (\<exists>k\<le>length hist. \<forall>cl\<in>set cls.
      (replies nd1 (cl_fd cl) \<noteq> [] \<longrightarrow> cl \<in> fst ` set (take k hist)) \<and> (cl \<in> fst ` set (take k hist) \<longrightarrow> seen cl evs1 = script cl)))"
proof -
  have d: "distinct (map cl_fd cls)" using assms(9) by (simp add: traffic_def)
  obtain es where ok: "node_ok api env io ae s cls evs es nd" and moments: "\<forall>evs1 evs2 nd1. evs = evs1 @ evs2 \<longrightarrow>
      node_run api env io ae evs1 (node_start ae s) = Some nd1 \<longrightarrow> (\<exists>e1 e2. es = e1 @ e2 \<and> node_ok api env io ae s cls evs1 e1 nd1)"
    using run_ok [OF node_ok_start _ assms(10,4,5), of cls] assms(9) by auto
  obtain h where h: "explains h nd" and out: "map (\<lambda>e. snd (snd e)) h = map Some (fst (answers (map (\<lambda>e. req_of (task_in e)) h) (stored view s)))"
      "stored view (shared (n_pool nd)) = snd (answers (map (\<lambda>e. req_of (task_in e)) h) (stored view s))"
      "storage_inv view good (shared (n_pool nd))" and tm: "\<And>evs1 nd1 e1 e2. es = e1 @ e2 \<Longrightarrow> node_ok api env io ae s cls evs1 e1 nd1 \<Longrightarrow> \<exists>k\<le>length h.
      timely (early_tasks ae nd) (with_future (\<lambda>j. arrivals j e2) (n_pool nd1)) (take k h)"
    using node_history [OF assms(1-3,6-8) ok assms(11)] by blast
  have some: "\<forall>e\<in>set h. snd (snd e) \<noteq> None" using arg_cong [OF out(1), of set] by auto
  note c = client_history [OF ok d h some]
  let ?hist = "map (served cls) h"
  have "map snd ?hist = fst (answers (map (\<lambda>e. req_of (task_in e)) h) (stored view s))"
    using arg_cong [OF out(1), of "map the"] by (simp add: comp_def)
  then have a: "answers (map (\<lambda>e. cl_req (fst e)) ?hist) (stored view s) = (map snd ?hist, stored view (shared (n_pool nd)))"
    unfolding c(1) using out(2) by (simp add: prod_eq_iff del: map_map)
  have "\<exists>k\<le>length ?hist. \<forall>cl\<in>set cls. (replies nd1 (cl_fd cl) \<noteq> [] \<longrightarrow> cl \<in> fst ` set (take k ?hist)) \<and>
      (cl \<in> fst ` set (take k ?hist) \<longrightarrow> seen cl evs1 = script cl)"
    if m: "evs = evs1 @ evs2" "node_run api env io ae evs1 (node_start ae s) = Some nd1" for evs1 evs2 nd1
  proof -
    obtain e1 e2 where e: "es = e1 @ e2" "node_ok api env io ae s cls evs1 e1 nd1" using moments m by blast
    obtain k where k: "k \<le> length h" "timely (early_tasks ae nd) (with_future (\<lambda>j. arrivals j e2) (n_pool nd1)) (take k h)"
      using tm [OF e] by blast
    have "map (Pair (int i)) (tasks_for i nd) = map (Pair (int i)) (tasks_for i nd1) @ arrivals i e2" for i
      using ok e by (auto simp: node_ok_def)
    note mt = moment_tasks [OF h _ this k(2) [folded pool_length [OF ok]], unfolded pool_length [OF ok] pool_length [OF e(2)], OF refl]
    show ?thesis using client_moment [OF e(2) d mt] k(1) by (intro exI [where x = k]) (auto simp: take_map)
  qed
  then show ?thesis using a c(2-4) out(3) by (intro exI [where x = ?hist] conjI) (auto simp del: map_map)
qed

theorem node_serves_clients_witness:
  "\<exists>s evs nd. node_run mem_db good_env good_sock good_assign evs (node_start good_assign s) = Some nd \<and> finished (n_pool nd) \<and>
    replies nd 5 = [Some (str ''STORED'' @ [CR, LF])] \<and> replies nd 6 = [Some (str ''VALUE k 0 2'' @ [CR, LF, 7, 8, CR, LF])]"
proof (rule one_value_store)
  fix s :: "(bytes \<times> bytes) list storage"
  assume s: "storage_inv map_of (\<lambda>d. True) s" "largest_block s = 1024" "stored map_of s = [fixed_key [1] \<mapsto> [7, 8]]" "room 999 s"
  let ?cls = "[setter, getter]" and ?start = "node_start good_assign s" and ?run = "node_run mem_db good_env good_sock good_assign"
  have ae: "pipe_write_ok good_assign" "\<forall>n. alloc_ok good_assign n" "worker_thread_cnt good_assign \<noteq> 0" by (simp_all add: good_assign_def)
  have r: "room (length ?cls) s" using room_mono [of 997 2 s] s(4) by (simp add: numeral_2_eq_2)
  have f: "\<forall>cl\<in>set ?cls. req_fits (largest_block s) (cl_req cl)" using s(2) by (simp add: setter_def getter_def)
  have tr: "traffic ?cls (script setter @ script getter)" by (rule example_traffic)
  have fds: "\<forall>ev\<in>set (script cl). fd_of ev \<noteq> None" for cl by (auto simp: script_def)
  note go = run_continues [OF mem.berkeley_db_axioms full_good_env ae s(1) r f, where io = good_sock]
  obtain is1 nd1 where m: "?run (script setter @ map NWork is1) ?start = Some nd1" "finished (n_pool nd1)"
    using go [where evs = "[]" and fs = "script setter"] traffic_prefix [OF tr] fds by auto
  have tr2: "traffic ?cls ((script setter @ map NWork is1) @ script getter)" using tr traffic_work [of ?cls "script setter" is1 "script getter"] by simp
  obtain is2 nd where n: "?run ((script setter @ map NWork is1) @ script getter @ map NWork is2) ?start = Some nd" "finished (n_pool nd)"
    using go [OF tr2 fds m(1)] by auto
  have tr3: "traffic ?cls ((script setter @ map NWork is1) @ script getter @ map NWork is2)"
    using tr2 traffic_work [of ?cls "(script setter @ map NWork is1) @ script getter" is2 "[]"] by simp
  note serves = node_serves_clients [OF mem.berkeley_db_axioms full_good_env good_sock ae(1,2) s(1) r f]
  have seen1: "seen setter (script setter @ map NWork is1) = script setter" "seen getter (script setter @ map NWork is1) \<noteq> script getter"
    using example_clients(5,8) script_nonempty [of getter] by (simp, metis append.left_neutral seen_append seen_work)
  obtain h1 where "set (map fst h1) = {cl \<in> set ?cls. seen cl (script setter @ map NWork is1) = script cl}"
      "\<forall>e\<in>set h1. replies nd1 (cl_fd (fst e)) = [Some (snd e)]"
    using serves [OF traffic_prefix [OF tr2] m] by blast
  then have early: "replies nd1 (cl_fd setter) \<noteq> []" using seen1(1) by force
  have all: "{cl \<in> set ?cls. seen cl ((script setter @ map NWork is1) @ script getter @ map NWork is2) = script cl} = {setter, getter}"
    using example_clients(5-8) by auto
  obtain h where h: "answers (map (\<lambda>e. cl_req (fst e)) h) (stored map_of s) = (map snd h, stored map_of (shared (n_pool nd)))"
      "distinct (map fst h)" "set (map fst h) = {setter, getter}" "\<forall>e\<in>set h. replies nd (cl_fd (fst e)) = [Some (snd e)]"
      and t: "\<forall>evs1 evs2 nd1. (script setter @ map NWork is1) @ script getter @ map NWork is2 = evs1 @ evs2 \<longrightarrow> ?run evs1 ?start = Some nd1 \<longrightarrow>
        (\<exists>k\<le>length h. \<forall>cl\<in>set ?cls. (replies nd1 (cl_fd cl) \<noteq> [] \<longrightarrow> cl \<in> fst ` set (take k h)) \<and> (cl \<in> fst ` set (take k h) \<longrightarrow> seen cl evs1 = script cl))"
    using serves [OF tr3 n, unfolded all] by blast
  obtain k where k: "setter \<in> fst ` set (take k h)" "getter \<notin> fst ` set (take k h)"
    using t [rule_format, OF refl m(1)] early seen1(2) by auto
  have ne: "setter \<noteq> getter" by (simp add: setter_def getter_def)
  have "length (map fst h) = 2" using distinct_card [OF h(2)] h(3) ne by simp
  then obtain x a y b where e: "h = [(x, a), (y, b)]" by (auto simp: numeral_2_eq_2 length_Suc_conv)
  have "x = setter \<and> y = getter" using h(3) k ne unfolding e by (cases k; cases "k - 1") (auto simp: doubleton_eq_iff)
  then have "replies nd 5 = [Some (str ''STORED'' @ [CR, LF])]" "replies nd 6 = [Some (str ''VALUE k 0 2'' @ [CR, LF, 7, 8, CR, LF])]"
    using h(1,4) example_clients(3,4) unfolding e by (auto simp: setter_def getter_def value_line_def decimal.simps)
  then show ?thesis using n by blast
qed

text \<open>
  C2. The node never fails and never stops serving such clients. In every state it reaches, whatever a client does next is handled: no
  assertion fails, no pipe is missing, no memory is overrun and no read is retried for ever. While a request waits in a pipe or at a lock,
  some query thread can make a step; and the query threads never make more than 20 steps per client, so that after finitely many steps
  everything that arrived whole has been answered.
\<close>

theorem node_keeps_serving:
  assumes "berkeley_db api view good" and "full_env env" and "pipe_write_ok ae" and "\<forall>n. alloc_ok ae n" and "worker_thread_cnt ae \<noteq> 0"
    and "storage_inv view good s" and "room (length cls) s" and "\<forall>cl\<in>set cls. req_fits (largest_block s) (cl_req cl)"
    and "traffic cls evs" and "node_run api env io ae evs (node_start ae s) = Some nd"
  shows "(\<forall>ev. fd_of ev \<noteq> None \<longrightarrow> traffic cls (evs @ [ev]) \<longrightarrow> node_step api env io ae ev nd \<noteq> None) \<and>
    (\<not> finished (n_pool nd) \<longrightarrow> (\<exists>i. node_step api env io ae (NWork i) nd \<noteq> None)) \<and>
    length (filter (\<lambda>ev. fd_of ev = None) evs) \<le> 20 * length cls"
proof -
  obtain es where ok: "node_ok api env io ae s cls evs es nd"
    using run_ok [OF node_ok_start _ assms(10,3,4), of cls] assms(9) by auto
  have blocks: "block_setup api view good env" using assms(1,2) by (simp add: block_setup_def block_setup_axioms_def)
  note early = node_early [OF ok assms(7,8)]
  have fits: "list_all (list_all (\<lambda>op. task_fits (largest_block s) (snd op))) (early_tasks ae nd)"
    using early(2) asks_fits unfolding list_all_iff by blast
  have inv: "storage_inv view good s \<and> room (sum_list (map length (early_tasks ae nd))) s \<and> largest_block s = largest_block s"
    using assms(6) early(4) by simp
  note ends = block_setup.pool_runs(2,3) [OF blocks early(1) inv fits]
  have "length (filter (\<lambda>ev. fd_of ev = None) evs) = length (turns es)" using ok by (simp add: node_ok_def)
  also note ends(1)
  also have "(18 + 2) * sum_list (map length (early_tasks ae nd)) \<le> 20 * length cls" using mult_le_mono2 [OF early(3), of 20] by (simp del: map_map)
  finally have "length (filter (\<lambda>ev. fd_of ev = None) evs) \<le> 20 * length cls" .
  then show ?thesis using client_event_possible [OF ok _ _ assms(3-5)] ends(2) by auto
qed

theorem node_keeps_serving_witness:
  "\<exists>s evs nd. node_run mem_db good_env good_sock good_assign evs (node_start good_assign s) = Some nd \<and>
    node_step mem_db good_env good_sock good_assign (NTimeout 6) nd \<noteq> None \<and> length (filter (\<lambda>ev. fd_of ev = None) evs) \<le> 60"
proof (rule one_value_store)
  fix s :: "(bytes \<times> bytes) list storage"
  assume s: "storage_inv map_of (\<lambda>d. True) s" "largest_block s = 1024" "room 999 s"
  let ?cls = "[setter, stranger, getter]" and ?start = "node_start good_assign s" and ?run = "node_run mem_db good_env good_sock good_assign"
  have ae: "pipe_write_ok good_assign" "\<forall>n. alloc_ok good_assign n" "worker_thread_cnt good_assign \<noteq> 0" by (simp_all add: good_assign_def)
  have r: "room (length ?cls) s" using room_mono [of 996 3 s] s(3) by (simp add: numeral_3_eq_3)
  have f: "\<forall>cl\<in>set ?cls. req_fits (largest_block s) (cl_req cl)" using s(2) by (simp add: setter_def stranger_def getter_def)
  let ?evs = "script setter @ script stranger @ [NAccept 6 True]"
  have tr: "traffic ?cls (?evs @ [NTimeout 6])" by (rule example_timeout)
  have fds: "\<forall>ev\<in>set ?evs. fd_of ev \<noteq> None" by (auto simp: script_def)
  obtain "is" nd where n: "?run (?evs @ map NWork is) ?start = Some nd"
    using run_continues [OF mem.berkeley_db_axioms full_good_env ae s(1) r f, where io = good_sock and evs = "[]" and fs = ?evs] traffic_prefix [OF tr] fds by auto
  have tr2: "traffic ?cls ((?evs @ map NWork is) @ [NTimeout 6])" using tr traffic_work [of ?cls ?evs "is" "[NTimeout 6]"] by simp
  note keeps = node_keeps_serving [OF mem.berkeley_db_axioms full_good_env ae s(1) r f traffic_prefix [OF tr2] n]
  have "node_step mem_db good_env good_sock good_assign (NTimeout 6) nd \<noteq> None"
    using keeps [THEN conjunct1, rule_format, of "NTimeout 6"] tr2 by (simp del: node_step.simps)
  moreover have "length (filter (\<lambda>ev. fd_of ev = None) (?evs @ map NWork is)) \<le> 60" using keeps by simp
  ultimately show ?thesis using n by (intro exI [where x = s] exI [where x = "?evs @ map NWork is"] exI [where x = nd]) (simp del: node_step.simps)
qed

end
