(* ===== verification/Bsdqueue.thy ===== *)
theory Bsdqueue
  imports Prelude "HOL-Library.Monad_Syntax"
begin

text \<open>
  \<^verbatim>\<open>src/include/bsdqueue.h\<close>: the singly linked tail queue. The memory is modelled as it is: a list
  head holds the pointer \<open>stqh_first\<close>, the address \<open>stqh_last\<close> of the pointer that ends the list
  (which is \<open>stqh_first\<close> itself or the next pointer of the last item), and a 32-bit \<open>size\<close>; an item
  holds its next pointer. Every macro is a function on the heap; \<open>None\<close> is the access through
  \<open>NULL\<close> or to memory that is not allocated, and for the loops also not ending. The mutex is not
  part of the model: no macro but \<open>list_lock\<close> and \<open>list_unlock\<close> takes it.

  The lemmas show that any sequence of the operations on any number of queues behaves like
  operations on lists, as long as items are in one queue at a time.
\<close>

section \<open>Memory\<close>

type_synonym ptr = "nat option"

datatype cell = FirstOf nat | NextOf nat

record stailq_head =
  stqh_first :: ptr
  stqh_last :: cell
  stqh_size :: u32

record qheap =
  q_heads :: "nat \<rightharpoonup> stailq_head"
  q_items :: "nat \<rightharpoonup> ptr"

definition upd_head :: "nat \<Rightarrow> (stailq_head \<Rightarrow> stailq_head) \<Rightarrow> qheap \<Rightarrow> qheap option" where
  "upd_head q f h =
    (case q_heads h q of None \<Rightarrow> None | Some x \<Rightarrow> Some (h\<lparr>q_heads := (q_heads h)(q \<mapsto> f x)\<rparr>))"

definition set_next :: "ptr \<Rightarrow> ptr \<Rightarrow> qheap \<Rightarrow> qheap option" where
  "set_next elm v h =
    (case elm of None \<Rightarrow> None
     | Some a \<Rightarrow> if q_items h a = None then None else Some (h\<lparr>q_items := (q_items h)(a \<mapsto> v)\<rparr>))"

text \<open>A store through the address of a pointer.\<close>

definition put_cell :: "cell \<Rightarrow> ptr \<Rightarrow> qheap \<Rightarrow> qheap option" where
  "put_cell c v h =
    (case c of FirstOf q \<Rightarrow> upd_head q (\<lambda>hd. hd\<lparr>stqh_first := v\<rparr>) h | NextOf a \<Rightarrow> set_next (Some a) v h)"

section \<open>The tail queue\<close>

definition STAILQ_FIRST :: "nat \<Rightarrow> qheap \<Rightarrow> ptr option" where
  "STAILQ_FIRST q h = map_option stqh_first (q_heads h q)"

definition STAILQ_EMPTY :: "nat \<Rightarrow> qheap \<Rightarrow> bool option" where
  "STAILQ_EMPTY q h = map_option (\<lambda>f. f = None) (STAILQ_FIRST q h)"

definition STAILQ_NEXT :: "ptr \<Rightarrow> qheap \<Rightarrow> ptr option" where
  "STAILQ_NEXT elm h = (case elm of None \<Rightarrow> None | Some a \<Rightarrow> q_items h a)"

definition STAILQ_INIT :: "nat \<Rightarrow> qheap \<Rightarrow> qheap option" where
  "STAILQ_INIT q h = upd_head q (\<lambda>hd. \<lparr>stqh_first = None, stqh_last = FirstOf q, stqh_size = 0\<rparr>) h"

definition STAILQ_CONCAT :: "nat \<Rightarrow> nat \<Rightarrow> qheap \<Rightarrow> qheap option" where
  "STAILQ_CONCAT head1 head2 h = do {
     e \<leftarrow> STAILQ_EMPTY head2 h;
     if e then Some h
     else do {
       h1 \<leftarrow> q_heads h head1;
       h2 \<leftarrow> q_heads h head2;
       h \<leftarrow> put_cell (stqh_last h1) (stqh_first h2) h;
       h2 \<leftarrow> q_heads h head2;
       h \<leftarrow> upd_head head1 (\<lambda>hd. hd\<lparr>stqh_last := stqh_last h2\<rparr>) h;
       h2 \<leftarrow> q_heads h head2;
       h \<leftarrow> upd_head head1 (\<lambda>hd. hd\<lparr>stqh_size := stqh_size hd + stqh_size h2\<rparr>) h;
       STAILQ_INIT head2 h
     }
   }"

definition STAILQ_INSERT_AFTER :: "nat \<Rightarrow> ptr \<Rightarrow> ptr \<Rightarrow> qheap \<Rightarrow> qheap option" where
  "STAILQ_INSERT_AFTER q tqelm elm h = do {
     n \<leftarrow> STAILQ_NEXT tqelm h;
     h \<leftarrow> set_next elm n h;
     h \<leftarrow> (if n = None then upd_head q (\<lambda>hd. hd\<lparr>stqh_last := NextOf (the elm)\<rparr>) h else Some h);
     h \<leftarrow> set_next tqelm elm h;
     upd_head q (\<lambda>hd. hd\<lparr>stqh_size := stqh_size hd + 1\<rparr>) h
   }"

definition STAILQ_INSERT_HEAD :: "nat \<Rightarrow> ptr \<Rightarrow> qheap \<Rightarrow> qheap option" where
  "STAILQ_INSERT_HEAD q elm h = do {
     f \<leftarrow> STAILQ_FIRST q h;
     h \<leftarrow> set_next elm f h;
     h \<leftarrow> (if f = None then upd_head q (\<lambda>hd. hd\<lparr>stqh_last := NextOf (the elm)\<rparr>) h else Some h);
     h \<leftarrow> upd_head q (\<lambda>hd. hd\<lparr>stqh_first := elm\<rparr>) h;
     upd_head q (\<lambda>hd. hd\<lparr>stqh_size := stqh_size hd + 1\<rparr>) h
   }"

definition STAILQ_INSERT_TAIL :: "nat \<Rightarrow> ptr \<Rightarrow> qheap \<Rightarrow> qheap option" where
  "STAILQ_INSERT_TAIL q elm h = do {
     h \<leftarrow> set_next elm None h;
     hd \<leftarrow> q_heads h q;
     h \<leftarrow> put_cell (stqh_last hd) elm h;
     h \<leftarrow> upd_head q (\<lambda>hd. hd\<lparr>stqh_last := NextOf (the elm)\<rparr>) h;
     upd_head q (\<lambda>hd. hd\<lparr>stqh_size := stqh_size hd + 1\<rparr>) h
   }"

text \<open>The item around the pointer that \<open>stqh_last\<close> addresses. Of a head there is no such item.\<close>

definition STAILQ_LAST :: "nat \<Rightarrow> qheap \<Rightarrow> ptr option" where
  "STAILQ_LAST q h = do {
     e \<leftarrow> STAILQ_EMPTY q h;
     hd \<leftarrow> q_heads h q;
     if e then Some None else (case stqh_last hd of FirstOf _ \<Rightarrow> None | NextOf a \<Rightarrow> Some (Some a))
   }"

definition STAILQ_REMOVE_HEAD :: "nat \<Rightarrow> qheap \<Rightarrow> qheap option" where
  "STAILQ_REMOVE_HEAD q h = do {
     f \<leftarrow> STAILQ_FIRST q h;
     n \<leftarrow> STAILQ_NEXT f h;
     h \<leftarrow> upd_head q (\<lambda>hd. hd\<lparr>stqh_first := n\<rparr>) h;
     h \<leftarrow> (if n = None then upd_head q (\<lambda>hd. hd\<lparr>stqh_last := FirstOf q\<rparr>) h else Some h);
     upd_head q (\<lambda>hd. hd\<lparr>stqh_size := stqh_size hd - 1\<rparr>) h
   }"

text \<open>The \<open>while\<close> of \<open>STAILQ_REMOVE\<close>.\<close>

partial_function (option) find_prev :: "ptr \<Rightarrow> ptr \<Rightarrow> qheap \<Rightarrow> ptr option" where
  "find_prev elm curelm h = do {
     n \<leftarrow> STAILQ_NEXT curelm h;
     if n = elm then Some curelm else find_prev elm n h
   }"

definition STAILQ_REMOVE :: "nat \<Rightarrow> ptr \<Rightarrow> qheap \<Rightarrow> qheap option" where
  "STAILQ_REMOVE q elm h = do {
     f \<leftarrow> STAILQ_FIRST q h;
     if f = elm then STAILQ_REMOVE_HEAD q h
     else do {
       curelm \<leftarrow> find_prev elm f h;
       n \<leftarrow> STAILQ_NEXT curelm h;
       nn \<leftarrow> STAILQ_NEXT n h;
       h \<leftarrow> set_next curelm nn h;
       h \<leftarrow> (if nn = None then upd_head q (\<lambda>hd. hd\<lparr>stqh_last := NextOf (the curelm)\<rparr>) h else Some h);
       upd_head q (\<lambda>hd. hd\<lparr>stqh_size := stqh_size hd - 1\<rparr>) h
     }
   }"

definition STAILQ_REMOVE_HEAD_UNTIL :: "nat \<Rightarrow> ptr \<Rightarrow> qheap \<Rightarrow> qheap option" where
  "STAILQ_REMOVE_HEAD_UNTIL q elm h = do {
     n \<leftarrow> STAILQ_NEXT elm h;
     h \<leftarrow> upd_head q (\<lambda>hd. hd\<lparr>stqh_first := n\<rparr>) h;
     if n = None then upd_head q (\<lambda>hd. hd\<lparr>stqh_last := FirstOf q\<rparr>) h else Some h
   }"

text \<open>The loops over a queue, with what their body does to the heap.\<close>

partial_function (option) foreach_loop :: "(nat \<Rightarrow> qheap \<Rightarrow> qheap option) \<Rightarrow> ptr \<Rightarrow> qheap \<Rightarrow> qheap option" where
  "foreach_loop body var h =
    (case var of None \<Rightarrow> Some h
     | Some a \<Rightarrow> do { h \<leftarrow> body a h; n \<leftarrow> STAILQ_NEXT var h; foreach_loop body n h })"

definition STAILQ_FOREACH :: "(nat \<Rightarrow> qheap \<Rightarrow> qheap option) \<Rightarrow> nat \<Rightarrow> qheap \<Rightarrow> qheap option" where
  "STAILQ_FOREACH body q h = do { f \<leftarrow> STAILQ_FIRST q h; foreach_loop body f h }"

partial_function (option) foreach_safe_loop :: "(nat \<Rightarrow> qheap \<Rightarrow> qheap option) \<Rightarrow> ptr \<Rightarrow> qheap \<Rightarrow> qheap option" where
  "foreach_safe_loop body var h =
    (case var of None \<Rightarrow> Some h
     | Some a \<Rightarrow> do { tvar \<leftarrow> STAILQ_NEXT var h; h \<leftarrow> body a h; foreach_safe_loop body tvar h })"

definition STAILQ_FOREACH_SAFE :: "(nat \<Rightarrow> qheap \<Rightarrow> qheap option) \<Rightarrow> nat \<Rightarrow> qheap \<Rightarrow> qheap option" where
  "STAILQ_FOREACH_SAFE body q h = do { f \<leftarrow> STAILQ_FIRST q h; foreach_safe_loop body f h }"

section \<open>The interface\<close>

text \<open>Allocation at an address the allocator chose, \<open>None\<close> when it has no memory; \<open>free\<close>.\<close>

definition list_new :: "ptr \<Rightarrow> qheap \<Rightarrow> qheap option" where
  "list_new p h =
    (case p of None \<Rightarrow> None
     | Some q \<Rightarrow> STAILQ_INIT q (h\<lparr>q_heads := (q_heads h)(q \<mapsto> \<lparr>stqh_first = None, stqh_last = FirstOf q, stqh_size = 0\<rparr>)\<rparr>))"

definition list_item_new :: "ptr \<Rightarrow> qheap \<Rightarrow> ptr \<times> qheap" where
  "list_item_new p h = (p, case p of None \<Rightarrow> h | Some a \<Rightarrow> h\<lparr>q_items := (q_items h)(a \<mapsto> None)\<rparr>)"

definition mem_free_item :: "ptr \<Rightarrow> qheap \<Rightarrow> qheap option" where
  "mem_free_item p h =
    (case p of None \<Rightarrow> Some h
     | Some a \<Rightarrow> if q_items h a = None then None else Some (h\<lparr>q_items := (q_items h)(a := None)\<rparr>))"

definition mem_free_head :: "nat \<Rightarrow> qheap \<Rightarrow> qheap option" where
  "mem_free_head q h = (if q_heads h q = None then None else Some (h\<lparr>q_heads := (q_heads h)(q := None)\<rparr>))"

definition list_size :: "nat \<Rightarrow> qheap \<Rightarrow> u32 option" where
  "list_size q h = map_option stqh_size (q_heads h q)"

definition list_push :: "nat \<Rightarrow> ptr \<Rightarrow> qheap \<Rightarrow> qheap option" where
  [simp]: "list_push q elm h = STAILQ_INSERT_TAIL q elm h"

definition list_unshift :: "nat \<Rightarrow> ptr \<Rightarrow> qheap \<Rightarrow> qheap option" where
  [simp]: "list_unshift q elm h = STAILQ_INSERT_HEAD q elm h"

definition list_insert :: "nat \<Rightarrow> ptr \<Rightarrow> ptr \<Rightarrow> qheap \<Rightarrow> qheap option" where
  [simp]: "list_insert q prev elm h = STAILQ_INSERT_AFTER q prev elm h"

definition list_first :: "nat \<Rightarrow> qheap \<Rightarrow> ptr option" where
  [simp]: "list_first q h = STAILQ_FIRST q h"

definition list_last :: "nat \<Rightarrow> qheap \<Rightarrow> ptr option" where
  [simp]: "list_last q h = STAILQ_LAST q h"

definition list_next :: "ptr \<Rightarrow> qheap \<Rightarrow> ptr option" where
  [simp]: "list_next elm h = STAILQ_NEXT elm h"

definition list_cat :: "nat \<Rightarrow> nat \<Rightarrow> qheap \<Rightarrow> qheap option" where
  [simp]: "list_cat q1 q2 h = STAILQ_CONCAT q1 q2 h"

definition list_remove :: "nat \<Rightarrow> ptr \<Rightarrow> qheap \<Rightarrow> qheap option" where
  [simp]: "list_remove q elm h = STAILQ_REMOVE q elm h"

definition list_remove_head :: "nat \<Rightarrow> qheap \<Rightarrow> qheap option" where
  [simp]: "list_remove_head q h = STAILQ_REMOVE_HEAD q h"

definition list_shift :: "nat \<Rightarrow> qheap \<Rightarrow> (ptr \<times> qheap) option" where
  "list_shift q h = do { f \<leftarrow> list_first q h; h \<leftarrow> list_remove_head q h; Some (f, h) }"

definition list_pop :: "nat \<Rightarrow> qheap \<Rightarrow> (ptr \<times> qheap) option" where
  "list_pop q h = do { l \<leftarrow> list_last q h; h \<leftarrow> list_remove q l h; Some (l, h) }"

text \<open>\<open>list_addr\<close>: \<open>m\<close> steps from the first item; the index and the size are cast to \<open>int\<close>.\<close>

fun addr_loop :: "nat \<Rightarrow> ptr \<Rightarrow> qheap \<Rightarrow> ptr option" where
  "addr_loop 0 i h = Some i"
| "addr_loop (Suc m) i h = do { n \<leftarrow> list_next i h; addr_loop m n h }"

definition list_addr :: "nat \<Rightarrow> u32 \<Rightarrow> qheap \<Rightarrow> ptr option" where
  "list_addr q n h = do {
     sz \<leftarrow> list_size q h;
     if sint n \<ge> sint sz then Some None
     else do { f \<leftarrow> list_first q h; addr_loop (nat (sint n)) f h }
   }"

definition list_delete :: "nat \<Rightarrow> ptr \<Rightarrow> qheap \<Rightarrow> qheap option" where
  "list_delete q i h = do { h \<leftarrow> list_remove q i h; mem_free_item i h }"

definition list_delete_head :: "nat \<Rightarrow> qheap \<Rightarrow> qheap option" where
  "list_delete_head q h = do { f \<leftarrow> list_first q h; h \<leftarrow> list_remove_head q h; mem_free_item f h }"

partial_function (option) list_clear :: "nat \<Rightarrow> qheap \<Rightarrow> qheap option" where
  "list_clear q h = do {
     f \<leftarrow> list_first q h;
     if f \<noteq> None then do { h \<leftarrow> list_delete_head q h; list_clear q h } else Some h
   }"

definition list_destroy :: "nat \<Rightarrow> qheap \<Rightarrow> qheap option" where
  "list_destroy q h = do { h \<leftarrow> list_clear q h; mem_free_head q h }"

section \<open>Lists in memory\<close>

text \<open>The pointer to the first of a list, or what the list is followed by; the heap cells of a
  list whose last item points to \<open>e\<close>.\<close>

definition first_or :: "nat list \<Rightarrow> ptr \<Rightarrow> ptr" where
  "first_or xs e = (case xs of [] \<Rightarrow> e | a # _ \<Rightarrow> Some a)"

lemma first_or_simps [simp]:
  "first_or [] e = e" "first_or (a # xs) e = Some a" "first_or (xs @ ys) e = first_or xs (first_or ys e)"
  "first_or xs None = None \<longleftrightarrow> xs = []"
  by (auto simp: first_or_def split: list.splits)

primrec links :: "(nat \<rightharpoonup> ptr) \<Rightarrow> nat list \<Rightarrow> ptr \<Rightarrow> bool" where
  "links m [] e \<longleftrightarrow> True"
| "links m (a # as) e \<longleftrightarrow> m a = Some (first_or as e) \<and> links m as e"

lemma links_append [simp]: "links m (xs @ ys) e \<longleftrightarrow> links m xs (first_or ys e) \<and> links m ys e"
  by (induction xs) auto

lemma links_cong: "(\<And>i. i \<in> set xs \<Longrightarrow> m i = m' i) \<Longrightarrow> links m xs e = links m' xs e"
  by (induction xs) auto

lemma links_upd [simp]: "a \<notin> set xs \<Longrightarrow> links (m(a := v)) xs e = links m xs e"
  by (rule links_cong) auto

lemma links_dom: "links m xs e \<Longrightarrow> i \<in> set xs \<Longrightarrow> m i \<noteq> None"
  by (induction xs) auto

definition last_cell :: "nat \<Rightarrow> nat list \<Rightarrow> cell" where
  "last_cell q xs = (if xs = [] then FirstOf q else NextOf (last xs))"

definition head_of :: "nat \<Rightarrow> nat list \<Rightarrow> stailq_head" where
  "head_of q xs = \<lparr>stqh_first = first_or xs None, stqh_last = last_cell q xs, stqh_size = word_of_nat (length xs)\<rparr>"

lemma head_of_sel [simp]:
  "stqh_first (head_of q xs) = first_or xs None" "stqh_last (head_of q xs) = last_cell q xs"
  "stqh_size (head_of q xs) = word_of_nat (length xs)"
  by (simp_all add: head_of_def)

lemmas queue_defs = upd_head_def set_next_def put_cell_def STAILQ_FIRST_def STAILQ_EMPTY_def STAILQ_NEXT_def
  STAILQ_INIT_def

text \<open>Each operation on a queue that holds a list: the list it holds afterwards, and the next
  pointers it changed.\<close>

lemma insert_tail_result:
  assumes "q_heads h q = Some (head_of q xs)" and "q_items h i \<noteq> None" and "i \<notin> set xs"
    and "links (q_items h) xs None"
  shows "STAILQ_INSERT_TAIL q (Some i) h = Some (h\<lparr>q_heads := (q_heads h)(q \<mapsto> head_of q (xs @ [i])),
    q_items := (if xs = [] then (q_items h)(i \<mapsto> None) else (q_items h)(i \<mapsto> None, last xs \<mapsto> Some i))\<rparr>)"
proof (cases xs rule: rev_cases)
  case Nil
  then show ?thesis using assms by (simp add: STAILQ_INSERT_TAIL_def queue_defs last_cell_def head_of_def)
next
  case (snoc ys y)
  then show ?thesis
    using assms by (auto simp: STAILQ_INSERT_TAIL_def queue_defs last_cell_def head_of_def)
qed

lemma insert_head_result:
  assumes "q_heads h q = Some (head_of q xs)" and "q_items h i \<noteq> None"
  shows "STAILQ_INSERT_HEAD q (Some i) h = Some (h\<lparr>q_heads := (q_heads h)(q \<mapsto> head_of q (i # xs)),
    q_items := (q_items h)(i \<mapsto> first_or xs None)\<rparr>)"
  using assms by (auto simp: STAILQ_INSERT_HEAD_def queue_defs last_cell_def head_of_def ac_simps)

lemma insert_after_result:
  assumes "q_heads h q = Some (head_of q (us @ p # vs))" and "q_items h i \<noteq> None" and "i \<noteq> p"
    and "links (q_items h) (us @ p # vs) None"
  shows "STAILQ_INSERT_AFTER q (Some p) (Some i) h = Some (h\<lparr>q_heads := (q_heads h)(q \<mapsto> head_of q (us @ p # i # vs)),
    q_items := (q_items h)(i \<mapsto> first_or vs None, p \<mapsto> Some i)\<rparr>)"
  using assms by (auto simp: STAILQ_INSERT_AFTER_def queue_defs last_cell_def head_of_def)

lemma remove_head_result:
  assumes "q_heads h q = Some (head_of q (a # xs))" and "links (q_items h) (a # xs) None"
  shows "STAILQ_REMOVE_HEAD q h = Some (h\<lparr>q_heads := (q_heads h)(q \<mapsto> head_of q xs)\<rparr>)"
  using assms by (auto simp: STAILQ_REMOVE_HEAD_def queue_defs last_cell_def head_of_def)

lemma find_prev_result:
  "links (q_items h) (us @ [p]) (Some i) \<Longrightarrow> i \<notin> set (us @ [p]) \<Longrightarrow>
    find_prev (Some i) (first_or (us @ [p]) None) h = Some (Some p)"
proof (induction us)
  case Nil
  then show ?case by (subst find_prev.simps) (simp add: STAILQ_NEXT_def)
next
  case (Cons u us)
  then show ?case
    by (subst find_prev.simps) (cases us, auto simp: STAILQ_NEXT_def)
qed

lemma remove_result:
  assumes q: "q_heads h q = Some (head_of q (us @ i # vs))" and d: "distinct (us @ i # vs)"
    and l: "links (q_items h) (us @ i # vs) None"
  shows "STAILQ_REMOVE q (Some i) h = Some (h\<lparr>q_heads := (q_heads h)(q \<mapsto> head_of q (us @ vs)),
    q_items := (if us = [] then q_items h else (q_items h)(last us \<mapsto> first_or vs None))\<rparr>)"
proof (cases us rule: rev_cases)
  case Nil
  then show ?thesis using remove_head_result [of h q i vs] q l
    by (simp add: STAILQ_REMOVE_def STAILQ_FIRST_def)
next
  case (snoc ws p)
  have "find_prev (Some i) (first_or (ws @ [p]) None) h = Some (Some p)"
    using l d snoc by (intro find_prev_result) auto
  moreover have "first_or us None \<noteq> Some i" using d snoc by (cases ws) auto
  ultimately show ?thesis
    using q l d snoc by (auto simp: STAILQ_REMOVE_def queue_defs last_cell_def head_of_def)
qed

lemma last_result:
  "q_heads h q = Some (head_of q xs) \<Longrightarrow> STAILQ_LAST q h = Some (if xs = [] then None else Some (last xs))"
  by (simp add: STAILQ_LAST_def queue_defs last_cell_def)

lemma addr_result: "links (q_items h) xs e \<Longrightarrow> n < length xs \<Longrightarrow> addr_loop n (first_or xs e) h = Some (Some (xs ! n))"
proof (induction xs arbitrary: n)
  case (Cons a xs)
  then show ?case by (cases n; cases xs) (auto simp: STAILQ_NEXT_def)
qed simp

lemma concat_result:
  assumes "q_heads h q1 = Some (head_of q1 xs)" and "q_heads h q2 = Some (head_of q2 ys)" and "q1 \<noteq> q2"
    and "links (q_items h) xs None"
  shows "STAILQ_CONCAT q1 q2 h = Some (if ys = [] then h else h\<lparr>q_heads := (q_heads h)(q1 \<mapsto> head_of q1 (xs @ ys), q2 \<mapsto> head_of q2 []),
    q_items := (if xs = [] then q_items h else (q_items h)(last xs \<mapsto> first_or ys None))\<rparr>)"
proof (cases xs rule: rev_cases)
  case Nil
  then show ?thesis using assms
    by (auto simp: STAILQ_CONCAT_def queue_defs last_cell_def head_of_def fun_upd_twist ac_simps)
next
  case (snoc zs z)
  then show ?thesis using assms
    by (auto simp: STAILQ_CONCAT_def queue_defs last_cell_def head_of_def fun_upd_twist ac_simps)
qed

section \<open>Queues as lists\<close>

text \<open>The specification: named lists of items, and the items that are in none.\<close>

record queues =
  qs :: "nat \<rightharpoonup> nat list"
  loose :: "nat set"

definition in_queue :: "queues \<Rightarrow> nat \<Rightarrow> bool" where
  "in_queue A i \<longleftrightarrow> (\<exists>q xs. qs A q = Some xs \<and> i \<in> set xs)"

fun insert_after :: "nat \<Rightarrow> nat \<Rightarrow> nat list \<Rightarrow> nat list" where
  "insert_after p i [] = []"
| "insert_after p i (x # xs) = (if x = p then x # i # xs else x # insert_after p i xs)"

datatype qop = QNew nat | QItem nat | QPush nat nat | QUnshift nat nat | QInsert nat nat nat | QShift nat | QPop nat
  | QRemove nat nat | QCat nat nat | QDelete nat nat | QDeleteHead nat | QClear nat | QDestroy nat
  | QFirst nat | QLast nat | QAddr nat nat | QSize nat

datatype qout = NoOut | OutItem ptr | OutSize u32

text \<open>What an operation does to the lists, \<open>None\<close> where it must not be called: items are put into a
  queue from outside, and removed from a queue they are in.\<close>

definition put_list :: "nat \<Rightarrow> nat list \<Rightarrow> nat set \<Rightarrow> queues \<Rightarrow> queues" where
  "put_list q ys L A = A\<lparr>qs := (qs A)(q \<mapsto> ys), loose := L\<rparr>"

fun spec_step :: "qop \<Rightarrow> queues \<Rightarrow> (qout \<times> queues) option" where
  "spec_step (QNew q) A = (if qs A q \<noteq> None then None else Some (NoOut, A\<lparr>qs := (qs A)(q \<mapsto> [])\<rparr>))"
| "spec_step (QItem i) A =
    (if i \<in> loose A \<or> in_queue A i then None else Some (OutItem (Some i), A\<lparr>loose := insert i (loose A)\<rparr>))"
| "spec_step (QPush q i) A = do {
    xs \<leftarrow> qs A q; if i \<in> loose A then Some (NoOut, put_list q (xs @ [i]) (loose A - {i}) A) else None }"
| "spec_step (QUnshift q i) A = do {
    xs \<leftarrow> qs A q; if i \<in> loose A then Some (NoOut, put_list q (i # xs) (loose A - {i}) A) else None }"
| "spec_step (QInsert q p i) A = do {
    xs \<leftarrow> qs A q;
    if i \<in> loose A \<and> p \<in> set xs then Some (NoOut, put_list q (insert_after p i xs) (loose A - {i}) A) else None }"
| "spec_step (QShift q) A = do {
    xs \<leftarrow> qs A q;
    case xs of [] \<Rightarrow> None | x # ys \<Rightarrow> Some (OutItem (Some x), put_list q ys (insert x (loose A)) A) }"
| "spec_step (QPop q) A = do {
    xs \<leftarrow> qs A q;
    if xs = [] then None
    else Some (OutItem (Some (last xs)), put_list q (butlast xs) (insert (last xs) (loose A)) A) }"
| "spec_step (QRemove q i) A = do {
    xs \<leftarrow> qs A q; if i \<in> set xs then Some (NoOut, put_list q (remove1 i xs) (insert i (loose A)) A) else None }"
| "spec_step (QCat q1 q2) A = do {
    xs \<leftarrow> qs A q1; ys \<leftarrow> qs A q2;
    if q1 = q2 then None else Some (NoOut, A\<lparr>qs := (qs A)(q1 \<mapsto> xs @ ys, q2 \<mapsto> [])\<rparr>) }"
| "spec_step (QDelete q i) A = do {
    xs \<leftarrow> qs A q; if i \<in> set xs then Some (NoOut, put_list q (remove1 i xs) (loose A) A) else None }"
| "spec_step (QDeleteHead q) A = do {
    xs \<leftarrow> qs A q; if xs = [] then None else Some (NoOut, put_list q (tl xs) (loose A) A) }"
| "spec_step (QClear q) A = do { xs \<leftarrow> qs A q; Some (NoOut, put_list q [] (loose A) A) }"
| "spec_step (QDestroy q) A = do { xs \<leftarrow> qs A q; Some (NoOut, A\<lparr>qs := (qs A)(q := None)\<rparr>) }"
| "spec_step (QFirst q) A = do { xs \<leftarrow> qs A q; Some (OutItem (first_or xs None), A) }"
| "spec_step (QLast q) A = do { xs \<leftarrow> qs A q; Some (OutItem (if xs = [] then None else Some (last xs)), A) }"
| "spec_step (QAddr q n) A = do {
    xs \<leftarrow> qs A q;
    if n < 2 ^ 31 \<and> length xs < 2 ^ 31 then Some (OutItem (if n < length xs then Some (xs ! n) else None), A) else None }"
| "spec_step (QSize q) A = do { xs \<leftarrow> qs A q; Some (OutSize (word_of_nat (length xs)), A) }"

text \<open>The same operations on the heap.\<close>

fun heap_step :: "qop \<Rightarrow> qheap \<Rightarrow> (qout \<times> qheap) option" where
  "heap_step (QNew q) h = map_option (Pair NoOut) (list_new (Some q) h)"
| "heap_step (QItem i) h = (case list_item_new (Some i) h of (p, h) \<Rightarrow> Some (OutItem p, h))"
| "heap_step (QPush q i) h = map_option (Pair NoOut) (list_push q (Some i) h)"
| "heap_step (QUnshift q i) h = map_option (Pair NoOut) (list_unshift q (Some i) h)"
| "heap_step (QInsert q p i) h = map_option (Pair NoOut) (list_insert q (Some p) (Some i) h)"
| "heap_step (QShift q) h = map_option (\<lambda>(p, h). (OutItem p, h)) (list_shift q h)"
| "heap_step (QPop q) h = map_option (\<lambda>(p, h). (OutItem p, h)) (list_pop q h)"
| "heap_step (QRemove q i) h = map_option (Pair NoOut) (list_remove q (Some i) h)"
| "heap_step (QCat q1 q2) h = map_option (Pair NoOut) (list_cat q1 q2 h)"
| "heap_step (QDelete q i) h = map_option (Pair NoOut) (list_delete q (Some i) h)"
| "heap_step (QDeleteHead q) h = map_option (Pair NoOut) (list_delete_head q h)"
| "heap_step (QClear q) h = map_option (Pair NoOut) (list_clear q h)"
| "heap_step (QDestroy q) h = map_option (Pair NoOut) (list_destroy q h)"
| "heap_step (QFirst q) h = map_option (\<lambda>p. (OutItem p, h)) (list_first q h)"
| "heap_step (QLast q) h = map_option (\<lambda>p. (OutItem p, h)) (list_last q h)"
| "heap_step (QAddr q n) h = map_option (\<lambda>p. (OutItem p, h)) (list_addr q (word_of_nat n) h)"
| "heap_step (QSize q) h = map_option (\<lambda>n. (OutSize n, h)) (list_size q h)"

text \<open>The heap represents the lists: every queue lies in it, no item is in two, and the allocated
  items are those in queues and the loose ones.\<close>

definition repr :: "qheap \<Rightarrow> queues \<Rightarrow> bool" where
  "repr h A \<longleftrightarrow>
    (\<forall>q. q_heads h q = map_option (head_of q) (qs A q)) \<and>
    (\<forall>q xs. qs A q = Some xs \<longrightarrow> links (q_items h) xs None \<and> distinct xs) \<and>
    (\<forall>q xs q' xs'. qs A q = Some xs \<longrightarrow> qs A q' = Some xs' \<longrightarrow> q \<noteq> q' \<longrightarrow> set xs \<inter> set xs' = {}) \<and>
    (\<forall>i. q_items h i \<noteq> None \<longleftrightarrow> i \<in> loose A \<or> in_queue A i) \<and>
    (\<forall>i. i \<in> loose A \<longrightarrow> \<not> in_queue A i)"

lemma repr_queue:
  assumes "repr h A" and "qs A q = Some xs"
  shows "q_heads h q = Some (head_of q xs)" "links (q_items h) xs None" "distinct xs" "set xs \<inter> loose A = {}"
    "\<And>i. i \<in> set xs \<Longrightarrow> q_items h i \<noteq> None"
  using assms by (auto simp: repr_def in_queue_def)

lemma repr_disjoint:
  "repr h A \<Longrightarrow> qs A q = Some xs \<Longrightarrow> qs A q' = Some zs \<Longrightarrow> q' \<noteq> q \<Longrightarrow> set zs \<inter> set xs = {}"
  unfolding repr_def by blast

lemma repr_loose: "repr h A \<Longrightarrow> i \<in> loose A \<Longrightarrow> q_items h i \<noteq> None"
  by (auto simp: repr_def)

text \<open>One queue changes, within its own items and the loose ones.\<close>

lemma repr_change:
  assumes r: "repr h A" and q: "qs A q = Some xs"
    and heads: "q_heads h' = (q_heads h)(q \<mapsto> head_of q ys)"
    and same: "\<And>i. i \<notin> set xs \<union> loose A \<Longrightarrow> q_items h' i = q_items h i"
    and ys: "links (q_items h') ys None" "distinct ys"
    and parts: "set ys \<union> L \<subseteq> set xs \<union> loose A" "set ys \<inter> L = {}"
    and alloc: "\<And>i. i \<in> set xs \<union> loose A \<Longrightarrow> q_items h' i \<noteq> None \<longleftrightarrow> i \<in> set ys \<union> L"
  shows "repr h' (put_list q ys L A)"
proof -
  have other: "set zs \<inter> (set xs \<union> loose A) = {}" if "qs A q' = Some zs" "q' \<noteq> q" for q' zs
    using repr_disjoint [OF r q that] repr_queue(4) [OF r that(1)] by blast
  have iq: "in_queue (put_list q ys L A) i \<longleftrightarrow> i \<in> set ys \<or> (\<exists>q' zs. q' \<noteq> q \<and> qs A q' = Some zs \<and> i \<in> set zs)" for i
    by (auto simp: in_queue_def put_list_def)
  show ?thesis
    unfolding repr_def
  proof (intro conjI allI impI)
    fix q' show "q_heads h' q' = map_option (head_of q') (qs (put_list q ys L A) q')"
      using r heads by (auto simp: repr_def put_list_def)
  next
    fix q' zs assume "qs (put_list q ys L A) q' = Some zs"
    then show "links (q_items h') zs None" and "distinct zs"
      using ys r other [of q' zs] same links_cong [of zs "q_items h'" "q_items h" None]
      by (auto simp: repr_def put_list_def split: if_splits)
  next
    fix q' zs q'' zs' assume "qs (put_list q ys L A) q' = Some zs" "qs (put_list q ys L A) q'' = Some zs'" "q' \<noteq> q''"
    then show "set zs \<inter> set zs' = {}"
      using parts(1) other [of q' zs] other [of q'' zs'] r by (auto simp: repr_def put_list_def split: if_splits)
  next
    fix i show "(q_items h' i \<noteq> None) = (i \<in> loose (put_list q ys L A) \<or> in_queue (put_list q ys L A) i)"
    proof (cases "i \<in> set xs \<union> loose A")
      case True
      then have "\<not> (\<exists>q' zs. q' \<noteq> q \<and> qs A q' = Some zs \<and> i \<in> set zs)" using other by blast
      then show ?thesis using alloc [OF True] iq [of i] by (auto simp: put_list_def)
    next
      case False
      then have "i \<notin> set ys" "i \<notin> L" "q_items h' i = q_items h i" using parts(1) same by auto
      moreover have "q_items h i \<noteq> None \<longleftrightarrow> in_queue A i" using r False by (auto simp: repr_def)
      moreover have "in_queue A i \<longleftrightarrow> (\<exists>q' zs. q' \<noteq> q \<and> qs A q' = Some zs \<and> i \<in> set zs)"
        using False q by (auto simp: in_queue_def) (metis option.inject)
      ultimately show ?thesis using iq [of i] by (auto simp: put_list_def)
    qed
  next
    fix i assume "i \<in> loose (put_list q ys L A)"
    then have "i \<in> L" by (simp add: put_list_def)
    then show "\<not> in_queue (put_list q ys L A) i" using iq [of i] parts other by blast
  qed
qed

text \<open>Items leave a queue: nothing but the next pointers of items that stay in it change.\<close>

lemma insert_after_split: "p \<notin> set us \<Longrightarrow> insert_after p i (us @ p # vs) = us @ p # i # vs"
  by (induction us) auto

lemma repr_add:
  assumes r: "repr h A" and q: "qs A q = Some (us @ vs)" and i: "i \<in> loose A"
    and h': "q_heads h' = (q_heads h)(q \<mapsto> head_of q (us @ i # vs))"
      "q_items h' = (if us = [] then (q_items h)(i \<mapsto> first_or vs None)
        else (q_items h)(i \<mapsto> first_or vs None, last us \<mapsto> Some i))"
  shows "repr h' (put_list q (us @ i # vs) (loose A - {i}) A)"
proof (rule repr_change [OF r q h'(1)])
  have i': "i \<notin> set us" "i \<notin> set vs" using repr_queue(4) [OF r q] i by auto
  show "links (q_items h') (us @ i # vs) None"
    using repr_queue(2,3) [OF r q] i' h'(2) by (cases us rule: rev_cases) auto
  show "distinct (us @ i # vs)" using repr_queue(3) [OF r q] i' by auto
  show "q_items h' j \<noteq> None \<longleftrightarrow> j \<in> set (us @ i # vs) \<union> (loose A - {i})" if "j \<in> set (us @ vs) \<union> loose A" for j
    using that repr_queue(5) [OF r q, of j] repr_loose [OF r, of j] h'(2) by auto
  show "q_items h' j = q_items h j" if "j \<notin> set (us @ vs) \<union> loose A" for j
    using that i h'(2) by (cases us rule: rev_cases) auto
qed (use i repr_queue(4) [OF r q] in auto)

lemma repr_drop:
  assumes r: "repr h A" and q: "qs A q = Some (us @ i # vs)"
    and h': "q_heads h' = (q_heads h)(q \<mapsto> head_of q (us @ vs))"
      "q_items h' = (if us = [] then q_items h else (q_items h)(last us \<mapsto> first_or vs None))"
  shows "repr h' (put_list q (us @ vs) (insert i (loose A)) A)"
proof (rule repr_change [OF r q h'(1)])
  note d = repr_queue(3) [OF r q]
  show "links (q_items h') (us @ vs) None"
    using repr_queue(2) [OF r q] d h'(2) by (cases us rule: rev_cases) auto
  show "q_items h' j \<noteq> None \<longleftrightarrow> j \<in> set (us @ vs) \<union> insert i (loose A)" if "j \<in> set (us @ i # vs) \<union> loose A" for j
    using that repr_queue(5) [OF r q, of j] repr_loose [OF r, of j] h'(2) by auto
  show "q_items h' j = q_items h j" if "j \<notin> set (us @ i # vs) \<union> loose A" for j
    using that h'(2) by (cases us rule: rev_cases) auto
  show "distinct (us @ vs)" using d by auto
qed (use repr_queue(3,4) [OF r q] in auto)

text \<open>A loose item is freed.\<close>

lemma repr_free:
  assumes r: "repr h A" and i: "i \<in> loose A"
  shows "\<exists>h'. mem_free_item (Some i) h = Some h' \<and> repr h' (A\<lparr>loose := loose A - {i}\<rparr>)"
proof -
  let ?h = "h\<lparr>q_items := (q_items h)(i := None)\<rparr>"
  have "i \<notin> set xs" if "qs A q = Some xs" for q xs using repr_queue(4) [OF r that] i by auto
  then have "repr ?h (A\<lparr>loose := loose A - {i}\<rparr>)"
    using r by (auto simp: repr_def in_queue_def)
  then show ?thesis using repr_loose [OF r i] by (simp add: mem_free_item_def)
qed

section \<open>The operations follow the lists\<close>

lemma push_sim:
  assumes "repr h A" and "qs A q = Some xs" and "i \<in> loose A"
  shows "\<exists>h'. list_push q (Some i) h = Some h' \<and> repr h' (put_list q (xs @ [i]) (loose A - {i}) A)"
proof -
  have "i \<notin> set xs" using repr_queue(4) [OF assms(1,2)] assms(3) by auto
  then show ?thesis
    using repr_queue(1,2) [OF assms(1,2)] repr_loose [OF assms(1,3)]
      repr_add [OF assms(1), of q xs "[]" i] assms(2,3)
    by (auto simp: insert_tail_result)
qed

lemma unshift_sim:
  assumes "repr h A" and "qs A q = Some xs" and "i \<in> loose A"
  shows "\<exists>h'. list_unshift q (Some i) h = Some h' \<and> repr h' (put_list q (i # xs) (loose A - {i}) A)"
  using insert_head_result [OF repr_queue(1) [OF assms(1,2)] repr_loose [OF assms(1,3)]]
    repr_add [OF assms(1), of q "[]" xs i] assms(2,3) by auto

lemma insert_sim:
  assumes r: "repr h A" and q: "qs A q = Some xs" and i: "i \<in> loose A" and p: "p \<in> set xs"
  shows "\<exists>h'. list_insert q (Some p) (Some i) h = Some h' \<and> repr h' (put_list q (insert_after p i xs) (loose A - {i}) A)"
proof -
  obtain us vs where xs: "xs = us @ p # vs" using p by (meson split_list)
  have "p \<notin> set us" using repr_queue(3) [OF r q] xs by auto
  moreover have "i \<noteq> p" using repr_queue(4) [OF r q] i p by auto
  ultimately show ?thesis
    using insert_after_result [of h q us p vs i] repr_queue(1,2) [OF r q] repr_loose [OF r i]
      repr_add [OF r, of q "us @ [p]" vs i] q i xs
    by (auto simp: insert_after_split)
qed

lemma remove_sim:
  assumes r: "repr h A" and q: "qs A q = Some xs" and i: "i \<in> set xs"
  shows "\<exists>h'. list_remove q (Some i) h = Some h' \<and> repr h' (put_list q (remove1 i xs) (insert i (loose A)) A)"
proof -
  obtain us vs where xs: "xs = us @ i # vs" using i by (meson split_list)
  have "i \<notin> set us" using repr_queue(3) [OF r q] xs by auto
  then have "remove1 i xs = us @ vs" using xs by (simp add: remove1_append)
  then show ?thesis
    using remove_result [of h q us i vs] repr_queue(1-3) [OF r q] repr_drop [OF r, of q us i vs] q xs by auto
qed

lemma shift_sim:
  assumes r: "repr h A" and q: "qs A q = Some (x # xs)"
  shows "\<exists>h'. list_shift q h = Some (Some x, h') \<and> repr h' (put_list q xs (insert x (loose A)) A)"
  using remove_head_result [OF repr_queue(1,2) [OF r q]] repr_drop [OF r, of q "[]" x xs] repr_queue(1) [OF r q] q
  by (auto simp: list_shift_def STAILQ_FIRST_def)

lemma pop_sim:
  assumes r: "repr h A" and q: "qs A q = Some xs" and xs: "xs \<noteq> []"
  shows "\<exists>h'. list_pop q h = Some (Some (last xs), h') \<and> repr h' (put_list q (butlast xs) (insert (last xs) (loose A)) A)"
proof -
  obtain ys x where ys: "xs = ys @ [x]" using xs by (meson rev_exhaust)
  then have "remove1 x xs = ys" using repr_queue(3) [OF r q] by (auto simp: remove1_append)
  then show ?thesis
    using remove_sim [OF r q, of x] last_result [OF repr_queue(1) [OF r q]] ys by (auto simp: list_pop_def)
qed

lemma put_list_free: "i \<notin> L \<Longrightarrow> (put_list q ys (insert i L) A)\<lparr>loose := loose (put_list q ys (insert i L) A) - {i}\<rparr> = put_list q ys L A"
  by (simp add: put_list_def)

lemma delete_sim:
  assumes r: "repr h A" and q: "qs A q = Some xs" and i: "i \<in> set xs"
  shows "\<exists>h'. list_delete q (Some i) h = Some h' \<and> repr h' (put_list q (remove1 i xs) (loose A) A)"
proof -
  obtain h1 where h1: "list_remove q (Some i) h = Some h1" "repr h1 (put_list q (remove1 i xs) (insert i (loose A)) A)"
    using remove_sim [OF assms] by blast
  have "i \<notin> loose A" using repr_queue(4) [OF r q] i by auto
  then show ?thesis
    using repr_free [OF h1(2), of i] h1(1) put_list_free by (auto simp: list_delete_def put_list_def)
qed

lemma delete_head_sim:
  assumes r: "repr h A" and q: "qs A q = Some (x # xs)"
  shows "\<exists>h'. list_delete_head q h = Some h' \<and> repr h' (put_list q xs (loose A) A)"
proof -
  obtain h1 where h1: "list_shift q h = Some (Some x, h1)" "repr h1 (put_list q xs (insert x (loose A)) A)"
    using shift_sim [OF assms] by blast
  have "x \<notin> loose A" using repr_queue(4) [OF r q] by auto
  then show ?thesis
    using repr_free [OF h1(2), of x] h1(1) by (auto simp: list_delete_head_def list_shift_def put_list_def bind_eq_Some_conv)
qed

lemma clear_sim:
  "repr h A \<Longrightarrow> qs A q = Some xs \<Longrightarrow> \<exists>h'. list_clear q h = Some h' \<and> repr h' (put_list q [] (loose A) A)"
proof (induction xs arbitrary: h A)
  case Nil
  have "put_list q [] (loose A) A = A" using Nil.prems(2) by (simp add: put_list_def map_upd_triv)
  then show ?case using Nil repr_queue(1) [OF Nil.prems] by (subst list_clear.simps) (simp add: STAILQ_FIRST_def)
next
  case (Cons x xs)
  obtain h1 where h1: "list_delete_head q h = Some h1" "repr h1 (put_list q xs (loose A) A)"
    using delete_head_sim [OF Cons.prems] by blast
  have "put_list q [] (loose A) (put_list q xs (loose A) A) = put_list q [] (loose A) A" by (simp add: put_list_def)
  then show ?case
    using Cons.IH [OF h1(2)] h1(1) repr_queue(1) [OF Cons.prems]
    by (subst list_clear.simps) (auto simp: STAILQ_FIRST_def put_list_def)
qed

lemma destroy_sim:
  assumes "repr h A" and "qs A q = Some xs"
  shows "\<exists>h'. list_destroy q h = Some h' \<and> repr h' (A\<lparr>qs := (qs A)(q := None)\<rparr>)"
proof -
  obtain h1 where h1: "list_clear q h = Some h1" "repr h1 (put_list q [] (loose A) A)" using clear_sim [OF assms] by blast
  let ?h = "h1\<lparr>q_heads := (q_heads h1)(q := None)\<rparr>"
  have "in_queue (A\<lparr>qs := (qs A)(q := None)\<rparr>) i = in_queue (put_list q [] (loose A) A) i" for i
    by (auto simp: in_queue_def put_list_def)
  then have "repr ?h (A\<lparr>qs := (qs A)(q := None)\<rparr>)"
    using h1(2) by (auto simp: repr_def put_list_def split: if_splits) (metis disjoint_iff)
  moreover have "q_heads h1 q \<noteq> None" using h1(2) by (auto simp: repr_def put_list_def)
  ultimately show ?thesis using h1(1) by (auto simp: list_destroy_def mem_free_head_def)
qed

lemma cat_sim:
  assumes r: "repr h A" and q: "qs A q1 = Some xs" "qs A q2 = Some ys" "q1 \<noteq> q2"
  shows "\<exists>h'. list_cat q1 q2 h = Some h' \<and> repr h' (A\<lparr>qs := (qs A)(q1 \<mapsto> xs @ ys, q2 \<mapsto> [])\<rparr>)"
proof -
  let ?B = "put_list q2 [] (loose A \<union> set ys) A" and ?hm = "h\<lparr>q_heads := (q_heads h)(q2 \<mapsto> head_of q2 [])\<rparr>"
  let ?m = "if xs = [] then q_items h else (q_items h)(last xs \<mapsto> first_or ys None)"
  let ?h = "h\<lparr>q_heads := (q_heads h)(q1 \<mapsto> head_of q1 (xs @ ys), q2 \<mapsto> head_of q2 []), q_items := ?m\<rparr>"
  have B: "repr ?hm ?B"
    by (rule repr_change [OF r q(2)]) (use repr_queue(4,5) [OF r q(2)] repr_loose [OF r] in auto)
  have d: "set xs \<inter> set ys = {}" using repr_disjoint [OF r q(2,1)] q(3) by auto
  have fin: "put_list q1 (xs @ ys) (loose A) ?B = A\<lparr>qs := (qs A)(q1 \<mapsto> xs @ ys, q2 \<mapsto> [])\<rparr>"
    using q(3) by (simp add: put_list_def fun_upd_twist)
  have "repr ?h (put_list q1 (xs @ ys) (loose A) ?B)"
  proof (rule repr_change [OF B])
    show "links (q_items ?h) (xs @ ys) None"
      using repr_queue(2,3) [OF r q(1)] repr_queue(2) [OF r q(2)] d by (cases xs rule: rev_cases) auto
    show "distinct (xs @ ys)" using repr_queue(3) [OF r q(1)] repr_queue(3) [OF r q(2)] d by auto
    show "q_items ?h i \<noteq> None \<longleftrightarrow> i \<in> set (xs @ ys) \<union> loose A" if "i \<in> set xs \<union> loose ?B" for i
      using that repr_queue(5) [OF r q(1), of i] repr_queue(5) [OF r q(2), of i] repr_loose [OF r, of i]
      by (auto simp: put_list_def)
  qed (use q repr_queue(4) [OF r q(1)] repr_queue(4) [OF r q(2)] in \<open>auto simp: put_list_def fun_upd_twist\<close>)
  moreover have "list_cat q1 q2 h = Some ?h"
    using concat_result [OF repr_queue(1) [OF r q(1)] repr_queue(1) [OF r q(2)] q(3) repr_queue(2) [OF r q(1)]]
      repr_queue(1) [OF r q(1)] repr_queue(1) [OF r q(2)] repr_queue(2) [OF r q(1)]
    by (cases xs rule: rev_cases) (auto simp: map_upd_triv)
  ultimately show ?thesis using fin by simp
qed

section \<open>Sequences of operations\<close>

fun run_all :: "('op \<Rightarrow> 's \<Rightarrow> ('out \<times> 's) option) \<Rightarrow> 'op list \<Rightarrow> 's \<Rightarrow> ('out list \<times> 's) option" where
  "run_all step [] s = Some ([], s)"
| "run_all step (a # as) s = do { (x, s) \<leftarrow> step a s; (xs, s) \<leftarrow> run_all step as s; Some (x # xs, s) }"

text \<open>The interface of the queues: an implementation answers as the lists do, and keeps
  representing them.\<close>

locale queue_interface =
  fixes step :: "qop \<Rightarrow> 'h \<Rightarrow> (qout \<times> 'h) option" and R :: "'h \<Rightarrow> queues \<Rightarrow> bool"
  assumes step_sim: "R h A \<Longrightarrow> spec_step a A = Some (x, A') \<Longrightarrow> \<exists>h'. step a h = Some (x, h') \<and> R h' A'"
begin

lemma run_sim:
  "R h A \<Longrightarrow> run_all spec_step as A = Some (xs, A') \<Longrightarrow> \<exists>h'. run_all step as h = Some (xs, h') \<and> R h' A'"
proof (induction as arbitrary: h A xs)
  case (Cons a as)
  from Cons.prems(2) obtain x B ys where a: "spec_step a A = Some (x, B)" "run_all spec_step as B = Some (ys, A')" "xs = x # ys"
    by (auto simp: bind_eq_Some_conv)
  obtain h1 where h1: "step a h = Some (x, h1)" "R h1 B" using step_sim [OF Cons.prems(1) a(1)] by blast
  from Cons.IH [OF h1(2) a(2)] h1(1) a(3) show ?case by auto
qed simp

end

lemma new_sim:
  assumes r: "repr h A" and q: "qs A q = None"
  shows "\<exists>h'. list_new (Some q) h = Some h' \<and> repr h' (A\<lparr>qs := (qs A)(q \<mapsto> [])\<rparr>)"
proof -
  let ?h = "h\<lparr>q_heads := (q_heads h)(q \<mapsto> head_of q [])\<rparr>"
  have "in_queue (A\<lparr>qs := (qs A)(q \<mapsto> [])\<rparr>) i = in_queue A i" for i using q by (auto simp: in_queue_def) (metis option.distinct(1))
  then have "repr ?h (A\<lparr>qs := (qs A)(q \<mapsto> [])\<rparr>)"
    using r by (auto simp: repr_def split: if_splits)
  then show ?thesis by (simp add: list_new_def STAILQ_INIT_def upd_head_def head_of_def last_cell_def)
qed

lemma item_sim:
  assumes r: "repr h A" and i: "i \<notin> loose A" "\<not> in_queue A i"
  shows "repr (snd (list_item_new (Some i) h)) (A\<lparr>loose := insert i (loose A)\<rparr>)"
proof -
  have "i \<notin> set xs" if "qs A q = Some xs" for q xs using i that by (auto simp: in_queue_def)
  then show ?thesis using r by (auto simp: repr_def in_queue_def list_item_new_def)
qed

lemma addr_sim:
  assumes "repr h A" and "qs A q = Some xs" and "n < 2 ^ 31" and "length xs < 2 ^ 31"
  shows "list_addr q (word_of_nat n) h = Some (if n < length xs then Some (xs ! n) else None)"
proof -
  have s: "sint (word_of_nat m :: u32) = int m" if "m < 2 ^ 31" for m :: nat
    using that by (simp add: sint_uint uint_nat unat_of_nat signed_take_bit_int_eq_self)
  show ?thesis
    using repr_queue(1,2) [OF assms(1,2)] addr_result [of h xs None n] s [OF assms(3)] s [OF assms(4)]
    by (simp add: list_addr_def list_size_def STAILQ_FIRST_def)
qed

lemma heap_step_sim:
  assumes r: "repr h A" and s: "spec_step a A = Some (x, A')"
  shows "\<exists>h'. heap_step a h = Some (x, h') \<and> repr h' A'"
proof (cases a)
  case (QNew q) then show ?thesis using new_sim [OF r, of q] s by (auto split: if_splits)
next
  case (QItem i) then show ?thesis using item_sim [OF r, of i] s by (auto simp: list_item_new_def split: if_splits)
next
  case (QPush q i) then show ?thesis using s by (auto simp: bind_eq_Some_conv split: if_splits dest!: push_sim [OF r])
next
  case (QUnshift q i) then show ?thesis using s by (auto simp: bind_eq_Some_conv split: if_splits dest!: unshift_sim [OF r])
next
  case (QInsert q p i) then show ?thesis using s by (auto simp: bind_eq_Some_conv split: if_splits dest!: insert_sim [OF r])
next
  case (QShift q)
  then obtain xs where xs: "qs A q = Some xs" using s by (auto simp: bind_eq_Some_conv)
  then show ?thesis using shift_sim [OF r, of q] QShift s by (cases xs) auto
next
  case (QPop q) then show ?thesis using s by (auto simp: bind_eq_Some_conv split: if_splits dest!: pop_sim [OF r])
next
  case (QRemove q i) then show ?thesis using s by (auto simp: bind_eq_Some_conv split: if_splits dest!: remove_sim [OF r])
next
  case (QCat q q') then show ?thesis using s by (auto simp: bind_eq_Some_conv split: if_splits dest!: cat_sim [OF r, of q _ q'])
next
  case (QDelete q i) then show ?thesis using s by (auto simp: bind_eq_Some_conv split: if_splits dest!: delete_sim [OF r])
next
  case (QDeleteHead q)
  then obtain y ys where "qs A q = Some (y # ys)" "x = NoOut" "A' = put_list q ys (loose A) A"
    using s by (auto simp: bind_eq_Some_conv neq_Nil_conv split: if_splits)
  then show ?thesis using delete_head_sim [OF r, of q y ys] QDeleteHead by auto
next
  case (QClear q) then show ?thesis using s by (auto simp: bind_eq_Some_conv dest!: clear_sim [OF r])
next
  case (QDestroy q) then show ?thesis using s by (auto simp: bind_eq_Some_conv dest!: destroy_sim [OF r])
next
  case (QFirst q) then show ?thesis using repr_queue(1) [OF r, of q] r s by (auto simp: bind_eq_Some_conv STAILQ_FIRST_def)
next
  case (QLast q) then show ?thesis using last_result repr_queue(1) [OF r, of q] r s by (auto simp: bind_eq_Some_conv)
next
  case (QAddr q n) then show ?thesis using addr_sim [OF r, of q _ n] r s by (auto simp: bind_eq_Some_conv split: if_splits)
next
  case (QSize q) then show ?thesis using repr_queue(1) [OF r, of q] r s by (auto simp: bind_eq_Some_conv list_size_def)
qed

interpretation stq: queue_interface heap_step repr
  by unfold_locales (rule heap_step_sim)

text \<open>A loop whose body frees the item it visits: the safe loop frees every item of the queue, the
  other one reads the next pointer of freed memory.\<close>

lemma foreach_safe_free:
  "links (q_items h) xs None \<Longrightarrow> distinct xs \<Longrightarrow>
    foreach_safe_loop (\<lambda>a. mem_free_item (Some a)) (first_or xs None) h =
      Some (h\<lparr>q_items := (\<lambda>i. if i \<in> set xs then None else q_items h i)\<rparr>)"
proof (induction xs arbitrary: h)
  case Nil
  then show ?case by (subst foreach_safe_loop.simps) simp
next
  case (Cons a xs)
  let ?h = "h\<lparr>q_items := (q_items h)(a := None)\<rparr>"
  have fr: "mem_free_item (Some a) h = Some ?h" using Cons.prems by (simp add: mem_free_item_def)
  have "links (q_items ?h) xs None" using Cons.prems by simp
  then have "foreach_safe_loop (\<lambda>a. mem_free_item (Some a)) (first_or xs None) ?h =
      Some (?h\<lparr>q_items := (\<lambda>i. if i \<in> set xs then None else q_items ?h i)\<rparr>)"
    by (rule Cons.IH) (use Cons.prems in simp)
  also have "?h\<lparr>q_items := (\<lambda>i. if i \<in> set xs then None else q_items ?h i)\<rparr> =
      h\<lparr>q_items := (\<lambda>i. if i \<in> set (a # xs) then None else q_items h i)\<rparr>" by (auto intro!: arg_cong [where f = "\<lambda>m. h\<lparr>q_items := m\<rparr>"])
  finally show ?case
    using Cons.prems by (subst foreach_safe_loop.simps) (simp add: STAILQ_NEXT_def fr fun_upd_def)
qed

lemma foreach_free_dangles:
  "q_items h a \<noteq> None \<Longrightarrow> foreach_loop (\<lambda>a. mem_free_item (Some a)) (Some a) h = None"
  by (subst foreach_loop.simps) (simp add: STAILQ_NEXT_def mem_free_item_def)

text \<open>The empty heap.\<close>

definition no_queues :: queues where "no_queues = \<lparr>qs = Map.empty, loose = {}\<rparr>"

definition empty_heap :: qheap where "empty_heap = \<lparr>q_heads = Map.empty, q_items = Map.empty\<rparr>"

lemma repr_empty: "repr empty_heap no_queues"
  by (simp add: repr_def empty_heap_def no_queues_def in_queue_def)

lemma one_queue: "(\<exists>q xs. (if q = a then Some ys else None) = Some xs \<and> i \<in> set xs) \<longleftrightarrow> i \<in> set ys"
  by auto

section \<open>Properties\<close>

text \<open>
  C26. Queues in memory are lists: from an empty heap, any sequence of operations on any number of
  queues that the lists allow (items are put in from outside, removed where they are, and
  only a queue that has an item is shifted or popped) runs without touching memory that is
  not allocated, ends, and returns what the same operations on lists return.
\<close>

theorem queue_refines_lists:
  assumes "run_all spec_step as no_queues = Some (xs, A)"
  shows "\<exists>h. run_all heap_step as empty_heap = Some (xs, h) \<and> repr h A"
  using assms by (rule stq.run_sim [OF repr_empty])

theorem queue_refines_lists_witness:
  "\<exists>h. run_all heap_step [QNew 1, QItem 10, QPush 1 10, QItem 11, QPush 1 11, QItem 12, QInsert 1 10 12, QPop 1, QShift 1, QSize 1] empty_heap =
    Some ([NoOut, OutItem (Some 10), NoOut, OutItem (Some 11), NoOut, OutItem (Some 12), NoOut, OutItem (Some 11),
      OutItem (Some 10), OutSize 1], h)"
proof -
  have "\<exists>A. run_all spec_step [QNew 1, QItem 10, QPush 1 10, QItem 11, QPush 1 11, QItem 12, QInsert 1 10 12, QPop 1, QShift 1, QSize 1]
      no_queues = Some ([NoOut, OutItem (Some 10), NoOut, OutItem (Some 11), NoOut, OutItem (Some 12), NoOut,
        OutItem (Some 11), OutItem (Some 10), OutSize 1], A)"
    by (simp add: no_queues_def put_list_def in_queue_def one_queue)
  then show ?thesis using queue_refines_lists by blast
qed

text \<open>
  What the macros do not check: shifting or popping an empty queue goes through \<open>NULL\<close>, and
  so does removing an item that is not in the queue; \<open>STAILQ_REMOVE_HEAD_UNTIL\<close> leaves \<open>size\<close>
  as it was, although items are gone.
\<close>

theorem queue_unchecked:
  assumes "repr h A" and "qs A q = Some xs"
  shows "(xs = [] \<longrightarrow> list_shift q h = None \<and> list_pop q h = None) \<and>
    (i \<notin> set xs \<longrightarrow> list_remove q (Some i) h = None) \<and>
    (xs = us @ p # vs \<longrightarrow> (\<exists>h'. STAILQ_REMOVE_HEAD_UNTIL q (Some p) h = Some h' \<and>
      q_heads h' q = Some ((head_of q vs)\<lparr>stqh_size := word_of_nat (length xs)\<rparr>)))"
proof -
  note r = repr_queue(1,2) [OF assms]
  have walk: "links (q_items h) ys None \<Longrightarrow> i \<notin> set ys \<Longrightarrow> find_prev (Some i) (first_or ys None) h = None" for ys
  proof (induction ys)
    case Nil
    then show ?case by (subst find_prev.simps) (simp add: STAILQ_NEXT_def)
  next
    case (Cons y ys)
    then show ?case by (subst find_prev.simps) (cases ys, auto simp: STAILQ_NEXT_def)
  qed
  have "first_or xs None = Some i \<Longrightarrow> i \<in> set xs" by (cases xs) auto
  then have "i \<notin> set xs \<Longrightarrow> list_remove q (Some i) h = None"
    using r walk [of xs] by (auto simp: STAILQ_REMOVE_def STAILQ_FIRST_def)
  moreover have "xs = [] \<Longrightarrow> list_shift q h = None \<and> list_pop q h = None"
    using r by (simp add: list_shift_def list_pop_def STAILQ_LAST_def STAILQ_REMOVE_def STAILQ_REMOVE_HEAD_def queue_defs)
  moreover have "xs = us @ p # vs \<Longrightarrow> \<exists>h'. STAILQ_REMOVE_HEAD_UNTIL q (Some p) h = Some h' \<and>
      q_heads h' q = Some ((head_of q vs)\<lparr>stqh_size := word_of_nat (length xs)\<rparr>)"
    using r by (auto simp: STAILQ_REMOVE_HEAD_UNTIL_def queue_defs head_of_def last_cell_def)
  ultimately show ?thesis by blast
qed

theorem queue_unchecked_witness:
  "list_shift 1 (empty_heap\<lparr>q_heads := [1 \<mapsto> head_of 1 []]\<rparr>) = None"
proof -
  have "repr (empty_heap\<lparr>q_heads := [1 \<mapsto> head_of 1 []]\<rparr>) (no_queues\<lparr>qs := [1 \<mapsto> []]\<rparr>)"
    by (simp add: repr_def empty_heap_def no_queues_def in_queue_def)
  from queue_unchecked [OF this, of 1 "[]"] show ?thesis by simp
qed

end
