(* ===== verification/Logger.thy ===== *)
theory Logger
  imports Memcached_Protocol
begin

text \<open>
  \<^verbatim>\<open>src/src/log.c\<close>, the text log, and \<open>timeval_sub\<close> of \<^verbatim>\<open>src/include/global.h\<close> that times the requests
  it reports. The state is the static descriptor \<open>fd\<close> and what the file holds. The text that
  \<open>vsnprintf\<close> makes of a format and its arguments is an argument of the model, as are the time,
  the process id and whether the file can be opened; \<open>None\<close> is a write outside the line buffer.

  The lemmas show that messages that fit are appended whole and in order, that longer ones are
  terminated outside the buffer, and that \<open>timeval_sub\<close> is exact.
\<close>

section \<open>Time\<close>

record timeval =
  tv_sec :: int
  tv_usec :: int

definition timeval_sub :: "timeval \<Rightarrow> timeval \<Rightarrow> timeval" where
  "timeval_sub a b =
    (let c = \<lparr>tv_sec = tv_sec a - tv_sec b, tv_usec = tv_usec a - tv_usec b\<rparr>
     in if tv_usec c < 0 then c\<lparr>tv_sec := tv_sec c - 1, tv_usec := tv_usec c + 1000000\<rparr> else c)"

record tm =
  tm_year :: nat
  tm_mon :: nat
  tm_mday :: nat
  tm_hour :: nat
  tm_min :: nat
  tm_sec :: nat

text \<open>\<open>%02d\<close> of a number that is not negative, and the date in the format of both functions.\<close>

definition two_digits :: "nat \<Rightarrow> bytes" where
  "two_digits n = (if n < 10 then 48 # decimal n else decimal n)"

definition format_time :: "tm \<Rightarrow> bytes" where
  "format_time t = decimal (tm_year t + 1900) @ str ''-'' @ two_digits (tm_mon t + 1) @ str ''-'' @ two_digits (tm_mday t) @
    str '' '' @ two_digits (tm_hour t) @ str '':'' @ two_digits (tm_min t) @ str '':'' @ two_digits (tm_sec t)"

definition get_time_string :: "tm \<Rightarrow> bytes" where
  "get_time_string t = take 19 (format_time t)"

section \<open>The log\<close>

record logger =
  log_fd :: int
  log_text :: bytes

datatype path_kind = NoFile | Regular | CharDevice | OtherFile

definition log_open :: "path_kind \<Rightarrow> int \<Rightarrow> logger \<Rightarrow> int \<times> logger" where
  "log_open kind newfd lg =
    (if kind = OtherFile then (-1, lg)
     else
       let lg = lg\<lparr>log_fd := newfd\<rparr>
       in (if log_fd lg \<ge> 0 then 0 else -1, lg))"

definition level_name :: "u32 \<Rightarrow> bytes" where
  "level_name l =
    (if l = 1 then str ''debug'' else if l = 2 then str ''warn '' else if l = 4 then str ''error''
     else if l = 8 then str ''info '' else str ''what'' @ 39 # str ''s this'')"

definition LOG_BUFSIZ :: nat where "LOG_BUFSIZ = 8192"

record log_call =
  lc_time :: tm
  lc_pid :: nat
  lc_func :: bytes
  lc_file :: bytes
  lc_line :: nat
  lc_level :: u32
  lc_mesg :: bytes

definition log_prefix :: "log_call \<Rightarrow> bytes" where
  "log_prefix c = str ''['' @ take 29 (format_time (lc_time c)) @ str ''] ['' @ level_name (lc_level c) @ str ''] (#'' @
    decimal (lc_pid c) @ str '' '' @ lc_func c @ str '' '' @ lc_file c @ str '':'' @ decimal (lc_line c) @ str '') ''"

text \<open>\<open>log_mesg\<close>. \<open>printed_len\<close> adds what the two calls would have printed, and the line is ended there.\<close>

definition log_mesg :: "log_call \<Rightarrow> logger \<Rightarrow> logger option" where
  "log_mesg c lg =
    (let printed_len = length (log_prefix c) + length (lc_mesg c)
     in if printed_len + 1 \<ge> LOG_BUFSIZ then None
        else
          let line = takeWhile (\<lambda>b. b \<noteq> 0) (log_prefix c @ lc_mesg c @ [10])
          in Some (if log_fd lg < 0 then lg else lg\<lparr>log_text := log_text lg @ line\<rparr>))"

definition log_close :: "logger \<Rightarrow> int \<times> logger" where
  "log_close lg = (0, lg\<lparr>log_fd := -1\<rparr>)"

text \<open>\<open>log_file\<close>: a stream on the descriptor, as the descriptor it has; none when the log is closed.\<close>

definition log_file_stream :: "logger \<Rightarrow> int option" where
  "log_file_stream lg = (if log_fd lg < 0 then None else Some (log_fd lg))"

lemma log_file_open:
  "kind \<noteq> OtherFile \<Longrightarrow> log_file_stream (snd (log_open kind newfd lg)) = (if fst (log_open kind newfd lg) = 0 then Some newfd else None)"
  "log_file_stream (snd (log_close lg)) = None"
  by (auto simp: log_file_stream_def log_open_def log_close_def Let_def)

section \<open>Lemmas\<close>

fun log_all :: "log_call list \<Rightarrow> logger \<Rightarrow> logger option" where
  "log_all [] lg = Some lg"
| "log_all (c # cs) lg = (case log_mesg c lg of None \<Rightarrow> None | Some lg \<Rightarrow> log_all cs lg)"

definition fits :: "log_call \<Rightarrow> bool" where
  "fits c \<longleftrightarrow> length (log_prefix c) + length (lc_mesg c) + 1 < LOG_BUFSIZ \<and> 0 \<notin> set (log_prefix c @ lc_mesg c)"

lemma log_mesg_fits:
  assumes "fits c" and "0 \<le> log_fd lg"
  shows "log_mesg c lg = Some (lg\<lparr>log_text := log_text lg @ log_prefix c @ lc_mesg c @ [10]\<rparr>)"
proof -
  have "takeWhile (\<lambda>b. b \<noteq> 0) (log_prefix c @ lc_mesg c @ [10]) = log_prefix c @ lc_mesg c @ [10]"
    using assms(1) by (intro takeWhile_eq_all_conv [THEN iffD2]) (auto simp: fits_def)
  then show ?thesis using assms by (simp add: log_mesg_def fits_def Let_def)
qed

lemma log_all_fits:
  "\<forall>c\<in>set cs. fits c \<Longrightarrow> 0 \<le> log_fd lg \<Longrightarrow>
    log_all cs lg = Some (lg\<lparr>log_text := log_text lg @ concat (map (\<lambda>c. log_prefix c @ lc_mesg c @ [10]) cs)\<rparr>)"
  by (induction cs arbitrary: lg) (auto simp: log_mesg_fits)

section \<open>Properties\<close>

text \<open>
  The log is the sequence of its messages: after a successful \<open>log_open\<close>, messages that fit
  the line buffer are appended whole, each with its prefix and a line end, in the order of the calls; a
  message for which prefix and text need 8191 bytes or more is ended outside the buffer.
\<close>

theorem log_appends:
  assumes "log_open kind newfd lg = (0, lg')"
  shows "((\<forall>c\<in>set cs. fits c) \<longrightarrow>
      log_all cs lg' = Some (lg'\<lparr>log_text := log_text lg @ concat (map (\<lambda>c. log_prefix c @ lc_mesg c @ [10]) cs)\<rparr>)) \<and>
    (length (log_prefix c) + length (lc_mesg c) \<ge> 8191 \<longrightarrow> log_mesg c lg' = None)"
proof -
  have "0 \<le> log_fd lg'" "log_text lg' = log_text lg" using assms by (auto simp: log_open_def Let_def split: if_splits)
  then show ?thesis using log_all_fits [of cs lg'] by (auto simp: log_mesg_def LOG_BUFSIZ_def Let_def)
qed

text \<open>
  The time a request took is exact: for two normalised times the difference has the right number of
  microseconds, is normalised again, and adding it back gives the first time.
\<close>

theorem timeval_sub_exact:
  assumes "0 \<le> tv_usec a" and "tv_usec a < 1000000" and "0 \<le> tv_usec b" and "tv_usec b < 1000000"
  shows "tv_sec (timeval_sub a b) * 1000000 + tv_usec (timeval_sub a b) =
      (tv_sec a * 1000000 + tv_usec a) - (tv_sec b * 1000000 + tv_usec b) \<and>
    0 \<le> tv_usec (timeval_sub a b) \<and> tv_usec (timeval_sub a b) < 1000000"
  using assms by (auto simp: timeval_sub_def Let_def)

end
