(* ===== verification/Datanode.thy ===== *)
theory Datanode
  imports Assign_Thread Slab Logger
begin

text \<open>
  How a data node starts: \<^verbatim>\<open>src/src/global.c\<close> (\<open>init_datanode_vars\<close>), \<^verbatim>\<open>src/src/datanode.c\<close> (\<open>main\<close>), and
  the parts of \<^verbatim>\<open>src/src/assign_thread.c\<close> and \<^verbatim>\<open>src/src/query_thread.c\<close> that set up the listening
  socket, take connections and start the threads. What the system calls return is an argument;
  the descriptors are the table of \<open>Iolayer\<close>. The event loops of libev are not modelled: a
  thread that reaches \<open>ev_run\<close> is ready. \<open>main\<close> and the threads it creates interleave by the step
  relation \<open>boot_step\<close> over the semaphore \<open>sem_barrier\<close>.

  The lemmas show that a node started in an empty directory is ready to serve, that every
  worker reads the pipe the dispatcher writes for it, and how a start ends: with every
  thread ready, waiting for ever when the port cannot be had, or with the process dead when memory runs out.
\<close>

section \<open>Global variables\<close>

record settings_s =
  accept_port :: u16
  read_timeout :: nat
  write_timeout :: nat
  mempool_size :: nat
  set_cache_size :: nat
  set_worker_thread_cnt :: u64

definition ACCEPT_PORT :: u16 where "ACCEPT_PORT = 5000"
definition READ_TIMEOUT :: nat where "READ_TIMEOUT = 1000 * 60"
definition WRITE_TIMEOUT :: nat where "WRITE_TIMEOUT = 1000 * 10"
definition MEMPOOL_SIZE :: nat where "MEMPOOL_SIZE = 1024 * 1024 * 1024 * 4"
definition CACHE_SIZE :: nat where "CACHE_SIZE = 1024 * 1024 * 1024 * 1"
definition WORKER_THREAD_CNT :: u64 where "WORKER_THREAD_CNT = 8"

definition init_settings :: settings_s where
  "init_settings = \<lparr>accept_port = ACCEPT_PORT, read_timeout = READ_TIMEOUT, write_timeout = WRITE_TIMEOUT,
    mempool_size = MEMPOOL_SIZE, set_cache_size = CACHE_SIZE, set_worker_thread_cnt = WORKER_THREAD_CNT\<rparr>"

record 'db runtime_vars_s =
  g_settings :: settings_s
  io_stats :: io_stat_s
  g_slab :: slab
  g_pipe_fd :: "int list option"
  g_cache_size :: int
  g_log :: logger
  block_storage :: "'db storage"
  block_storage_set :: bool

text \<open>What the system answers: the two ends of the \<open>i\<close>-th pipe, the log file, and for the store
  the directory, its files and the index.\<close>

record 'db boot_env =
  be_calloc :: bool
  be_pipe :: "nat \<Rightarrow> (int \<times> int) option"
  be_log_kind :: path_kind
  be_log_fd :: int
  be_dir_ok :: bool
  be_newfd :: "nat \<Rightarrow> int"
  be_open_ok :: bool
  be_dir :: "nat \<Rightarrow> data_file option"
  be_bdb :: "db_call list + 'db bdb_t"
  be_journal :: "index_logger_s option option"

text \<open>The loop over the pipes: whether all could be had, and the array as far as it was filled.\<close>

fun open_pipes :: "(nat \<Rightarrow> (int \<times> int) option) \<Rightarrow> nat list \<Rightarrow> int list \<Rightarrow> bool \<times> int list" where
  "open_pipes pp [] fds = (True, fds)"
| "open_pipes pp (i # is) fds =
    (case pp i of None \<Rightarrow> (False, fds)
     | Some (r, w) \<Rightarrow> open_pipes pp is (fds[i * 2 := r, i * 2 + 1 := w]))"

definition set_global_cache_size :: "int \<Rightarrow> 'db runtime_vars_s \<Rightarrow> 'db runtime_vars_s" where
  "set_global_cache_size v g = g\<lparr>g_cache_size := v\<rparr>"

text \<open>\<open>slab_calloc\<close> may leave \<open>g_pipe_fd\<close> at \<open>NULL\<close> (\<open>None\<close>); \<open>pipe\<close> then fails on a bad address.\<close>

definition init_datanode_vars :: "sys_env \<Rightarrow> 'db boot_env \<Rightarrow> 'db runtime_vars_s \<Rightarrow> (int \<times> 'db runtime_vars_s) option" where
  "init_datanode_vars env be g =
    (case slab_init MEMPOOL_SIZE 9 8 (g_slab g) of
      None \<Rightarrow> None
    | Some sl \<Rightarrow>
        let g = g\<lparr>g_slab := sl, g_settings := init_settings, block_storage_set := False,
                  io_stats := \<lparr>disk_read_bytes = 0, disk_write_bytes = 0, net_read_bytes = 0, net_write_bytes = 0\<rparr>\<rparr>
        in case (if be_calloc be
                 then let n = unat (set_worker_thread_cnt (g_settings g)); (ok, fds) = open_pipes (be_pipe be) [0..<n] (replicate (n * 2) 0)
                      in (ok, Some fds)
                 else (False, None)) of
          (False, fds) \<Rightarrow> Some (RET_FAILED, g\<lparr>g_pipe_fd := fds\<rparr>)
        | (True, fds) \<Rightarrow>
            let g = set_global_cache_size 0 (g\<lparr>g_pipe_fd := fds\<rparr>);
                g = g\<lparr>g_log := snd (log_open (be_log_kind be) (be_log_fd be) (g_log g))\<rparr>
            in case open_storage env (be_dir_ok be) (be_newfd be) (be_open_ok be) (be_dir be) (be_bdb be) (be_journal be)
                 (1024 * 1024 * 16) (block_storage g) of
              None \<Rightarrow> None
            | Some (ret, s, _) \<Rightarrow>
                if ret \<noteq> 0 then Some (RET_FAILED, g\<lparr>block_storage := s\<rparr>)
                else Some (RET_SUCCESS, g\<lparr>block_storage := s, block_storage_set := True\<rparr>))"

section \<open>The listening socket and connections\<close>

record listen_env =
  l_socket :: int
  l_bind :: int
  l_listen :: int

definition init_listen_socket :: "listen_env \<Rightarrow> fds \<Rightarrow> int \<times> fds" where
  "init_listen_socket le t =
    (let listenfd = l_socket le
     in if listenfd < 0 then (RET_FAILED, t)
        else
          let t = t(listenfd \<mapsto> 2);
              (ret, t) = set_nonblock listenfd t
          in if ret \<noteq> 0 then (RET_FAILED, t)
             else if l_bind le \<noteq> 0 then (RET_FAILED, t)
             else if l_listen le < 0 then (RET_FAILED, t)
             else (listenfd, t))"

text \<open>A connection as \<open>accept\<close> returns it, a negative number for an error; the task that is
  registered with the event loop, if one is.\<close>

definition accept_connection :: "int \<Rightarrow> bool \<Rightarrow> fds \<Rightarrow> query_task_s option \<times> fds" where
  "accept_connection sockfd mem t =
    (if sockfd < 0 then (None, t)
     else
       let t = t(sockfd \<mapsto> 2)
       in case do_accept_connection sockfd mem of
         None \<Rightarrow> (None, t)
       | Some qt \<Rightarrow> (Some qt, snd (set_nonblock (sock_fd qt) t)))"

definition accept_event_handler :: "ev_event \<Rightarrow> int \<Rightarrow> bool \<Rightarrow> fds \<Rightarrow> query_task_s option \<times> fds" where
  "accept_event_handler event sockfd mem t = (if event = EV_READ then accept_connection sockfd mem t else (None, t))"

text \<open>\<open>destroy_query_task\<close>: the socket is closed, and what the task points to is freed, with the task.\<close>

datatype owned = OwnLog string | OwnData bytes | OwnResp bytes | OwnTask

definition destroy_query_task :: "query_task_s \<Rightarrow> fds \<Rightarrow> owned list \<times> fds" where
  "destroy_query_task task t =
    ((case error_log task of None \<Rightarrow> [] | Some l \<Rightarrow> [OwnLog l]) @
     (case qr_data (query_request task) of None \<Rightarrow> [] | Some d \<Rightarrow> [OwnData d]) @
     (case resp_data_buf (query_response task) of None \<Rightarrow> [] | Some d \<Rightarrow> [OwnResp d]) @ [OwnTask],
     sys_close (sock_fd task) t)"

section \<open>The threads\<close>

text \<open>Where a thread is: it returns, it has crashed, or it has posted the semaphore and runs its loop.\<close>

datatype 'a started = ThreadReturned | ThreadCrashed | ThreadReady 'a

definition new_assign_thread :: "listen_env \<Rightarrow> bool \<Rightarrow> fds \<Rightarrow> (int \<times> u64) started \<times> fds" where
  "new_assign_thread le mem t =
    (let last_fd = 0; (listenfd, t) = init_listen_socket le t
     in if listenfd = RET_FAILED then (ThreadReturned, t)
        else if \<not> mem then (ThreadCrashed, t)
        else (ThreadReady (listenfd, last_fd), t))"

definition new_worker_thread :: "bool \<Rightarrow> nat \<times> int \<Rightarrow> (nat \<times> int) started" where
  "new_worker_thread mem arg = (if \<not> mem then ThreadCrashed else ThreadReady arg)"

text \<open>The arguments of the workers: their number and the end of a pipe to read from.\<close>

definition worker_arg :: "'db runtime_vars_s \<Rightarrow> nat \<Rightarrow> nat \<times> int" where
  "worker_arg g i = (i, the (g_pipe_fd g) ! (i * 2))"

text \<open>The descriptor that \<open>dispatch_query_task\<close> writes to for a worker.\<close>

definition dispatch_fd :: "'db runtime_vars_s \<Rightarrow> nat \<Rightarrow> int" where
  "dispatch_fd g w = the (g_pipe_fd g) ! (w * 2 + 1)"

datatype main_pc = MStart | MWaitAssign | MWaitWorker nat | MJoin

datatype thread_pc = NotCreated | Created | Ready | Returned

text \<open>\<open>b_dead\<close>: a signal has ended the process.\<close>

record boot =
  b_main :: main_pc
  b_sem :: nat
  b_assign :: thread_pc
  b_workers :: "thread_pc list"
  b_dead :: bool

definition boot_start :: "nat \<Rightarrow> boot" where
  "boot_start n = \<lparr>b_main = MStart, b_sem = 0, b_assign = NotCreated, b_workers = replicate n NotCreated, b_dead = False\<rparr>"

text \<open>The loop of \<open>main\<close> at worker \<open>i\<close>: it reads \<open>g_pipe_fd\<close>, whatever \<open>init_datanode_vars\<close> has left there.\<close>

definition start_worker :: "int list option \<Rightarrow> nat \<Rightarrow> boot \<Rightarrow> boot" where
  "start_worker fds i s =
    (if i < length (b_workers s) then
       (if fds = None then s\<lparr>b_dead := True\<rparr> else s\<lparr>b_main := MWaitWorker i, b_workers := (b_workers s)[i := Created]\<rparr>)
     else s\<lparr>b_main := MJoin\<rparr>)"

text \<open>\<open>main\<close>, with the threads it creates: \<open>at\<close> is what becomes of the assign thread, \<open>wk i\<close> of worker \<open>i\<close>.\<close>

inductive boot_step :: "'a started \<Rightarrow> (nat \<Rightarrow> 'w started) \<Rightarrow> int list option \<Rightarrow> boot \<Rightarrow> boot \<Rightarrow> bool" for at wk fds where
  create_assign: "\<not> b_dead s \<Longrightarrow> b_main s = MStart \<Longrightarrow> boot_step at wk fds s (s\<lparr>b_main := MWaitAssign, b_assign := Created\<rparr>)"
| assign_ready: "\<not> b_dead s \<Longrightarrow> b_assign s = Created \<Longrightarrow> at = ThreadReady x \<Longrightarrow>
    boot_step at wk fds s (s\<lparr>b_assign := Ready, b_sem := b_sem s + 1\<rparr>)"
| assign_returns: "\<not> b_dead s \<Longrightarrow> b_assign s = Created \<Longrightarrow> at = ThreadReturned \<Longrightarrow> boot_step at wk fds s (s\<lparr>b_assign := Returned\<rparr>)"
| assign_crashes: "\<not> b_dead s \<Longrightarrow> b_assign s = Created \<Longrightarrow> at = ThreadCrashed \<Longrightarrow> boot_step at wk fds s (s\<lparr>b_dead := True\<rparr>)"
| assign_waited: "\<not> b_dead s \<Longrightarrow> b_main s = MWaitAssign \<Longrightarrow> 0 < b_sem s \<Longrightarrow>
    boot_step at wk fds s (start_worker fds 0 (s\<lparr>b_sem := b_sem s - 1\<rparr>))"
| worker_ready: "\<not> b_dead s \<Longrightarrow> i < length (b_workers s) \<Longrightarrow> b_workers s ! i = Created \<Longrightarrow> wk i = ThreadReady y \<Longrightarrow>
    boot_step at wk fds s (s\<lparr>b_workers := (b_workers s)[i := Ready], b_sem := b_sem s + 1\<rparr>)"
| worker_crashes: "\<not> b_dead s \<Longrightarrow> i < length (b_workers s) \<Longrightarrow> b_workers s ! i = Created \<Longrightarrow> wk i = ThreadCrashed \<Longrightarrow>
    boot_step at wk fds s (s\<lparr>b_dead := True\<rparr>)"
| worker_waited: "\<not> b_dead s \<Longrightarrow> b_main s = MWaitWorker i \<Longrightarrow> 0 < b_sem s \<Longrightarrow>
    boot_step at wk fds s (start_worker fds (i + 1) (s\<lparr>b_sem := b_sem s - 1\<rparr>))"

inductive_cases boot_stepE: "boot_step at wk fds s s'"

text \<open>\<open>main\<close> on the globals as \<open>init_datanode_vars\<close> has left them, well or not: the listening socket, whether there is memory for
  the assign thread and for each worker.\<close>

definition main_step :: "listen_env \<Rightarrow> bool \<Rightarrow> (nat \<Rightarrow> bool) \<Rightarrow> fds \<Rightarrow> 'db runtime_vars_s \<Rightarrow> boot \<Rightarrow> boot \<Rightarrow> bool" where
  "main_step le amem wmem t g =
    boot_step (fst (new_assign_thread le amem t)) (\<lambda>i. new_worker_thread (wmem i) (worker_arg g i)) (g_pipe_fd g)"

section \<open>The start of the threads\<close>

fun is_ready :: "'a started \<Rightarrow> bool" where
  "is_ready (ThreadReady x) = True"
| "is_ready _ = False"

text \<open>The workers while number \<open>i\<close> is being started.\<close>

definition up_to :: "nat \<Rightarrow> thread_pc \<Rightarrow> nat \<Rightarrow> thread_pc list" where
  "up_to i c n = replicate i Ready @ c # replicate (n - i - 1) NotCreated"

text \<open>Every semaphore post is waited for before the next thread is created.\<close>

definition boot_inv :: "'a started \<Rightarrow> (nat \<Rightarrow> 'w started) \<Rightarrow> int list option \<Rightarrow> nat \<Rightarrow> boot \<Rightarrow> bool" where
  "boot_inv at wk fds n s \<longleftrightarrow> length (b_workers s) = n \<and>
    (if b_dead s then
       at = ThreadCrashed \<and> b_workers s = replicate n NotCreated \<or>
       is_ready at \<and> fds = None \<and> 0 < n \<and> b_workers s = replicate n NotCreated \<or>
       is_ready at \<and> fds \<noteq> None \<and> (\<exists>i<n. wk i = ThreadCrashed \<and> (\<forall>j<i. is_ready (wk j)) \<and> b_workers s = up_to i Created n)
     else
      (case b_main s of
        MStart \<Rightarrow> b_assign s = NotCreated \<and> b_sem s = 0 \<and> b_workers s = replicate n NotCreated
      | MWaitAssign \<Rightarrow> b_workers s = replicate n NotCreated \<and>
          (b_assign s = Created \<and> b_sem s = 0 \<or> b_assign s = Ready \<and> b_sem s = 1 \<and> is_ready at \<or>
           b_assign s = Returned \<and> b_sem s = 0 \<and> at = ThreadReturned)
      | MWaitWorker i \<Rightarrow> i < n \<and> is_ready at \<and> b_assign s = Ready \<and> fds \<noteq> None \<and> (\<forall>j<i. is_ready (wk j)) \<and>
          (b_workers s = up_to i Created n \<and> b_sem s = 0 \<or> b_workers s = up_to i Ready n \<and> b_sem s = 1 \<and> is_ready (wk i))
      | MJoin \<Rightarrow> is_ready at \<and> b_assign s = Ready \<and> b_sem s = 0 \<and> b_workers s = replicate n Ready \<and>
          (\<forall>j<n. is_ready (wk j)) \<and> (0 < n \<longrightarrow> fds \<noteq> None)))"

lemma boot_inv_start: "boot_inv at wk fds n (boot_start n)"
  by (simp add: boot_inv_def boot_start_def)

lemma up_to_next: "up_to i Ready n = replicate (Suc i) Ready @ replicate (n - Suc i) NotCreated"
  by (simp add: up_to_def replicate_app_Cons_same)

lemma up_to_set:
  "i < n \<Longrightarrow> (replicate i Ready @ replicate (n - i) NotCreated)[i := c] = up_to i c n"
  "(up_to i c n)[i := d] = up_to i d n" "i < n \<Longrightarrow> length (up_to i c n) = n" "up_to i c n ! i = c"
  by (auto simp: up_to_def list_update_append nth_append Suc_diff_Suc [symmetric])

lemma only_created: "up_to j c n ! i = Created \<Longrightarrow> i < n \<Longrightarrow> j < n \<Longrightarrow> i = j \<and> c = Created"
  by (auto simp: up_to_def nth_append nth_Cons split: if_splits nat.splits)

lemma start_worker_inv:
  assumes "length (b_workers s) = n" "i \<le> n" "\<not> b_dead s" "is_ready at" "b_assign s = Ready" "b_sem s = 0"
    and "b_workers s = replicate i Ready @ replicate (n - i) NotCreated" "\<forall>j<i. is_ready (wk j)" "0 < i \<longrightarrow> fds \<noteq> None"
  shows "boot_inv at wk fds n (start_worker fds i s)"
  using assms up_to_set(1) [of i n Created]
  by (cases "i < n") (auto simp: start_worker_def boot_inv_def up_to_set(3))

lemma created_worker:
  assumes inv: "boot_inv at wk fds n s" and i: "\<not> b_dead s" "i < length (b_workers s)" "b_workers s ! i = Created"
  shows "b_main s = MWaitWorker i" "i < n" "is_ready at" "b_assign s = Ready" "b_sem s = 0" "fds \<noteq> None" "\<forall>j<i. is_ready (wk j)"
    "b_workers s = up_to i Created n"
proof -
  obtain j c where j: "b_main s = MWaitWorker j" "j < n" "is_ready at" "b_assign s = Ready" "fds \<noteq> None" "\<forall>k<j. is_ready (wk k)"
      "b_workers s = up_to j c n" "c = Created \<and> b_sem s = 0 \<or> c = Ready \<and> b_sem s = 1"
    using inv i by (auto simp: boot_inv_def split: main_pc.splits)
  have "length (b_workers s) = n" using inv by (simp add: boot_inv_def)
  then have "i = j \<and> c = Created" using only_created [of j c n i] i(2,3) j(2,7) by simp
  then show "b_main s = MWaitWorker i" "i < n" "is_ready at" "b_assign s = Ready" "b_sem s = 0" "fds \<noteq> None" "\<forall>j<i. is_ready (wk j)"
    "b_workers s = up_to i Created n" using j by auto
qed

lemma boot_inv_step:
  assumes "boot_step at wk fds s s'" and inv: "boot_inv at wk fds n s"
  shows "boot_inv at wk fds n s'"
  using assms(1)
proof cases
  case create_assign
  then show ?thesis using inv by (simp add: boot_inv_def)
next
  case (assign_ready x)
  then show ?thesis using inv by (auto simp: boot_inv_def split: main_pc.splits)
next
  case assign_returns
  then show ?thesis using inv by (auto simp: boot_inv_def split: main_pc.splits)
next
  case assign_crashes
  then show ?thesis using inv by (auto simp: boot_inv_def split: main_pc.splits)
next
  case assign_waited
  then have "is_ready at" "b_assign s = Ready" "b_sem s = 1" "b_workers s = replicate n NotCreated" using inv by (auto simp: boot_inv_def)
  then show ?thesis unfolding assign_waited(1) using assign_waited(2) by (intro start_worker_inv) simp_all
next
  case (worker_ready i y)
  note w = created_worker [OF inv worker_ready(2-4)]
  show ?thesis unfolding worker_ready(1) using w worker_ready(2,5) by (simp add: boot_inv_def up_to_set)
next
  case (worker_crashes i)
  note w = created_worker [OF inv worker_crashes(2-4)]
  show ?thesis unfolding worker_crashes(1) using w worker_crashes(5) by (auto simp: boot_inv_def up_to_set)
next
  case (worker_waited i)
  then have *: "i < n" "is_ready at" "b_assign s = Ready" "b_sem s = 1" "b_workers s = up_to i Ready n" "fds \<noteq> None" "\<forall>j<i. is_ready (wk j)"
      "is_ready (wk i)"
    using inv by (auto simp: boot_inv_def)
  then have "\<forall>j<i + 1. is_ready (wk j)" by (auto simp: less_Suc_eq)
  then show ?thesis unfolding worker_waited(1) using * worker_waited(2) up_to_next [of i n]
    by (intro start_worker_inv) (simp_all add: up_to_set)
qed

text \<open>The steps that are left.\<close>

fun steps_left :: "nat \<Rightarrow> boot \<Rightarrow> nat" where
  "steps_left n s = (if b_dead s then 0 else case b_main s of
      MStart \<Rightarrow> 2 * n + 3
    | MWaitAssign \<Rightarrow> (if b_assign s = Created then 2 * n + 2 else if b_assign s = Ready then 2 * n + 1 else 0)
    | MWaitWorker i \<Rightarrow> 2 * (n - i) - b_sem s
    | MJoin \<Rightarrow> 0)"

lemma stuck_dead: "b_dead s \<Longrightarrow> \<not> boot_step at wk fds s s'"
  by (auto elim: boot_stepE)

lemma stuck:
  assumes "b_assign s = Returned \<and> b_main s = MWaitAssign \<and> b_workers s = replicate n NotCreated \<or>
      b_assign s = Ready \<and> b_main s = MJoin \<and> b_workers s = replicate n Ready" and "b_sem s = 0"
  shows "\<not> boot_step at wk fds s s'"
proof
  assume "boot_step at wk fds s s'"
  then show False using assms by cases auto
qed

lemma boot_progress:
  assumes inv: "boot_inv at wk fds n s" and wk: "\<forall>i. wk i \<noteq> ThreadReturned"
  shows "(\<exists>s'. boot_step at wk fds s s') \<longleftrightarrow> steps_left n s > 0"
proof (cases "b_dead s")
  case dead: False
  show ?thesis
  proof (cases "b_main s")
    case MStart
    then show ?thesis using create_assign [of s at wk fds] dead by auto
  next
    case MWaitAssign
    show ?thesis
    proof (cases "b_assign s = Created")
      case True
      have "\<exists>s'. boot_step at wk fds s s'"
      proof (cases at)
        case ThreadReturned
        then show ?thesis by (intro exI) (rule assign_returns [OF dead True])
      next
        case ThreadCrashed
        then show ?thesis by (intro exI) (rule assign_crashes [OF dead True])
      next
        case (ThreadReady x)
        then show ?thesis by (intro exI) (rule assign_ready [OF dead True])
      qed
      then show ?thesis using True MWaitAssign dead by simp
    next
      case False
      then have *: "b_assign s = Ready \<and> b_sem s = 1 \<or> b_assign s = Returned \<and> b_sem s = 0" "b_workers s = replicate n NotCreated"
        using inv MWaitAssign dead by (auto simp: boot_inv_def)
      then show ?thesis
        using assign_waited [OF dead MWaitAssign, of at wk fds] stuck [of s n at wk fds] MWaitAssign False dead by auto
    qed
  next
    case (MWaitWorker i)
    then have c: "i < n" "length (b_workers s) = n"
        "b_workers s = up_to i Created n \<and> b_sem s = 0 \<or> b_workers s = up_to i Ready n \<and> b_sem s = 1"
      using inv dead by (auto simp: boot_inv_def)
    have "\<exists>s'. boot_step at wk fds s s'"
    proof (cases "b_sem s = 0")
      case True
      then have w: "i < length (b_workers s)" "b_workers s ! i = Created" using c by (auto simp: up_to_set)
      show ?thesis
      proof (cases "wk i")
        case ThreadCrashed
        then show ?thesis by (intro exI) (rule worker_crashes [OF dead w])
      next
        case (ThreadReady y)
        then show ?thesis by (intro exI) (rule worker_ready [OF dead w])
      qed (use wk in blast)
    next
      case False
      then show ?thesis using worker_waited [OF dead MWaitWorker, of at wk fds] by blast
    qed
    then show ?thesis using c MWaitWorker dead by auto
  next
    case MJoin
    then have "b_assign s = Ready" "b_sem s = 0" "b_workers s = replicate n Ready" using inv dead by (auto simp: boot_inv_def)
    then show ?thesis using MJoin dead stuck [of s n at wk fds] by simp
  qed
qed (simp add: stuck_dead)

lemma boot_decreases:
  assumes "boot_step at wk fds s s'" and inv: "boot_inv at wk fds n s"
  shows "steps_left n s' < steps_left n s"
  using assms(1)
proof cases
  case (worker_ready i y)
  then show ?thesis using created_worker [OF inv worker_ready(2-4)] by simp
next
  case (worker_crashes i)
  then show ?thesis using created_worker [OF inv worker_crashes(2-4)] by simp
next
  case (worker_waited i)
  then have "i < n" "b_sem s = 1" "length (b_workers s) = n" using inv by (auto simp: boot_inv_def)
  then show ?thesis using worker_waited by (auto simp: start_worker_def)
qed (use inv in \<open>auto simp: boot_inv_def start_worker_def split: main_pc.splits\<close>)

lemma boot_run:
  "(boot_step at wk fds ^^ k) (boot_start n) s \<Longrightarrow> boot_inv at wk fds n s \<and> k + steps_left n s \<le> 2 * n + 3"
proof (induction k arbitrary: s)
  case 0
  then show ?case using boot_inv_start [of at wk fds n] by (auto simp: boot_start_def)
next
  case (Suc k)
  then obtain s1 where s1: "(boot_step at wk fds ^^ k) (boot_start n) s1" "boot_step at wk fds s1 s" by auto
  have i: "boot_inv at wk fds n s1" "k + steps_left n s1 \<le> 2 * n + 3" using Suc.IH [OF s1(1)] by auto
  show ?case using boot_inv_step [OF s1(2) i(1)] boot_decreases [OF s1(2) i(1)] i(2) by simp
qed

text \<open>How the start ends.\<close>

definition boot_end :: "'a started \<Rightarrow> (nat \<Rightarrow> 'w started) \<Rightarrow> int list option \<Rightarrow> nat \<Rightarrow> boot \<Rightarrow> bool" where
  "boot_end at wk fds n s \<longleftrightarrow>
    (if at = ThreadReturned then
       \<not> b_dead s \<and> b_main s = MWaitAssign \<and> b_assign s = Returned \<and> b_workers s = replicate n NotCreated
     else if at = ThreadCrashed \<or> fds = None \<and> 0 < n then b_dead s \<and> b_workers s = replicate n NotCreated
     else if \<exists>i<n. wk i = ThreadCrashed then
       b_dead s \<and> (\<exists>i<n. wk i = ThreadCrashed \<and> (\<forall>j<i. wk j \<noteq> ThreadCrashed) \<and> b_workers s = up_to i Created n)
     else \<not> b_dead s \<and> b_main s = MJoin \<and> b_assign s = Ready \<and> b_workers s = replicate n Ready)"

lemma boot_ends:
  assumes inv: "boot_inv at wk fds n s" and wk: "\<forall>i. wk i \<noteq> ThreadReturned" and fin: "steps_left n s = 0"
  shows "boot_end at wk fds n s"
proof -
  have r: "is_ready x \<longleftrightarrow> x \<noteq> ThreadReturned \<and> x \<noteq> ThreadCrashed" for x :: "'c started" by (cases x) simp_all
  have w: "is_ready (wk j) \<longleftrightarrow> wk j \<noteq> ThreadCrashed" for j using wk r [of "wk j"] by simp
  show ?thesis
  proof (cases "b_dead s")
    case True
    then show ?thesis using inv unfolding boot_inv_def boot_end_def w r by auto
  next
    case False
    consider "b_main s = MWaitAssign" "b_assign s \<noteq> Created" "b_assign s \<noteq> Ready" | "b_main s = MJoin"
      using fin False inv by (auto simp: boot_inv_def split: main_pc.splits if_splits)
    then show ?thesis
      using False inv by cases (auto simp: boot_inv_def boot_end_def w r)
  qed
qed

section \<open>The start of a node\<close>

lemma open_pipes_all:
  "\<forall>i\<in>set is. pp i \<noteq> None \<and> i * 2 + 1 < length fds \<Longrightarrow> distinct is \<Longrightarrow>
    \<exists>fds'. open_pipes pp is fds = (True, fds') \<and> length fds' = length fds \<and>
      (\<forall>i\<in>set is. pp i = Some (fds' ! (i * 2), fds' ! (i * 2 + 1))) \<and>
      (\<forall>i. i \<notin> set is \<longrightarrow> fds' ! (i * 2) = fds ! (i * 2) \<and> fds' ! (i * 2 + 1) = fds ! (i * 2 + 1))"
proof (induction "is" arbitrary: fds)
  case (Cons i "is")
  obtain r w where p: "pp i = Some (r, w)" using Cons.prems by fastforce
  let ?fds = "fds[i * 2 := r, i * 2 + 1 := w]"
  have l: "i * 2 + 1 < length fds" using Cons.prems(1) by simp
  obtain fds' where f: "open_pipes pp is ?fds = (True, fds')" "length fds' = length fds"
      "\<forall>i\<in>set is. pp i = Some (fds' ! (i * 2), fds' ! (i * 2 + 1))"
      "\<forall>j. j \<notin> set is \<longrightarrow> fds' ! (j * 2) = ?fds ! (j * 2) \<and> fds' ! (j * 2 + 1) = ?fds ! (j * 2 + 1)"
    using Cons.IH [of ?fds] Cons.prems by auto
  have n: "?fds ! (j * 2) = (if j = i then r else fds ! (j * 2))" "?fds ! (j * 2 + 1) = (if j = i then w else fds ! (j * 2 + 1))" for j
    using l by (auto simp: nth_list_update; presburger)+
  show ?case using f p n Cons.prems(2) by auto
qed simp

text \<open>A system in which everything can be had, and an empty directory with a fresh index.\<close>

definition fresh_system :: "'db bdb_t \<Rightarrow> 'db boot_env \<Rightarrow> bool" where
  "fresh_system b be \<longleftrightarrow> be_calloc be \<and> (\<forall>i < 8. be_pipe be i \<noteq> None) \<and> be_log_kind be \<noteq> OtherFile \<and> 0 \<le> be_log_fd be \<and>
    be_dir_ok be \<and> be_open_ok be \<and> be_dir be = (\<lambda>_. None) \<and> (\<forall>i. 0 < be_newfd be i) \<and> be_bdb be = Inr b \<and> error_no b = 0 \<and>
    (\<exists>il. be_journal be = Some (Some il))"

lemma classes_16m: "classes_for (1024 * 1024 * 16) 18"
  by (simp add: classes_for_def storage_consts)

lemma fresh_room:
  assumes "tables_ok s" and "\<forall>i < block_type_count s. slots_total (handler s i) = 0"
  shows "room (2 ^ 36) s"
  unfolding room_def
proof (intro allI impI)
  fix i assume i: "i < block_type_count s"
  then have "block_size_array s ! i \<le> 2 ^ 26" using block_size_bound [OF assms(1)] by simp
  then have "block_size_array s ! i * 2 ^ 36 \<le> 2 ^ 26 * 2 ^ 36" by (rule mult_le_mono1)
  then show "DATA_SECTION_POS + block_size_array s ! i * (slots_total (handler s i) + 2 ^ 36) < 2 ^ 63"
    using assms(2) i by (simp add: storage_consts)
qed

lemma node_starts:
  assumes env: "full_env env" and sys: "fresh_system b be" and db: "good (dbp b)" "view (dbp b) = (\<lambda>_. None)"
    and g: "\<not> inited_global_vars (block_storage g)"
  shows "\<exists>g'. init_datanode_vars env be g = Some (RET_SUCCESS, g') \<and> storage_inv view good (block_storage g') \<and>
    stored view (block_storage g') = (\<lambda>_. None) \<and> largest_block (block_storage g') = 16 * 1024 * 1024 \<and>
    room (2 ^ 36) (block_storage g') \<and> slab_inv (g_slab g') (\<lambda>_. None) \<and> log_fd (g_log g') \<ge> 0 \<and>
    (\<forall>w < 8. be_pipe be w = Some (snd (worker_arg g' w), dispatch_fd g' w))"
proof -
  have "slab_init MEMPOOL_SIZE 9 8 (g_slab g) \<noteq> None" by (simp add: slab_init_def split: prod.split)
  then obtain sl where sl: "slab_init MEMPOOL_SIZE 9 8 (g_slab g) = Some sl" by blast
  note si = slab_init_inv [OF sl]
  obtain fds where fds: "open_pipes (be_pipe be) [0..<8] (replicate 16 0) = (True, fds)"
      "\<forall>j < 8. be_pipe be j = Some (fds ! (j * 2), fds ! (j * 2 + 1))"
    using open_pipes_all [of "[0..<8]" "be_pipe be" "replicate 16 0"] sys by (auto simp: fresh_system_def)
  obtain il where il: "be_journal be = Some (Some il)" using sys by (auto simp: fresh_system_def)
  obtain s' where s': "open_storage env True (be_newfd be) True (\<lambda>_. None) (Inr b) (Some (Some il)) (1024 * 1024 * 16) (block_storage g) =
        Some (0, s', True)" "storage_inv view good s'" "stored view s' = (\<lambda>_. None)" "block_type_count s' = 18"
      "largest_block s' = BEGINNING_SIZE * 2 ^ 17" "\<forall>i < 18. slots_total (handler s' i) = 0"
    using open_fresh [OF env classes_16m g, of "be_newfd be" b good view il] sys db by (auto simp: fresh_system_def)
  have "room (2 ^ 36) s'" using s' by (intro fresh_room) (auto simp: storage_inv_def)
  then show ?thesis
    using sys sl si fds il s'
    by (simp add: init_datanode_vars_def fresh_system_def Let_def init_settings_def WORKER_THREAD_CNT_def set_global_cache_size_def
        log_open_def worker_arg_def dispatch_fd_def storage_consts)
qed

section \<open>Properties\<close>

text \<open>
  A node started in an empty directory is ready: \<open>init_datanode_vars\<close> succeeds, the store is empty,
  satisfies its invariant and takes values up to 16 MB, the allocator satisfies its invariant with
  nothing allocated, the log is open, and for each of the eight workers the descriptor it is given
  and the descriptor the dispatcher writes to for it are the two ends of one pipe.
\<close>

theorem datanode_starts:
  assumes "full_env env" and "fresh_system b be" and "good (dbp b)" and "view (dbp b) = (\<lambda>_. None)"
    and "\<not> inited_global_vars (block_storage g)"
  shows "\<exists>g'. init_datanode_vars env be g = Some (RET_SUCCESS, g') \<and> storage_inv view good (block_storage g') \<and>
    stored view (block_storage g') = (\<lambda>_. None) \<and> largest_block (block_storage g') = 16 * 1024 * 1024 \<and>
    room (2 ^ 36) (block_storage g') \<and> slab_inv (g_slab g') (\<lambda>_. None) \<and> log_fd (g_log g') \<ge> 0 \<and>
    (\<forall>w < 8. be_pipe be w = Some (snd (worker_arg g' w), dispatch_fd g' w))"
  using assms by (rule node_starts)

definition sample_system :: "(bytes \<times> bytes) list boot_env" where
  "sample_system = \<lparr>be_calloc = True, be_pipe = (\<lambda>i. Some (int (10 + 2 * i), int (11 + 2 * i))), be_log_kind = NoFile, be_log_fd = 4,
    be_dir_ok = True, be_newfd = (\<lambda>i. int (30 + i)), be_open_ok = True, be_dir = (\<lambda>_. None), be_bdb = Inr fresh_index,
    be_journal = Some (Some empty_logger)\<rparr>"

definition sample_vars :: "(bytes \<times> bytes) list runtime_vars_s" where
  "sample_vars = \<lparr>g_settings = init_settings, io_stats = \<lparr>disk_read_bytes = 0, disk_write_bytes = 0, net_read_bytes = 0, net_write_bytes = 0\<rparr>,
    g_slab = slab_boot, g_pipe_fd = None, g_cache_size = 0, g_log = \<lparr>log_fd = -1, log_text = []\<rparr>, block_storage = start_storage,
    block_storage_set = False\<rparr>"

lemma sample_fresh: "fresh_system fresh_index sample_system" "\<not> inited_global_vars (block_storage sample_vars)"
  by (simp_all add: fresh_system_def sample_system_def sample_vars_def start_storage_def)

theorem datanode_starts_witness:
  "\<exists>g'. init_datanode_vars good_env sample_system sample_vars = Some (RET_SUCCESS, g') \<and>
    largest_block (block_storage g') = 16 * 1024 * 1024 \<and> be_pipe sample_system 7 = Some (snd (worker_arg g' 7), dispatch_fd g' 7)"
  using datanode_starts [OF full_good_env sample_fresh(1) _ _ sample_fresh(2), of "\<lambda>d. True" map_of] by auto

text \<open>
  C27. How a start of the server ends, whatever the system grants. \<open>main\<close> ignores whether \<open>init_datanode_vars\<close> has failed; every
  run of it and its threads has at most \<open>2n + 3\<close> steps for \<open>n\<close> workers, and is over in one of these states. When the
  listening socket cannot be set up, the assign thread returns without posting and \<open>main\<close> stops in \<open>sem_wait\<close> for ever,
  with no worker created. Without memory for the assign thread, or with \<open>g_pipe_fd\<close> still \<open>NULL\<close>, the process dies with no
  worker created. Without memory for a worker the process dies at the first such worker, after those before it were
  ready. Only otherwise are the assign thread and all workers ready, and \<open>main\<close> joins them.
\<close>

theorem startup_all_or_never:
  assumes "(main_step le amem wmem t g ^^ k) (boot_start n) s"
  shows "k \<le> 2 * n + 3 \<and>
    ((\<exists>s'. main_step le amem wmem t g s s') \<or>
     (if fst (init_listen_socket le t) = RET_FAILED then
        \<not> b_dead s \<and> b_main s = MWaitAssign \<and> b_assign s = Returned \<and> b_workers s = replicate n NotCreated
      else if \<not> amem \<or> g_pipe_fd g = None \<and> 0 < n then b_dead s \<and> b_workers s = replicate n NotCreated
      else if \<exists>i<n. \<not> wmem i then
        b_dead s \<and> (\<exists>i<n. \<not> wmem i \<and> (\<forall>j<i. wmem j) \<and> b_workers s = replicate i Ready @ Created # replicate (n - i - 1) NotCreated)
      else \<not> b_dead s \<and> b_main s = MJoin \<and> b_assign s = Ready \<and> b_workers s = replicate n Ready))"
proof -
  let ?at = "fst (new_assign_thread le amem t)" and ?wk = "\<lambda>i. new_worker_thread (wmem i) (worker_arg g i)" and ?fds = "g_pipe_fd g"
  have run: "(boot_step ?at ?wk ?fds ^^ k) (boot_start n) s" using assms unfolding main_step_def .
  have inv: "boot_inv ?at ?wk ?fds n s" "k + steps_left n s \<le> 2 * n + 3" using boot_run [OF run] by auto
  have wk: "\<forall>i. ?wk i \<noteq> ThreadReturned" "\<And>i. ?wk i = ThreadCrashed \<longleftrightarrow> \<not> wmem i" by (simp_all add: new_worker_thread_def)
  have at: "?at = ThreadReturned \<longleftrightarrow> fst (init_listen_socket le t) = RET_FAILED"
      "?at = ThreadCrashed \<longleftrightarrow> fst (init_listen_socket le t) \<noteq> RET_FAILED \<and> \<not> amem"
    by (auto simp: new_assign_thread_def split: prod.split)
  show ?thesis
  proof (cases "steps_left n s = 0")
    case True
    then have "boot_end ?at ?wk ?fds n s" by (rule boot_ends [OF inv(1) wk(1)])
    note e = this [unfolded boot_end_def wk(2) up_to_def at not_not]
    show ?thesis
    proof (intro conjI disjI2)
      show "k \<le> 2 * n + 3" using inv(2) by linarith
    qed (use e in \<open>cases "fst (init_listen_socket le t) = RET_FAILED"; cases amem; simp only: simp_thms if_True if_False\<close>)
  next
    case False
    then show ?thesis using boot_progress [OF inv(1) wk(1)] inv(2) unfolding main_step_def by simp
  qed
qed

theorem startup_all_or_never_witness:
  "\<exists>s. (main_step \<lparr>l_socket = 3, l_bind = -1, l_listen = 0\<rparr> True (\<lambda>i. True) Map.empty sample_vars ^^ 2) (boot_start 8) s \<and>
    b_workers s = replicate 8 NotCreated \<and> b_main s = MWaitAssign \<and> \<not> b_dead s"
proof -
  let ?le = "\<lparr>l_socket = 3, l_bind = -1, l_listen = 0\<rparr>" and ?wm = "\<lambda>i::nat. True"
  let ?s1 = "(boot_start 8)\<lparr>b_main := MWaitAssign, b_assign := Created\<rparr>"
  let ?s2 = "?s1\<lparr>b_assign := Returned\<rparr>"
  have f: "fst (init_listen_socket ?le Map.empty) = RET_FAILED" by (simp add: init_listen_socket_def set_nonblock_def)
  then have a: "fst (new_assign_thread ?le True Map.empty) = ThreadReturned" by (auto simp: new_assign_thread_def split: prod.split)
  have "main_step ?le True ?wm Map.empty sample_vars (boot_start 8) ?s1"
    unfolding main_step_def by (rule create_assign) (simp_all add: boot_start_def)
  moreover have "main_step ?le True ?wm Map.empty sample_vars ?s1 ?s2"
    unfolding main_step_def a by (rule assign_returns) (simp_all add: boot_start_def)
  ultimately have r: "(main_step ?le True ?wm Map.empty sample_vars ^^ 2) (boot_start 8) ?s2"
    by (auto simp: numeral_2_eq_2)
  have "\<not> main_step ?le True ?wm Map.empty sample_vars ?s2 s'" for s'
    unfolding main_step_def a by (rule stuck [where n = 8]) (simp_all add: boot_start_def)
  then show ?thesis using startup_all_or_never [OF r] r f by (intro exI [where x = ?s2]) auto
qed

text \<open>
  A connection gives its descriptor back: accepting one puts its new descriptor into
  non-blocking mode and leaves a task in the state the event handler expects; destroying the task
  afterwards, whatever became of it, leaves the descriptors as they were. Without memory for the task
  the accepted socket stays open, and so does a listening socket whose port cannot be bound.
\<close>

theorem connection_descriptors:
  assumes "0 \<le> sockfd" and "t sockfd = None"
  shows "(\<exists>qt. accept_connection sockfd True t = (Some qt, t(sockfd \<mapsto> 2 OR O_NONBLOCK)) \<and> task_ok qt \<and>
      (\<forall>qt' flags. sock_fd qt' = sock_fd qt \<longrightarrow> snd (destroy_query_task qt' (t(sockfd \<mapsto> flags))) = t)) \<and>
    accept_connection sockfd False t = (None, t(sockfd \<mapsto> 2)) \<and>
    (l_socket le = sockfd \<and> l_bind le \<noteq> 0 \<longrightarrow> init_listen_socket le t = (RET_FAILED, t(sockfd \<mapsto> 2 OR O_NONBLOCK)))"
proof -
  have "\<exists>qt. do_accept_connection sockfd True = Some qt \<and> sock_fd qt = sockfd"
    by (simp add: do_accept_connection_def change_query_task_state_def Let_def protocol_consts)
  then obtain qt where qt: "do_accept_connection sockfd True = Some qt" "sock_fd qt = sockfd" by blast
  have "t(sockfd := None) = t" using assms(2) by auto
  then show ?thesis
    using qt assms(1) accepted_ok(1) [OF qt(1)]
    by (auto simp: accept_connection_def set_nonblock_def destroy_query_task_def sys_close_def init_listen_socket_def
        do_accept_connection_def)
qed

theorem connection_descriptors_witness:
  "accept_connection 7 False Map.empty = (None, [7 \<mapsto> 2])"
  using connection_descriptors [of 7 Map.empty] by simp

end
