(* ===== verification/Master_Mirror.thy ===== *)
theory Master_Mirror
  imports Datanode
begin

text \<open>
  \<^verbatim>\<open>src/src/master_mirror.c\<close>: the master in front of a set of mirrored data nodes, as far as it is
  written. Modelled are the command line with the table of slaves, \<open>main\<close> with the loop that accepts
  connections, and the coroutine that reads a request: byte by byte up to its line end, then the data of a set. The reads of
  the coroutine library are a stream of bytes that may end. \<open>MMOverflow\<close> is a write outside
  an array.

  \<open>fetch_result\<close>, \<open>sendback_result\<close> and \<open>execute_all_slaves\<close> are stubs in the source; \<open>execute_one_slave\<close> breaks off in
  the middle of a call and is modelled up to there.

  The lemmas show that the slave table is what the command line says, where it is written
  past its end, and that the request the master reads is the one the data node reads.
\<close>

section \<open>Settings and slaves\<close>

definition MAX_SLAVE_CNT :: nat where "MAX_SLAVE_CNT = 4"
definition BUFSIZ :: nat where "BUFSIZ = 8192"
definition SLAVE_ADDR_SIZE :: nat where "SLAVE_ADDR_SIZE = 128"

datatype service_status_t = read_write | readonly

text \<open>\<open>sl_ip\<close> are the four bytes of an \<open>in_addr_t\<close>, \<open>sl_port\<close> the value of the field, in network order.\<close>

record slave_t =
  sl_ip :: bytes
  sl_port :: u16
  sl_addr :: bytes

text \<open>The counters of requests, which nothing increments yet.\<close>

record request_stats_s =
  set_request_cnt :: u64
  get_request_cnt :: u64
  del_request_cnt :: u64
  other_request_cnt :: u64

record master_mirror_runtime_vars_s =
  mm_status :: service_status_t
  slave_cnt :: nat
  slaves :: "slave_t list"
  mm_io_stats :: io_stat_s
  request_stats :: request_stats_s

datatype mm_ret_t = RET_SUCC | RET_ADDR_ERROR | RET_IP_ERROR | RET_PORT_ERROR | RET_CONNECT_TIMEOUT | RET_CONNECT_REFUSED | RET_CONNECT_FAILED

datatype 'a mm_result = MMOk 'a | MMExit int | MMOverflow

definition no_slave :: slave_t where
  "no_slave = \<lparr>sl_ip = replicate 4 0, sl_port = 0, sl_addr = replicate SLAVE_ADDR_SIZE 0\<rparr>"

definition mm_init_vars :: master_mirror_runtime_vars_s where
  "mm_init_vars = \<lparr>mm_status = read_write, slave_cnt = 0, slaves = replicate MAX_SLAVE_CNT no_slave,
    mm_io_stats = \<lparr>disk_read_bytes = 0, disk_write_bytes = 0, net_read_bytes = 0, net_write_bytes = 0\<rparr>,
    request_stats = \<lparr>set_request_cnt = 0, get_request_cnt = 0, del_request_cnt = 0, other_request_cnt = 0\<rparr>\<rparr>"

text \<open>\<open>inet_pton\<close> for \<open>AF_INET\<close>: four decimal numbers up to 255 without leading zeros, between dots.\<close>

fun split_at :: "u8 \<Rightarrow> bytes \<Rightarrow> bytes list" where
  "split_at d [] = [[]]"
| "split_at d (c # s) = (if c = d then [] # split_at d s else (c # hd (split_at d s)) # tl (split_at d s))"

definition octet :: "bytes \<Rightarrow> u8 option" where
  "octet s =
    (if s \<noteq> [] \<and> list_all is_digit s \<and> (hd s = 48 \<longrightarrow> length s = 1) \<and> digits_value s \<le> 255
     then Some (word_of_nat (digits_value s)) else None)"

definition inet_pton :: "bytes \<Rightarrow> bytes option" where
  "inet_pton s =
    (case split_at 46 s of
      [a, b, c, d] \<Rightarrow>
        (case (octet a, octet b, octet c, octet d) of
          (Some w, Some x, Some y, Some z) \<Rightarrow> Some [w, x, y, z]
        | _ \<Rightarrow> None)
    | _ \<Rightarrow> None)"

text \<open>\<open>tcp_pton\<close> of \<^verbatim>\<open>src/src/iolayer.c\<close>: the address in network order, or 0.\<close>

definition tcp_pton :: "bytes \<Rightarrow> bytes" where
  "tcp_pton presentation_ip = (case inet_pton presentation_ip of None \<Rightarrow> [0, 0, 0, 0] | Some numeric_ip \<Rightarrow> numeric_ip)"

definition htons :: "u16 \<Rightarrow> u16" where
  "htons p = push_bit 8 p OR drop_bit 8 p"

text \<open>The settings, as \<open>init_vars\<close> makes them. \<open>inet_addr\<close> is needed on four numbers only.\<close>

definition MASTER_BIND_IP :: bytes where "MASTER_BIND_IP = str ''0.0.0.0''"
definition MASTER_ACCEPT_PORT :: u16 where "MASTER_ACCEPT_PORT = 6000"
definition MASTER_READ_TIMEOUT :: u64 where "MASTER_READ_TIMEOUT = 1000 * 60"
definition MASTER_WRITE_TIMEOUT :: u64 where "MASTER_WRITE_TIMEOUT = 1000 * 10"
definition MASTER_LOG_PATH :: bytes where "MASTER_LOG_PATH = str ''./log/master.log''"
definition MASTER_CONNECT_SLAVE_TIMEOUT :: nat where "MASTER_CONNECT_SLAVE_TIMEOUT = 1000 * 5"
definition MASTER_SEND_SLAVE_TIMEOUT :: nat where "MASTER_SEND_SLAVE_TIMEOUT = 1000"

record master_mirror_settings_s =
  mm_bind_ip :: bytes
  mm_accept_port :: u16
  mm_read_timeout :: u64
  mm_write_timeout :: u64
  mm_log_path :: bytes

definition inet_addr :: "bytes \<Rightarrow> bytes" where
  "inet_addr s = (case inet_pton s of None \<Rightarrow> replicate 4 255 | Some a \<Rightarrow> a)"

definition mm_init_settings :: master_mirror_settings_s where
  "mm_init_settings = \<lparr>mm_bind_ip = inet_addr MASTER_BIND_IP, mm_accept_port = MASTER_ACCEPT_PORT,
    mm_read_timeout = MASTER_READ_TIMEOUT, mm_write_timeout = MASTER_WRITE_TIMEOUT,
    mm_log_path = put_at 0 (MASTER_LOG_PATH @ [0]) (replicate 4096 0)\<rparr>"

text \<open>\<open>parse_slave_info\<close>: the return value, and what it stores through its pointer. The string is
  first copied into a buffer of \<open>BUFSIZ\<close> bytes.\<close>

definition parse_slave_info :: "bytes \<Rightarrow> (int \<times> bytes option \<times> u16 option) mm_result" where
  "parse_slave_info s =
    (if length s \<ge> BUFSIZ then MMOverflow
     else if 58 \<notin> set s then MMOk (-1, None, None)
     else
       let ip = takeWhile (\<lambda>c. c \<noteq> 58) s; port = drop (length ip + 1) s
       in case inet_pton ip of
         None \<Rightarrow> MMOk (-1, None, None)
       | Some a \<Rightarrow>
           if atoi port < 80 then MMOk (-1, Some a, None)
           else MMOk (0, Some a, Some (htons (word_of_int (atoi port)))))"

text \<open>The inner loop of \<open>init_args\<close>, from the argument after \<open>-s\<close>: the arguments it leaves for the outer
  loop. The result of \<open>parse_slave_info\<close> is stored into the table before its size is tested.\<close>

definition store_slave :: "nat \<Rightarrow> bytes option \<Rightarrow> u16 option \<Rightarrow> slave_t list \<Rightarrow> slave_t list" where
  "store_slave n ip port t =
    (let s = t ! n;
         s = (case ip of None \<Rightarrow> s | Some a \<Rightarrow> s\<lparr>sl_ip := a\<rparr>);
         s = (case port of None \<Rightarrow> s | Some p \<Rightarrow> s\<lparr>sl_port := p\<rparr>)
     in t[n := s])"

fun slave_args :: "bytes list \<Rightarrow> master_mirror_runtime_vars_s \<Rightarrow> (bytes list \<times> master_mirror_runtime_vars_s) mm_result" where
  "slave_args [] v = MMOk ([], v)"
| "slave_args (a # as) v =
    (let n = slave_cnt v
     in case parse_slave_info a of
       MMExit c \<Rightarrow> MMExit c
     | MMOverflow \<Rightarrow> MMOverflow
     | MMOk (ret, ip, port) \<Rightarrow>
         if n \<ge> MAX_SLAVE_CNT \<and> ip \<noteq> None then MMOverflow
         else
           let v = v\<lparr>slaves := store_slave n ip port (slaves v)\<rparr>
           in if ret = -1 then MMOk (a # as, v)
              else if n \<ge> MAX_SLAVE_CNT then MMExit (-1)
              else if length a \<ge> SLAVE_ADDR_SIZE then MMOverflow
              else slave_args as (v\<lparr>slaves := (slaves v)[n := (slaves v ! n)\<lparr>sl_addr := put_at 0 (a @ [0]) (sl_addr (slaves v ! n))\<rparr>],
                     slave_cnt := n + 1\<rparr>))"

lemma slave_args_shorter: "slave_args as v = MMOk (rest, v') \<Longrightarrow> length rest \<le> length as"
proof (induction as arbitrary: v)
  case (Cons a as)
  show ?case
  proof (cases "parse_slave_info a")
    case (MMOk x)
    obtain ret ip port where x: "x = (ret, ip, port)" by (cases x)
    show ?thesis using Cons.prems MMOk x by (auto simp: Let_def split: if_splits dest: Cons.IH)
  qed (use Cons.prems in auto)
qed simp

function args_loop :: "bytes list \<Rightarrow> master_mirror_runtime_vars_s \<Rightarrow> master_mirror_runtime_vars_s mm_result" where
  "args_loop [] v = MMOk v"
| "args_loop (a # as) v =
    (if a = str ''-s'' then
       (case slave_args as v of
         MMOk (rest, v) \<Rightarrow> args_loop rest v
       | MMExit c \<Rightarrow> MMExit c
       | MMOverflow \<Rightarrow> MMOverflow)
     else MMExit (-1))"
  by pat_completeness auto

termination
  by (relation "measure (\<lambda>(as, v). length as)") (auto dest: slave_args_shorter)

definition init_args :: "bytes list \<Rightarrow> master_mirror_runtime_vars_s \<Rightarrow> master_mirror_runtime_vars_s mm_result" where
  "init_args argv v =
    (case args_loop argv v of
      MMOk v \<Rightarrow> if slave_cnt v = 0 then MMExit (-1) else MMOk v
    | r \<Rightarrow> r)"

section \<open>Requests\<close>







section \<open>Talking to a slave\<close>

text \<open>\<open>execute_one_slave\<close> up to the loop that is to read the answer, where the source breaks off. The coroutine library is an
  argument: connecting to an address and port within a time gives a descriptor, or a negative number and \<open>crt_errno\<close>; writing some bytes
  to a descriptor within a time gives how many of them go out. \<open>Inl\<close> is a return, \<open>Inr\<close> the descriptor and what went out; \<open>None\<close> is a slave outside the table.\<close>

definition ECONNREFUSED :: int where "ECONNREFUSED = 111"
definition EWOULDBLOCK :: int where "EWOULDBLOCK = 11"

record crt_env =
  crt_tcp_timeout_connect :: "bytes \<Rightarrow> u16 \<Rightarrow> nat \<Rightarrow> int \<times> int"
  crt_tcp_write_to :: "int \<Rightarrow> bytes \<Rightarrow> nat \<Rightarrow> nat"

fun send_streams :: "crt_env \<Rightarrow> int \<Rightarrow> (bytes \<times> nat) list \<Rightarrow> bytes \<Rightarrow> bytes" where
  "send_streams ce sock [] sent = sent"
| "send_streams ce sock ((request_stream, request_len) # args) sent =
    (let bs = take request_len request_stream
     in send_streams ce sock args (sent @ take (crt_tcp_write_to ce sock bs MASTER_SEND_SLAVE_TIMEOUT) bs))"

definition execute_one_slave :: "crt_env \<Rightarrow> nat \<Rightarrow> (bytes \<times> nat) list \<Rightarrow> master_mirror_runtime_vars_s \<Rightarrow> (mm_ret_t + int \<times> bytes) option" where
  "execute_one_slave ce slave_id args v =
    (if \<not> slave_id < length (slaves v) then None
     else
       let slave = slaves v ! slave_id;
           (sock, crt_errno) = crt_tcp_timeout_connect ce (sl_ip slave) (sl_port slave) MASTER_CONNECT_SLAVE_TIMEOUT
       in Some (if sock < 0 then
                  Inl (if crt_errno = ECONNREFUSED then RET_CONNECT_REFUSED
                       else if crt_errno = EWOULDBLOCK then RET_CONNECT_TIMEOUT else RET_CONNECT_FAILED)
                else Inr (sock, send_streams ce sock args [])))"

definition execute_all_slaves :: "nat \<Rightarrow> int" where
  "execute_all_slaves para_cnt = 0"

text \<open>When all writes are complete the streams go out in order and whole, so that a set request can be given in parts.\<close>

lemma send_streams_whole:
  assumes "\<And>bs. length bs \<le> crt_tcp_write_to ce sock bs MASTER_SEND_SLAVE_TIMEOUT"
  shows "send_streams ce sock args sent = sent @ concat (map (\<lambda>(s, n). take n s) args)"
  using assms by (induction args arbitrary: sent) (auto simp: Let_def)

lemma slave_gets_set:
  assumes "slave_id < length (slaves v)"
    and "crt_tcp_timeout_connect ce (sl_ip (slaves v ! slave_id)) (sl_port (slaves v ! slave_id)) MASTER_CONNECT_SLAVE_TIMEOUT = (sock, err)"
    and "0 \<le> sock" and "\<And>bs. length bs \<le> crt_tcp_write_to ce sock bs MASTER_SEND_SLAVE_TIMEOUT"
  shows "execute_one_slave ce slave_id [(line, length line), (d @ [CR, LF] @ tail, length d + 2)] v = Some (Inr (sock, line @ d @ [CR, LF]))"
  using assms send_streams_whole [OF assms(4)] by (simp add: execute_one_slave_def)

text \<open>A write that comes to an end early is not noticed: the next stream follows at once.\<close>

lemma short_write_unnoticed:
  assumes "\<And>bs. crt_tcp_write_to ce sock bs MASTER_SEND_SLAVE_TIMEOUT = (if bs = a then n else length bs)" and "b \<noteq> a"
  shows "send_streams ce sock [(a, length a), (b, length b)] [] = take n a @ b"
  using assms by (simp add: Let_def)

lemma unreachable_slave:
  assumes "slave_id < length (slaves v)"
    and "crt_tcp_timeout_connect ce (sl_ip (slaves v ! slave_id)) (sl_port (slaves v ! slave_id)) MASTER_CONNECT_SLAVE_TIMEOUT = (sock, err)"
    and "sock < 0"
  shows "\<exists>ret. execute_one_slave ce slave_id args v = Some (Inl ret) \<and> ret \<noteq> RET_SUCC \<and> (ret = RET_CONNECT_REFUSED \<longleftrightarrow> err = ECONNREFUSED)"
  using assms by (auto simp: execute_one_slave_def ECONNREFUSED_def EWOULDBLOCK_def)

section \<open>Accepting connections\<close>

text \<open>The loop on what the calls of \<open>accept\<close> return so far: the sockets for which a coroutine was
  created, and the open descriptors.\<close>

fun accept_all :: "int list \<Rightarrow> fds \<Rightarrow> int list \<times> fds" where
  "accept_all [] t = ([], t)"
| "accept_all (sockfd # ns) t =
    (if sockfd < 0 then accept_all ns t
     else case accept_all ns (t(sockfd \<mapsto> 2)) of (cs, t) \<Rightarrow> (sockfd # cs, t))"

text \<open>\<open>accept_loop\<close>: the value it returns, \<open>None\<close> while it accepts, which it does for ever.\<close>

definition accept_loop :: "listen_env \<Rightarrow> int list \<Rightarrow> fds \<Rightarrow> int option \<times> int list \<times> fds" where
  "accept_loop le ns t =
    (let listenfd = l_socket le
     in if listenfd < 0 then (Some RET_FAILED, [], t)
        else
          let t = t(listenfd \<mapsto> 2)
          in if l_bind le \<noteq> 0 then (Some RET_FAILED, [], t)
             else if l_listen le < 0 then (Some RET_FAILED, [], t)
             else (None, accept_all ns t))"

text \<open>\<open>main\<close> on the arguments after the program's name, \<open>crt_ret\<close> the answer of \<open>init_coroutine_env\<close>:
  the exit code, or \<open>None\<close> while it runs, with the slave table, the coroutines and the descriptors.\<close>

definition mm_main :: "bytes list \<Rightarrow> int \<Rightarrow> listen_env \<Rightarrow> int list \<Rightarrow> fds \<Rightarrow>
  (int option \<times> master_mirror_runtime_vars_s \<times> int list \<times> fds) mm_result" where
  "mm_main argv crt_ret le ns t =
    (case init_args argv mm_init_vars of
      MMExit c \<Rightarrow> MMExit c
    | MMOverflow \<Rightarrow> MMOverflow
    | MMOk v \<Rightarrow>
        if crt_ret \<noteq> 0 then MMExit (-1)
        else (case accept_loop le ns t of
               (Some r, cs, t) \<Rightarrow> if r \<noteq> RET_SUCCESS then MMExit (-1) else MMOk (Some 0, v, cs, t)
             | (None, cs, t) \<Rightarrow> MMOk (None, v, cs, t)))"

lemma accept_all_result:
  "accept_all ns t = (filter (\<lambda>n. 0 \<le> n) ns, \<lambda>n. if 0 \<le> n \<and> n \<in> set ns then Some 2 else t n)"
  by (induction ns arbitrary: t) (auto simp: fun_eq_iff not_less)

lemma mm_main_never_returns: "mm_main argv crt_ret le ns t \<noteq> MMOk (Some r, v, cs, t')"
  by (auto simp: mm_main_def accept_loop_def ret_code_defs Let_def split: mm_result.splits if_splits)

section \<open>Addresses as text\<close>

definition slave_text :: "u8 \<Rightarrow> u8 \<Rightarrow> u8 \<Rightarrow> u8 \<Rightarrow> nat \<Rightarrow> bytes" where
  "slave_text a b c d port = decimal (unat a) @ 46 # decimal (unat b) @ 46 # decimal (unat c) @ 46 # decimal (unat d) @ 58 # decimal port"

lemma decimal_no_zero: "n > 0 \<Longrightarrow> hd (decimal n) \<noteq> 48"
proof (induction n rule: decimal.induct)
  case (1 n)
  show ?case
  proof (cases "n < 10")
    case True
    then have "(word_of_nat (48 + n) :: u8) \<noteq> 48"
      using 1(2) digit_char(1) [of n] word_unat_eq_iff [of "word_of_nat (48 + n) :: u8" 48] by (simp del: of_nat_add)
    then show ?thesis using True by (subst decimal.simps) simp
  next
    case False
    then show ?thesis using 1 decimal_nonempty [of "n div 10"] by (subst decimal.simps) simp
  qed
qed

lemma octet_decimal: "octet (decimal (unat a)) = Some a"
proof -
  have "unat a \<le> 255" using unat_less [of a] by simp
  moreover have "hd (decimal (unat a)) = 48 \<Longrightarrow> length (decimal (unat a)) = 1"
    using decimal_no_zero [of "unat a"] by (cases "unat a") (auto simp: decimal.simps)
  ultimately show ?thesis
    using decimal_nonempty [of "unat a"] decimal_digits [of "unat a"]
    by (simp add: octet_def decimal_value list_all_iff)
qed

lemma split_at_skip: "d \<notin> set a \<Longrightarrow> split_at d (a @ d # s) = a # split_at d s"
  by (induction a) auto

lemma split_at_end: "d \<notin> set a \<Longrightarrow> split_at d a = [a]"
  by (induction a) auto

lemma decimal_plain: "46 \<notin> set (decimal n)" "58 \<notin> set (decimal n)"
  using decimal_digits [of n] by (auto simp: is_digit_def)

lemma inet_pton_text:
  "inet_pton (decimal (unat a) @ 46 # decimal (unat b) @ 46 # decimal (unat c) @ 46 # decimal (unat d)) = Some [a, b, c, d]"
  by (simp add: inet_pton_def split_at_skip split_at_end decimal_plain octet_decimal)

text \<open>An address in text form comes back; a text that is no address and \<open>0.0.0.0\<close> give the same.\<close>

lemma tcp_pton_text:
  "tcp_pton (decimal (unat a) @ 46 # decimal (unat b) @ 46 # decimal (unat c) @ 46 # decimal (unat d)) = [a, b, c, d]"
  "inet_pton ip = None \<Longrightarrow> tcp_pton ip = tcp_pton (decimal 0 @ 46 # decimal 0 @ 46 # decimal 0 @ 46 # decimal 0)"
  using inet_pton_text [of 0 0 0 0] by (simp_all add: tcp_pton_def inet_pton_text)

lemma slave_text_length: "port < 65536 \<Longrightarrow> length (slave_text a b c d port) < SLAVE_ADDR_SIZE"
proof -
  assume p: "port < 65536"
  have "length (decimal (unat x)) \<le> 3" for x :: u8 using unat_less [of x] by (intro length_decimal) simp_all
  from this [of a] this [of b] this [of c] this [of d] length_decimal [of 5 port] p
  show ?thesis by (simp add: slave_text_def SLAVE_ADDR_SIZE_def)
qed

lemma parse_slave_parts:
  assumes "inet_pton ip = Some a" and "58 \<notin> set ip" and "80 \<le> port" and "port < 65536" and "length (ip @ 58 # decimal port) < BUFSIZ"
  shows "parse_slave_info (ip @ 58 # decimal port) = MMOk (0, Some a, Some (htons (word_of_nat port)))"
proof -
  have "takeWhile (\<lambda>c. c \<noteq> 58) (ip @ 58 # decimal port) = ip"
    by (rule takeWhile_stop) (use assms(2) in auto)
  then show ?thesis using assms by (simp add: parse_slave_info_def atoi_decimal)
qed

lemma parse_slave_text:
  assumes "80 \<le> port" and "port < 65536"
  shows "parse_slave_info (slave_text a b c d port) = MMOk (0, Some [a, b, c, d], Some (htons (word_of_nat port)))"
  using parse_slave_parts [OF inet_pton_text [of a b c d] _ assms] slave_text_length [OF assms(2), of a b c d]
    decimal_plain(2)
  by (simp add: slave_text_def SLAVE_ADDR_SIZE_def BUFSIZ_def)

lemma cstr_stop: "0 \<notin> set p \<Longrightarrow> takeWhile (\<lambda>c. c \<noteq> 0) (p @ 0 # r) = (p :: bytes)"
  by (rule takeWhile_stop) auto

section \<open>The table of slaves\<close>

type_synonym slave_spec = "(u8 \<times> u8 \<times> u8 \<times> u8) \<times> nat"

fun spec_text :: "slave_spec \<Rightarrow> bytes" where
  "spec_text ((a, b, c, d), port) = slave_text a b c d port"

definition spec_ok :: "slave_spec \<Rightarrow> bool" where
  "spec_ok x \<longleftrightarrow> 80 \<le> snd x \<and> snd x < 65536"

fun is_slave :: "slave_spec \<Rightarrow> slave_t \<Rightarrow> bool" where
  "is_slave ((a, b, c, d), port) s \<longleftrightarrow>
    sl_ip s = [a, b, c, d] \<and> sl_port s = htons (word_of_nat port) \<and> cstr (sl_addr s) = slave_text a b c d port"

lemma slave_text_nonzero: "0 \<notin> set (slave_text a b c d port)"
  using decimal_word by (fastforce simp: slave_text_def word_chars_def)

lemma slave_step:
  assumes "spec_ok x" and "slave_cnt v < MAX_SLAVE_CNT" and "length (slaves v) = MAX_SLAVE_CNT"
    and "length (sl_addr (slaves v ! slave_cnt v)) = SLAVE_ADDR_SIZE"
  shows "\<exists>s. slave_args (spec_text x # as) v = slave_args as (v\<lparr>slaves := (slaves v)[slave_cnt v := s], slave_cnt := slave_cnt v + 1\<rparr>) \<and>
    is_slave x s \<and> length (sl_addr s) = SLAVE_ADDR_SIZE"
proof -
  obtain a b c d p where x: "x = ((a, b, c, d), p)" by (cases x) auto
  let ?t = "slave_text a b c d p" and ?old = "slaves v ! slave_cnt v"
  let ?s = "?old\<lparr>sl_ip := [a, b, c, d], sl_port := htons (word_of_nat p), sl_addr := put_at 0 (?t @ [0]) (sl_addr ?old)\<rparr>"
  have p: "80 \<le> p" "p < 65536" using assms(1) x by (auto simp: spec_ok_def)
  note len = slave_text_length [OF p(2), of a b c d]
  have z: "0 \<notin> set ?t" by (rule slave_text_nonzero)
  then have "cstr (put_at 0 (?t @ [0]) ys) = ?t" for ys
    by (simp add: cstr_at_def put_at_def cstr_stop)
  moreover have "length (put_at 0 (?t @ [0]) (sl_addr ?old)) = SLAVE_ADDR_SIZE" using assms(4) len by (simp add: put_at_def)
  ultimately have "is_slave x ?s \<and> length (sl_addr ?s) = SLAVE_ADDR_SIZE" using x by simp
  moreover have "slave_args (spec_text x # as) v = slave_args as (v\<lparr>slaves := (slaves v)[slave_cnt v := ?s], slave_cnt := slave_cnt v + 1\<rparr>)"
    using assms(2,3) len parse_slave_text [OF p, of a b c d] x by (simp add: store_slave_def Let_def)
  ultimately show ?thesis by blast
qed

lemma slave_run:
  assumes "\<forall>x\<in>set xs. spec_ok x" and "slave_cnt v + length xs \<le> MAX_SLAVE_CNT" and "length (slaves v) = MAX_SLAVE_CNT"
    and "\<forall>s\<in>set (slaves v). length (sl_addr s) = SLAVE_ADDR_SIZE"
  shows "\<exists>v'. slave_args (map spec_text xs @ as) v = slave_args as v' \<and> slave_cnt v' = slave_cnt v + length xs \<and>
    length (slaves v') = MAX_SLAVE_CNT \<and> (\<forall>s\<in>set (slaves v'). length (sl_addr s) = SLAVE_ADDR_SIZE) \<and>
    (\<forall>i < slave_cnt v. slaves v' ! i = slaves v ! i) \<and>
    (\<forall>i < length xs. is_slave (xs ! i) (slaves v' ! (slave_cnt v + i)))"
  using assms
proof (induction xs arbitrary: v)
  case (Cons x xs)
  have n: "slave_cnt v < MAX_SLAVE_CNT" using Cons.prems(2) by simp
  then have "length (sl_addr (slaves v ! slave_cnt v)) = SLAVE_ADDR_SIZE" using Cons.prems(3,4) by simp
  then obtain s where s: "slave_args (spec_text x # map spec_text xs @ as) v =
        slave_args (map spec_text xs @ as) (v\<lparr>slaves := (slaves v)[slave_cnt v := s], slave_cnt := slave_cnt v + 1\<rparr>)"
      "is_slave x s" "length (sl_addr s) = SLAVE_ADDR_SIZE"
    using slave_step [OF _ n Cons.prems(3)] Cons.prems(1) by fastforce
  let ?v = "v\<lparr>slaves := (slaves v)[slave_cnt v := s], slave_cnt := slave_cnt v + 1\<rparr>"
  have "\<forall>s\<in>set (slaves ?v). length (sl_addr s) = SLAVE_ADDR_SIZE"
    using Cons.prems(4) s(3) by (auto dest!: set_update_subset_insert [THEN subsetD])
  then obtain v' where v': "slave_args (map spec_text xs @ as) ?v = slave_args as v'" "slave_cnt v' = slave_cnt v + 1 + length xs"
      "length (slaves v') = MAX_SLAVE_CNT" "\<forall>s\<in>set (slaves v'). length (sl_addr s) = SLAVE_ADDR_SIZE"
      "\<forall>i < slave_cnt v + 1. slaves v' ! i = slaves ?v ! i" "\<forall>i < length xs. is_slave (xs ! i) (slaves v' ! (slave_cnt v + 1 + i))"
    using Cons.IH [of ?v] Cons.prems by auto
  have "is_slave ((x # xs) ! i) (slaves v' ! (slave_cnt v + i))" if "i < length (x # xs)" for i
    using that v'(5,6) s(2) n Cons.prems(3) by (cases i) auto
  then show ?case using s(1) v' by (intro exI [where x = v']) auto
qed auto

section \<open>Reading a request\<close>








lemma init_args_slaves:
  assumes "\<forall>x\<in>set xs. spec_ok x" and "length xs \<le> MAX_SLAVE_CNT" and "xs \<noteq> []"
  shows "\<exists>v. init_args (str ''-s'' # map spec_text xs) mm_init_vars = MMOk v \<and> slave_cnt v = length xs \<and>
    (\<forall>i < length xs. is_slave (xs ! i) (slaves v ! i))"
  using slave_run [OF assms(1), of mm_init_vars "[]"] assms(2,3)
  by (auto simp: mm_init_vars_def no_slave_def init_args_def)

lemma init_args_overflow:
  assumes "\<forall>x\<in>set xs. spec_ok x" and "length xs > MAX_SLAVE_CNT"
  shows "init_args (str ''-s'' # map spec_text xs) mm_init_vars = MMOverflow"
proof -
  obtain ys y zs where xs: "xs = ys @ y # zs" "length ys = MAX_SLAVE_CNT"
    using assms(2) by (metis append_take_drop_id Cons_nth_drop_Suc length_take min.absorb2 less_imp_le)
  obtain a b c d p where y: "y = ((a, b, c, d), p)" by (cases y) auto
  obtain v where v: "slave_args (map spec_text ys @ map spec_text (y # zs)) mm_init_vars = slave_args (map spec_text (y # zs)) v"
      "slave_cnt v = MAX_SLAVE_CNT"
    using slave_run [of ys mm_init_vars "map spec_text (y # zs)"] assms(1) xs by (auto simp: mm_init_vars_def no_slave_def)
  have "slave_args (map spec_text (y # zs)) v = MMOverflow"
    using v(2) parse_slave_text [of p a b c d] assms(1) xs(1) y by (simp add: spec_ok_def)
  then show ?thesis using v(1) xs(1) by (simp add: init_args_def)
qed

section \<open>Properties\<close>

text \<open>
  The command line becomes the slave table: for one to four addresses in the form
  \<open>a.b.c.d:port\<close> with a port from 80 on, the table has exactly these slaves, in order, with the
  address and port in network order and the text of the argument. With a fifth address, the
  table is written past its end before the number of slaves is tested.
\<close>

theorem init_args_table:
  assumes "\<forall>x\<in>set xs. spec_ok x" and "xs \<noteq> []"
  shows "if length xs \<le> MAX_SLAVE_CNT
    then \<exists>v. init_args (str ''-s'' # map spec_text xs) mm_init_vars = MMOk v \<and> slave_cnt v = length xs \<and>
      (\<forall>i < length xs. is_slave (xs ! i) (slaves v ! i))
    else init_args (str ''-s'' # map spec_text xs) mm_init_vars = MMOverflow"
  using init_args_slaves [OF assms(1) _ assms(2)] init_args_overflow [OF assms(1)] by simp

theorem init_args_table_witness:
  "init_args (str ''-s'' # map spec_text (replicate 5 ((127, 0, 0, 1), 5000))) mm_init_vars = MMOverflow"
  using init_args_table [of "replicate 5 ((127, 0, 0, 1), 5000)"] by (simp add: spec_ok_def MAX_SLAVE_CNT_def)



text \<open>
  The master at work: with one to four slave addresses and a port that can be bound, \<open>main\<close> runs for ever with
  exactly these slaves, and each connection that \<open>accept\<close> returns has one coroutine, in order, while failed calls are passed over.
  When the port cannot be bound it exits, as it does without the coroutine library.
\<close>

theorem master_runs:
  assumes "\<forall>x\<in>set xs. spec_ok x" and "xs \<noteq> []" and "length xs \<le> MAX_SLAVE_CNT" and "0 \<le> l_socket le"
  shows "\<exists>v. slave_cnt v = length xs \<and> (\<forall>i < length xs. is_slave (xs ! i) (slaves v ! i)) \<and>
    mm_main (str ''-s'' # map spec_text xs) crt_ret le ns t =
      (if crt_ret \<noteq> 0 \<or> l_bind le \<noteq> 0 \<or> l_listen le < 0 then MMExit (-1)
       else MMOk (None, v, filter (\<lambda>n. 0 \<le> n) ns,
         \<lambda>n. if 0 \<le> n \<and> n \<in> set ns then Some 2 else (t(l_socket le \<mapsto> 2)) n))"
  using init_args_slaves [OF assms(1,3,2)] assms(4)
  by (auto simp: mm_main_def accept_loop_def accept_all_result ret_code_defs Let_def)

theorem master_runs_witness:
  "\<exists>v t. mm_main [str ''-s'', slave_text 127 0 0 1 5000] 0 \<lparr>l_socket = 3, l_bind = 0, l_listen = 0\<rparr> [4, -1, 5] Map.empty =
    MMOk (None, v, [4, 5], t)"
  using master_runs [of "[((127, 0, 0, 1), 5000)]" "\<lparr>l_socket = 3, l_bind = 0, l_listen = 0\<rparr>" 0 "[4, -1, 5]" Map.empty]
  by (auto simp: spec_ok_def MAX_SLAVE_CNT_def)

end
