(* ===== verification/Spec2Isabelle.thy ===== *)
theory Spec2Isabelle
  imports Prelude Crc32 Mhash Bobhash Rwlock Slab Slab_Debug Indexlog Item_Memory Bdblib Storage Storage_Correct Storage_Lifecycle
    Memcached_Protocol Replay_Journal Locked_Programs Store_Threads Iolayer Query_Thread Worker_Threads Assign_Thread
    Task_Queues Node Bsdqueue Logger Datanode Master_Mirror
begin

text \<open>
  Linglongta: a store for very many small objects behind the text protocol of memcached. The program
  is C, under \<^verbatim>\<open>src/src\<close> and \<^verbatim>\<open>src/include\<close>.

  \<^bold>\<open>The program.\<close> A data node is one process with an assign thread and eight worker threads. The
  assign thread (\<^verbatim>\<open>assign_thread.c\<close>) accepts connections, reads a request line into a 512-byte
  buffer, parses it (\<^verbatim>\<open>memcached_protocol.c\<close>), reads the data of a set request, and writes the
  pointer of the task into the pipe of a worker, in turn. A worker (\<^verbatim>\<open>query_thread.c\<close>) calls the
  block store, builds the response and sends it. The block store (\<^verbatim>\<open>storage.c\<close>) keeps values in
  data files, one file per power-of-two block size from 128 bytes on, with a list of up to 100000
  free blocks in the file header; Berkeley DB (\<^verbatim>\<open>bdblib.c\<close>) maps the first 16 bytes of a key to
  file, offset, length and CRC-32 (\<^verbatim>\<open>crc32.c\<close>); every change is also written to a journal with two
  buffers (\<^verbatim>\<open>indexlog.c\<close>, read by \<^verbatim>\<open>tools/replay_journal.c\<close>). Index and files are guarded by
  read-write locks (\<^verbatim>\<open>rwlock.c\<close>); memory comes from a slab allocator (\<^verbatim>\<open>slab.c\<close>). \<^verbatim>\<open>mhash.c\<close>,
  \<^verbatim>\<open>bobhash.c\<close> and \<^verbatim>\<open>bsdqueue.h\<close> are a library of hashes and queues; \<^verbatim>\<open>master_mirror.c\<close> is the
  beginning of a master that mirrors requests to data nodes.

  \<^bold>\<open>Conventions.\<close> Machine integers are words where they can wrap, memory and files are byte lists or
  functions from offsets, and a definition carries the name of the C function it models. What a
  system call or the database returns is an argument (\<open>sys_env\<close>, \<open>db_api\<close>, \<open>sock_env\<close>,
  \<open>assign_env\<close>, \<open>boot_env\<close>, ...), so that every error branch of the code is a branch of the model.
  \<open>None\<close>, or the constructors \<open>Abort\<close> and \<open>Overflow\<close>, stand for a failed assertion, a bad access or
  an exit. Berkeley DB appears in the theorems by the laws of the locale \<open>berkeley_db\<close>, which \<open>mem_db\<close>
  (an association list) satisfies.

  \<^bold>\<open>Theories.\<close>
  \<^item> \<open>Prelude\<close>: machine types, little-endian encodings, collections of rules.
  \<^item> \<open>Crc32\<close>, \<open>Mhash\<close>, \<open>Bobhash\<close>: the hashes. The table-driven CRC equals the bitwise one and detects
    bursts; \<open>hashlittle\<close> does not depend on the alignment of its key; the mixing steps are bijections.
  \<^item> \<open>Rwlock\<close>: the lock as stretches of code between taking and giving up the mutex, threads
    interleaved by \<open>lock_step\<close>. Mutual exclusion, no lost wake-up, readers first.
  \<^item> \<open>Slab\<close>: the class table with its binary search, allocation, free lists, reallocation on a
    byte-addressed memory. Best fit, blocks in use are disjoint, contents survive.
  \<^item> \<open>Slab_Debug\<close>: the debug build of the allocator. A block freed twice stops the debug build, and is
    handed out twice by the other.
  \<^item> \<open>Indexlog\<close>: the journal and its reader. What was appended is read back, and a file cut at
    any byte reads back as a prefix.
  \<^item> \<open>Item_Memory\<close>: the blocks of the records a journal reader gets, as a client of the locale \<open>allocator\<close> that theory \<open>Slab\<close>
    interprets: a fetch that fails gives back what it took.
  \<^item> \<open>Bdblib\<close>: the wrappers of Berkeley DB, with the locale \<open>berkeley_db\<close>.
  \<^item> \<open>Storage\<close> holds the definitions of the block store, \<open>Storage_Correct\<close> its invariant (blocks of
    different keys are disjoint, none is free, sizes and checksums match) and the locale
    \<open>block_store\<close> with its interpretation, \<open>Storage_Lifecycle\<close> opening, closing, crashing and the
    properties: any sequence of calls answers like a map from 16-byte keys to values, also after
    a restart and after a crash between calls, and what happens to values that are too large.
  \<^item> \<open>Locked_Programs\<close>: programs with read-write locks and threads that interleave them. The locale
    \<open>locked_object\<close> is a locking discipline with one big lock that readers may give up early, or not take when they do not touch the object; under it every
    interleaving is linearizable and ends.
  \<^item> \<open>Store_Threads\<close>: the calls of the block store with their lock operations. Executed alone they are the
    functions of \<open>Storage\<close>; they keep the discipline, so any number of query threads sees one map. A
    lookup without memory leaves the index locked, and halting the node loses a write that was acknowledged.
  \<^item> \<open>Memcached_Protocol\<close>: the parser, with the string functions of the C library it calls. Lines in
    the documented format parse to their parts, unknown commands are refused; on any input the parser stays in its buffer and
    leaves a terminated key. An access through a pointer it computes is checked, \<open>None\<close> when it is outside.
  \<^item> \<open>Replay_Journal\<close>: the tool that prints a journal. The journal records of a process, replayed over
    the index it began with, give the index it ended with, so a store can be recovered from data
    files and journal; a crash costs the journal at most the 186 records of its buffer.
  \<^item> \<open>Iolayer\<close>: the wrappers of system calls with counters, blocking mode and connecting.
  \<^item> \<open>Query_Thread\<close>: a worker. Over the text protocol it answers like a map.
  \<^item> \<open>Worker_Threads\<close>: the query threads side by side, over \<open>Store_Threads\<close>. The bytes all clients receive are
    the answers of one map.
  \<^item> \<open>Assign_Thread\<close>: the state machine of a connection. The handler ends, a set request whose line
    comes in the first read arrives whole however its data is cut, tasks go round the workers, and the requests that do harm.
  \<^item> \<open>Task_Queues\<close>: threads whose operations arrive while they work; such a run is simulated by one in which all
    operations were there from the start.
  \<^item> \<open>Node\<close>: the assign thread beside the query threads. Clients that connect, send a line and data in pieces, time out or send what is no request, in any
    interleaving with the threads, get the answers of one map; no event of theirs makes the node fail, and every request that arrived is
    answered after finitely many steps.
  \<^item> \<open>Bsdqueue\<close>: the tail queue on a heap of pointers, with the locale \<open>queue_interface\<close> and its
    interpretation. Any sequence of operations behaves like operations on lists.
  \<^item> \<open>Logger\<close>: the text log and \<open>timeval_sub\<close>.
  \<^item> \<open>Datanode\<close>: initialisation (\<^verbatim>\<open>global.c\<close>), \<open>main\<close> with the start of the threads and every way it can end, the listening
    socket, accepting and destroying connections.
  \<^item> \<open>Master_Mirror\<close>: the master's settings and command line, its accepting loop, its reading of requests and sending to a slave.
  \<^item> This theory: the server as a whole.

  \<^bold>\<open>Bounds and fuel.\<close> The only fuel is \<open>handler_fuel\<close> = 1030 rounds of the event handler; it is never
  used up, since each pair of a read and a parse advances the 512-byte head (two rounds a byte,
  and six more). The retry of \<open>recv_req_data\<close> on a socket without data is \<open>Spin\<close>. Other loops
  are recursive functions with a termination proof, and the pointer loops of \<open>Bsdqueue\<close> partial functions
  that are proved to return. \<open>room n s\<close> says that \<open>n\<close> more blocks keep file offsets below \<open>2^63\<close>.

  \<^bold>\<open>Threads.\<close> \<open>Rwlock\<close> interleaves the code of the lock itself, \<open>Store_Threads\<close> the calls of the block store
  between lock operations, \<open>Worker_Threads\<close> the threads that make them, \<open>Node\<close> those with the assign thread, \<open>Datanode\<close> the start of the threads. In the other
  theories a call is atomic: what the threads share besides the store is the pipes between them, which carry whole pointers.

  \<^bold>\<open>Not modelled.\<close> In \<open>Store_Threads\<close> one call of the database, of the journal or of a data file is one piece;
  Berkeley DB and the mutex of the journal make them so, they are not split further. The disk counters of \<open>io_stats\<close> are modelled in \<open>Iolayer\<close> only; the network counters
  are carried through the threads. The alternatives of the allocator that no build selects, the event loops
  (libev, acoro under \<^verbatim>\<open>src/vendor\<close>), the text of log messages, the reading of the answer in
  \<open>execute_one_slave\<close> of the master, where the source breaks off, and \<^verbatim>\<open>master_info.h\<close>, which only declares
  structures nothing uses, are left out. \<open>Log\<close> always has memory for its message. The sizes in the class table of \<open>Slab\<close> are
  natural numbers, which is exact for the factor 1.125 the program passes to \<open>slab_init\<close>. In \<open>Node\<close> a call of the assign thread's handler is one step, and runs are not followed beyond
  \<open>power halt\<close>, which is the subject of \<open>Assign_Thread\<close>.
\<close>

section \<open>The server as a whole\<close>

lemma set_get_served:
  assumes db: "berkeley_db api view good" and env: "full_env env" and io: "good_io io"
    and inv: "storage_inv view good (g_storage st)" "room 2 (g_storage st)" "length d \<le> largest_block (g_storage st)"
    and ae: "pipe_write_ok ae" "\<forall>n. alloc_ok ae n"
    and t: "do_accept_connection fd1 True = Some t1" "do_accept_connection fd2 True = Some t2"
    and k: "word_chars k" "CR \<notin> set k" "length k < MAX_KEY_SIZE" and fe: "f < 2 ^ 31" "e < 2 ^ 31"
    and line: "line = set_line (str ''set'') k f e (length d)" "length line < MAX_QUERY_HEADER_SIZE"
      "length line + length dh \<le> MAX_QUERY_HEADER_SIZE"
    and cut: "dh @ concat cs = d @ [CR, LF]" "[] \<notin> set cs"
  shows "\<exists>a w1 st1 b w2 st2 io' s'.
    run_events api env ae ([RdData (line @ dh)] # map (\<lambda>c. [RdData c]) cs) [] t1 st = Done (Handed a w1, st1) \<and>
    run_events api env ae [[RdData (key_line (str ''get'') k)]] [] t2 st1 = Done (Handed b w2, st2) \<and>
    serve_all api env io tid [a, b] (a_io st2) (g_storage st2) =
      Some ([str ''STORED'' @ [CR, LF], value_line k (length d) @ d @ [CR, LF]], io', s')"
proof -
  have "tables_ok (g_storage st)" using inv(1) by (simp add: storage_inv_def)
  then have "largest_block (g_storage st) \<le> 2 ^ 26"
    using block_size_bound [of "g_storage st" "block_type_count (g_storage st) - 1"] by (simp add: largest_block_def tables_ok_def)
  then have n: "length d < 2 ^ 62" using inv(3) by simp
  obtain a w1 st1 where a: "run_events api env ae ([RdData (line @ dh)] # map (\<lambda>c. [RdData c]) cs) [] t1 st = Done (Handed a w1, st1)"
      "asks (CSet k d) a" "g_storage st1 = g_storage st"
    using set_arrives [OF t(1) _ k fe n line cut ae ae(1), where api = api and env = env and st = st] by (auto simp: strcaseeq_def)
  have "length (key_line (str ''get'') k) < MAX_QUERY_HEADER_SIZE" using k(3) by (simp add: key_line_def protocol_consts)
  then obtain b w2 st2 where b: "run_events api env ae [[RdData (key_line (str ''get'') k)]] [] t2 st1 = Done (Handed b w2, st2)"
      "asks (CGet k) b" "g_storage st2 = g_storage st"
    using key_arrives [OF t(2) _ k _ ae(1) ae(1), where cmd = "str ''get''" and r = "CGet k" and api = api and env = env and st = st1] a(3) by (auto simp: strcaseeq_def)
  have "block_setup api view good env" using db env by (simp add: block_setup_def block_setup_axioms_def)
  from block_setup.serve_run [OF this, of "[CSet k d, CGet k]" "[a, b]" "g_storage st" "largest_block (g_storage st)" io tid "a_io st2"]
  obtain io' s' where "serve_all api env io tid [a, b] (a_io st2) (g_storage st) =
      Some (fst (answers [CSet k d, CGet k] (stored view (g_storage st))), io', s')"
    using inv io a(2) b(2) by (auto simp: numeral_2_eq_2 simp del: serve_all.simps)
  then show ?thesis using a(1) b(1,3) by auto
qed

text \<open>
  A client that sets a value gets it back. One connection sends a set request, its data cut
  into reads in any way; another then asks for the key. Both requests reach a worker; the
  workers answer \<open>STORED\<close>, and then the value line with the length, the very bytes that were
  set, and a line end.
\<close>

theorem set_then_get:
  assumes db: "berkeley_db api view good" and env: "full_env env" and io: "good_io io"
    and inv: "storage_inv view good (g_storage st)" "room 2 (g_storage st)" "length d \<le> largest_block (g_storage st)"
    and ae: "pipe_write_ok ae" "\<forall>n. alloc_ok ae n"
    and t: "do_accept_connection fd1 True = Some t1" "do_accept_connection fd2 True = Some t2"
    and k: "word_chars k" "CR \<notin> set k" "length k < MAX_KEY_SIZE" and fe: "f < 2 ^ 31" "e < 2 ^ 31"
    and line: "line = set_line (str ''set'') k f e (length d)" "length line < MAX_QUERY_HEADER_SIZE"
      "length line + length dh \<le> MAX_QUERY_HEADER_SIZE"
    and cut: "dh @ concat cs = d @ [CR, LF]" "[] \<notin> set cs"
  shows "\<exists>a w1 st1 b w2 st2 io' s'.
    run_events api env ae ([RdData (line @ dh)] # map (\<lambda>c. [RdData c]) cs) [] t1 st = Done (Handed a w1, st1) \<and>
    run_events api env ae [[RdData (key_line (str ''get'') k)]] [] t2 st1 = Done (Handed b w2, st2) \<and>
    serve_all api env io tid [a, b] (a_io st2) (g_storage st2) =
      Some ([str ''STORED'' @ [CR, LF], value_line k (length d) @ d @ [CR, LF]], io', s')"
  by (rule set_get_served [OF db env io inv ae t k fe line cut])

theorem set_then_get_witness:
  "\<exists>st a w1 st1 b w2 st2 io' s'.
    run_events mem_db good_env good_assign
      ([RdData (set_line (str ''set'') (str ''k'') 0 0 (length [7, 0, 9 :: u8]) @ [7])] # map (\<lambda>c. [RdData c]) [[0, 9], [CR, LF]]) []
      new_task st = Done (Handed a w1, st1) \<and>
    run_events mem_db good_env good_assign [[RdData (key_line (str ''get'') (str ''k''))]] [] new_task st1 =
      Done (Handed b w2, st2) \<and>
    serve_all mem_db good_env good_sock 0 [a, b] (a_io st2) (g_storage st2) =
      Some ([str ''STORED'' @ [CR, LF], value_line (str ''k'') (length [7, 0, 9 :: u8]) @ [7, 0, 9] @ [CR, LF]], io', s')"
proof (rule one_value_store)
  fix s :: "(bytes \<times> bytes) list storage"
  assume s: "storage_inv map_of (\<lambda>d. True) s" "largest_block s = 1024" "room 999 s"
  let ?st = "start_assign s" and ?d = "[7, 0, 9 :: u8]"
  have h: "storage_inv map_of (\<lambda>d. True) (g_storage ?st)" "room 2 (g_storage ?st)" "length ?d \<le> largest_block (g_storage ?st)"
    using s room_mono [of 997 2 s] by simp_all
  have ae: "pipe_write_ok good_assign" "\<forall>n. alloc_ok good_assign n" by (simp_all add: good_assign_def)
  have k: "word_chars (str ''k'')" "CR \<notin> set (str ''k'')" "length (str ''k'') < MAX_KEY_SIZE"
    by (simp_all add: word_chars_def char_defs protocol_consts)
  have l: "length (set_line (str ''set'') (str ''k'') 0 0 (length ?d)) < MAX_QUERY_HEADER_SIZE"
    "length (set_line (str ''set'') (str ''k'') 0 0 (length ?d)) + length [7 :: u8] \<le> MAX_QUERY_HEADER_SIZE"
    by (simp_all add: set_line_def decimal.simps protocol_consts)
  have c: "[7] @ concat [[0, 9], [CR, LF]] = ?d @ [CR, LF]" "[] \<notin> set [[0, 9], [CR, LF]]" by simp_all
  have z: "(0 :: nat) < 2 ^ 31" by simp
  from set_then_get [OF mem.berkeley_db_axioms full_good_env good_sock h ae new_task_accepted new_task_accepted k z z refl l c, of 0]
  show ?thesis by blast
qed

text \<open>
  C3. The same from the very start: a node that was initialised in an empty directory, with every
  system call succeeding, stores a value of up to 16 MB, its line in the first read and its data cut anywhere, and returns it.
\<close>

theorem fresh_server_serves:
  assumes db: "berkeley_db api view good" and env: "full_env env" and io: "good_io io" and sys: "fresh_system b be"
    and b: "good (dbp b)" "view (dbp b) = (\<lambda>_. None)" and g: "\<not> inited_global_vars (block_storage g)"
    and d: "length d \<le> 16 * 1024 * 1024"
    and ae: "pipe_write_ok ae" "\<forall>n. alloc_ok ae n"
    and t: "do_accept_connection fd1 True = Some t1" "do_accept_connection fd2 True = Some t2"
    and k: "word_chars k" "CR \<notin> set k" "length k < MAX_KEY_SIZE" and fe: "f < 2 ^ 31" "e < 2 ^ 31"
    and line: "line = set_line (str ''set'') k f e (length d)" "length line < MAX_QUERY_HEADER_SIZE"
      "length line + length dh \<le> MAX_QUERY_HEADER_SIZE"
    and cut: "dh @ concat cs = d @ [CR, LF]" "[] \<notin> set cs"
  shows "\<exists>g' a w1 st1 b w2 st2 io' s'. init_datanode_vars env be g = Some (RET_SUCCESS, g') \<and>
    run_events api env ae ([RdData (line @ dh)] # map (\<lambda>c. [RdData c]) cs) [] t1 (start_assign (block_storage g')) =
      Done (Handed a w1, st1) \<and>
    run_events api env ae [[RdData (key_line (str ''get'') k)]] [] t2 st1 = Done (Handed b w2, st2) \<and>
    serve_all api env io tid [a, b] (a_io st2) (g_storage st2) =
      Some ([str ''STORED'' @ [CR, LF], value_line k (length d) @ d @ [CR, LF]], io', s')"
proof -
  obtain g' where g': "init_datanode_vars env be g = Some (RET_SUCCESS, g')" "storage_inv view good (block_storage g')"
      "largest_block (block_storage g') = 16 * 1024 * 1024" "room (2 ^ 36) (block_storage g')"
    using node_starts [where good = good and view = view, OF env sys b g] by blast
  have "room 2 (block_storage g')" using room_mono [of "2 ^ 36 - 2" 2 "block_storage g'"] g'(4) by simp
  then have "storage_inv view good (g_storage (start_assign (block_storage g')))" "room 2 (g_storage (start_assign (block_storage g')))"
    "length d \<le> largest_block (g_storage (start_assign (block_storage g')))" using g'(2,3) d by simp_all
  from set_get_served [OF db env io this ae t k fe line cut, of tid] g'(1) show ?thesis by blast
qed

theorem fresh_server_serves_witness:
  "\<exists>g' a w1 st1 b w2 st2 io' s'. init_datanode_vars good_env sample_system sample_vars = Some (RET_SUCCESS, g') \<and>
    run_events mem_db good_env good_assign
      ([RdData (set_line (str ''set'') (str ''k'') 0 0 (length [7, 0, 9 :: u8]) @ [7])] # map (\<lambda>c. [RdData c]) [[0, 9], [CR, LF]]) []
      new_task (start_assign (block_storage g')) = Done (Handed a w1, st1) \<and>
    run_events mem_db good_env good_assign [[RdData (key_line (str ''get'') (str ''k''))]] [] new_task st1 =
      Done (Handed b w2, st2) \<and>
    serve_all mem_db good_env good_sock 0 [a, b] (a_io st2) (g_storage st2) =
      Some ([str ''STORED'' @ [CR, LF], value_line (str ''k'') (length [7, 0, 9 :: u8]) @ [7, 0, 9] @ [CR, LF]], io', s')"
proof -
  let ?d = "[7, 0, 9 :: u8]"
  have ae: "pipe_write_ok good_assign" "\<forall>n. alloc_ok good_assign n" by (simp_all add: good_assign_def)
  have k: "word_chars (str ''k'')" "CR \<notin> set (str ''k'')" "length (str ''k'') < MAX_KEY_SIZE"
    by (simp_all add: word_chars_def char_defs protocol_consts)
  have l: "length (set_line (str ''set'') (str ''k'') 0 0 (length ?d)) < MAX_QUERY_HEADER_SIZE"
    "length (set_line (str ''set'') (str ''k'') 0 0 (length ?d)) + length [7 :: u8] \<le> MAX_QUERY_HEADER_SIZE"
    by (simp_all add: set_line_def decimal.simps protocol_consts)
  have c: "[7] @ concat [[0, 9], [CR, LF]] = ?d @ [CR, LF]" "[] \<notin> set [[0, 9], [CR, LF]]" by simp_all
  have z: "(0 :: nat) < 2 ^ 31" by simp
  have v: "map_of (dbp fresh_index) = (\<lambda>_. None)" by simp
  have d: "length ?d \<le> 16 * 1024 * 1024" by simp
  from fresh_server_serves [where good = "\<lambda>d. True" and view = map_of, OF mem.berkeley_db_axioms full_good_env good_sock sample_fresh(1) TrueI v sample_fresh(2) d ae
      new_task_accepted new_task_accepted k z z refl l c, of 0]
  show ?thesis .
qed

end
